(* ===== verification/CivilTime.thy ===== *)
theory CivilTime
  imports Main "HOL-Library.Signed_Division"
begin

section \<open>Calendar conversions (lib/musl/time)\<close>

text \<open>
  The conversion between seconds since the epoch and broken-down time: \<open>secs_to_tm\<close>, \<open>year_to_secs\<close>,
  \<open>month_to_secs\<close> and \<open>tm_to_secs\<close> are the functions of the same name with two leading underscores,
  and \<open>gmtime_r\<close>, \<open>timegm\<close> their callers in \<^verbatim>\<open>localtime_r.c\<close> and \<^verbatim>\<open>mktime.c\<close>.

  \<^item> \<open>long long\<close> and \<open>int\<close> values are HOL integers. Division truncates towards zero (\<open>sdiv\<close>, \<open>smod\<close>),
    as in C; \<open>>> 2\<close> and \<open>& 3\<close> on a two's complement \<open>int\<close> are the flooring \<open>div 4\<close> and \<open>mod 4\<close>.
    The code's own guard on \<open>t\<close> keeps every intermediate value inside its C type.
  \<^item> Searching the table of month lengths may run past its end in principle: \<open>None\<close> is that read.
    \<open>secs_to_tm_total\<close> shows that it never happens.
  \<^item> The reference is a day count of the proleptic Gregorian calendar, \<open>days_before_year\<close>, and a
    well-formedness predicate \<open>civil_ok\<close> on broken-down times. The lemmas show that the code computes
    the calendar and that the two directions are inverse to each other.
\<close>

subsection \<open>The code\<close>

record tm =
  tm_sec :: int
  tm_min :: int
  tm_hour :: int
  tm_mday :: int
  tm_mon :: int
  tm_year :: int
  tm_wday :: int
  tm_yday :: int
  tm_isdst :: int

definition INT_MAX :: int where "INT_MAX = 2147483647"
definition INT_MIN :: int where "INT_MIN = - 2147483648"

definition LEAPOCH :: int where "LEAPOCH = 946684800 + 86400 * (31 + 29)"
definition DAYS_PER_400Y :: int where "DAYS_PER_400Y = 365 * 400 + 97"
definition DAYS_PER_100Y :: int where "DAYS_PER_100Y = 365 * 100 + 24"
definition DAYS_PER_4Y :: int where "DAYS_PER_4Y = 365 * 4 + 1"

definition days_in_month :: "int list" where
  "days_in_month = [31, 30, 31, 30, 31, 31, 30, 31, 30, 31, 31, 29]"

definition time_rejected :: "int \<Rightarrow> bool" where
  "time_rejected t = (t < INT_MIN * 31622400 \<or> t > INT_MAX * 31622400)"

primrec month_search :: "int list \<Rightarrow> int \<Rightarrow> int \<Rightarrow> (int \<times> int) option" where
  "month_search [] months remdays = None"
| "month_search (d # ds) months remdays =
     (if d \<le> remdays then month_search ds (months + 1) (remdays - d) else Some (months, remdays))"

definition secs_to_tm :: "int \<Rightarrow> tm \<Rightarrow> (int \<times> tm) option" where
  "secs_to_tm t tm =
     (if time_rejected t then Some (- 1, tm)
      else
        let secs = t - LEAPOCH;
            days = secs sdiv 86400;
            remsecs = secs smod 86400;
            (remsecs, days) = (if remsecs < 0 then (remsecs + 86400, days - 1) else (remsecs, days));
            wday = (3 + days) smod 7;
            wday = (if wday < 0 then wday + 7 else wday);
            qc_cycles = days sdiv DAYS_PER_400Y;
            remdays = days smod DAYS_PER_400Y;
            (remdays, qc_cycles) =
              (if remdays < 0 then (remdays + DAYS_PER_400Y, qc_cycles - 1) else (remdays, qc_cycles));
            c_cycles = remdays sdiv DAYS_PER_100Y;
            c_cycles = (if c_cycles = 4 then c_cycles - 1 else c_cycles);
            remdays = remdays - c_cycles * DAYS_PER_100Y;
            q_cycles = remdays sdiv DAYS_PER_4Y;
            q_cycles = (if q_cycles = 25 then q_cycles - 1 else q_cycles);
            remdays = remdays - q_cycles * DAYS_PER_4Y;
            remyears = remdays sdiv 365;
            remyears = (if remyears = 4 then remyears - 1 else remyears);
            remdays = remdays - remyears * 365;
            leap = (if remyears = 0 \<and> (q_cycles \<noteq> 0 \<or> c_cycles = 0) then 1 else 0);
            yday = remdays + 31 + 28 + leap;
            yday = (if yday \<ge> 365 + leap then yday - (365 + leap) else yday);
            years = remyears + 4 * q_cycles + 100 * c_cycles + 400 * qc_cycles
        in (case month_search days_in_month 0 remdays of
              None \<Rightarrow> None
            | Some (months, remdays) \<Rightarrow>
                let (months, years) = (if months \<ge> 10 then (months - 12, years + 1) else (months, years))
                in if years + 100 > INT_MAX \<or> years + 100 < INT_MIN then Some (- 1, tm)
                   else Some (0, tm\<lparr>tm_year := years + 100, tm_mon := months + 2, tm_mday := remdays + 1,
                     tm_wday := wday, tm_yday := yday, tm_hour := remsecs sdiv 3600,
                     tm_min := remsecs sdiv 60 smod 60, tm_sec := remsecs smod 60\<rparr>)))"

definition secs_through_month :: "int list" where
  "secs_through_month = [0, 31 * 86400, 59 * 86400, 90 * 86400, 120 * 86400, 151 * 86400,
     181 * 86400, 212 * 86400, 243 * 86400, 273 * 86400, 304 * 86400, 334 * 86400]"

definition month_to_secs :: "int \<Rightarrow> bool \<Rightarrow> int" where
  "month_to_secs month is_leap =
     (let t = secs_through_month ! nat month in if is_leap \<and> month \<ge> 2 then t + 86400 else t)"

definition year_to_secs :: "int \<Rightarrow> int \<times> bool" where
  "year_to_secs year =
     (if (year - 2) mod 2 ^ 64 \<le> 136 then
        let y = year;
            leaps = (y - 68) div 4;
            (leaps, is_leap) = (if (y - 68) mod 4 = 0 then (leaps - 1, True) else (leaps, False))
        in (31536000 * (y - 70) + 86400 * leaps, is_leap)
      else
        let cycles = (year - 100) sdiv 400;
            rem = (year - 100) smod 400;
            (cycles, rem) = (if rem < 0 then (cycles - 1, rem + 400) else (cycles, rem));
            (is_leap, centuries, leaps) =
              (if rem = 0 then (True, 0, 0)
               else
                 let (centuries, rem) =
                       (if rem \<ge> 200 then (if rem \<ge> 300 then (3, rem - 300) else (2, rem - 200))
                        else (if rem \<ge> 100 then (1, rem - 100) else (0, rem)))
                 in if rem = 0 then (False, centuries, 0)
                    else (rem mod 4 = 0, centuries, rem div 4));
            leaps = leaps + 97 * cycles + 24 * centuries - (if is_leap then 1 else 0)
        in ((year - 100) * 31536000 + leaps * 86400 + 946684800 + 86400, is_leap))"

definition tm_to_secs :: "tm \<Rightarrow> int" where
  "tm_to_secs tm =
     (let year = tm_year tm;
          month = tm_mon tm;
          (month, year) =
            (if month \<ge> 12 \<or> month < 0 then
               let adj = month sdiv 12; month = month smod 12;
                   (adj, month) = (if month < 0 then (adj - 1, month + 12) else (adj, month))
               in (month, year + adj)
             else (month, year));
          (t, is_leap) = year_to_secs year;
          t = t + month_to_secs month is_leap;
          t = t + 86400 * (tm_mday tm - 1);
          t = t + 3600 * tm_hour tm;
          t = t + 60 * tm_min tm
      in t + tm_sec tm)"

definition gmtime_r :: "int \<Rightarrow> tm \<Rightarrow> (bool \<times> tm) option" where
  "gmtime_r t tm =
     (if time_rejected t then Some (False, tm)
      else case secs_to_tm t (tm\<lparr>tm_isdst := 0\<rparr>) of
             None \<Rightarrow> None
           | Some (rc, tm) \<Rightarrow> Some (\<not> rc < 0, tm))"

definition timegm :: "tm \<Rightarrow> int" where
  "timegm tm = tm_to_secs tm"

subsection \<open>The calendar\<close>

text \<open>
  Years are counted from 1900, as \<open>tm_year\<close> does. \<open>days_before_year y\<close> is the number of days from
  1 January 1970 to 1 January of year \<open>y\<close>, \<open>days_before_month\<close> those from 1 January to the first of
  the month.
\<close>

definition leap_year :: "int \<Rightarrow> bool" where
  "leap_year y = ((y + 1900) mod 4 = 0 \<and> ((y + 1900) mod 100 \<noteq> 0 \<or> (y + 1900) mod 400 = 0))"

definition year_days :: "int \<Rightarrow> int" where
  "year_days y = (if leap_year y then 366 else 365)"

definition days_before_year :: "int \<Rightarrow> int" where
  "days_before_year y =
     365 * (y - 70) + ((y + 1899) div 4 - (y + 1899) div 100 + (y + 1899) div 400) - 477"

definition month_days :: "int \<Rightarrow> int \<Rightarrow> int" where
  "month_days y m =
     (if m = 1 then (if leap_year y then 29 else 28) else if m \<in> {3, 5, 8, 10} then 30 else 31)"

primrec days_before_month_nat :: "int \<Rightarrow> nat \<Rightarrow> int" where
  "days_before_month_nat y 0 = 0"
| "days_before_month_nat y (Suc m) = days_before_month_nat y m + month_days y (int m)"

definition days_before_month :: "int \<Rightarrow> int \<Rightarrow> int" where
  "days_before_month y m = days_before_month_nat y (nat m)"

definition civil_day :: "int \<Rightarrow> int \<Rightarrow> int \<Rightarrow> int" where
  "civil_day y m d = days_before_year y + days_before_month y m + (d - 1)"

definition civil_secs :: "tm \<Rightarrow> int" where
  "civil_secs tm = 86400 * civil_day (tm_year tm) (tm_mon tm) (tm_mday tm)
     + 3600 * tm_hour tm + 60 * tm_min tm + tm_sec tm"

definition civil_ok :: "tm \<Rightarrow> bool" where
  "civil_ok tm =
     (0 \<le> tm_sec tm \<and> tm_sec tm < 60 \<and> 0 \<le> tm_min tm \<and> tm_min tm < 60 \<and>
      0 \<le> tm_hour tm \<and> tm_hour tm < 24 \<and> 0 \<le> tm_mon tm \<and> tm_mon tm < 12 \<and>
      1 \<le> tm_mday tm \<and> tm_mday tm \<le> month_days (tm_year tm) (tm_mon tm) \<and>
      tm_yday tm = days_before_month (tm_year tm) (tm_mon tm) + (tm_mday tm - 1) \<and>
      tm_wday tm = (civil_day (tm_year tm) (tm_mon tm) (tm_mday tm) + 4) mod 7 \<and>
      INT_MIN \<le> tm_year tm \<and> tm_year tm \<le> INT_MAX)"

subsection \<open>Truncating division\<close>

lemma sdiv_nonneg: "0 \<le> a \<Longrightarrow> 0 < b \<Longrightarrow> a sdiv b = a div b" for a b :: int
  by (simp add: signed_divide_int_def sgn_if)

lemma smod_nonneg: "0 \<le> a \<Longrightarrow> 0 < b \<Longrightarrow> a smod b = a mod b" for a b :: int
  by (simp add: signed_modulo_int_def sgn_if)

lemma trunc_neg: "a < 0 \<Longrightarrow> 0 < b \<Longrightarrow> a sdiv b = - ((- a) div b)" "a < 0 \<Longrightarrow> 0 < b \<Longrightarrow> a smod b = - ((- a) mod b)"
  for a b :: int
  by (simp_all add: signed_divide_int_def signed_modulo_int_def sgn_if)

lemma floor_neg:
  fixes a b :: int
  assumes "0 < b"
  shows "a mod b = (if (- a) mod b = 0 then 0 else b - (- a) mod b)"
    "a div b = (if (- a) mod b = 0 then - ((- a) div b) else - ((- a) div b) - 1)"
  using assms zmod_zminus1_eq_if [of "- a" b] zdiv_zminus1_eq_if [of b "- a"] by auto

lemma mod_neg_pos: "0 < b \<Longrightarrow> (0 < (- a) mod b) = ((- a) mod b \<noteq> 0)" for a b :: int
  using pos_mod_sign [of b "- a"] by linarith

lemma smod_fix: "0 < b \<Longrightarrow> (if a smod b < 0 then a smod b + b else a smod b) = a mod b" for a b :: int
proof (cases "a < 0")
  case True
  then show "0 < b \<Longrightarrow> ?thesis" using floor_neg(1) [of b a] mod_neg_pos [of b a] by (simp add: trunc_neg)
qed (simp add: smod_nonneg not_less)

lemma sdiv_fix: "0 < b \<Longrightarrow> (if a smod b < 0 then a sdiv b - 1 else a sdiv b) = a div b" for a b :: int
proof (cases "a < 0")
  case True
  then show "0 < b \<Longrightarrow> ?thesis" using floor_neg(2) [of b a] mod_neg_pos [of b a] by (simp add: trunc_neg)
qed (simp add: smod_nonneg sdiv_nonneg not_less)

lemma floor_fix:
  "0 < b \<Longrightarrow> (if a smod b < 0 then (a smod b + b, a sdiv b - 1) else (a smod b, a sdiv b)) = (a mod b, a div b)"
  "0 < b \<Longrightarrow> (if a smod b < 0 then (a sdiv b - 1, a smod b + b) else (a sdiv b, a smod b)) = (a div b, a mod b)"
  for a b :: int
  using smod_fix [of b a] sdiv_fix [of b a] by (auto split: if_splits)

subsection \<open>Searching the month\<close>

lemma month_search_Some:
  "month_search ds m r = Some (m', r') \<Longrightarrow>
     \<exists>k < length ds. m' = m + int k \<and> r' < ds ! k \<and> r = sum_list (take k ds) + r' \<and> (0 \<le> r \<longrightarrow> 0 \<le> r')"
proof (induction ds arbitrary: m r)
  case (Cons d ds)
  show ?case
  proof (cases "d \<le> r")
    case True
    with Cons.prems have "month_search ds (m + 1) (r - d) = Some (m', r')" by simp
    from Cons.IH [OF this] True obtain k where "k < length ds" "m' = m + 1 + int k" "r' < ds ! k"
      "r - d = sum_list (take k ds) + r'" "0 \<le> r - d \<longrightarrow> 0 \<le> r'" by blast
    with True show ?thesis by (intro exI [of _ "Suc k"]) auto
  next
    case False
    with Cons.prems show ?thesis by (intro exI [of _ 0]) auto
  qed
qed simp

lemma month_search_finds: "r < sum_list ds \<Longrightarrow> 0 \<le> r \<Longrightarrow> month_search ds m r \<noteq> None"
  by (induction ds arbitrary: m r) auto

subsection \<open>Splitting the days since 1 March 2000\<close>

lemma year_split:
  fixes r c q y d r1 r2 :: int
  assumes "0 \<le> r" "r < 146097"
    and "(if r div 36524 = 4 then r div 36524 - 1 else r div 36524) = c"
    and "r - c * 36524 = r1"
    and "(if r1 div 1461 = 25 then r1 div 1461 - 1 else r1 div 1461) = q"
    and "r1 - q * 1461 = r2"
    and "(if r2 div 365 = 4 then r2 div 365 - 1 else r2 div 365) = y"
    and "r2 - y * 365 = d"
  shows "0 \<le> r1" "0 \<le> r2" "0 \<le> c" "c \<le> 3" "0 \<le> q" "q \<le> 24" "0 \<le> y" "y \<le> 3" "0 \<le> d" "d \<le> 365"
    "d = 365 \<longrightarrow> y = 3 \<and> (q < 24 \<or> c = 3)" "r = 36524 * c + 1461 * q + 365 * y + d"
proof -
  have c: "0 \<le> c \<and> c \<le> 3 \<and> 0 \<le> r1 \<and> r1 \<le> 36524 \<and> (r1 = 36524 \<longrightarrow> c = 3)"
    using assms(1-4) by (auto split: if_splits)
  have q: "0 \<le> q \<and> q \<le> 24 \<and> 0 \<le> r2 \<and> r2 \<le> 1460 \<and> (r2 = 1460 \<longrightarrow> q < 24 \<or> r1 = 36524)"
    using c assms(5,6) by (auto split: if_splits)
  have y: "0 \<le> y \<and> y \<le> 3 \<and> 0 \<le> d \<and> d \<le> 365 \<and> (d = 365 \<longrightarrow> y = 3 \<and> r2 = 1460)"
    using q assms(7,8) by (auto split: if_splits)
  show "0 \<le> r1" "0 \<le> r2" "0 \<le> c" "c \<le> 3" "0 \<le> q" "q \<le> 24" "0 \<le> y" "y \<le> 3" "0 \<le> d" "d \<le> 365"
    using c q y by auto
  show "d = 365 \<longrightarrow> y = 3 \<and> (q < 24 \<or> c = 3)" using c q y by auto
  show "r = 36524 * c + 1461 * q + 365 * y + d" using assms(4,6,8) by linarith
qed

lemma secs_to_tm_steps:
  assumes nr: "\<not> time_rejected t"
    and D: "(t - 951868800) div 86400 = D" and R: "(t - 951868800) mod 86400 = R"
    and r: "D mod 146097 = r"
    and c: "(if r div 36524 = 4 then r div 36524 - 1 else r div 36524) = c"
    and r1: "r - c * 36524 = r1"
    and q: "(if r1 div 1461 = 25 then r1 div 1461 - 1 else r1 div 1461) = q"
    and r2: "r1 - q * 1461 = r2"
    and y: "(if r2 div 365 = 4 then r2 div 365 - 1 else r2 div 365) = y"
    and d: "r2 - y * 365 = d"
    and Y: "y + 4 * q + 100 * c + 400 * (D div 146097) = Y"
    and l: "(if y = 0 \<and> (q \<noteq> 0 \<or> c = 0) then 1 else 0) = l"
  shows "secs_to_tm t tm = (case month_search days_in_month 0 d of
      None \<Rightarrow> None
    | Some (m, md) \<Rightarrow>
        let (mon, yr) = (if m \<ge> 10 then (m - 12, Y + 1) else (m, Y))
        in if yr + 100 > INT_MAX \<or> yr + 100 < INT_MIN then Some (- 1, tm)
           else Some (0, tm\<lparr>tm_year := yr + 100, tm_mon := mon + 2, tm_mday := md + 1,
             tm_wday := (3 + D) mod 7,
             tm_yday := (if d + 31 + 28 + l \<ge> 365 + l then d + 31 + 28 + l - (365 + l) else d + 31 + 28 + l),
             tm_hour := R div 3600, tm_min := R div 60 mod 60, tm_sec := R mod 60\<rparr>))"
proof -
  have R0: "0 \<le> R" "0 \<le> r" "r < 146097" "0 \<le> R div 60" using R r by auto
  note ys = year_split [OF R0(2,3) c r1 q r2 y d]
  note dv = sdiv_nonneg [OF R0(2)] sdiv_nonneg [OF ys(1)] sdiv_nonneg [OF ys(2)] sdiv_nonneg [OF R0(1)]
    smod_nonneg [OF R0(1)] smod_nonneg [OF R0(4)]
  have cs: "LEAPOCH = 951868800" "DAYS_PER_400Y = 146097" "DAYS_PER_100Y = 36524" "DAYS_PER_4Y = 1461"
    by (simp_all add: LEAPOCH_def DAYS_PER_400Y_def DAYS_PER_100Y_def DAYS_PER_4Y_def)
  show ?thesis
    unfolding secs_to_tm_def cs
    by (simp only: nr if_False Let_def floor_fix smod_fix prod.case zero_less_numeral arith_simps D R r dv c r1 q r2 y d Y l)
qed

subsection \<open>Years and months\<close>

lemma int_upto_12: "0 \<le> m \<Longrightarrow> m < 12 \<Longrightarrow> m = 0 \<or> m = 1 \<or> m = 2 \<or> m = 3 \<or> m = 4 \<or> m = 5 \<or> m = 6 \<or>
    m = 7 \<or> m = 8 \<or> m = 9 \<or> m = 10 \<or> m = 11" for m :: int
  by arith

lemma days_before_month_table [simp]:
  "days_before_month y 0 = 0" "days_before_month y 1 = 31"
  "days_before_month y 2 = (if leap_year y then 60 else 59)" "days_before_month y 3 = (if leap_year y then 91 else 90)"
  "days_before_month y 4 = (if leap_year y then 121 else 120)" "days_before_month y 5 = (if leap_year y then 152 else 151)"
  "days_before_month y 6 = (if leap_year y then 182 else 181)" "days_before_month y 7 = (if leap_year y then 213 else 212)"
  "days_before_month y 8 = (if leap_year y then 244 else 243)" "days_before_month y 9 = (if leap_year y then 274 else 273)"
  "days_before_month y 10 = (if leap_year y then 305 else 304)" "days_before_month y 11 = (if leap_year y then 335 else 334)"
  by (simp_all add: days_before_month_def month_days_def eval_nat_numeral)

lemma month_to_secs_ok:
  "0 \<le> m \<Longrightarrow> m < 12 \<Longrightarrow> month_to_secs m (leap_year y) = 86400 * days_before_month y m"
  by (drule (1) int_upto_12, elim disjE) (simp_all add: month_to_secs_def secs_through_month_def)

lemma div_add_one: "0 < n \<Longrightarrow> (x + 1) div n = x div n + (if (x + 1) mod n = 0 then 1 else 0)" for x n :: int
proof -
  assume n: "0 < n"
  define q r where "q = x div n" and "r = x mod n"
  have x: "x = n * q + r" and r: "0 \<le> r" "r < n" using n by (simp_all add: q_def r_def)
  show ?thesis
  proof (cases "r = n - 1")
    case True
    then have "x + 1 = n * (q + 1)" using x by (simp add: algebra_simps)
    then show ?thesis using n by (simp add: q_def [symmetric])
  next
    case False
    then have e: "x + 1 = (r + 1) + n * q" and "0 \<le> r + 1" "r + 1 < n" using x r by simp_all
    then have "(r + 1) div n = 0" "(r + 1) mod n = r + 1" by simp_all
    then have "(x + 1) div n = q" "(x + 1) mod n = r + 1" unfolding e using n by simp_all
    then show ?thesis using r by (simp add: q_def [symmetric])
  qed
qed

lemma mod_cancel_0: "x mod n = 0 \<Longrightarrow> m dvd n \<Longrightarrow> x mod m = 0" for x m n :: int
  using mod_mod_cancel [of m n x] by simp

lemma leap_mod: "x mod 100 = 0 \<Longrightarrow> x mod 4 = 0" "x mod 400 = 0 \<Longrightarrow> x mod 100 = 0" for x :: int
  by (erule mod_cancel_0, simp)+

lemma leap_sum:
  "(Q \<longrightarrow> P) \<Longrightarrow> (R \<longrightarrow> Q) \<Longrightarrow>
     (a + (if P then 1 else 0)) - (b + (if Q then 1 else 0)) + (c + (if R then 1 else 0)) =
     a - b + c + (if P \<and> (\<not> Q \<or> R) then 1 else 0)" for a b c :: int
  by (cases P; cases Q; cases R; simp)

lemma days_before_year_Suc: "days_before_year (y + 1) = days_before_year y + year_days y"
proof -
  have e: "y + 1 + 1899 = y + 1900" "y + 1899 + 1 = y + 1900" by simp_all
  note d = div_add_one [of _ "y + 1899", unfolded e]
  have "(y + 1900) div 4 - (y + 1900) div 100 + (y + 1900) div 400 =
      (y + 1899) div 4 - (y + 1899) div 100 + (y + 1899) div 400 + (if leap_year y then 1 else 0)"
    unfolding leap_year_def d [of 4, simplified] d [of 100, simplified] d [of 400, simplified]
    by (rule leap_sum) (rule impI, erule leap_mod)+
  then show ?thesis unfolding days_before_year_def year_days_def e by simp
qed

lemma year_to_secs_short:
  assumes "2 \<le> y" "y \<le> 138"
  shows "year_to_secs y = (86400 * days_before_year y, leap_year y)"
proof -
  have c: "(y - 2) mod 18446744073709551616 = y - 2" using assms by simp
  have q: "(y + 1900) div 100 = (if y \<ge> 100 then 20 else 19)" "(y + 1900) div 400 = (if y \<ge> 100 then 5 else 4)"
    "(y + 1899) div 100 = (if y > 100 then 20 else 19)" "(y + 1899) div 400 = (if y > 100 then 5 else 4)"
    using assms by auto
  have m: "(y + 1900) mod 4 = (y - 68) mod 4" "((y + 1900) mod 100 = 0) = (y = 100)" "((y + 1900) mod 400 = 0) = (y = 100)"
    subgoal using mod_mult_self1 [of "y - 68" 492 4] by (simp add: algebra_simps)
    subgoal using assms unfolding minus_div_mult_eq_mod [symmetric] q by auto
    subgoal using assms unfolding minus_div_mult_eq_mod [symmetric] q by auto
    done
  have l: "leap_year y = ((y - 68) mod 4 = 0)"
    unfolding leap_year_def m by auto
  have f: "(y + 1899) div 4 = (y - 69) div 4 + 492" using div_mult_self1 [of 4 "y - 69" 492] by (simp add: algebra_simps)
  have g: "(y - 68) div 4 = (y - 69) div 4 + (if (y - 68) mod 4 = 0 then 1 else 0)"
    using div_add_one [of 4 "y - 69"] by simp
  have d: "days_before_year y = 365 * (y - 70) + (y - 68) div 4 - (if (y - 68) mod 4 = 0 then 1 else 0)"
    unfolding days_before_year_def q f g by simp
  show ?thesis
    unfolding year_to_secs_def l d using assms by (cases "(y - 68) mod 4 = 0"; simp add: c)
qed

lemma year_to_secs_general:
  assumes "(y - 2) mod 2 ^ 64 > 136"
  shows "year_to_secs y = (86400 * days_before_year y, leap_year y)"
proof -
  define k r where "k = (y - 100) div 400" and "r = (y - 100) mod 400"
  have y: "y = 400 * k + r + 100" and r: "0 \<le> r" "r < 400" by (simp_all add: k_def r_def)
  define c where "c = (if r \<ge> 300 then 3 else if r \<ge> 200 then 2 else if r \<ge> 100 then 1 else 0 :: int)"
  define s where "s = r - 100 * c"
  have s: "0 \<le> s" "s < 100" "0 \<le> c" "c \<le> 3" and rc: "r = 100 * c + s" using r by (auto simp: c_def s_def)
  have m: "(y + 1900) mod 4 = s mod 4" "(y + 1900) mod 100 = s" "(y + 1900) mod 400 = 100 * c + s"
  proof -
    have eq: "y + 1900 = s + 4 * (100 * k + 25 * c + 500)" "y + 1900 = s + 100 * (4 * k + c + 20)"
      "y + 1900 = 100 * c + s + 400 * (k + 5)" unfolding y rc by simp_all
    show "(y + 1900) mod 4 = s mod 4" unfolding eq(1) by (rule mod_mult_self2)
    show "(y + 1900) mod 100 = s" unfolding eq(2) mod_mult_self2 using s by simp
    show "(y + 1900) mod 400 = 100 * c + s" unfolding eq(3) mod_mult_self2 using s by simp
  qed
  have l: "leap_year y = (s mod 4 = 0 \<and> (s \<noteq> 0 \<or> c = 0))"
    using s unfolding leap_year_def m by auto
  have d: "(y + 1899) div 4 = (s + 3) div 4 + (100 * k + 25 * c + 499)"
    "(y + 1899) div 100 = (s + 99) div 100 + (4 * k + c + 19)"
    "(y + 1899) div 400 = (100 * c + s + 399) div 400 + (k + 4)"
  proof -
    have eq: "y + 1899 = (s + 3) + 4 * (100 * k + 25 * c + 499)" "y + 1899 = (s + 99) + 100 * (4 * k + c + 19)"
      "y + 1899 = (100 * c + s + 399) + 400 * (k + 4)" unfolding y rc by simp_all
    show "(y + 1899) div 4 = (s + 3) div 4 + (100 * k + 25 * c + 499)" unfolding eq(1) by (subst div_mult_self2) simp_all
    show "(y + 1899) div 100 = (s + 99) div 100 + (4 * k + c + 19)" unfolding eq(2) by (subst div_mult_self2) simp_all
    show "(y + 1899) div 400 = (100 * c + s + 399) div 400 + (k + 4)" unfolding eq(3) by (subst div_mult_self2) simp_all
  qed
  have e: "(s + 99) div 100 = (if s = 0 then 0 else 1)" "(s + 3) div 4 = s div 4 + (if s mod 4 = 0 then 0 else 1)"
    "(100 * c + s + 399) div 400 = (if c = 0 \<and> s = 0 then 0 else 1)"
    subgoal using s by auto
    subgoal by arith
    subgoal using s by auto
    done
  have cr: "(if r \<ge> 200 then (if r \<ge> 300 then (3, r - 300) else (2, r - 200))
      else (if r \<ge> 100 then (1, r - 100) else (0, r))) = (c, s)"
    by (auto simp: s_def c_def)
  have r0: "(r = 0) = (s = 0 \<and> c = 0)" using s rc by auto
  have ng: "((y - 2) mod 2 ^ 64 \<le> 136) = False" using assms by (simp only: not_less [symmetric] simp_thms)
  have "year_to_secs y = ((y - 100) * 31536000 + ((if s = 0 then 0 else s div 4) + 97 * k + 24 * c
      - (if leap_year y then 1 else 0)) * 86400 + 946684800 + 86400, leap_year y)"
    unfolding year_to_secs_def l
    by (simp only: ng if_False floor_fix k_def [symmetric] r_def [symmetric] cr Let_def r0 prod.case zero_less_numeral)
      (cases "s = 0"; cases "c = 0"; cases "s mod 4 = 0"; simp)
  then show ?thesis unfolding days_before_year_def d e l
    by (cases "s = 0"; cases "c = 0"; cases "s mod 4 = 0"; simp)
qed

lemma year_to_secs_ok:
  assumes "\<bar>y\<bar> < 2 ^ 60"
  shows "year_to_secs y = (86400 * days_before_year y, leap_year y)"
proof (cases "(y - 2) mod 2 ^ 64 > 136")
  case False
  have "0 \<le> y - 2"
  proof (rule ccontr)
    assume "\<not> 0 \<le> y - 2"
    then have "(y - 2 + 2 ^ 64) mod 2 ^ 64 = y - 2 + 2 ^ 64" using assms by simp
    then have "(y - 2) mod 2 ^ 64 = y - 2 + 2 ^ 64" by (simp only: mod_add_self2)
    with False assms show False by simp
  qed
  moreover have "(y - 2) mod 2 ^ 64 = y - 2" using calculation assms by simp
  ultimately show ?thesis using False by (intro year_to_secs_short) simp_all
qed (rule year_to_secs_general)

subsection \<open>From seconds to the calendar\<close>

lemma march_year:
  assumes "Y = y + 4 * q + 100 * c + 400 * Q" "0 \<le> y" "y \<le> 3" "0 \<le> q" "q \<le> 24" "0 \<le> c" "c \<le> 3"
  shows "days_before_year (Y + 101) = 365 * Y + 97 * Q + 24 * c + q + 11323"
    "leap_year (Y + 100) = (y = 0 \<and> (q \<noteq> 0 \<or> c = 0))"
    "y = 3 \<Longrightarrow> q < 24 \<or> c = 3 \<Longrightarrow> leap_year (Y + 101)"
proof -
  have eq: "Y + 101 + 1899 = y + 4 * (q + 25 * c + 100 * Q + 500)"
    "Y + 101 + 1899 = (y + 4 * q) + 100 * (c + 4 * Q + 20)"
    "Y + 101 + 1899 = (y + 4 * q + 100 * c) + 400 * (Q + 5)" using assms(1) by simp_all
  have b: "0 \<le> y + 4 * q" "y + 4 * q < 100" "0 \<le> y + 4 * q + 100 * c" "y + 4 * q + 100 * c < 400" using assms by simp_all
  have z: "y div 4 = 0" "(y + 4 * q) div 100 = 0" "(y + 4 * q + 100 * c) div 400 = 0" using assms b by simp_all
  have d: "(Y + 101 + 1899) div 4 = q + 25 * c + 100 * Q + 500"
    "(Y + 101 + 1899) div 100 = c + 4 * Q + 20" "(Y + 101 + 1899) div 400 = Q + 5"
    subgoal unfolding eq(1) by (subst div_mult_self2) (simp_all add: z)
    subgoal unfolding eq(2) by (subst div_mult_self2) (simp_all add: z)
    subgoal unfolding eq(3) by (subst div_mult_self2) (simp_all add: z)
    done
  show "days_before_year (Y + 101) = 365 * Y + 97 * Q + 24 * c + q + 11323"
    unfolding days_before_year_def d by simp
  have e: "Y + 100 + 1900 = Y + 101 + 1899" by simp
  have m: "(Y + 101 + 1899) mod 4 = y" "(Y + 101 + 1899) mod 100 = y + 4 * q"
    "(Y + 101 + 1899) mod 400 = y + 4 * q + 100 * c"
    subgoal unfolding eq(1) mod_mult_self2 using assms by simp
    subgoal unfolding eq(2) mod_mult_self2 using b by simp
    subgoal unfolding eq(3) mod_mult_self2 using b by simp
    done
  show "leap_year (Y + 100) = (y = 0 \<and> (q \<noteq> 0 \<or> c = 0))"
    unfolding leap_year_def e m using assms by auto
  show "leap_year (Y + 101)" if "y = 3" "q < 24 \<or> c = 3"
  proof -
    have eq: "Y + 101 + 1900 = 4 * (q + 25 * c + 100 * Q + 501)"
      "Y + 101 + 1900 = (4 * q + 4) + 100 * (c + 4 * Q + 20)"
      "Y + 101 + 1900 = (4 * q + 4 + 100 * c) + 400 * (Q + 5)" using assms(1) that by simp_all
    have "(Y + 101 + 1900) mod 4 = 0" unfolding eq(1) by simp
    moreover have "(Y + 101 + 1900) mod 100 \<noteq> 0" if "q < 24"
      unfolding eq(2) mod_mult_self2 using that assms by simp
    moreover have "(Y + 101 + 1900) mod 400 = 0" if "q = 24" "c = 3"
      unfolding eq(3) mod_mult_self2 using that by simp
    ultimately show ?thesis unfolding leap_year_def using that assms by (cases "q < 24") auto
  qed
qed

lemma hms_sum: "3600 * (x div 3600) + 60 * (x div 60 mod 60) + x mod 60 = x" for x :: int
proof -
  have "x div 3600 = x div 60 div 60" using zdiv_zmult2_eq [of 60 x 60] by simp
  moreover have "3600 * a + 60 * b + c = x" if "60 * v + c = x" "60 * a + b = v" for a b c v using that by simp
  ultimately show ?thesis using mult_div_mod_eq [of 60 x] mult_div_mod_eq [of 60 "x div 60"] by metis
qed

lemma upto_12: "k < 12 \<Longrightarrow> k = 0 \<or> k = 1 \<or> k = 2 \<or> k = 3 \<or> k = 4 \<or> k = 5 \<or> k = 6 \<or>
    k = 7 \<or> k = 8 \<or> k = 9 \<or> k = 10 \<or> k = 11" for k :: nat
  by arith

lemma march_months:
  assumes "k < 12" "0 \<le> md" "md < days_in_month ! k"
  shows "k < 10 \<Longrightarrow> days_before_month y (int k + 2) = sum_list (take k days_in_month) + 59 + (if leap_year y then 1 else 0)"
    "k < 10 \<Longrightarrow> days_in_month ! k = month_days y (int k + 2)"
    "10 \<le> k \<Longrightarrow> days_before_month y (int k - 10) = sum_list (take k days_in_month) - 306"
    "10 \<le> k \<Longrightarrow> days_in_month ! k \<le> month_days y (int k - 10) + (if k = 11 \<and> \<not> leap_year y then 1 else 0)"
    "(10 \<le> k) = (306 \<le> sum_list (take k days_in_month) + md)"
    "k = 11 \<Longrightarrow> sum_list (take k days_in_month) = 337"
  subgoal using assms(1) by (drule_tac upto_12, elim disjE) (simp_all add: days_in_month_def eval_nat_numeral)
  subgoal using assms(1) by (drule_tac upto_12, elim disjE) (simp_all add: days_in_month_def month_days_def eval_nat_numeral)
  subgoal using assms(1) by (drule_tac upto_12, elim disjE) (simp_all add: days_in_month_def eval_nat_numeral)
  subgoal using assms(1) by (drule_tac upto_12, elim disjE) (simp_all add: days_in_month_def month_days_def eval_nat_numeral)
  subgoal using assms by (drule_tac upto_12, elim disjE) (simp_all add: days_in_month_def eval_nat_numeral)
  subgoal by (simp add: days_in_month_def eval_nat_numeral)
  done

lemma secs_to_tm_civil:
  assumes nr: "\<not> time_rejected t"
  obtains tm' where
    "secs_to_tm t tm = (if tm_year tm' > INT_MAX \<or> tm_year tm' < INT_MIN then Some (- 1, tm) else Some (0, tm'))"
    "INT_MIN \<le> tm_year tm' \<Longrightarrow> tm_year tm' \<le> INT_MAX \<Longrightarrow> civil_ok tm'"
    "civil_secs tm' = t" "0 \<le> tm_yday tm'" "tm_yday tm' < year_days (tm_year tm')"
    "t div 86400 = days_before_year (tm_year tm') + tm_yday tm'"
    "tm_isdst tm' = tm_isdst tm" "tm_wday tm' = (t div 86400 + 4) mod 7"
proof -
  define D R r c r1 q r2 y d Q Y where
    D: "D = (t - 951868800) div 86400" and R: "R = (t - 951868800) mod 86400" and r: "r = D mod 146097" and
    c: "c = (if r div 36524 = 4 then r div 36524 - 1 else r div 36524)" and r1: "r1 = r - c * 36524" and
    q: "q = (if r1 div 1461 = 25 then r1 div 1461 - 1 else r1 div 1461)" and r2: "r2 = r1 - q * 1461" and
    y: "y = (if r2 div 365 = 4 then r2 div 365 - 1 else r2 div 365)" and d: "d = r2 - y * 365" and
    Q: "Q = D div 146097" and Y: "Y = y + 4 * q + 100 * c + 400 * Q"
  define l :: int where l: "l = (if y = 0 \<and> (q \<noteq> 0 \<or> c = 0) then 1 else 0)"
  have r0: "0 \<le> r" "r < 146097" unfolding r by simp_all
  note ys = year_split [OF r0 c [symmetric] r1 [symmetric] q [symmetric] r2 [symmetric] y [symmetric] d [symmetric]]
  note my = march_year [OF Y ys(7,8,5,6,3,4)]
  have DQ: "D = 146097 * Q + r" unfolding Q r by simp
  have Dd: "D = 365 * Y + 97 * Q + 24 * c + q + d"
    unfolding DQ Y ys(12) by simp
  have R0: "0 \<le> R" "R < 86400" unfolding R by simp_all
  have t: "t = 86400 * (D + 11017) + R" 
  proof -
    have "86400 * D + R = t - 951868800" unfolding D R by (rule mult_div_mod_eq)
    then show ?thesis by simp
  qed
  have td: "t div 86400 = D + 11017" unfolding t using R0 by simp
  have "month_search days_in_month 0 d \<noteq> None"
    by (rule month_search_finds) (use ys(9,10) in \<open>simp_all add: days_in_month_def\<close>)
  then obtain m md where ms: "month_search days_in_month 0 d = Some (m, md)" by auto
  from month_search_Some [OF ms] obtain k where k: "k < 12" "m = int k" "md < days_in_month ! k"
    "d = sum_list (take k days_in_month) + md" "0 \<le> md" using ys(9) by (auto simp: days_in_month_def)
  note mm = march_months [OF k(1,5,3)]
  note st = secs_to_tm_steps [OF nr D [symmetric] R [symmetric] r [symmetric] c [symmetric] r1 [symmetric]
      q [symmetric] r2 [symmetric] y [symmetric] d [symmetric] Y [unfolded Q, symmetric] l [symmetric], of tm, unfolded ms]
  define tm' where "tm' = tm\<lparr>tm_year := (if m \<ge> 10 then Y + 101 else Y + 100), tm_mon := (if m \<ge> 10 then m - 10 else m + 2),
     tm_mday := md + 1, tm_wday := (3 + D) mod 7,
     tm_yday := (if d + 31 + 28 + l \<ge> 365 + l then d + 31 + 28 + l - (365 + l) else d + 31 + 28 + l),
     tm_hour := R div 3600, tm_min := R div 60 mod 60, tm_sec := R mod 60\<rparr>"
  have st': "secs_to_tm t tm = (if tm_year tm' > INT_MAX \<or> tm_year tm' < INT_MIN then Some (- 1, tm) else Some (0, tm'))"
    unfolding st tm'_def by (simp add: add.commute)
  have lp: "l = (if leap_year (Y + 100) then 1 else 0)" unfolding l my(2) ..
  have dec: "days_before_year (Y + 101) = days_before_year (Y + 100) + year_days (Y + 100)"
    using days_before_year_Suc [of "Y + 100"] by (simp add: add.commute)
  have cal: "0 \<le> tm_mon tm' \<and> tm_mon tm' < 12 \<and> 1 \<le> tm_mday tm' \<and>
      tm_mday tm' \<le> month_days (tm_year tm') (tm_mon tm') \<and>
      tm_yday tm' = days_before_month (tm_year tm') (tm_mon tm') + (tm_mday tm' - 1)"
  proof (cases "10 \<le> k")
    case True
    have "days_in_month ! k \<le> month_days (Y + 101) (int k - 10) \<or> (k = 11 \<and> md + 1 \<le> month_days (Y + 101) (int k - 10))"
      using True k mm(4) [of "Y + 101"] mm(6) my(3) ys(10,11) by (auto simp: month_days_def split: if_splits)
    then show ?thesis using True k mm(3) [of "Y + 101"] mm(5) unfolding tm'_def by auto
  next
    case False
    then show ?thesis using k mm(1,2) [of "Y + 100"] mm(5) unfolding tm'_def lp by auto
  qed
  have dy: "t div 86400 = days_before_year (tm_year tm') + tm_yday tm'"
    unfolding td Dd tm'_def lp using k mm(5) my(1) dec by (simp add: year_days_def split: if_splits)
  have yb: "0 \<le> tm_yday tm' \<and> tm_yday tm' < year_days (tm_year tm')"
    unfolding tm'_def lp using k mm(5) my(3) ys(9-11) by (auto simp: year_days_def)
  have wd: "tm_wday tm' = (t div 86400 + 4) mod 7"
    unfolding td tm'_def using mod_mult_self1 [of "3 + D" 1574 7] by (simp add: algebra_simps)
  show thesis
  proof (rule that [OF st'])
    show "civil_secs tm' = t" 
    proof -
      have "civil_day (tm_year tm') (tm_mon tm') (tm_mday tm') = D + 11017"
        using cal dy unfolding civil_day_def td by simp
      moreover have "3600 * tm_hour tm' + 60 * tm_min tm' + tm_sec tm' = R"
        unfolding tm'_def using hms_sum [of R] by simp
      ultimately show ?thesis unfolding civil_secs_def t by simp
    qed
    show "INT_MIN \<le> tm_year tm' \<Longrightarrow> tm_year tm' \<le> INT_MAX \<Longrightarrow> civil_ok tm'"
    proof -
      assume "INT_MIN \<le> tm_year tm'" "tm_year tm' \<le> INT_MAX"
      moreover have "tm_wday tm' = (civil_day (tm_year tm') (tm_mon tm') (tm_mday tm') + 4) mod 7"
        using cal dy wd unfolding civil_day_def by simp
      moreover have "tm_hour tm' < 24" "0 \<le> tm_hour tm'" unfolding tm'_def using R0 by simp_all
      moreover have "0 \<le> tm_min tm'" "tm_min tm' < 60" "0 \<le> tm_sec tm'" "tm_sec tm' < 60" unfolding tm'_def by simp_all
      ultimately show ?thesis using cal unfolding civil_ok_def by blast
    qed
    show "tm_wday tm' = (t div 86400 + 4) mod 7" by (rule wd)
  qed (use yb dy in \<open>simp_all add: tm'_def\<close>)
qed

subsection \<open>From the calendar to seconds\<close>

lemma tm_to_secs_civil:
  assumes "\<bar>tm_year tm\<bar> < 2 ^ 59" "\<bar>tm_mon tm\<bar> < 2 ^ 59"
  shows "tm_to_secs tm = civil_secs (tm\<lparr>tm_year := tm_year tm + tm_mon tm div 12, tm_mon := tm_mon tm mod 12\<rparr>)"
proof -
  let ?y = "tm_year tm + tm_mon tm div 12" and ?m = "tm_mon tm mod 12"
  have "- (2 ^ 59) \<le> tm_mon tm div 12" "tm_mon tm div 12 \<le> 2 ^ 59" using assms(2) by linarith+
  then have y: "\<bar>?y\<bar> < 2 ^ 60" using assms(1) by simp
  have "tm_to_secs tm = (case year_to_secs ?y of (t, lp) \<Rightarrow> t + month_to_secs ?m lp + 86400 * (tm_mday tm - 1)
      + 3600 * tm_hour tm + 60 * tm_min tm + tm_sec tm)"
  proof (cases "tm_mon tm \<ge> 12 \<or> tm_mon tm < 0")
    case True
    then show ?thesis unfolding tm_to_secs_def
      by (simp only: Let_def if_True floor_fix zero_less_numeral prod.case)
  next
    case False
    then have "tm_mon tm div 12 = 0" "tm_mon tm mod 12 = tm_mon tm" by simp_all
    with False show ?thesis unfolding tm_to_secs_def
      by (simp only: Let_def if_False prod.case add_0_right)
  qed
  then show ?thesis
    by (simp add: year_to_secs_ok [OF y] month_to_secs_ok civil_secs_def civil_day_def)
qed

lemma civil_ok_month: "civil_ok tm \<Longrightarrow> tm_mon tm div 12 = 0 \<and> tm_mon tm mod 12 = tm_mon tm"
  by (simp add: civil_ok_def)

lemma tm_to_secs_ok: "civil_ok tm \<Longrightarrow> tm_to_secs tm = civil_secs tm"
  using tm_to_secs_civil [of tm] civil_ok_month [of tm]
  by (auto simp: civil_ok_def INT_MIN_def INT_MAX_def abs_less_iff)

lemma year_days_pos: "365 \<le> year_days y" "year_days y \<le> 366"
  by (simp_all add: year_days_def)

lemma days_before_year_mono: "y \<le> y' \<Longrightarrow> days_before_year y \<le> days_before_year y'"
proof (induction y' rule: int_ge_induct)
  case (step i)
  then show ?case using year_days_pos(1) [of i] by (simp add: days_before_year_Suc)
qed simp

lemma year_unique:
  assumes "0 \<le> a" "a < year_days y" "0 \<le> b" "b < year_days z" "days_before_year y + a = days_before_year z + b"
  shows "y = z \<and> a = b"
proof -
  have "\<not> u < v" if "days_before_year u + i = days_before_year v + j" "i < year_days u" "0 \<le> j" for u v i j
    using days_before_year_mono [of "u + 1" v] that by (auto simp: days_before_year_Suc)
  from this [OF assms(5,2,3)] this [OF assms(5) [symmetric] assms(4,1)] assms(5) show ?thesis by auto
qed

lemma days_before_month_Suc: "0 \<le> m \<Longrightarrow> days_before_month y (m + 1) = days_before_month y m + month_days y m"
  by (simp add: days_before_month_def nat_add_distrib)

lemma month_days_pos: "28 \<le> month_days y m"
  by (simp add: month_days_def)

lemma days_before_month_mono: "m \<le> n \<Longrightarrow> 0 \<le> m \<Longrightarrow> days_before_month y m \<le> days_before_month y n"
proof (induction n rule: int_ge_induct)
  case (step i)
  then show ?case using month_days_pos [of y i] by (simp add: days_before_month_Suc)
qed simp

lemma month_unique:
  assumes "0 \<le> m" "0 \<le> n" "1 \<le> d" "d \<le> month_days y m" "1 \<le> e" "e \<le> month_days y n"
    "days_before_month y m + d = days_before_month y n + e"
  shows "m = n \<and> d = e"
proof -
  have "\<not> u < v" if "days_before_month y u + i = days_before_month y v + j" "i \<le> month_days y u" "1 \<le> j" "0 \<le> u" for u v i j
    using days_before_month_mono [of "u + 1" v y] days_before_month_Suc [of u y] that by auto
  from this [OF assms(7,4,5,1)] this [OF assms(7) [symmetric] assms(6,3,2)] assms(7) show ?thesis by auto
qed

lemma days_before_month_12: "days_before_month y 12 = year_days y"
  by (simp add: days_before_month_def month_days_def year_days_def eval_nat_numeral)

lemma civil_ok_yday: "civil_ok tm \<Longrightarrow> 0 \<le> tm_yday tm \<and> tm_yday tm < year_days (tm_year tm)"
proof -
  assume ok: "civil_ok tm"
  then have "days_before_month (tm_year tm) (tm_mon tm + 1) \<le> days_before_month (tm_year tm) 12"
    "days_before_month (tm_year tm) 0 \<le> days_before_month (tm_year tm) (tm_mon tm)"
    by (intro days_before_month_mono; simp add: civil_ok_def)+
  then show ?thesis using ok days_before_month_Suc [of "tm_mon tm" "tm_year tm"]
    by (simp add: civil_ok_def days_before_month_12)
qed

lemma hms_unique:
  assumes "0 \<le> m" "m < 60" "0 \<le> s" "s < 60" "0 \<le> (h::int)" "h < 24"
  shows "(86400 * d + (3600 * h + 60 * m + s)) div 86400 = d" "(3600 * h + 60 * m + s) div 3600 = h"
    "(3600 * h + 60 * m + s) div 60 mod 60 = m" "(3600 * h + 60 * m + s) mod 60 = s"
proof -
  have "(s + 60 * (60 * h + m)) mod 60 = s" "(s + 60 * (60 * h + m)) div 60 = m + 60 * h"
    by (subst mod_mult_self2 div_mult_self2; use assms in simp)+
  moreover have "3600 * h + 60 * m + s = s + 60 * (60 * h + m)" by simp
  ultimately show "(3600 * h + 60 * m + s) mod 60 = s" "(3600 * h + 60 * m + s) div 60 mod 60 = m"
    using assms by (simp_all only: mod_mult_self2) simp
  show "(86400 * d + (3600 * h + 60 * m + s)) div 86400 = d"
    by (subst div_mult_self4) (use assms in simp_all)
  show "(3600 * h + 60 * m + s) div 3600 = h"
    unfolding add.assoc by (subst div_mult_self4) (use assms in simp_all)
qed

lemma civil_unique:
  assumes a: "civil_ok a" and b: "civil_ok b" and eq: "civil_secs a = civil_secs b"
  shows "a = b\<lparr>tm_isdst := tm_isdst a\<rparr>"
proof -
  let ?d = "\<lambda>t. civil_day (tm_year t) (tm_mon t) (tm_mday t)" and ?s = "\<lambda>t. 3600 * tm_hour t + 60 * tm_min t + tm_sec t"
  have ha: "civil_secs a = 86400 * ?d a + ?s a" and hb: "civil_secs b = 86400 * ?d b + ?s b" by (simp_all add: civil_secs_def)
  have bd: "0 \<le> tm_min t" "tm_min t < 60" "0 \<le> tm_sec t" "tm_sec t < 60" "0 \<le> tm_hour t" "tm_hour t < 24"
    "tm_yday t = days_before_month (tm_year t) (tm_mon t) + (tm_mday t - 1)"
    if "civil_ok t" for t using that by (simp_all add: civil_ok_def)
  note ua = hms_unique [OF bd(1-6) [OF a]] and ub = hms_unique [OF bd(1-6) [OF b]]
  have dd: "?d a = ?d b" using ua(1) [of "?d a"] ub(1) [of "?d b"] eq unfolding ha hb by simp
  then have ss: "?s a = ?s b" using eq unfolding ha hb by simp
  have hms: "tm_hour a = tm_hour b" "tm_min a = tm_min b" "tm_sec a = tm_sec b"
    using ua(2-4) ub(2-4) unfolding ss by simp_all
  have "tm_year a = tm_year b \<and> tm_yday a = tm_yday b"
    by (rule year_unique) (use civil_ok_yday [OF a] civil_ok_yday [OF b] dd bd(7) [OF a] bd(7) [OF b] in \<open>simp_all add: civil_day_def\<close>)
  moreover from this have "tm_mon a = tm_mon b \<and> tm_mday a = tm_mday b"
    by (intro month_unique [of _ _ _ "tm_year b"]) (use a b in \<open>auto simp: civil_ok_def\<close>)
  ultimately show ?thesis using hms a b by (simp add: civil_ok_def)
qed

subsection \<open>The conversions\<close>

lemma secs_year_range:
  assumes "t div 86400 = days_before_year y + k" "0 \<le> k" "k < year_days y"
  shows "(INT_MIN \<le> y \<and> y \<le> INT_MAX) = (86400 * days_before_year INT_MIN \<le> t \<and> t < 86400 * days_before_year (INT_MAX + 1))"
proof -
  have t: "(86400 * a \<le> t) = (a \<le> t div 86400)" for a by linarith
  have "(u \<le> y) = (days_before_year u \<le> t div 86400)" for u
    using days_before_year_mono [of u y] days_before_year_mono [of "y + 1" u] assms(2,3)
    unfolding assms(1) days_before_year_Suc by (cases "u \<le> y") simp_all
  from this [of INT_MIN] this [of "INT_MAX + 1"] show ?thesis by (auto simp: t not_le [symmetric])
qed

lemma in_years_not_rejected:
  "86400 * days_before_year INT_MIN \<le> t \<Longrightarrow> t < 86400 * days_before_year (INT_MAX + 1) \<Longrightarrow> \<not> time_rejected t"
  by (simp add: time_rejected_def days_before_year_def INT_MIN_def INT_MAX_def)

text \<open>C35: \<open>gmtime_r\<close> never reads past its table of month lengths, and it returns NULL exactly for the
  times whose calendar year does not fit an \<open>int\<close>.\<close>

theorem gmtime_total:
  "gmtime_r t tm \<noteq> None \<and>
   (fst (the (gmtime_r t tm)) =
      (86400 * days_before_year INT_MIN \<le> t \<and> t < 86400 * days_before_year (INT_MAX + 1)))"
proof (cases "time_rejected t")
  case True
  then show ?thesis using in_years_not_rejected [of t] by (auto simp: gmtime_r_def)
next
  case False
  obtain tm' where c: "secs_to_tm t (tm\<lparr>tm_isdst := 0\<rparr>) =
      (if tm_year tm' > INT_MAX \<or> tm_year tm' < INT_MIN then Some (- 1, tm\<lparr>tm_isdst := 0\<rparr>) else Some (0, tm'))"
    "0 \<le> tm_yday tm'" "tm_yday tm' < year_days (tm_year tm')" "t div 86400 = days_before_year (tm_year tm') + tm_yday tm'"
    using secs_to_tm_civil [OF False] by metis
  show ?thesis using secs_year_range [OF c(4,2,3)] c(1) False by (auto simp: gmtime_r_def)
qed

lemma gmtime_Some:
  assumes "gmtime_r t tm = Some (True, tm')"
  shows "civil_ok tm'" "civil_secs tm' = t" "tm_isdst tm' = 0" "tm_wday tm' = (t div 86400 + 4) mod 7"
proof -
  from assms have nr: "\<not> time_rejected t" by (auto simp: gmtime_r_def split: if_splits)
  obtain tm1 where c:
    "secs_to_tm t (tm\<lparr>tm_isdst := 0\<rparr>) =
      (if tm_year tm1 > INT_MAX \<or> tm_year tm1 < INT_MIN then Some (- 1, tm\<lparr>tm_isdst := 0\<rparr>) else Some (0, tm1))"
    "INT_MIN \<le> tm_year tm1 \<Longrightarrow> tm_year tm1 \<le> INT_MAX \<Longrightarrow> civil_ok tm1"
    "civil_secs tm1 = t" "tm_isdst tm1 = tm_isdst (tm\<lparr>tm_isdst := 0\<rparr>)" "tm_wday tm1 = (t div 86400 + 4) mod 7"
    using secs_to_tm_civil [OF nr, of "tm\<lparr>tm_isdst := 0\<rparr>"] by metis
  have "tm' = tm1" "INT_MIN \<le> tm_year tm1" "tm_year tm1 \<le> INT_MAX"
    using assms nr c(1) by (auto simp: gmtime_r_def split: if_splits)
  with c show "civil_ok tm'" "civil_secs tm' = t" "tm_isdst tm' = 0" "tm_wday tm' = (t div 86400 + 4) mod 7" by simp_all
qed

text \<open>C11: Whenever \<open>gmtime_r\<close> succeeds, the broken-down time it fills in is well formed (each field in its
  range, the day inside its month, day of the year and weekday those of the calendar), its daylight
  saving flag is clear, and \<open>timegm\<close> turns it back into the time it came from.\<close>

theorem gmtime_well_formed:
  assumes "gmtime_r t tm = Some (True, tm')"
  shows "civil_ok tm' \<and> tm_isdst tm' = 0 \<and> tm_wday tm' = (t div 86400 + 4) mod 7 \<and> timegm tm' = t"
  using gmtime_Some [OF assms] by (simp add: timegm_def tm_to_secs_ok)

definition tm_zero :: tm where
  "tm_zero = \<lparr>tm_sec = 0, tm_min = 0, tm_hour = 0, tm_mday = 0, tm_mon = 0, tm_year = 0, tm_wday = 0, tm_yday = 0, tm_isdst = 0\<rparr>"

definition ex_leap_day :: tm where
  "ex_leap_day = \<lparr>tm_sec = 59, tm_min = 59, tm_hour = 23, tm_mday = 29, tm_mon = 1, tm_year = 120, tm_wday = 6,
     tm_yday = 59, tm_isdst = 0\<rparr>"

lemma gmtime_ex: "gmtime_r 1583020799 tm_zero = Some (True, ex_leap_day)"
  by code_simp

lemma gmtime_well_formed_witness:
  "gmtime_r 1583020799 tm_zero = Some (True, ex_leap_day) \<and> timegm ex_leap_day = 1583020799"
  using gmtime_well_formed [OF gmtime_ex] gmtime_ex by simp

text \<open>C12: Conversely every well-formed broken-down time of an \<open>int\<close> year is reproduced field by field by
  \<open>gmtime_r\<close> from the seconds \<open>timegm\<close> computes for it: between them the two functions are a bijection
  of the calendar with the seconds since the epoch.\<close>

theorem timegm_gmtime:
  assumes "civil_ok tm"
  shows "gmtime_r (timegm tm) tm0 = Some (True, tm\<lparr>tm_isdst := 0\<rparr>)"
proof -
  let ?t = "civil_secs tm"
  have s: "0 \<le> tm_min tm" "tm_min tm < 60" "0 \<le> tm_sec tm" "tm_sec tm < 60" "0 \<le> tm_hour tm" "tm_hour tm < 24"
    using assms by (simp_all add: civil_ok_def)
  have "?t div 86400 = days_before_year (tm_year tm) + tm_yday tm"
  proof -
    have "?t = 86400 * civil_day (tm_year tm) (tm_mon tm) (tm_mday tm) + (3600 * tm_hour tm + 60 * tm_min tm + tm_sec tm)"
      by (simp add: civil_secs_def)
    then have "?t div 86400 = civil_day (tm_year tm) (tm_mon tm) (tm_mday tm)" by (simp only: hms_unique(1) [OF s])
    then show ?thesis using assms by (simp add: civil_day_def civil_ok_def)
  qed
  from secs_year_range [OF this] civil_ok_yday [OF assms] assms
  have "fst (the (gmtime_r ?t tm0))" using gmtime_total [of ?t tm0] by (simp add: civil_ok_def)
  then obtain tm' where g: "gmtime_r ?t tm0 = Some (True, tm')"
    using gmtime_total [of ?t tm0] by (cases "the (gmtime_r ?t tm0)") auto
  then have "tm' = tm\<lparr>tm_isdst := 0\<rparr>"
    using civil_unique [OF gmtime_Some(1) [OF g] assms gmtime_Some(2) [OF g]] gmtime_Some(3) [OF g] by simp
  with g show ?thesis using tm_to_secs_ok [OF assms] by (simp add: timegm_def)
qed

lemma timegm_gmtime_witness:
  "civil_ok ex_leap_day \<and> gmtime_r (timegm ex_leap_day) tm_zero = Some (True, ex_leap_day)"
proof -
  have ok: "civil_ok ex_leap_day"
    by (simp add: civil_ok_def ex_leap_day_def month_days_def leap_year_def civil_day_def days_before_year_def INT_MIN_def INT_MAX_def)
  show ?thesis using ok timegm_gmtime [OF ok, of tm_zero] by (simp add: ex_leap_day_def)
qed

end
