(* ===== verification/Prelude.thy ===== *)
theory Prelude
  imports Main "HOL-Library.Word" "HOL-Library.Monad_Syntax"
begin

section \<open>Shared types, memory regions and byte encodings\<close>

text \<open>
  What every component of the firmware model shares.

  \<^item> Machine integers: \<open>u8\<close>, \<open>u16\<close>, \<open>u32\<close> are words; a \<open>size_t\<close> that the code only adds up
    and compares is a \<open>nat\<close>, and where the C subtracts two \<open>size_t\<close> values the wrap-around is
    written out with \<open>sub32\<close>.
  \<^item> Faults: an operation that can hit a failing \<open>assert\<close>, a \<open>panic\<close> or an endless loop
    returns an option; \<open>None\<close> says that the call does not return. Error codes the C
    returns to its caller are ordinary values.
  \<^item> Byte memory: \<open>mem\<close> maps an address to a byte. \<open>mread\<close> reads a region, \<open>mwrite\<close>
    overwrites one, \<open>mprogram\<close> clears bits in one, as a NOR flash does.
  \<^item> Little-endian encodings of the fields of the packed structs kept in flash.
\<close>

unbundle bit_operations_syntax

type_synonym u8 = "8 word"
type_synonym u16 = "16 word"
type_synonym u32 = "32 word"
type_synonym bytes = "u8 list"
type_synonym mem = "nat \<Rightarrow> u8"

named_theorems mem_simps
named_theorems le_simps

subsection \<open>Assertions\<close>

definition c_assert :: "bool \<Rightarrow> unit option" where
  "c_assert b = (if b then Some () else None)"

lemma c_assert_simps [simp]:
  "c_assert True = Some ()" "c_assert False = None"
  by (simp_all add: c_assert_def)

lemma c_assert_eq_Some [simp]: "(c_assert b = Some u) = b"
  by (simp add: c_assert_def)

lemma c_assert_bind [simp]: "Option.bind (c_assert b) f = (if b then f () else None)"
  by (simp add: c_assert_def)

subsection \<open>Unsigned subtraction at 32 bits\<close>

definition sub32 :: "nat \<Rightarrow> nat \<Rightarrow> nat" where
  "sub32 a b = (a + (2 ^ 32 - b mod 2 ^ 32)) mod 2 ^ 32"

lemma sub32_le: "b \<le> a \<Longrightarrow> a < 2 ^ 32 \<Longrightarrow> sub32 a b = a - b"
proof -
  assume "b \<le> a" "a < 2 ^ 32"
  then have "a + (2 ^ 32 - b mod 2 ^ 32) = (a - b) + 2 ^ 32" and "a - b < 2 ^ 32" by simp_all
  then show ?thesis unfolding sub32_def by simp
qed

lemma sub32_less [simp]: "sub32 a b < 4294967296"
  by (simp add: sub32_def)

definition add32 :: "nat \<Rightarrow> nat \<Rightarrow> nat" where
  "add32 a b = (a + b) mod 2 ^ 32"

lemma add32_small: "a + b < 2 ^ 32 \<Longrightarrow> add32 a b = a + b"
  by (simp add: add32_def)

subsection \<open>Byte memory\<close>

definition mread :: "mem \<Rightarrow> nat \<Rightarrow> nat \<Rightarrow> bytes" where
  "mread m a n = map (\<lambda>i. m (a + i)) [0..<n]"

definition mwrite :: "mem \<Rightarrow> nat \<Rightarrow> bytes \<Rightarrow> mem" where
  "mwrite m a bs = (\<lambda>x. if a \<le> x \<and> x < a + length bs then bs ! (x - a) else m x)"

definition mprogram :: "mem \<Rightarrow> nat \<Rightarrow> bytes \<Rightarrow> mem" where
  "mprogram m a bs = (\<lambda>x. if a \<le> x \<and> x < a + length bs then m x AND bs ! (x - a) else m x)"

definition mfill :: "mem \<Rightarrow> nat \<Rightarrow> nat \<Rightarrow> u8 \<Rightarrow> mem" where
  "mfill m a n v = (\<lambda>x. if a \<le> x \<and> x < a + n then v else m x)"

lemma mread_length [simp]: "length (mread m a n) = n"
  by (simp add: mread_def)

lemma mread_nth [simp]: "i < n \<Longrightarrow> mread m a n ! i = m (a + i)"
  by (simp add: mread_def)

lemma mread_0 [simp]: "mread m a 0 = []"
  by (simp add: mread_def)

lemma mread_Suc: "mread m a (Suc n) = m a # mread m (Suc a) n"
proof (rule nth_equalityI)
  show "length (mread m a (Suc n)) = length (m a # mread m (Suc a) n)" by simp
  show "mread m a (Suc n) ! i = (m a # mread m (Suc a) n) ! i" if "i < length (mread m a (Suc n))" for i
    using that by (cases i) simp_all
qed

lemma mread_add: "mread m a (n + k) = mread m a n @ mread m (a + n) k"
  by (induction n arbitrary: a) (simp_all add: mread_Suc)

lemma mread_cong: "(\<And>i. i < n \<Longrightarrow> m (a + i) = m' (a + i)) \<Longrightarrow> mread m a n = mread m' a n"
  by (simp add: mread_def)

lemma mread_take: "k \<le> n \<Longrightarrow> take k (mread m a n) = mread m a k"
  by (simp add: mread_def take_map take_upt)

lemma mread_drop: "drop k (mread m a n) = mread m (a + k) (n - k)"
proof (rule nth_equalityI)
  show "length (drop k (mread m a n)) = length (mread m (a + k) (n - k))" by simp
  show "drop k (mread m a n) ! i = mread m (a + k) (n - k) ! i" if "i < length (drop k (mread m a n))" for i
    using that by (simp add: add.assoc)
qed

lemma mprogram_out [mem_simps]: "x < a \<or> a + length bs \<le> x \<Longrightarrow> mprogram m a bs x = m x"
  by (auto simp: mprogram_def)

lemma mprogram_in [mem_simps]: "i < length bs \<Longrightarrow> mprogram m a bs (a + i) = m (a + i) AND bs ! i"
  by (simp add: mprogram_def)

lemma mwrite_out [mem_simps]: "x < a \<or> a + length bs \<le> x \<Longrightarrow> mwrite m a bs x = m x"
  by (auto simp: mwrite_def)

lemma mwrite_in [mem_simps]: "i < length bs \<Longrightarrow> mwrite m a bs (a + i) = bs ! i"
  by (simp add: mwrite_def)

lemma mprogram_Nil [simp]: "mprogram m a [] = m"
  by (rule ext) (auto simp: mprogram_def)

lemma mwrite_Nil [simp]: "mwrite m a [] = m"
  by (rule ext) (auto simp: mwrite_def)

lemma mprogram_append: "mprogram m a (bs @ cs) = mprogram (mprogram m a bs) (a + length bs) cs"
proof
  show "mprogram m a (bs @ cs) x = mprogram (mprogram m a bs) (a + length bs) cs x" for x
    by (auto simp: mprogram_def nth_append)
qed

lemma mread_mprogram_same:
  "mread (mprogram m a bs) a (length bs) = map2 (AND) (mread m a (length bs)) bs"
  by (rule nth_equalityI) (simp_all add: mprogram_in)

lemma mread_mprogram_disjoint:
  "a + n \<le> b \<or> b + length bs \<le> a \<Longrightarrow> mread (mprogram m b bs) a n = mread m a n"
  by (rule mread_cong) (auto simp: mprogram_def)

lemma mread_mwrite_same: "mread (mwrite m a bs) a (length bs) = bs"
  by (rule nth_equalityI) (simp_all add: mwrite_in)

lemma mread_mwrite_disjoint:
  "a + n \<le> b \<or> b + length bs \<le> a \<Longrightarrow> mread (mwrite m b bs) a n = mread m a n"
  by (rule mread_cong) (auto simp: mwrite_def)

lemma and_ff8 [simp]: "(x :: u8) AND 255 = x"
proof -
  have "(255 :: u8) = - 1" by simp
  then show ?thesis by (metis bit.conj_one_right)
qed

lemma ff8_and [simp]: "255 AND (x :: u8) = x"
  using and_ff8 [of x] by (simp add: and.commute)

lemma unat_u8_less [simp]: "unat (b :: u8) < 256"
proof -
  have "unat b < 2 ^ LENGTH(8)" by (rule unsigned_less)
  then show ?thesis by simp
qed

lemma unat_u16_less [simp]: "unat (b :: u16) < 65536"
proof -
  have "unat b < 2 ^ LENGTH(16)" by (rule unsigned_less)
  then show ?thesis by simp
qed

lemma unat_ucast_u8: "unat (ucast (b :: u8) :: u32) = unat b"
proof -
  have "unat b < 2 ^ 32" by (rule less_trans [OF unat_u8_less]) simp
  then show ?thesis by (simp add: unsigned_ucast_eq take_bit_nat_eq_self)
qed

text \<open>Programming bytes over erased flash stores them.\<close>

lemma mread_mprogram_erased:
  assumes "\<forall>i < length bs. m (a + i) = 255"
  shows "mread (mprogram m a bs) a (length bs) = bs"
  using assms by (intro nth_equalityI) (simp_all add: mprogram_in)

lemma map2_and_self: "map2 (AND) bs bs = (bs :: bytes)"
  by (induction bs) simp_all

subsection \<open>Little-endian fields\<close>

definition le16 :: "u16 \<Rightarrow> bytes" where
  "le16 w = [ucast w, ucast (drop_bit 8 w)]"

definition le32 :: "u32 \<Rightarrow> bytes" where
  "le32 w = [ucast w, ucast (drop_bit 8 w), ucast (drop_bit 16 w), ucast (drop_bit 24 w)]"

definition get16 :: "bytes \<Rightarrow> nat \<Rightarrow> u16" where
  "get16 bs i = ucast (bs ! i) OR push_bit 8 (ucast (bs ! (i + 1)))"

definition get32 :: "bytes \<Rightarrow> nat \<Rightarrow> u32" where
  "get32 bs i = ucast (bs ! i) OR push_bit 8 (ucast (bs ! (i + 1)))
     OR push_bit 16 (ucast (bs ! (i + 2))) OR push_bit 24 (ucast (bs ! (i + 3)))"

lemma le16_length [simp]: "length (le16 w) = 2"
  by (simp add: le16_def)

lemma le32_length [simp]: "length (le32 w) = 4"
  by (simp add: le32_def)

lemma get16_le16 [le_simps]:
  "ucast (ucast w :: u8) OR push_bit 8 (ucast (ucast (drop_bit 8 w) :: u8)) = (w :: u16)"
  by (rule bit_eqI) (auto simp: bit_simps)

lemma get32_le32 [le_simps]:
  "ucast (ucast w :: u8) OR push_bit 8 (ucast (ucast (drop_bit 8 w) :: u8))
     OR push_bit 16 (ucast (ucast (drop_bit 16 w) :: u8))
     OR push_bit 24 (ucast (ucast (drop_bit 24 w) :: u8)) = (w :: u32)"
proof (rule bit_word_eqI)
  fix n assume "n < LENGTH(32)"
  then have "n < 8 \<or> (8 \<le> n \<and> n < 16) \<or> (16 \<le> n \<and> n < 24) \<or> (24 \<le> n \<and> n < 32)" by auto
  then show "bit (ucast (ucast w :: u8) OR push_bit 8 (ucast (ucast (drop_bit 8 w) :: u8))
     OR push_bit 16 (ucast (ucast (drop_bit 16 w) :: u8))
     OR push_bit 24 (ucast (ucast (drop_bit 24 w) :: u8)) :: u32) n = bit w n"
    by (auto simp: bit_simps)
qed

lemma le16_get16 [le_simps]:
  "ucast (ucast (b0 :: u8) OR push_bit 8 (ucast (b1 :: u8)) :: u16) = b0"
  "ucast (drop_bit 8 (ucast (b0 :: u8) OR push_bit 8 (ucast (b1 :: u8)) :: u16)) = b1"
  by (rule bit_eqI, auto simp: bit_simps dest: bit_imp_le_length)+

lemma le32_get32 [le_simps]:
  "ucast (ucast (b0 :: u8) OR push_bit 8 (ucast (b1 :: u8)) OR push_bit 16 (ucast (b2 :: u8))
     OR push_bit 24 (ucast (b3 :: u8)) :: u32) = b0"
  "ucast (drop_bit 8 (ucast (b0 :: u8) OR push_bit 8 (ucast (b1 :: u8)) OR push_bit 16 (ucast (b2 :: u8))
     OR push_bit 24 (ucast (b3 :: u8)) :: u32)) = b1"
  "ucast (drop_bit 16 (ucast (b0 :: u8) OR push_bit 8 (ucast (b1 :: u8)) OR push_bit 16 (ucast (b2 :: u8))
     OR push_bit 24 (ucast (b3 :: u8)) :: u32)) = b2"
  "ucast (drop_bit 24 (ucast (b0 :: u8) OR push_bit 8 (ucast (b1 :: u8)) OR push_bit 16 (ucast (b2 :: u8))
     OR push_bit 24 (ucast (b3 :: u8)) :: u32)) = b3"
  by (rule bit_eqI, auto simp: bit_simps dest: bit_imp_le_length)+

lemma get16_append_le16 [simp]: "get16 (xs @ le16 w @ ys) (length xs) = w"
  by (simp add: get16_def le16_def nth_append get16_le16)

lemma get32_append_le32 [simp]: "get32 (xs @ le32 w @ ys) (length xs) = w"
  by (simp add: get32_def le32_def nth_append get32_le32)

subsection \<open>Word arithmetic without wrap-around\<close>

lemma unat_add_small: "unat (a :: u32) + unat b < 2 ^ 32 \<Longrightarrow> unat (a + b) = unat a + unat b"
  by (simp add: unat_word_ariths)

lemma unat_sub_small: "b \<le> (a :: u32) \<Longrightarrow> unat (a - b) = unat a - unat b"
  by (simp add: unat_sub_if_size word_le_nat_alt)

lemma unat_page_offset: "unat (a AND NOT (NOT (2 ^ k - 1)) :: u32) = unat a mod 2 ^ k"
proof -
  have "(a AND NOT (NOT (2 ^ k - 1))) = take_bit k a"
    unfolding take_bit_eq_mask mask_eq_exp_minus_1 by simp
  then show ?thesis by (metis unsigned_take_bit_eq take_bit_eq_mod)
qed

lemma page_eq_iff:
  "(a AND NOT (2 ^ k - 1) = b AND NOT (2 ^ k - 1)) = (unat a div 2 ^ k = unat (b :: u32) div 2 ^ k)"
proof -
  have m: "2 ^ k - 1 = (mask k :: u32)" by (simp add: mask_eq_exp_minus_1)
  have "(a AND NOT (mask k) = b AND NOT (mask k)) = (drop_bit k a = drop_bit k b)" (is "?l = ?r")
  proof
    assume l: ?l
    show ?r
    proof (rule bit_eqI)
      fix n
      have "bit (a AND NOT (mask k)) (k + n) = bit (b AND NOT (mask k)) (k + n)" using l by simp
      then show "bit (drop_bit k a) n = bit (drop_bit k b) n"
        by (auto simp: bit_simps dest: bit_imp_le_length)
    qed
  next
    assume r: ?r
    show ?l
    proof (rule bit_eqI)
      fix n
      have "bit (drop_bit k a) (n - k) = bit (drop_bit k b) (n - k)" using r by simp
      then show "bit (a AND NOT (mask k)) n = bit (b AND NOT (mask k)) n"
        by (cases "k \<le> n") (auto simp: bit_simps)
    qed
  qed
  also have "\<dots> = (unat a div 2 ^ k = unat b div 2 ^ k)"
    unfolding word_unat_eq_iff unat_drop_bit_eq unfolding drop_bit_eq_div ..
  finally show ?thesis by (simp add: m)
qed
lemma sint_unat: "unat (a :: u32) < 2 ^ 31 \<Longrightarrow> sint a = int (unat a)"
proof -
  assume a: "unat a < 2 ^ 31"
  then have "int (unat a) < int (2 ^ 31)" by (simp only: of_nat_less_iff)
  then have u: "uint a < 2 ^ 31" by simp
  have "sint a = signed_take_bit 31 (uint a)" by (simp add: sint_uint)
  also have "\<dots> = take_bit 31 (uint a)"
  proof (rule signed_take_bit_eq_if_positive)
    show "\<not> bit (uint a) 31" using u by (simp add: bit_iff_odd)
  qed
  also have "\<dots> = uint a" using u by (simp add: take_bit_eq_mod)
  finally show ?thesis by simp
qed

lemma sless_unat: "unat (a::u32) < 2^31 \<Longrightarrow> unat b < 2^31 \<Longrightarrow> (a <s b) = (unat a < unat b)"
  unfolding word_sless_alt by (subst (1 2) sint_unat) (simp_all only: of_nat_less_iff)

lemma div_between: "x \<le> y \<Longrightarrow> y \<le> z \<Longrightarrow> z div d = x div d \<Longrightarrow> y div d = x div (d :: nat)"
  using div_le_mono [of x y d] div_le_mono [of y z d] by simp

lemma unat_power_two: "k < 32 \<Longrightarrow> unat (2 ^ k :: u32) = 2 ^ k"
proof -
  assume k: "k < 32"
  then have "(2 :: nat) ^ k < 2 ^ 32" by (intro power_strict_increasing) simp_all
  then have "unat (word_of_nat (2 ^ k) :: u32) = 2 ^ k" by (subst unat_of_nat) simp
  then show ?thesis by simp
qed

lemma div_in_block: "0 < t \<Longrightarrow> a mod d + t \<le> d \<Longrightarrow> (a + t - 1) div d = a div (d :: nat)"
proof -
  assume t: "0 < t" "a mod d + t \<le> d"
  have "a + t - 1 = a div d * d + (a mod d + t - 1)" using t(1) div_mult_mod_eq [of a d] by linarith
  moreover have "(a mod d + t - 1) div d = 0" using t by (intro div_less) linarith
  moreover have "(a div d * d + (a mod d + t - 1)) div d = a div d + (a mod d + t - 1) div d"
    using t by (intro div_mult_self3) linarith
  ultimately show ?thesis by simp
qed

end
