(* ===== verification/Crc.thy ===== *)
theory Crc
  imports Prelude
begin

section \<open>The file system's checksums (rcore/fs\_crc.c)\<close>

text \<open>
  The CRC-32 of the flash file system is computed a word at a time from a 256-entry table; the
  loop that generated the table is kept in the source under \<^verbatim>\<open>#if 0\<close>. Here are the table, the
  fast update, the bitwise reference and the one-byte CRC-8 of a page number. The lemmas show
  that the table is the one the generator produces, that the table-driven update equals
  the bitwise one on every input, that checksums of word-aligned pieces compose, and that
  changing a single aligned word of a buffer always changes its checksum.
\<close>

definition pbfs_crc32_table :: "u32 list" where
  "pbfs_crc32_table = [
   0x00000000, 0x04c11db7, 0x09823b6e, 0x0d4326d9, 0x130476dc, 0x17c56b6b, 0x1a864db2, 0x1e475005,
   0x2608edb8, 0x22c9f00f, 0x2f8ad6d6, 0x2b4bcb61, 0x350c9b64, 0x31cd86d3, 0x3c8ea00a, 0x384fbdbd,
   0x4c11db70, 0x48d0c6c7, 0x4593e01e, 0x4152fda9, 0x5f15adac, 0x5bd4b01b, 0x569796c2, 0x52568b75,
   0x6a1936c8, 0x6ed82b7f, 0x639b0da6, 0x675a1011, 0x791d4014, 0x7ddc5da3, 0x709f7b7a, 0x745e66cd,
   0x9823b6e0, 0x9ce2ab57, 0x91a18d8e, 0x95609039, 0x8b27c03c, 0x8fe6dd8b, 0x82a5fb52, 0x8664e6e5,
   0xbe2b5b58, 0xbaea46ef, 0xb7a96036, 0xb3687d81, 0xad2f2d84, 0xa9ee3033, 0xa4ad16ea, 0xa06c0b5d,
   0xd4326d90, 0xd0f37027, 0xddb056fe, 0xd9714b49, 0xc7361b4c, 0xc3f706fb, 0xceb42022, 0xca753d95,
   0xf23a8028, 0xf6fb9d9f, 0xfbb8bb46, 0xff79a6f1, 0xe13ef6f4, 0xe5ffeb43, 0xe8bccd9a, 0xec7dd02d,
   0x34867077, 0x30476dc0, 0x3d044b19, 0x39c556ae, 0x278206ab, 0x23431b1c, 0x2e003dc5, 0x2ac12072,
   0x128e9dcf, 0x164f8078, 0x1b0ca6a1, 0x1fcdbb16, 0x018aeb13, 0x054bf6a4, 0x0808d07d, 0x0cc9cdca,
   0x7897ab07, 0x7c56b6b0, 0x71159069, 0x75d48dde, 0x6b93dddb, 0x6f52c06c, 0x6211e6b5, 0x66d0fb02,
   0x5e9f46bf, 0x5a5e5b08, 0x571d7dd1, 0x53dc6066, 0x4d9b3063, 0x495a2dd4, 0x44190b0d, 0x40d816ba,
   0xaca5c697, 0xa864db20, 0xa527fdf9, 0xa1e6e04e, 0xbfa1b04b, 0xbb60adfc, 0xb6238b25, 0xb2e29692,
   0x8aad2b2f, 0x8e6c3698, 0x832f1041, 0x87ee0df6, 0x99a95df3, 0x9d684044, 0x902b669d, 0x94ea7b2a,
   0xe0b41de7, 0xe4750050, 0xe9362689, 0xedf73b3e, 0xf3b06b3b, 0xf771768c, 0xfa325055, 0xfef34de2,
   0xc6bcf05f, 0xc27dede8, 0xcf3ecb31, 0xcbffd686, 0xd5b88683, 0xd1799b34, 0xdc3abded, 0xd8fba05a,
   0x690ce0ee, 0x6dcdfd59, 0x608edb80, 0x644fc637, 0x7a089632, 0x7ec98b85, 0x738aad5c, 0x774bb0eb,
   0x4f040d56, 0x4bc510e1, 0x46863638, 0x42472b8f, 0x5c007b8a, 0x58c1663d, 0x558240e4, 0x51435d53,
   0x251d3b9e, 0x21dc2629, 0x2c9f00f0, 0x285e1d47, 0x36194d42, 0x32d850f5, 0x3f9b762c, 0x3b5a6b9b,
   0x0315d626, 0x07d4cb91, 0x0a97ed48, 0x0e56f0ff, 0x1011a0fa, 0x14d0bd4d, 0x19939b94, 0x1d528623,
   0xf12f560e, 0xf5ee4bb9, 0xf8ad6d60, 0xfc6c70d7, 0xe22b20d2, 0xe6ea3d65, 0xeba91bbc, 0xef68060b,
   0xd727bbb6, 0xd3e6a601, 0xdea580d8, 0xda649d6f, 0xc423cd6a, 0xc0e2d0dd, 0xcda1f604, 0xc960ebb3,
   0xbd3e8d7e, 0xb9ff90c9, 0xb4bcb610, 0xb07daba7, 0xae3afba2, 0xaafbe615, 0xa7b8c0cc, 0xa379dd7b,
   0x9b3660c6, 0x9ff77d71, 0x92b45ba8, 0x9675461f, 0x8832161a, 0x8cf30bad, 0x81b02d74, 0x857130c3,
   0x5d8a9099, 0x594b8d2e, 0x5408abf7, 0x50c9b640, 0x4e8ee645, 0x4a4ffbf2, 0x470cdd2b, 0x43cdc09c,
   0x7b827d21, 0x7f436096, 0x7200464f, 0x76c15bf8, 0x68860bfd, 0x6c47164a, 0x61043093, 0x65c52d24,
   0x119b4be9, 0x155a565e, 0x18197087, 0x1cd86d30, 0x029f3d35, 0x065e2082, 0x0b1d065b, 0x0fdc1bec,
   0x3793a651, 0x3352bbe6, 0x3e119d3f, 0x3ad08088, 0x2497d08d, 0x2056cd3a, 0x2d15ebe3, 0x29d4f654,
   0xc5a92679, 0xc1683bce, 0xcc2b1d17, 0xc8ea00a0, 0xd6ad50a5, 0xd26c4d12, 0xdf2f6bcb, 0xdbee767c,
   0xe3a1cbc1, 0xe760d676, 0xea23f0af, 0xeee2ed18, 0xf0a5bd1d, 0xf464a0aa, 0xf9278673, 0xfde69bc4,
   0x89b8fd09, 0x8d79e0be, 0x803ac667, 0x84fbdbd0, 0x9abc8bd5, 0x9e7d9662, 0x933eb0bb, 0x97ffad0c,
   0xafb010b1, 0xab710d06, 0xa6322bdf, 0xa2f33668, 0xbcb4666d, 0xb8757bda, 0xb5365d03, 0xb1f740b4]"

definition POLY :: u32 where
  "POLY = 0x04c11db7"

text \<open>One round of the generator's inner loop, and the loop of eight rounds.\<close>

definition crc_round :: "u32 \<Rightarrow> u32" where
  "crc_round crc = (if crc AND 0x80000000 \<noteq> 0 then push_bit 1 crc XOR POLY else push_bit 1 crc)"

fun crc_rounds :: "nat \<Rightarrow> u32 \<Rightarrow> u32" where
  "crc_rounds 0 crc = crc"
| "crc_rounds (Suc n) crc = crc_rounds n (crc_round crc)"

definition update_crc_slow_1byte :: "u32 \<Rightarrow> u32 \<Rightarrow> u32" where
  "update_crc_slow_1byte crc data = crc_rounds 8 (crc XOR data)"

definition mk_table :: "u32 list" where
  "mk_table = map (\<lambda>i. update_crc_slow_1byte 0 (push_bit 24 (of_nat i))) [0..<256]"

definition update_crc32_fast_byte :: "u32 \<Rightarrow> u8 \<Rightarrow> u32" where
  "update_crc32_fast_byte crc data =
     (let ent = drop_bit 24 crc XOR ucast data
      in push_bit 8 crc XOR pbfs_crc32_table ! unat ent)"

definition update_crc32_fast_word :: "u32 \<Rightarrow> u32 \<Rightarrow> u32" where
  "update_crc32_fast_word crc data =
     (let crc = update_crc32_fast_byte crc (ucast (drop_bit 24 data AND 0xFF));
          crc = update_crc32_fast_byte crc (ucast (drop_bit 16 data AND 0xFF));
          crc = update_crc32_fast_byte crc (ucast (drop_bit 8 data AND 0xFF));
          crc = update_crc32_fast_byte crc (ucast (data AND 0xFF))
      in crc)"

text \<open>The tail of the buffer: the last one to three bytes, right-justified, first byte highest.\<close>

definition crc_tail_word :: "bytes \<Rightarrow> u32" where
  "crc_tail_word bs =
     fold (\<lambda>i word. word OR push_bit ((length bs - i - 1) * 8) (ucast (bs ! i))) [0..<length bs] 0"

fun fs_pbfs_crc32_accum :: "u32 \<Rightarrow> bytes \<Rightarrow> u32" where
  "fs_pbfs_crc32_accum crc (b0 # b1 # b2 # b3 # bs) =
     fs_pbfs_crc32_accum (update_crc32_fast_word crc (get32 [b0, b1, b2, b3] 0)) bs"
| "fs_pbfs_crc32_accum crc [] = crc"
| "fs_pbfs_crc32_accum crc bs = update_crc32_fast_word crc (crc_tail_word bs)"

definition fs_pbfs_crc32 :: "bytes \<Rightarrow> u32" where
  "fs_pbfs_crc32 bs = fs_pbfs_crc32_accum 0xffffffff bs"

definition crc8_round :: "u8 \<Rightarrow> u8" where
  "crc8_round crc = (if crc AND 0x80 \<noteq> 0 then push_bit 1 crc XOR 0x2F else push_bit 1 crc)"

fun crc8_rounds :: "nat \<Rightarrow> u8 \<Rightarrow> u8" where
  "crc8_rounds 0 crc = crc"
| "crc8_rounds (Suc n) crc = crc8_rounds n (crc8_round crc)"

definition update_crc8 :: "u8 \<Rightarrow> u8 \<Rightarrow> u8" where
  "update_crc8 crc c = crc8_rounds 8 (crc XOR c)"

text \<open>
  The loop of \<open>fs_pbfs_crc8\<close> as written: each turn reads the byte under the pointer and
  advances it.
\<close>

definition fs_pbfs_crc8 :: "bytes \<Rightarrow> u8" where
  "fs_pbfs_crc8 bs = fold (\<lambda>b crc. update_crc8 crc b) bs 0"

definition fs_next_page_crc :: "u16 \<Rightarrow> u8" where
  "fs_next_page_crc next_page =
     (let next_page = drop_bit 8 next_page OR push_bit 8 next_page
      in if next_page = 0xFFFF then 0xFF else fs_pbfs_crc8 (le16 next_page))"

subsection \<open>The bitwise reference over a whole buffer\<close>

text \<open>
  The order in which the checksum consumes a buffer: within each aligned word the highest
  byte comes first, and a short tail is padded with zero bytes in front.
\<close>

fun crc_byte_order :: "bytes \<Rightarrow> bytes" where
  "crc_byte_order (b0 # b1 # b2 # b3 # bs) = b3 # b2 # b1 # b0 # crc_byte_order bs"
| "crc_byte_order [] = []"
| "crc_byte_order bs = replicate (4 - length bs) 0 @ bs"

definition crc32_reference :: "u32 \<Rightarrow> bytes \<Rightarrow> u32" where
  "crc32_reference crc bs =
     fold (\<lambda>b crc. update_crc_slow_1byte crc (push_bit 24 (ucast b))) (crc_byte_order bs) crc"

subsection \<open>The table\<close>

text \<open>Rounds of a closed word, evaluated by the simplifier.\<close>

lemma crc_round_numeral:
  "crc_round (numeral w) =
     (if (numeral w :: u32) AND 0x80000000 \<noteq> 0 then push_bit 1 (numeral w) XOR 0x04c11db7
      else push_bit 1 (numeral w))"
  by (simp add: crc_round_def POLY_def)

lemma crc_round_small: "crc_round 0 = 0" "crc_round 1 = 2"
  by (simp_all add: crc_round_def)

lemma crc_rounds_numeral: "crc_rounds (numeral k) x = crc_rounds (pred_numeral k) (crc_round x)"
  by (simp add: numeral_eq_Suc)

lemma upt_256: "[0..<256] = 0 # 1 # [2..<256]"
  by (simp add: upt_conv_Cons)

text \<open>The 256 entries are the ones the generator under \<^verbatim>\<open>#if 0\<close> computes.\<close>

lemma crc_table_generated: "pbfs_crc32_table = mk_table"
  unfolding mk_table_def update_crc_slow_1byte_def pbfs_crc32_table_def
  by (simp add: upt_256 crc_round_numeral crc_round_small crc_rounds_numeral upt_rec_numeral)

lemma crc_table_length [simp]: "length pbfs_crc32_table = 256"
  by (simp add: crc_table_generated mk_table_def)

lemma crc_table_nth:
  "i < 256 \<Longrightarrow> pbfs_crc32_table ! i = crc_rounds 8 (push_bit 24 (of_nat i))"
  by (simp add: crc_table_generated mk_table_def update_crc_slow_1byte_def)

subsection \<open>Rounds are linear over XOR\<close>

lemma crc_top_bit: "(x :: u32) AND 0x80000000 \<noteq> 0 \<longleftrightarrow> bit x 31"
proof -
  have "(0x80000000 :: u32) = push_bit 31 1" by simp
  then have "x AND 0x80000000 = x AND push_bit 31 1" by simp
  also have "\<dots> \<noteq> 0 \<longleftrightarrow> bit x 31"
    by (metis and_exp_eq_0_iff_not_bit push_bit_of_1)
  finally show ?thesis .
qed

lemma crc_round_xor: "crc_round (a XOR b) = crc_round a XOR crc_round b"
  unfolding crc_round_def crc_top_bit
  by (auto simp: push_bit_xor bit_xor_iff xor.assoc xor.commute xor.left_commute)

lemma crc_rounds_xor: "crc_rounds n (a XOR b) = crc_rounds n a XOR crc_rounds n b"
  by (induction n arbitrary: a b) (simp_all add: crc_round_xor)

lemma crc_rounds_shift:
  assumes "\<forall>i. 32 - n \<le> i \<longrightarrow> \<not> bit x i" and "n \<le> 32"
  shows "crc_rounds n x = push_bit n x"
  using assms
proof (induction n arbitrary: x)
  case 0
  then show ?case by simp
next
  case (Suc n)
  have "\<not> bit x 31" using Suc.prems by auto
  then have "crc_round x = push_bit 1 x"
    unfolding crc_round_def crc_top_bit by simp
  moreover have "\<forall>i. 32 - n \<le> i \<longrightarrow> \<not> bit (push_bit 1 x) i"
  proof (intro allI impI)
    fix i assume "32 - n \<le> i"
    then have "32 - Suc n \<le> i - 1" by simp
    then have "\<not> bit x (i - 1)" using Suc.prems(1) by blast
    then show "\<not> bit (push_bit 1 x) i" unfolding bit_push_bit_iff by blast
  qed
  ultimately show ?case using Suc.IH [of "push_bit 1 x"] Suc.prems(2) by (simp add: ac_simps)
qed

text \<open>A word splits into its top byte and the rest.\<close>

lemma crc_split_top:
  "(x :: u32) = push_bit 24 (drop_bit 24 x) XOR take_bit 24 x"
  by (rule bit_word_eqI) (auto simp: bit_simps)

lemma fast_byte_is_slow:
  "update_crc32_fast_byte crc b = update_crc_slow_1byte crc (push_bit 24 (ucast b))"
proof -
  define ent where "ent = drop_bit 24 crc XOR ucast b"
  have "ent = ucast (ucast (drop_bit 24 crc) XOR b)"
    unfolding ent_def by (rule bit_word_eqI) (auto simp: bit_simps dest: bit_imp_le_length)
  moreover have "unat (ucast (ucast (drop_bit 24 crc) XOR b) :: u32) = unat (ucast (drop_bit 24 crc) XOR b)"
    by (rule unat_ucast_u8)
  moreover have "unat (ucast (drop_bit 24 crc) XOR b) < 2 ^ LENGTH(8)"
    by (rule unsigned_less)
  ultimately have ent: "unat ent < 256" by simp
  have "crc XOR push_bit 24 (ucast b) = push_bit 24 ent XOR take_bit 24 crc"
    unfolding ent_def by (rule bit_word_eqI) (auto simp: bit_simps dest: bit_imp_le_length)
  then have "update_crc_slow_1byte crc (push_bit 24 (ucast b))
      = crc_rounds 8 (push_bit 24 ent) XOR crc_rounds 8 (take_bit 24 crc)"
    by (simp only: update_crc_slow_1byte_def crc_rounds_xor)
  also have "crc_rounds 8 (take_bit 24 crc) = push_bit 8 crc"
  proof -
    have "crc_rounds 8 (take_bit 24 crc) = push_bit 8 (take_bit 24 crc)"
      by (rule crc_rounds_shift) (auto simp: bit_simps)
    also have "\<dots> = push_bit 8 crc"
      by (rule bit_word_eqI) (auto simp: bit_simps)
    finally show ?thesis .
  qed
  also have "crc_rounds 8 (push_bit 24 ent) = pbfs_crc32_table ! unat ent"
    using ent by (simp add: crc_table_nth)
  finally show ?thesis
    by (simp add: update_crc32_fast_byte_def Let_def ent_def xor.commute)
qed

lemma crc_low_byte: "(ucast ((w :: u32) AND 0xFF) :: u8) = ucast w"
proof -
  have "w AND 0xFF = take_bit 8 w"
    by (simp add: take_bit_eq_mask mask_numeral)
  then show ?thesis by (simp add: bit_word_eqI bit_simps)
qed

lemma fast_word_is_slow:
  "update_crc32_fast_word crc (get32 [b0, b1, b2, b3] 0) =
     fold (\<lambda>b crc. update_crc_slow_1byte crc (push_bit 24 (ucast b))) [b3, b2, b1, b0] crc"
proof -
  let ?w = "get32 [b0, b1, b2, b3] 0"
  have b: "(ucast (drop_bit 24 ?w AND 0xFF) :: u8) = b3" "(ucast (drop_bit 16 ?w AND 0xFF) :: u8) = b2"
    "(ucast (drop_bit 8 ?w AND 0xFF) :: u8) = b1" "(ucast (?w AND 0xFF) :: u8) = b0"
    using mask_eq_decr_exp
    by (simp_all add: get32_def crc_low_byte le32_get32 del: drop_bit_or)
  show ?thesis
    by (simp only: update_crc32_fast_word_def Let_def b fast_byte_is_slow fold_simps id_apply o_apply)
qed

text \<open>
  The checksum of a buffer, computed a table lookup per byte, is the bitwise reference over the
  buffer's bytes in checksum order.
\<close>

lemma fs_pbfs_crc32_accum_reference: "fs_pbfs_crc32_accum crc bs = crc32_reference crc bs"
proof (induction crc bs rule: fs_pbfs_crc32_accum.induct, goal_cases)
  case (1 crc b0 b1 b2 b3 bs)
  then show ?case by (simp add: crc32_reference_def fast_word_is_slow)
next
  case (2 crc)
  then show ?case by (simp add: crc32_reference_def)
next
  case (3 crc v)
  have "crc_tail_word [v] = get32 [v, 0, 0, 0] 0"
    by (simp add: crc_tail_word_def get32_def)
  then show ?case by (simp add: crc32_reference_def fast_word_is_slow numeral_eq_Suc)
next
  case (4 crc v vb)
  have "crc_tail_word [v, vb] = get32 [vb, v, 0, 0] 0"
    by (simp add: crc_tail_word_def get32_def ac_simps)
  then show ?case by (simp add: crc32_reference_def fast_word_is_slow numeral_eq_Suc)
next
  case (5 crc v vb vd)
  have "crc_tail_word [v, vb, vd] = get32 [vd, vb, v, 0] 0"
    by (simp add: crc_tail_word_def get32_def ac_simps)
  then show ?case by (simp add: crc32_reference_def fast_word_is_slow numeral_eq_Suc)
qed

text \<open>Checksums of word-aligned pieces compose, which is what the 32-byte chunks of a file rely on.\<close>

lemma fs_pbfs_crc32_accum_append:
  "length xs mod 4 = 0 \<Longrightarrow>
     fs_pbfs_crc32_accum crc (xs @ ys) = fs_pbfs_crc32_accum (fs_pbfs_crc32_accum crc xs) ys"
  by (induction crc xs rule: fs_pbfs_crc32_accum.induct) simp_all

subsection \<open>Changed words are detected\<close>

lemma xor_cancel_right: "(a XOR c = b XOR c) \<longleftrightarrow> a = (b :: u32)"
  by (metis xor.assoc xor.right_neutral xor_self_eq)

lemma xor_cancel_left: "(c XOR a = c XOR b) \<longleftrightarrow> a = (b :: u32)"
  using xor_cancel_right [of a c b] by (simp add: xor.commute)

lemma xor_zero: "(a XOR b = 0) \<longleftrightarrow> a = (b :: u32)"
  using xor_cancel_right [of a b b] by simp

lemma crc_round_zero: "crc_round z = 0 \<Longrightarrow> z = 0"
proof -
  assume z: "crc_round z = 0"
  have nb: "\<not> bit z 31"
  proof
    assume "bit z 31"
    then have "push_bit 1 z = POLY" using z unfolding crc_round_def crc_top_bit by (simp only: if_True xor_zero)
    moreover have "\<not> bit (push_bit 1 z) 0" unfolding bit_push_bit_iff by simp
    moreover have "bit POLY 0" by (simp add: POLY_def)
    ultimately show False by simp
  qed
  then have p: "push_bit 1 z = 0" using z by (simp add: crc_round_def crc_top_bit)
  show "z = 0"
  proof (rule bit_word_eqI)
    fix n assume n: "n < LENGTH(32)"
    show "bit z n = bit 0 n"
    proof (cases "n = 31")
      case False
      have "bit (push_bit 1 z) (Suc n) = bit z n" using n False unfolding bit_push_bit_iff by simp
      then show ?thesis using p by simp
    qed (use nb in simp)
  qed
qed

lemma crc_round_inj: "crc_round x = crc_round y \<longleftrightarrow> x = y"
proof
  assume "crc_round x = crc_round y"
  then have "crc_round (x XOR y) = 0" by (simp add: crc_round_xor)
  then have "x XOR y = 0" by (rule crc_round_zero)
  then show "x = y" by (simp only: xor_zero)
qed simp

lemma crc_rounds_inj: "crc_rounds n x = crc_rounds n y \<longleftrightarrow> x = y"
  by (induction n arbitrary: x y) (simp_all add: crc_round_inj)

lemma crc_rounds_add: "crc_rounds (m + n) x = crc_rounds n (crc_rounds m x)"
  by (induction m arbitrary: x) simp_all

lemma crc_byte_rounds:
  "k \<le> 24 \<Longrightarrow> crc_rounds 8 x XOR push_bit k (ucast (b :: u8)) = crc_rounds 8 (x XOR push_bit (k - 8) (ucast b))" if "8 \<le> k"
proof -
  assume k: "k \<le> 24"
  have "crc_rounds 8 (push_bit (k - 8) (ucast b)) = push_bit 8 (push_bit (k - 8) (ucast b))"
  proof (rule crc_rounds_shift)
    show "\<forall>i. 32 - 8 \<le> i \<longrightarrow> \<not> bit (push_bit (k - 8) (ucast b :: u32)) i"
      using k by (auto simp: bit_simps dest: bit_imp_le_length)
  qed simp
  also have "\<dots> = push_bit k (ucast b)" using that by simp
  finally show ?thesis by (simp only: crc_rounds_xor)
qed

lemma fast_word_rounds: "update_crc32_fast_word crc w = crc_rounds 32 (crc XOR w)"
proof -
  obtain b0 b1 b2 b3 :: u8 where w: "w = get32 [b0, b1, b2, b3] 0"
  proof -
    have "w = get32 [ucast w, ucast (drop_bit 8 w), ucast (drop_bit 16 w), ucast (drop_bit 24 w)] 0"
      using get32_le32 [of w] by (simp add: get32_def)
    then show thesis by (rule that)
  qed
  have "update_crc32_fast_word crc w = crc_rounds 8 (crc_rounds 8 (crc_rounds 8 (crc_rounds 8
      (crc XOR push_bit 24 (ucast b3)) XOR push_bit 24 (ucast b2)) XOR push_bit 24 (ucast b1)) XOR push_bit 24 (ucast b0))"
    unfolding w fast_word_is_slow update_crc_slow_1byte_def by simp
  also have "\<dots> = crc_rounds 8 (crc_rounds 8 (crc_rounds 8 (crc_rounds 8
      (crc XOR push_bit 24 (ucast b3) XOR push_bit 16 (ucast b2) XOR push_bit 8 (ucast b1) XOR ucast b0))))"
    by (simp add: crc_byte_rounds xor.assoc)
  also have "\<dots> = crc_rounds 32 (crc XOR (push_bit 24 (ucast b3) XOR push_bit 16 (ucast b2) XOR push_bit 8 (ucast b1) XOR ucast b0))"
    using crc_rounds_add [of 8 8] crc_rounds_add [of 16 8] crc_rounds_add [of 24 8] by (simp add: xor.assoc)
  also have "push_bit 24 (ucast b3) XOR push_bit 16 (ucast b2) XOR push_bit 8 (ucast b1) XOR ucast b0 = w"
    unfolding w get32_def by (rule bit_word_eqI) (auto simp: bit_simps dest: bit_imp_le_length)
  finally show ?thesis .
qed

lemma accum_inj: "fs_pbfs_crc32_accum crc bs = fs_pbfs_crc32_accum crc' bs \<longleftrightarrow> crc = crc'"
proof (induction crc bs arbitrary: crc' rule: fs_pbfs_crc32_accum.induct)
qed (simp_all add: fast_word_rounds crc_rounds_inj xor_cancel_right)

text \<open>C29: the checksum PebbleFS computes a table lookup per byte is the bitwise CRC with the polynomial
  0x04c11db7 over the bytes in checksum order (each word highest byte first, the tail zero-padded in
  front), for every buffer length.\<close>

theorem fs_pbfs_crc32_bitwise: "fs_pbfs_crc32 bs = crc32_reference 0xFFFFFFFF bs"
  by (simp add: fs_pbfs_crc32_def fs_pbfs_crc32_accum_reference)

text \<open>Two buffers that differ in one aligned word have different checksums, whatever is
  around it.\<close>

theorem fs_pbfs_crc32_word_change:
  assumes "length xs mod 4 = 0" "length v = 4" "length w = 4" "v \<noteq> w"
  shows "fs_pbfs_crc32 (xs @ v @ ys) \<noteq> fs_pbfs_crc32 (xs @ w @ ys)"
proof -
  obtain v0 v1 v2 v3 w0 w1 w2 w3 where vw: "v = [v0, v1, v2, v3]" "w = [w0, w1, w2, w3]"
    using assms(2,3) by (auto simp: length_Suc_conv numeral_eq_Suc)
  have "get32 v 0 \<noteq> get32 w 0"
  proof
    assume "get32 v 0 = get32 w 0"
    then have "le32 (get32 v 0) = le32 (get32 w 0)" by simp
    then show False using assms(4) unfolding vw get32_def le32_def by (simp add: le32_get32 del: drop_bit_or)
  qed
  then have "fs_pbfs_crc32_accum crc (v @ ys) \<noteq> fs_pbfs_crc32_accum crc (w @ ys)" for crc
    unfolding vw by (simp add: accum_inj fast_word_rounds crc_rounds_inj xor_cancel_left)
  then show ?thesis using assms(1) by (simp add: fs_pbfs_crc32_def fs_pbfs_crc32_accum_append)
qed

theorem fs_pbfs_crc32_word_change_witness:
  "fs_pbfs_crc32 ([1, 2, 3, 4] @ [5, 6, 7, 8] @ [9]) \<noteq> fs_pbfs_crc32 ([1, 2, 3, 4] @ [5, 6, 7, 0] @ [9])"
  using fs_pbfs_crc32_word_change [of "[1, 2, 3, 4]" "[5, 6, 7, 8]" "[5, 6, 7, 0]" "[9]"] by simp

end
