(* ===== verification/Flash.thy ===== *)
theory Flash
  imports Prelude
begin

section \<open>The flash layer: rcore/flash.c over a NOR driver\<close>

text \<open>
  \<open>flash_read_bytes\<close>, \<open>flash_write_bytes\<close> and \<open>flash_erase\<close> of rcore/flash.c, over a record \<open>plat\<close> that
  holds the platform's macros (region geometry, DMA alignment, page mask) and the three
  routines of the platform's driver. The driver modelled is the one of the snowy family
  (hw/platform/snowy_family/snowy_ext_flash.c); the NOR chip behind it is a parameter
  \<open>nor_chip\<close>. The caller's RAM is a \<open>mem\<close>, because the writer branches on the address of the
  buffer; \<open>p_extra\<close> is the address at which the compiler places the bounce buffer \<open>extra\<close>, \<open>p_local\<close> the
  address of the local struct a caller of the layer reads or writes.

  The mutex is taken and given back around every driver call and the model is sequential; a
  read whose completion is never signalled panics, and is \<open>None\<close>. The locale \<open>nor_platform\<close>
  states what the layer relies on, and is interpreted on the snowy driver.
\<close>

subsection \<open>The platform\<close>

record plat =
  REGION_FS_START :: u32
  REGION_FS_PAGE_SIZE :: u32
  REGION_FS_N_PAGES :: nat
  REGION_FS_ERASE_SIZE :: u32
  DMA_ALIGNMENT :: u32
  FLASH_PAGE_MASK :: u32
  FLASH_PAGE_SIZE :: u32
  p_extra :: u32
  p_local :: u32
  hw_flash_read_bytes :: "mem \<Rightarrow> u32 \<Rightarrow> u32 \<Rightarrow> bytes option"
  hw_flash_write_sync :: "mem \<Rightarrow> u32 \<Rightarrow> bytes \<Rightarrow> (u32 \<times> mem) option"
  hw_flash_erase_sync :: "mem \<Rightarrow> u32 \<Rightarrow> u32 \<Rightarrow> (u32 \<times> mem) option"

subsection \<open>Reading\<close>

partial_function (option) flash_read_bytes :: "plat \<Rightarrow> mem \<Rightarrow> u32 \<Rightarrow> u32 \<Rightarrow> u32 \<Rightarrow> bytes option" where
  "flash_read_bytes p m address buffer num_bytes =
    (let al = DMA_ALIGNMENT p;
         unaligned = buffer AND (al - 1);
         nfix = (if al - unaligned > num_bytes then num_bytes else al - unaligned) in
     do { (done, address, num_bytes) \<leftarrow>
            (if unaligned \<noteq> 0
             then do { extra \<leftarrow> flash_read_bytes p m address (p_extra p) al;
                       Some (take (unat nfix) extra, address + nfix, num_bytes - nfix) }
             else Some ([], address, num_bytes));
          if num_bytes = 0 then Some done
          else do {
            body \<leftarrow> hw_flash_read_bytes p m address (num_bytes AND NOT (al - 1));
            let offset = num_bytes AND NOT (al - 1);
            if num_bytes AND (al - 1) \<noteq> 0
            then do { extra \<leftarrow> flash_read_bytes p m (address + offset) (p_extra p) al;
                      Some (done @ body @ take (unat (num_bytes - offset)) extra) }
            else Some (done @ body) } })"

subsection \<open>Writing\<close>

text \<open>The loop that copies a buffer of microflash through 64 bytes of SRAM. A negative
  \<open>nrem\<close> would be copied past the end of \<open>rambuf\<close>, which is \<open>None\<close>.\<close>

definition FLASHRAMBUFSIZ :: u32 where
  "FLASHRAMBUFSIZ = 64"

partial_function (option) flash_rambuf_loop ::
    "plat \<Rightarrow> mem \<Rightarrow> u32 \<Rightarrow> u32 \<Rightarrow> mem \<Rightarrow> u32 \<Rightarrow> u32 \<Rightarrow> u32 \<Rightarrow> (u32 \<times> mem) option" where
  "flash_rambuf_loop p ram addr buf m nrem ndone rv =
    (if nrem = 0 then Some (rv, m)
     else let nthis = (if nrem <s FLASHRAMBUFSIZ then nrem else FLASHRAMBUFSIZ) in
       do { c_assert (0 <s nthis);
            (r, m) \<leftarrow> hw_flash_write_sync p m (addr + ndone) (mread ram (unat (buf + ndone)) (unat nthis));
            flash_rambuf_loop p ram addr buf m (nrem - nthis) (ndone + nthis) (rv OR r) })"

definition flash_write_aligned_paged ::
    "plat \<Rightarrow> mem \<Rightarrow> mem \<Rightarrow> u32 \<Rightarrow> u32 \<Rightarrow> u32 \<Rightarrow> (u32 \<times> mem) option" where
  "flash_write_aligned_paged p ram m addr buf len = do {
     c_assert ((addr + len - 1) AND FLASH_PAGE_MASK p = addr AND FLASH_PAGE_MASK p);
     c_assert (len AND (DMA_ALIGNMENT p - 1) = 0);
     c_assert (buf AND (DMA_ALIGNMENT p - 1) = 0);
     (if buf < 0x20000000 then flash_rambuf_loop p ram addr buf m len 0 0
      else hw_flash_write_sync p m addr (mread ram (unat buf) (unat len))) }"

text \<open>The bounce buffer of an unaligned edge: \<open>n\<close> bytes of the caller at index \<open>at\<close> of four bytes
  0xFF, written from the address of \<open>extra\<close>.\<close>

definition extra_mem :: "plat \<Rightarrow> mem \<Rightarrow> nat \<Rightarrow> bytes \<Rightarrow> mem" where
  "extra_mem p ram at bs = mwrite (mwrite ram (unat (p_extra p)) [0xFF, 0xFF, 0xFF, 0xFF]) (unat (p_extra p) + at) bs"

definition flash_write_paged ::
    "plat \<Rightarrow> mem \<Rightarrow> mem \<Rightarrow> u32 \<Rightarrow> u32 \<Rightarrow> u32 \<Rightarrow> (u32 \<times> mem) option" where
  "flash_write_paged p ram m addr buf len =
    (let al = DMA_ALIGNMENT p;
         unaligned = buf AND (al - 1);
         nfix = (if al - unaligned > len then len else al - unaligned);
         justify = (if (addr AND NOT (FLASH_PAGE_MASK p)) > FLASH_PAGE_SIZE p div 2 then al - nfix else 0) in
     do { c_assert ((addr + len - 1) AND FLASH_PAGE_MASK p = addr AND FLASH_PAGE_MASK p);
          (rv, m, addr, buf, len) \<leftarrow>
            (if unaligned \<noteq> 0
             then do { c_assert (al \<le> 4);
                       (r, m) \<leftarrow> flash_write_aligned_paged p
                          (extra_mem p ram (unat justify) (mread ram (unat buf) (unat nfix)))
                          m (addr - justify) (p_extra p) al;
                       Some (r, m, addr + nfix, buf + nfix, len - nfix) }
             else Some (0, m, addr, buf, len));
          if len = 0 then Some (rv, m)
          else do {
            (r, m) \<leftarrow> flash_write_aligned_paged p ram m addr buf (len AND NOT (al - 1));
            if len AND (al - 1) \<noteq> 0
            then do { c_assert (al \<le> 4);
                      let offset = len AND NOT (al - 1);
                      let realign = al - (len - offset);
                      (r', m) \<leftarrow> flash_write_aligned_paged p
                         (extra_mem p ram (unat realign) (mread ram (unat (buf + offset)) (unat (len - offset))))
                         m (addr + offset - realign) (p_extra p) al;
                      Some (rv OR r OR r', m) }
            else Some (rv OR r, m) } })"

partial_function (option) flash_write_bytes ::
    "plat \<Rightarrow> mem \<Rightarrow> mem \<Rightarrow> u32 \<Rightarrow> u32 \<Rightarrow> u32 \<Rightarrow> (u32 \<times> mem) option" where
  "flash_write_bytes p ram m addr buf len =
    (if len = 0 then Some (0, m)
     else let npagemax = FLASH_PAGE_SIZE p - (addr AND NOT (FLASH_PAGE_MASK p));
              nthis = (if npagemax <s len then npagemax else len) in
       do { (rv, m) \<leftarrow> flash_write_paged p ram m addr buf nthis;
            if rv \<noteq> 0 then Some (rv, m)
            else flash_write_bytes p ram m (addr + nthis) (buf + nthis) (len - nthis) })"

definition flash_erase :: "plat \<Rightarrow> mem \<Rightarrow> u32 \<Rightarrow> u32 \<Rightarrow> (u32 \<times> mem) option" where
  "flash_erase p m address len = hw_flash_erase_sync p m address len"


subsection \<open>The snowy driver\<close>

text \<open>
  The chip takes a write-buffer-load command (sector address, number of 16-bit words less one,
  the words with their addresses) or a sector-erase command, and answers a sequence of status
  words together with the new contents.
\<close>

record nor_chip =
  chip_program :: "mem \<Rightarrow> u32 \<Rightarrow> u16 \<Rightarrow> (u32 \<times> u8 \<times> u8) list \<Rightarrow> u16 list \<times> mem"
  chip_erase :: "mem \<Rightarrow> u32 \<Rightarrow> u16 list \<times> mem"

definition SECTOR_START :: "u32 \<Rightarrow> u32" where
  "SECTOR_START address = address AND 0xFFFF0000"

definition snowy_flash_read_bytes :: "mem \<Rightarrow> u32 \<Rightarrow> u32 \<Rightarrow> bytes option" where
  "snowy_flash_read_bytes m address n = Some (mread m (unat address) (unat n))"

text \<open>\<open>do ... while (!(sr & READY))\<close>; a chip that never gets ready is \<open>None\<close>.\<close>

primrec flash_poll_complete :: "u16 list \<Rightarrow> u32 option" where
  "flash_poll_complete [] = None" |
  "flash_poll_complete (sr # srs) =
     (if sr AND 0x80 \<noteq> 0 then Some (ucast (sr AND (0x20 OR 0x10))) else flash_poll_complete srs)"

primrec snowy_load :: "nat \<Rightarrow> u32 \<Rightarrow> u32 \<Rightarrow> bool \<Rightarrow> bool \<Rightarrow> u32 \<Rightarrow> bytes \<Rightarrow> (u32 \<times> u8 \<times> u8) list" where
  "snowy_load 0 i len_padded sa ea base buf = []" |
  "snowy_load (Suc k) i len_padded sa ea base buf =
    (let (v0, buf) = (if i = 0 \<and> sa then (0xFF, buf) else (hd buf, tl buf));
         (v1, buf) = (if i = len_padded - 2 \<and> ea then (0xFF, buf) else (hd buf, tl buf))
     in (base + i, v0, v1) # snowy_load k (i + 2) len_padded sa ea base buf)"

definition snowy_flash_write_sync :: "nor_chip \<Rightarrow> mem \<Rightarrow> u32 \<Rightarrow> bytes \<Rightarrow> (u32 \<times> mem) option" where
  "snowy_flash_write_sync c m address buffer =
    (let len = word_of_nat (length buffer) :: u32;
         start_align = address mod 2;
         end_align = (address + len) mod 2;
         addr_aligned = address AND NOT 1;
         len_padded = len + start_align + end_align
     in do { c_assert (len_padded AND 1 = 0);
             c_assert (address AND NOT 63 = (address + len - 1) AND NOT 63);
             let (srs, m') = chip_program c m (SECTOR_START addr_aligned) (ucast (len_padded div 2 - 1))
                     (snowy_load (unat (len_padded div 2)) 0 len_padded (start_align \<noteq> 0) (end_align \<noteq> 0) addr_aligned buffer);
             err \<leftarrow> flash_poll_complete srs;
             Some (err, m') })"

definition snowy_flash_erase_32k_sync :: "nor_chip \<Rightarrow> mem \<Rightarrow> u32 \<Rightarrow> (u32 \<times> mem) option" where
  "snowy_flash_erase_32k_sync c m address =
    (let (srs, m') = chip_erase c m address
     in do { err \<leftarrow> flash_poll_complete srs; Some (err, m') })"

partial_function (option) snowy_erase_loop :: "nor_chip \<Rightarrow> mem \<Rightarrow> u32 \<Rightarrow> u32 \<Rightarrow> (u32 \<times> mem) option" where
  "snowy_erase_loop c m addr len =
    (if len = 0 then Some (0, m)
     else do { (rv, m) \<leftarrow> snowy_flash_erase_32k_sync c m addr;
               if rv \<noteq> 0 then Some (rv, m)
               else snowy_erase_loop c m (addr + 0x8000) (len - 0x8000) })"

definition snowy_flash_erase_sync :: "nor_chip \<Rightarrow> mem \<Rightarrow> u32 \<Rightarrow> u32 \<Rightarrow> (u32 \<times> mem) option" where
  "snowy_flash_erase_sync c m addr len = do {
     c_assert (addr AND (0x8000 - 1) = 0);
     c_assert (len AND (0x8000 - 1) = 0);
     snowy_erase_loop c m addr len }"

definition snowy_plat :: "nor_chip \<Rightarrow> plat" where
  "snowy_plat c = \<lparr> REGION_FS_START = 0x400000, REGION_FS_PAGE_SIZE = 0x2000,
     REGION_FS_N_PAGES = (0x1000000 - 0x400000) div 0x2000, REGION_FS_ERASE_SIZE = 0x8000,
     DMA_ALIGNMENT = 1, FLASH_PAGE_MASK = 0xFFFFFFC0, FLASH_PAGE_SIZE = 64, p_extra = 0x20010000, p_local = 0x20010100,
     hw_flash_read_bytes = snowy_flash_read_bytes,
     hw_flash_write_sync = snowy_flash_write_sync c,
     hw_flash_erase_sync = snowy_flash_erase_sync c \<rparr>"

text \<open>The chip as its data sheet describes it: a word already in the array is ANDed with the
  word written, an erased sector holds 0xFF.\<close>

definition nor_words :: "mem \<Rightarrow> (u32 \<times> u8 \<times> u8) list \<Rightarrow> mem" where
  "nor_words m ws = foldl (\<lambda>m (a, v0, v1). mprogram m (unat a) [v0, v1]) m ws"

definition nor_ideal :: nor_chip where
  "nor_ideal = \<lparr> chip_program = (\<lambda>m sector cnt ws. ([0, 0x80], nor_words m ws)),
                chip_erase = (\<lambda>m a. ([0, 0, 0x80], mfill m (unat a) 0x8000 0xFF)) \<rparr>"

definition nor_chip_ok :: "nor_chip \<Rightarrow> bool" where
  "nor_chip_ok c \<longleftrightarrow>
     (\<forall>m s cnt ws. unat cnt + 1 = length ws \<longrightarrow> (\<forall>(a, v0, v1) \<in> set ws. SECTOR_START a = s) \<longrightarrow>
        flash_poll_complete (fst (chip_program c m s cnt ws)) = Some 0 \<and>
        snd (chip_program c m s cnt ws) = nor_words m ws) \<and>
     (\<forall>m a. a AND 0x7FFF = 0 \<longrightarrow>
        flash_poll_complete (fst (chip_erase c m a)) = Some 0 \<and>
        snd (chip_erase c m a) = mfill m (unat a) 0x8000 0xFF)"

lemma nor_ideal_ok: "nor_chip_ok nor_ideal"
  by (simp add: nor_chip_ok_def nor_ideal_def)

subsection \<open>What the layer relies on\<close>

locale nor_platform =
  fixes p :: plat and pbits :: nat and size :: nat
  assumes align1: "DMA_ALIGNMENT p = 1"
    and pbits: "pbits < 31"
    and page_size: "FLASH_PAGE_SIZE p = 2 ^ pbits"
    and page_mask: "FLASH_PAGE_MASK p = NOT (2 ^ pbits - 1)"
    and size32: "size < 2 ^ 31"
    and hw_read: "unat a + unat n \<le> size \<Longrightarrow> hw_flash_read_bytes p m a n = Some (mread m (unat a) (unat n))"
    and hw_write: "bs \<noteq> [] \<Longrightarrow> unat a + length bs \<le> size \<Longrightarrow>
       (unat a + length bs - 1) div 2 ^ pbits = unat a div 2 ^ pbits \<Longrightarrow>
       hw_flash_write_sync p m a bs = Some (0, mprogram m (unat a) bs)"
    and hw_erase: "unat a mod 0x8000 = 0 \<Longrightarrow> unat n mod 0x8000 = 0 \<Longrightarrow> unat a + unat n \<le> size \<Longrightarrow>
       hw_flash_erase_sync p m a n = Some (0, mfill m (unat a) (unat n) 0xFF)"
begin

lemma flash_read:
  assumes "unat a + unat n \<le> size"
  shows "flash_read_bytes p m a buf n = Some (mread m (unat a) (unat n))"
  using assms
  by (subst flash_read_bytes.simps) (simp add: align1 Let_def hw_read)

lemma flash_erase_ok:
  "unat a mod 0x8000 = 0 \<Longrightarrow> unat n mod 0x8000 = 0 \<Longrightarrow> unat a + unat n \<le> size \<Longrightarrow>
   flash_erase p m a n = Some (0, mfill m (unat a) (unat n) 0xFF)"
  by (simp add: flash_erase_def hw_erase)

end

context nor_platform begin

lemma hw_write_mread:
  assumes "0 < n" "unat a + n \<le> size" "(unat a + n - 1) div 2 ^ pbits = unat a div 2 ^ pbits"
  shows "hw_flash_write_sync p m a (mread ram b n) = Some (0, mprogram m (unat a) (mread ram b n))"
proof -
  have "mread ram b n \<noteq> []" using assms(1) by (metis length_greater_0_conv mread_length)
  then show ?thesis using assms by (intro hw_write) simp_all
qed

lemma rambuf_loop:
  assumes "unat nrem < 2 ^ 31" "unat (a + nd) + unat nrem \<le> size"
    and "unat nrem = 0 \<or> (unat (a + nd) + unat nrem - 1) div 2 ^ pbits = unat (a + nd) div 2 ^ pbits"
    and "unat (buf + nd) + unat nrem < 2 ^ 32"
  shows "flash_rambuf_loop p ram a buf m nrem nd rv
    = Some (rv, mprogram m (unat (a + nd)) (mread ram (unat (buf + nd)) (unat nrem)))"
  using assms
proof (induction "unat nrem" arbitrary: nrem nd m rule: less_induct)
  case less
  show ?case
  proof (cases "nrem = 0")
    case True
    then show ?thesis by (subst flash_rambuf_loop.simps) simp
  next
    case False
    define t where "t = (if nrem <s FLASHRAMBUFSIZ then nrem else FLASHRAMBUFSIZ)"
    have u: "unat t = min (unat nrem) 64"
      unfolding t_def FLASHRAMBUFSIZ_def using less.prems(1) by (simp add: sless_unat)
    have n0: "0 < unat nrem" using False by (simp add: unat_gt_0)
    have t0: "0 <s t" using u n0 by (subst sless_unat) (simp_all)
    have le: "unat t \<le> unat nrem" using u by simp
    have sub: "unat (nrem - t) = unat nrem - unat t" using le by (simp add: unat_sub_small word_le_nat_alt)
    have at: "unat (a + (nd + t)) = unat (a + nd) + unat t"
      using less.prems(2) size32 le unfolding add.assoc [symmetric] by (subst unat_add_small) simp_all
    have bt: "unat (buf + (nd + t)) = unat (buf + nd) + unat t"
      using less.prems(4) le unfolding add.assoc [symmetric] by (subst unat_add_small) simp_all
    have full: "(unat (a + nd) + unat nrem - 1) div 2 ^ pbits = unat (a + nd) div 2 ^ pbits"
      using less.prems(3) n0 by simp
    have page: "(unat (a + nd) + unat t - 1) div 2 ^ pbits = unat (a + nd) div 2 ^ pbits"
      by (rule div_between [OF _ _ full]) (use le u n0 in auto)
    have nxt: "(unat (a + nd) + unat t) div 2 ^ pbits = unat (a + nd) div 2 ^ pbits" if "unat t < unat nrem"
      by (rule div_between [OF _ _ full]) (use that in auto)
    have page2: "unat (nrem - t) = 0 \<or> (unat (a + (nd + t)) + unat (nrem - t) - 1) div 2 ^ pbits = unat (a + (nd + t)) div 2 ^ pbits"
      using nxt full at sub le by (cases "unat t < unat nrem") auto
    have hw: "hw_flash_write_sync p m (a + nd) (mread ram (unat (buf + nd)) (unat t))
       = Some (0, mprogram m (unat (a + nd)) (mread ram (unat (buf + nd)) (unat t)))"
      using u n0 le less.prems(2) page by (intro hw_write_mread) simp_all
    have split: "mread ram (unat (buf + nd)) (unat nrem)
       = mread ram (unat (buf + nd)) (unat t) @ mread ram (unat (buf + (nd + t))) (unat (nrem - t))"
      unfolding bt sub using le by (subst mread_add [symmetric]) simp
    show ?thesis
      apply (subst flash_rambuf_loop.simps)
      apply (simp add: False Let_def t_def [symmetric] t0 hw)
      apply (subst less.hyps)
      subgoal using sub u n0 by simp
      subgoal using sub less.prems(1) by simp
      subgoal using at sub le less.prems(2) by simp
      subgoal using page2 by simp
      subgoal using bt sub le less.prems(4) by simp
      by (simp add: split mprogram_append at add.assoc)
  qed
qed

lemma write_aligned:
  assumes "0 < unat n" "unat a + unat n \<le> size" "(unat a + unat n - 1) div 2 ^ pbits = unat a div 2 ^ pbits"
    and "unat buf + unat n < 2 ^ 32"
  shows "flash_write_aligned_paged p ram m a buf n = Some (0, mprogram m (unat a) (mread ram (unat buf) (unat n)))"
proof -
  have "unat (a + n) = unat a + unat n" using assms(2) size32 by (intro unat_add_small) simp
  then have "unat (a + n - 1) = unat a + unat n - 1"
    using assms(1) by (subst unat_sub_small) (simp_all add: word_le_nat_alt)
  then have page: "(a + n - 1) AND FLASH_PAGE_MASK p = a AND FLASH_PAGE_MASK p"
    unfolding page_mask page_eq_iff using assms(3) by simp
  have "flash_rambuf_loop p ram a buf m n 0 0 = Some (0, mprogram m (unat (a + 0)) (mread ram (unat (buf + 0)) (unat n)))"
    using assms size32 by (intro rambuf_loop) simp_all
  moreover have "hw_flash_write_sync p m a (mread ram (unat buf) (unat n)) = Some (0, mprogram m (unat a) (mread ram (unat buf) (unat n)))"
    using assms by (intro hw_write_mread) simp_all
  ultimately show ?thesis
    unfolding flash_write_aligned_paged_def by (simp add: page align1)
qed

lemma write_paged:
  assumes "0 < unat n" "unat a + unat n \<le> size" "(unat a + unat n - 1) div 2 ^ pbits = unat a div 2 ^ pbits"
    and "unat buf + unat n < 2 ^ 32"
  shows "flash_write_paged p ram m a buf n = Some (0, mprogram m (unat a) (mread ram (unat buf) (unat n)))"
proof -
  have "unat (a + n) = unat a + unat n" using assms(2) size32 by (intro unat_add_small) simp
  then have "unat (a + n - 1) = unat a + unat n - 1"
    using assms(1) by (subst unat_sub_small) (simp_all add: word_le_nat_alt)
  then have page: "(a + n - 1) AND FLASH_PAGE_MASK p = a AND FLASH_PAGE_MASK p"
    unfolding page_mask page_eq_iff using assms(3) by simp
  have "n \<noteq> 0" using assms(1) by auto
  then show ?thesis
    unfolding flash_write_paged_def by (simp add: Let_def page align1 write_aligned [OF assms])
qed

lemma flash_write:
  assumes "unat a + unat n \<le> size" "unat buf + unat n < 2 ^ 32"
  shows "flash_write_bytes p ram m a buf n = Some (0, mprogram m (unat a) (mread ram (unat buf) (unat n)))"
  using assms
proof (induction "unat n" arbitrary: n a buf m rule: less_induct)
  case less
  show ?case
  proof (cases "n = 0")
    case True
    then show ?thesis by (subst flash_write_bytes.simps) simp
  next
    case False
    define mx where "mx = FLASH_PAGE_SIZE p - (a AND NOT (FLASH_PAGE_MASK p))"
    define t where "t = (if mx <s n then mx else n)"
    have ps: "unat (FLASH_PAGE_SIZE p) = 2 ^ pbits" using pbits by (simp add: page_size unat_power_two)
    have po: "unat (a AND NOT (FLASH_PAGE_MASK p)) = unat a mod 2 ^ pbits" unfolding page_mask by (rule unat_page_offset)
    have lt: "unat a mod 2 ^ pbits < 2 ^ pbits" by simp
    have "unat (a AND NOT (FLASH_PAGE_MASK p)) \<le> unat (FLASH_PAGE_SIZE p)" unfolding ps po using lt by (rule less_imp_le)
    then have mx: "unat mx = 2 ^ pbits - unat a mod 2 ^ pbits"
      unfolding mx_def by (subst unat_sub_small) (simp_all add: word_le_nat_alt ps po)
    have "(2 :: nat) ^ pbits < 2 ^ 31" using pbits by (intro power_strict_increasing) simp_all
    then have u: "unat t = min (unat n) (2 ^ pbits - unat a mod 2 ^ pbits)"
      unfolding t_def using less.prems(1) size32 mx by (subst sless_unat) auto
    have n0: "0 < unat n" using False by (simp add: unat_gt_0)
    have t0: "0 < unat t" using u n0 lt by simp
    have le: "unat t \<le> unat n" using u by simp
    have page: "(unat a + unat t - 1) div 2 ^ pbits = unat a div 2 ^ pbits"
      by (rule div_in_block [OF t0]) (use u lt in linarith)
    have sub: "unat (n - t) = unat n - unat t" using le by (simp add: unat_sub_small word_le_nat_alt)
    have at: "unat (a + t) = unat a + unat t"
      using less.prems(1) size32 le by (intro unat_add_small) simp
    have bt: "unat (buf + t) = unat buf + unat t"
      using less.prems(2) le by (intro unat_add_small) simp
    have w: "flash_write_paged p ram m a buf t = Some (0, mprogram m (unat a) (mread ram (unat buf) (unat t)))"
      using t0 le less.prems page by (intro write_paged) simp_all
    have split: "mread ram (unat buf) (unat n) = mread ram (unat buf) (unat t) @ mread ram (unat (buf + t)) (unat (n - t))"
      unfolding bt sub using le by (subst mread_add [symmetric]) simp
    have "flash_write_bytes p ram m a buf n = flash_write_bytes p ram (mprogram m (unat a) (mread ram (unat buf) (unat t))) (a + t) (buf + t) (n - t)"
      by (subst flash_write_bytes.simps) (simp add: False Let_def mx_def [symmetric] t_def [symmetric] w)
    also have "\<dots> = Some (0, mprogram (mprogram m (unat a) (mread ram (unat buf) (unat t))) (unat (a + t)) (mread ram (unat (buf + t)) (unat (n - t))))"
      using sub t0 n0 at bt le less.prems by (intro less.hyps) simp_all
    finally show ?thesis by (simp add: split mprogram_append at)
  qed
qed
end

lemma mprogram_ff_Cons: "mprogram m a (0xFF # bs) = mprogram m (a + 1) bs"
proof
  show "mprogram m a (0xFF # bs) x = mprogram m (a + 1) bs x" for x
    by (cases "x = a") (auto simp: mprogram_def nth_Cons' simp del: One_nat_def)
qed

lemma mprogram_ff_snoc: "mprogram m a (bs @ [0xFF]) = mprogram m a bs"
  by (simp add: mprogram_append mprogram_ff_Cons)

lemma mprogram_ff_append: "mprogram m a ([0xFF] @ bs) = mprogram m (Suc a) bs"
  by (simp add: mprogram_ff_Cons)

lemma nor_words_Cons: "nor_words m ((a, v0, v1) # ws) = nor_words (mprogram m (unat a) [v0, v1]) ws"
  by (simp add: nor_words_def)

lemma snowy_load_length: "length (snowy_load k i lp sa ea base buf) = k"
  by (induction k arbitrary: i buf) (auto simp: Let_def split: prod.split)

lemma snowy_load_addr:
  "(x, v) \<in> set (snowy_load k i lp sa ea base buf) \<Longrightarrow> \<exists>j < k. x = base + i + word_of_nat (2 * j)"
proof (induction k arbitrary: i buf)
  case (Suc k)
  from Suc.prems obtain b where "x = base + i \<or> (x, v) \<in> set (snowy_load k (i + 2) lp sa ea base b)"
    by (auto simp: Let_def split: prod.splits if_splits)
  then show ?case
  proof
    assume "x = base + i"
    then show ?thesis by (intro exI [of _ 0]) simp
  next
    assume "(x, v) \<in> set (snowy_load k (i + 2) lp sa ea base b)"
    then obtain j where "j < k" "x = base + (i + 2) + word_of_nat (2 * j)" using Suc.IH by blast
    then show ?thesis by (intro exI [of _ "Suc j"]) (simp add: algebra_simps)
  qed
qed simp

lemma snowy_load_words:
  assumes "unat i + 2 * k = unat lp" "unat base + unat lp < 2 ^ 32"
    and "length buf + (if i = 0 \<and> sa then 1 else 0) + (if ea then 1 else 0) = 2 * k" "0 < k"
  shows "nor_words m (snowy_load k i lp sa ea base buf)
    = mprogram m (unat base + unat i) ((if i = 0 \<and> sa then [0xFF] else []) @ buf @ (if ea then [0xFF] else []))"
  using assms
proof (induction k arbitrary: i buf m)
  case (Suc k)
  have lp2: "unat (lp - 2) = unat lp - 2" using Suc.prems(1) by (subst unat_sub_small) (simp_all add: word_le_nat_alt)
  have last: "i = lp - 2 \<longleftrightarrow> k = 0"
    using Suc.prems(1) lp2 by (auto simp: word_unat_eq_iff)
  have bi: "unat (base + i) = unat base + unat i" using Suc.prems(1,2) by (intro unat_add_small) simp
  show ?case
  proof (cases k)
    case 0
    then have "i = lp - 2" using last by simp
    then show ?thesis using 0 bi Suc.prems(3)
      by (auto simp: Let_def nor_words_Cons nor_words_def length_Suc_conv numeral_2_eq_2)
  next
    case (Suc k')
    have i2: "unat (i + 2) = unat i + 2" using Suc.prems(1,2) by (subst unat_add_small) simp_all
    then have nz: "i + 2 \<noteq> 0" by auto
    have nl: "i \<noteq> lp - 2" using last Suc by simp
    define hd2 rest where "hd2 = (if i = 0 \<and> sa then [0xFF, hd buf] else [hd buf, hd (tl buf)])"
      and "rest = (if i = 0 \<and> sa then tl buf else tl (tl buf))"
    have "2 \<le> length buf + (if i = 0 \<and> sa then 1 else 0)"
      using Suc.prems(3) Suc by (auto split: if_splits)
    then have buf: "(if i = 0 \<and> sa then [0xFF] else []) @ buf = hd2 @ rest"
      unfolding hd2_def rest_def by (cases buf; cases "tl buf") (auto split: if_splits)
    have "length ((if i = 0 \<and> sa then [0xFF] else []) @ buf) = length (hd2 @ rest)"
      by (simp only: buf)
    then have len: "length buf + (if i = 0 \<and> sa then 1 else 0) = length rest + 2"
      unfolding hd2_def length_append by (simp split: if_splits)
    have "nor_words m (snowy_load (Suc k) i lp sa ea base buf)
        = nor_words (mprogram m (unat (base + i)) hd2) (snowy_load k (i + 2) lp sa ea base rest)"
      using nl by (auto simp: Let_def nor_words_Cons hd2_def rest_def)
    also have "\<dots> = mprogram (mprogram m (unat (base + i)) hd2) (unat base + unat (i + 2))
        ((if i + 2 = 0 \<and> sa then [0xFF] else []) @ rest @ (if ea then [0xFF] else []))"
      using Suc.prems len nz i2 Suc by (intro Suc.IH) (auto split: if_splits)
    also have "\<dots> = mprogram m (unat base + unat i) (hd2 @ rest @ (if ea then [0xFF] else []))"
      using nz i2 bi by (simp add: mprogram_append hd2_def)
    finally show ?thesis using buf by (metis append.assoc)
  qed
qed simp

lemma mod2_unat: "unat ((a :: u32) mod 2) = unat a mod 2"
  by (simp add: unat_mod_distrib)

lemma and_one_zero: "((a :: u32) AND 1 = 0) = (unat a mod 2 = 0)"
  unfolding word_unat_eq_iff and_one_eq by (simp add: unat_mod_distrib)

lemma sector_eq: "a AND NOT 63 = b AND NOT 63 \<Longrightarrow> SECTOR_START a = SECTOR_START b"
proof -
  assume eq: "a AND NOT 63 = b AND NOT 63"
  have "x AND 0xFFFF0000 = (x AND NOT 63) AND 0xFFFF0000" for x :: u32
    by (simp add: and.assoc)
  then show ?thesis unfolding SECTOR_START_def using eq by metis
qed

lemma page64_eq_iff: "((a :: u32) AND NOT 63 = b AND NOT 63) = (unat a div 64 = unat b div 64)"
  using page_eq_iff [of a 6 b] by simp

lemma unat_and_not1: "unat ((a :: u32) AND NOT 1) = unat a - unat a mod 2"
proof -
  have "a AND NOT (mask n) = push_bit n (drop_bit n a)" for n
    by (rule bit_eqI) (auto simp: bit_simps)
  from this [of 1] have "a AND NOT 1 = push_bit 1 (drop_bit 1 a)" by (simp add: mask_eq_exp_minus_1)
  moreover have "push_bit 1 (drop_bit 1 a) + take_bit 1 a = a" by (rule bits_ident)
  ultimately have "a AND NOT 1 = a - a mod 2" by (metis add_diff_cancel_right' take_bit_eq_mod power_one_right)
  moreover have "a mod 2 \<le> a" by (metis word_le_nat_alt mod2_unat mod_less_eq_dividend)
  ultimately show ?thesis by (metis unat_sub_small mod2_unat)
qed

lemma block_len: "(x + n - 1) div 64 = x div 64 \<Longrightarrow> n \<le> (64 :: nat)"
proof -
  assume "(x + n - 1) div 64 = x div 64"
  moreover have "(x + n - 1) div 64 * 64 + (x + n - 1) mod 64 = x + n - 1" by (rule div_mult_mod_eq)
  moreover have "x div 64 * 64 + x mod 64 = x" by (rule div_mult_mod_eq)
  moreover have "(x + n - 1) mod 64 < 64" by simp
  ultimately show ?thesis by linarith
qed

lemma word_pairs: "j < k \<Longrightarrow> 2 * k = n + a mod 2 + (a + n) mod 2 \<Longrightarrow> a div 2 + j \<le> (a + n - 1) div (2 :: nat)"
proof -
  assume j: "j < k" and k: "2 * k = n + a mod 2 + (a + n) mod 2"
  have *: "q * 2 + r = a \<Longrightarrow> e < 2 \<Longrightarrow> r \<le> a \<Longrightarrow> 2 * k = n + r + e \<Longrightarrow> e \<le> a + n \<Longrightarrow> (q + j) * 2 \<le> a + n - 1" for q r e
  proof -
    assume a: "q * 2 + r = a" "e < 2" "2 * k = n + r + e"
    have "2 * j + 2 \<le> 2 * k" using j by simp
    then have "(q + j) * 2 + 1 \<le> a + n" using a by simp
    then show ?thesis by simp
  qed
  have "(a div 2 + j) * 2 \<le> a + n - 1"
    by (rule * [OF div_mult_mod_eq _ _ k]) simp_all
  then show ?thesis by (simp add: less_eq_div_iff_mult_less_eq)
qed

lemma pairs_page: "(q + j) div 32 = q div 32 \<Longrightarrow> x = (q + j) * 2 \<Longrightarrow> x div 64 = q * 2 div (64 :: nat)"
proof -
  have *: "y * 2 div 64 = y div (32 :: nat)" for y using div_mult_mult2 [of 2 y 32] by simp
  show "(q + j) div 32 = q div 32 \<Longrightarrow> x = (q + j) * 2 \<Longrightarrow> x div 64 = q * 2 div (64 :: nat)"
    by (simp only: *)
qed

lemma snowy_write:
  assumes c: "nor_chip_ok c" and ne: "bs \<noteq> []" and fit: "unat a + length bs \<le> 0x1000000"
    and page: "(unat a + length bs - 1) div 64 = unat a div 64"
  shows "snowy_flash_write_sync c m a bs = Some (0, mprogram m (unat a) bs)"
proof -
  define len where "len = (word_of_nat (length bs) :: u32)"
  define sa where "sa = a mod 2"
  define ea where "ea = (a + len) mod 2"
  define base where "base = a AND NOT 1"
  define lp where "lp = len + sa + ea"
  define k where "k = unat (lp div 2)"
  have n0: "0 < length bs" using ne by simp
  have l64: "length bs \<le> 64" by (rule block_len [OF page])
  have ul: "unat len = length bs" unfolding len_def using l64 by (simp add: unat_of_nat)
  have ual: "unat (a + len) = unat a + length bs" using fit ul by (subst unat_add_small) simp_all
  have usa: "unat sa = unat a mod 2" and uea: "unat ea = (unat a + length bs) mod 2"
    by (simp_all add: sa_def ea_def mod2_unat ual)
  have ulp: "unat lp = length bs + unat sa + unat ea"
  proof -
    have "unat (len + sa) = length bs + unat sa" using ul usa l64 by (subst unat_add_small) simp_all
    moreover have "unat (len + sa + ea) = unat (len + sa) + unat ea"
      using calculation usa uea l64 by (subst unat_add_small) simp_all
    ultimately show ?thesis unfolding lp_def by simp
  qed
  have even: "unat lp mod 2 = 0" unfolding ulp usa uea by presburger
  have uk: "unat lp = 2 * k" and k0: "0 < k"
  proof -
    have k: "k = unat lp div 2" unfolding k_def by (simp add: unat_div_distrib)
    then show "unat lp = 2 * k" using even by presburger
    then show "0 < k" using ulp n0 by linarith
  qed
  have k33: "k \<le> 33" using uk ulp usa uea l64 by linarith
  have ub: "unat base + unat sa = unat a" unfolding base_def usa unat_and_not1 by simp
  have load: "nor_words m (snowy_load k 0 lp (sa \<noteq> 0) (ea \<noteq> 0) base bs) = mprogram m (unat a) bs"
  proof -
    have sa01: "unat sa = (if sa \<noteq> 0 then 1 else 0)" "unat ea = (if ea \<noteq> 0 then 1 else 0)"
      using usa uea by (auto simp: word_unat_eq_iff)
    have "nor_words m (snowy_load k 0 lp (sa \<noteq> 0) (ea \<noteq> 0) base bs)
       = mprogram m (unat base + unat (0 :: u32)) ((if (0 :: u32) = 0 \<and> sa \<noteq> 0 then [0xFF] else []) @ bs @ (if ea \<noteq> 0 then [0xFF] else []))"
      using uk k0 ulp sa01 ub fit l64 by (intro snowy_load_words) (auto split: if_splits)
    then show ?thesis using ub sa01
      by (auto simp: mprogram_ff_append mprogram_ff_snoc simp del: append_Cons split: if_splits)
  qed
  have sect: "\<forall>(x, v0, v1) \<in> set (snowy_load k 0 lp (sa \<noteq> 0) (ea \<noteq> 0) base bs). SECTOR_START x = SECTOR_START base"
  proof (safe)
    fix x v0 v1 assume "(x, v0, v1) \<in> set (snowy_load k 0 lp (sa \<noteq> 0) (ea \<noteq> 0) base bs)"
    then obtain j where j: "j < k" "x = base + word_of_nat (2 * j)" by (fastforce dest: snowy_load_addr)
    then have "unat (word_of_nat (2 * j) :: u32) = 2 * j" using k33 by (simp only: unat_of_nat) simp
    moreover have "unat base \<le> unat a" using ub by linarith
    ultimately have x: "unat x = unat base + 2 * j" unfolding j(2) using j(1) k33 fit by (subst unat_add_small) simp_all
    have xa: "unat x = unat a div 2 * 2 + 2 * j" and ba: "unat base = unat a div 2 * 2"
      using x ub usa div_mult_mod_eq [of "unat a" 2] by linarith+
    have "2 * k = length bs + unat a mod 2 + (unat a + length bs) mod 2" using uk ulp usa uea by linarith
    then have le: "unat a div 2 + j \<le> (unat a + length bs - 1) div 2" by (rule word_pairs [OF j(1)])
    have "(unat a + length bs - 1) div 2 div 32 = unat a div 2 div 32"
      using page by (simp only: div_mult2_eq [symmetric]) simp
    then have "(unat a div 2 + j) div 32 = unat a div 2 div 32"
      by (rule div_between [OF le_add1 le])
    moreover have "unat x = (unat a div 2 + j) * 2" using xa by simp
    ultimately have "unat x div 64 = unat base div 64" unfolding ba by (rule pairs_page)
    then show "SECTOR_START x = SECTOR_START base" by (intro sector_eq) (simp only: page64_eq_iff)
  qed
  have cnt: "unat (ucast (lp div 2 - 1) :: u16) + 1 = length (snowy_load k 0 lp (sa \<noteq> 0) (ea \<noteq> 0) base bs)"
  proof -
    have "unat (lp div 2 - 1) = k - 1" using k0 unfolding k_def by (subst unat_sub_small) (simp_all add: word_le_nat_alt)
    moreover have "unat (ucast (lp div 2 - 1) :: u16) = unat (lp div 2 - 1) mod 2 ^ 16"
      by (simp add: unsigned_ucast_eq take_bit_eq_mod)
    ultimately show ?thesis using k33 k0 by (simp add: snowy_load_length)
  qed
  have a1: "lp AND 1 = 0" using even by (simp add: and_one_zero)
  have a2: "a AND NOT 63 = (a + len - 1) AND NOT 63"
  proof -
    have "unat (a + len - 1) = unat a + length bs - 1" using ual n0 by (subst unat_sub_small) (simp_all add: word_le_nat_alt Suc_le_eq)
    then show ?thesis unfolding page64_eq_iff using page by simp
  qed
  show ?thesis
    unfolding snowy_flash_write_sync_def Let_def
    unfolding len_def [symmetric] sa_def [symmetric] ea_def [symmetric] base_def [symmetric] lp_def [symmetric] k_def [symmetric]
    using c cnt sect load a1 a2 by (simp add: nor_chip_ok_def split_beta)
qed

lemma mfill_0: "mfill m a 0 v = m"
  by (rule ext) (auto simp: mfill_def)

lemma mfill_add: "mfill (mfill m a n v) (a + n) k v = mfill m a (n + k) v"
  by (rule ext) (auto simp: mfill_def)

lemma and_7fff: "((a :: u32) AND 0x7FFF = 0) = (unat a mod 0x8000 = 0)"
proof -
  have "a AND 0x7FFF = take_bit 15 a" by (simp add: take_bit_eq_mask mask_eq_exp_minus_1)
  moreover have "unat (take_bit 15 a) = unat a mod 2 ^ 15" by (metis unsigned_take_bit_eq take_bit_eq_mod)
  ultimately show ?thesis unfolding word_unat_eq_iff by simp
qed

lemma snowy_erase_loop_ok:
  assumes c: "nor_chip_ok c" and "unat a mod 0x8000 = 0" "unat n = k * 0x8000" "unat a + unat n < 2 ^ 32"
  shows "snowy_erase_loop c m a n = Some (0, mfill m (unat a) (unat n) 0xFF)"
  using assms(2-)
proof (induction k arbitrary: a n m)
  case 0
  then have "n = 0" by (simp add: word_unat_eq_iff)
  then show ?case by (subst snowy_erase_loop.simps) (simp add: mfill_0)
next
  case (Suc k)
  have sub: "unat (n - 0x8000) = k * 0x8000"
    using Suc.prems(2) by (subst unat_sub_small) (simp_all add: word_le_nat_alt)
  have nz: "n \<noteq> 0" using Suc.prems(2) by auto
  have ad: "unat (a + 0x8000) = unat a + 0x8000" using Suc.prems(2,3) by (subst unat_add_small) simp_all
  have one: "snowy_flash_erase_32k_sync c m a = Some (0, mfill m (unat a) 0x8000 0xFF)"
    using c Suc.prems(1) by (simp add: nor_chip_ok_def snowy_flash_erase_32k_sync_def split_beta and_7fff)
  have "snowy_erase_loop c m a n = snowy_erase_loop c (mfill m (unat a) 0x8000 0xFF) (a + 0x8000) (n - 0x8000)"
    by (subst snowy_erase_loop.simps) (simp add: nz one)
  also have "\<dots> = Some (0, mfill (mfill m (unat a) 0x8000 0xFF) (unat (a + 0x8000)) (unat (n - 0x8000)) 0xFF)"
    using Suc.prems sub ad by (intro Suc.IH) simp_all
  also have "\<dots> = Some (0, mfill m (unat a) (unat n) 0xFF)"
    unfolding ad mfill_add using sub Suc.prems(2) by simp
  finally show ?case .
qed

lemma snowy_erase:
  assumes c: "nor_chip_ok c" and a: "unat a mod 0x8000 = 0" "unat n mod 0x8000 = 0" "unat a + unat n < 2 ^ 32"
  shows "snowy_flash_erase_sync c m a n = Some (0, mfill m (unat a) (unat n) 0xFF)"
proof -
  have "unat n = unat n div 0x8000 * 0x8000" using a(2) by (metis add.right_neutral div_mult_mod_eq)
  then have "snowy_erase_loop c m a n = Some (0, mfill m (unat a) (unat n) 0xFF)"
    using c a by (intro snowy_erase_loop_ok)
  then show ?thesis unfolding snowy_flash_erase_sync_def using a by (simp add: and_7fff)
qed

lemma nor_platform_snowy: "nor_chip_ok c \<Longrightarrow> nor_platform (snowy_plat c) 6 0x1000000"
  by unfold_locales
    (simp_all add: snowy_plat_def snowy_flash_read_bytes_def snowy_write snowy_erase)

interpretation snowy: nor_platform "snowy_plat nor_ideal" 6 "0x1000000"
  by (rule nor_platform_snowy [OF nor_ideal_ok])

text \<open>On the snowy platform \<open>flash_write_bytes\<close> writes any number of bytes from anywhere in
  RAM or microflash to any place of the NOR: it returns 0 and has programmed exactly the bytes of
  the buffer at the address, however many 64-byte pages, odd edges and 64-byte bounces
  that takes.\<close>

theorem snowy_flash_write_bytes:
  assumes "unat addr + unat n \<le> 0x1000000" "unat buf + unat n < 2 ^ 32"
  shows "flash_write_bytes (snowy_plat nor_ideal) ram m addr buf n
    = Some (0, mprogram m (unat addr) (mread ram (unat buf) (unat n)))"
  using assms by (rule snowy.flash_write)

theorem snowy_flash_write_bytes_witness:
  "flash_write_bytes (snowy_plat nor_ideal) (\<lambda>x. word_of_nat (x - 0x20000100)) (\<lambda>_. 0xFF) 0x40003D 0x20000101 5
    = Some (0, mprogram (\<lambda>_. 0xFF) 0x40003D [1, 2, 3, 4, 5])"
  using snowy_flash_write_bytes [of "0x40003D" 5 "0x20000101" "\<lambda>x. word_of_nat (x - 0x20000100)" "\<lambda>_. 0xFF"]
  by (simp add: mread_def upt_rec)

end
