(* ===== verification/FsHdr.thy ===== *)
theory FsHdr
  imports Crc Flash
begin

section \<open>The on-flash headers: rcore/fs_internal.h\<close>

text \<open>
  The two packed structs that PebbleFS keeps at the start of every page, as records with the
  fields of the C, their byte images (\<open>page_hdr_bytes\<close>, \<open>file_hdr_bytes\<close>: little-endian, no
  padding, 28 and 76 bytes) and their reading back. \<open>fs_file_hdr\<close> extends \<open>fs_page_hdr\<close>: the C
  repeats the fields of the page header at its start and casts between the two. The lemmas show
  that image and record determine each other, and what the header checksums of
  rcore/fs_crc.c cover.
\<close>

record fs_page_hdr =
  v_0x5001 :: u16
  empty :: u8
  status :: u8
  rsvd_0 :: u32
  wear_level_counter :: u32
  rsvd_1 :: u32
  rsvd_2 :: u32
  rsvd_3 :: u8
  next_page_crc :: u8
  next_page :: u16
  pagehdr_crc :: u32

record fs_file_hdr = fs_page_hdr +
  file_size :: u32
  flag_2 :: u8
  filename_len :: u8
  rsvd_4 :: u16
  rsvd_5 :: u32
  filehdr_crc :: u32
  st_tmp_file :: u16
  st_create_complete :: u16
  st_delete_complete :: u16
  v_full :: bytes

definition HDR_EMPTY_ALLOCATED :: u8 where "HDR_EMPTY_ALLOCATED = 0x1"
definition HDR_EMPTY_MOREBLOCKS :: u8 where "HDR_EMPTY_MOREBLOCKS = 0x2"
definition HDR_STATUS_VALID :: u8 where "HDR_STATUS_VALID = 0x1"
definition HDR_STATUS_DEAD :: u8 where "HDR_STATUS_DEAD = 0x2"
definition HDR_STATUS_FILE_START :: u8 where "HDR_STATUS_FILE_START = 0x4"
definition HDR_STATUS_FILE_CONT :: u8 where "HDR_STATUS_FILE_CONT = 0x8"
definition HDR_FLAG_2_HAS_FILENAME :: u8 where "HDR_FLAG_2_HAS_FILENAME = 0x1"
definition MAX_FILENAME_LEN :: nat where "MAX_FILENAME_LEN = 32"
definition SIZEOF_PAGE_HDR :: nat where "SIZEOF_PAGE_HDR = 28"
definition SIZEOF_FILE_HDR :: nat where "SIZEOF_FILE_HDR = 76"

text \<open>Flag values are cleared to mean true.\<close>

definition FLASHFLAG :: "u8 \<Rightarrow> u8 \<Rightarrow> bool" where
  "FLASHFLAG val flag \<longleftrightarrow> val AND flag = 0"

subsection \<open>Byte images\<close>

definition page_hdr_bytes :: "'a fs_page_hdr_scheme \<Rightarrow> bytes" where
  "page_hdr_bytes h = le16 (v_0x5001 h) @ [empty h, status h] @ le32 (rsvd_0 h) @ le32 (wear_level_counter h)
     @ le32 (rsvd_1 h) @ le32 (rsvd_2 h) @ [rsvd_3 h, next_page_crc h] @ le16 (next_page h) @ le32 (pagehdr_crc h)"

definition file_hdr_tail :: "fs_file_hdr \<Rightarrow> bytes" where
  "file_hdr_tail h = le32 (file_size h) @ [flag_2 h, filename_len h] @ le16 (rsvd_4 h) @ le32 (rsvd_5 h)
     @ le32 (filehdr_crc h) @ le16 (st_tmp_file h) @ le16 (st_create_complete h) @ le16 (st_delete_complete h)
     @ v_full h"

definition file_hdr_bytes :: "fs_file_hdr \<Rightarrow> bytes" where
  "file_hdr_bytes h = page_hdr_bytes h @ file_hdr_tail h"

definition page_hdr_of :: "bytes \<Rightarrow> fs_page_hdr" where
  "page_hdr_of bs = \<lparr> v_0x5001 = get16 bs 0, empty = bs ! 2, status = bs ! 3, rsvd_0 = get32 bs 4,
     wear_level_counter = get32 bs 8, rsvd_1 = get32 bs 12, rsvd_2 = get32 bs 16, rsvd_3 = bs ! 20,
     next_page_crc = bs ! 21, next_page = get16 bs 22, pagehdr_crc = get32 bs 24 \<rparr>"

definition file_hdr_of :: "bytes \<Rightarrow> fs_file_hdr" where
  "file_hdr_of bs = fs_page_hdr.extend (page_hdr_of bs)
     (fs_file_hdr.fields (get32 bs 28) (bs ! 32) (bs ! 33) (get16 bs 34) (get32 bs 36) (get32 bs 40)
        (get16 bs 44) (get16 bs 46) (get16 bs 48) (take 26 (drop 50 bs)))"

lemma page_hdr_bytes_length [simp]: "length (page_hdr_bytes h) = 28"
  by (simp add: page_hdr_bytes_def)

lemma file_hdr_bytes_length [simp]: "length (v_full h) = 26 \<Longrightarrow> length (file_hdr_bytes h) = 76"
  by (simp add: file_hdr_bytes_def file_hdr_tail_def)

lemma le16_get: "le16 (get16 bs i) = [bs ! i, bs ! (i + 1)]"
  unfolding le16_def get16_def by (simp only: le16_get16)

lemma le32_get: "le32 (get32 bs i) = [bs ! i, bs ! (i + 1), bs ! (i + 2), bs ! (i + 3)]"
  unfolding le32_def get32_def by (simp only: le32_get32)

lemma page_hdr_of_bytes: "page_hdr_of (page_hdr_bytes h @ xs) = fs_page_hdr.truncate h"
  by (simp add: page_hdr_of_def page_hdr_bytes_def le16_def le32_def get16_def get32_def
      get16_le16 get32_le32 fs_page_hdr.defs)

lemma page_hdr_bytes_of: "length bs = 28 \<Longrightarrow> page_hdr_bytes (page_hdr_of bs) = bs"
proof -
  assume "length bs = 28"
  have "[0..<28] = 0 # 1 # [2..<28 :: nat]" by (simp add: upt_conv_Cons)
  then have "page_hdr_bytes (page_hdr_of bs) = map ((!) bs) [0..<28]"
    by (simp add: page_hdr_of_def page_hdr_bytes_def le16_get le32_get)
  then show ?thesis using \<open>length bs = 28\<close> map_nth [of bs] by simp
qed

lemma nth_range: "i + n \<le> length bs \<Longrightarrow> map ((!) bs) [i..<i + n] = take n (drop i bs)"
  by (rule nth_equalityI) simp_all

lemma file_hdr_bytes_of: "length bs = 76 \<Longrightarrow> file_hdr_bytes (file_hdr_of bs) = bs"
proof -
  assume l: "length bs = 76"
  have "page_hdr_bytes (file_hdr_of bs) = page_hdr_bytes (page_hdr_of (take 28 bs))"
    by (simp add: page_hdr_bytes_def file_hdr_of_def page_hdr_of_def fs_page_hdr.defs fs_file_hdr.defs get16_def get32_def)
  also have "\<dots> = take 28 bs" using l by (intro page_hdr_bytes_of) simp
  finally have h: "page_hdr_bytes (file_hdr_of bs) = take 28 bs" .
  have "[28..<50] = 28 # 29 # [30..<50 :: nat]" by (simp add: upt_conv_Cons)
  then have "file_hdr_tail (file_hdr_of bs) = map ((!) bs) [28..<50] @ take 26 (drop 50 bs)"
    by (simp add: file_hdr_tail_def file_hdr_of_def fs_page_hdr.defs fs_file_hdr.defs le16_get le32_get)
  also have "map ((!) bs) [28..<50] = take 22 (drop 28 bs)" using nth_range [of 28 22 bs] l by (simp del: upt_conv_Cons_Cons)
  also have "take 22 (drop 28 bs) @ take 26 (drop 50 bs) = take 22 (drop 28 bs) @ drop 50 bs" using l by simp
  also have "\<dots> = drop 28 bs" using append_take_drop_id [of 22 "drop 28 bs"] by simp
  finally show ?thesis by (simp add: file_hdr_bytes_def h)
qed

subsection \<open>Header checksums\<close>

definition fs_pagehdr_crc :: "'a fs_page_hdr_scheme \<Rightarrow> u32" where
  "fs_pagehdr_crc hdr = fs_pbfs_crc32 (take 24 (page_hdr_bytes (hdr\<lparr>empty := 0xFF\<rparr>)))"

definition fs_filehdr_crc :: "fs_file_hdr \<Rightarrow> u32" where
  "fs_filehdr_crc hdr = fs_pbfs_crc32 (take 12 (drop 28 (file_hdr_bytes (hdr\<lparr>empty := 0xFF\<rparr>))))"

end
