(* ===== verification/FsFile.thy ===== *)
theory FsFile
  imports FsHdr
begin

section \<open>Open files: rcore/fs.c, reading, writing and seeking\<close>

text \<open>
  The part of rcore/fs.c that works on an open file: \<open>fs_open\<close>, \<open>fs_seek\<close>, \<open>fs_read\<close>, \<open>fs_write\<close>,
  \<open>fs_size\<close>, \<open>fs_file_from_file\<close>, \<open>fs_file_from_flash\<close>, and \<open>fs_file_crc32\<close> of rcore/fs_crc.c. An
  open file keeps a cursor (page, offset in the page); at the end of a page the cursor goes to the
  \<open>next_page\<close> of the page's header. The reference semantics is the bytewise walk \<open>fs_step\<close>: the
  address of every byte of the file. Every loop is shown to end and to do what the walk says.
\<close>

definition FILE_IS_RAW_FLASH :: u8 where "FILE_IS_RAW_FLASH = 0x1"
definition FILE_HAS_DIRENT :: u8 where "FILE_HAS_DIRENT = 0x2"

record fs_file =
  flags :: u8
  startpage :: u16
  startpofs :: u32
  fsize :: u32

record fd =
  fd_file :: fs_file
  replaces :: fs_file
  curpage :: u16
  curpofs :: u32
  fd_offset :: u32

datatype seek = FS_SEEK_SET | FS_SEEK_CUR | FS_SEEK_END

definition file_zero :: fs_file where
  "file_zero = \<lparr> flags = 0, startpage = 0, startpofs = 0, fsize = 0 \<rparr>"

subsection \<open>Page access\<close>

definition fs_read_page_ofs :: "plat \<Rightarrow> mem \<Rightarrow> u32 \<Rightarrow> u32 \<Rightarrow> u32 \<Rightarrow> u32 \<Rightarrow> bytes option" where
  "fs_read_page_ofs p m pg ofs dst n =
     flash_read_bytes p m (REGION_FS_START p + pg * REGION_FS_PAGE_SIZE p + ofs) dst n"

definition fs_write_page_ofs :: "plat \<Rightarrow> mem \<Rightarrow> mem \<Rightarrow> u32 \<Rightarrow> u32 \<Rightarrow> u32 \<Rightarrow> u32 \<Rightarrow> (u32 \<times> mem) option" where
  "fs_write_page_ofs p ram m pg ofs src n =
     flash_write_bytes p ram m (REGION_FS_START p + pg * REGION_FS_PAGE_SIZE p + ofs) src n"

definition fs_read_page_hdr :: "plat \<Rightarrow> mem \<Rightarrow> u32 \<Rightarrow> fs_page_hdr option" where
  "fs_read_page_hdr p m pg = map_option page_hdr_of (fs_read_page_ofs p m pg 0 (p_local p) (word_of_nat SIZEOF_PAGE_HDR))"

subsection \<open>The cursor\<close>

text \<open>At the end of a page the cursor moves to the page the header names.\<close>

definition fs_turn_page :: "plat \<Rightarrow> mem \<Rightarrow> fd \<Rightarrow> fd option" where
  "fs_turn_page p m fd =
    (if curpofs fd = REGION_FS_PAGE_SIZE p
     then do { hdr \<leftarrow> fs_read_page_hdr p m (ucast (curpage fd));
               Some (fd\<lparr>curpage := next_page hdr, curpofs := word_of_nat SIZEOF_PAGE_HDR\<rparr>) }
     else Some fd)"

definition fs_chunk :: "plat \<Rightarrow> fd \<Rightarrow> u32 \<Rightarrow> u32" where
  "fs_chunk p fd rem = (if rem > REGION_FS_PAGE_SIZE p - curpofs fd then REGION_FS_PAGE_SIZE p - curpofs fd else rem)"

definition fs_advance :: "fd \<Rightarrow> u32 \<Rightarrow> fd" where
  "fs_advance fd n = fd\<lparr>curpofs := curpofs fd + n, fd_offset := fd_offset fd + n\<rparr>"

subsection \<open>The operations\<close>

definition fs_open :: "fs_file \<Rightarrow> fd" where
  "fs_open f = \<lparr> fd_file = f, replaces = file_zero, curpage = startpage f, curpofs = startpofs f, fd_offset = 0 \<rparr>"

partial_function (option) fs_read_loop :: "plat \<Rightarrow> mem \<Rightarrow> fd \<Rightarrow> u32 \<Rightarrow> u32 \<Rightarrow> (fd \<times> bytes) option" where
  "fs_read_loop p m fd dst bytesrem =
    (if bytesrem = 0 then Some (fd, [])
     else let n = fs_chunk p fd bytesrem in
       do { bs \<leftarrow> fs_read_page_ofs p m (ucast (curpage fd)) (curpofs fd) dst n;
            fd \<leftarrow> fs_turn_page p m (fs_advance fd n);
            (fd, rest) \<leftarrow> fs_read_loop p m fd (dst + n) (bytesrem - n);
            Some (fd, bs @ rest) })"

definition fs_left :: "fd \<Rightarrow> u32 \<Rightarrow> u32" where
  "fs_left fd n = (if n > fsize (fd_file fd) - fd_offset fd then fsize (fd_file fd) - fd_offset fd else n)"

definition fs_read :: "plat \<Rightarrow> mem \<Rightarrow> fd \<Rightarrow> u32 \<Rightarrow> u32 \<Rightarrow> (u32 \<times> fd \<times> bytes) option" where
  "fs_read p m fd dst n =
    (let n = fs_left fd n in
     if flags (fd_file fd) AND FILE_IS_RAW_FLASH \<noteq> 0
     then do { bs \<leftarrow> flash_read_bytes p m (curpofs fd) dst n;
               Some (n, fs_advance fd n, bs) }
     else do { (fd, bs) \<leftarrow> fs_read_loop p m fd dst n;
               Some (n, fd, bs) })"

partial_function (option) fs_write_loop :: "plat \<Rightarrow> mem \<Rightarrow> mem \<Rightarrow> fd \<Rightarrow> u32 \<Rightarrow> u32 \<Rightarrow> (fd \<times> mem) option" where
  "fs_write_loop p ram m fd src bytesrem =
    (if bytesrem = 0 then Some (fd, m)
     else let n = fs_chunk p fd bytesrem in
       do { (_, m) \<leftarrow> fs_write_page_ofs p ram m (ucast (curpage fd)) (curpofs fd) src n;
            fd \<leftarrow> fs_turn_page p m (fs_advance fd n);
            fs_write_loop p ram m fd (src + n) (bytesrem - n) })"

definition fs_write :: "plat \<Rightarrow> mem \<Rightarrow> mem \<Rightarrow> fd \<Rightarrow> u32 \<Rightarrow> u32 \<Rightarrow> (u32 \<times> fd \<times> mem) option" where
  "fs_write p ram m fd src n = do {
     c_assert (flags (fd_file fd) AND FILE_IS_RAW_FLASH = 0);
     let n = fs_left fd n;
     (fd, m) \<leftarrow> fs_write_loop p ram m fd src n;
     Some (n, fd, m) }"

partial_function (option) fs_seek_loop :: "plat \<Rightarrow> mem \<Rightarrow> fd \<Rightarrow> u32 \<Rightarrow> fd option" where
  "fs_seek_loop p m fd delta =
    (if delta = 0 then Some fd
     else let n = fs_chunk p fd delta in
       do { fd \<leftarrow> fs_turn_page p m (fs_advance fd n);
            fs_seek_loop p m fd (delta - n) })"

definition fs_newoffset :: "fd \<Rightarrow> u32 \<Rightarrow> seek \<Rightarrow> u32" where
  "fs_newoffset fd ofs whence =
    (let new = (case whence of FS_SEEK_SET \<Rightarrow> ofs | FS_SEEK_CUR \<Rightarrow> fd_offset fd + ofs
                 | FS_SEEK_END \<Rightarrow> fsize (fd_file fd) + ofs)
     in if new > fsize (fd_file fd) then fsize (fd_file fd) else new)"

definition fs_seek :: "plat \<Rightarrow> mem \<Rightarrow> fd \<Rightarrow> u32 \<Rightarrow> seek \<Rightarrow> (u32 \<times> fd) option" where
  "fs_seek p m fd ofs whence =
    (let newoffset = fs_newoffset fd ofs whence in
     if flags (fd_file fd) AND FILE_IS_RAW_FLASH \<noteq> 0
     then Some (newoffset, fd\<lparr>curpofs := startpofs (fd_file fd) + newoffset, fd_offset := newoffset\<rparr>)
     else let fd = (if newoffset < fd_offset fd
                    then fd\<lparr>curpage := startpage (fd_file fd), curpofs := startpofs (fd_file fd), fd_offset := 0\<rparr>
                    else fd) in
       do { fd \<leftarrow> fs_seek_loop p m fd (newoffset - fd_offset fd);
            Some (fd_offset fd, fd) })"

definition fs_size :: "fd \<Rightarrow> u32" where
  "fs_size fd = fsize (fd_file fd)"

definition fs_file_from_file :: "plat \<Rightarrow> mem \<Rightarrow> fs_file \<Rightarrow> u32 \<Rightarrow> u32 \<Rightarrow> fs_file option" where
  "fs_file_from_file p m from offset len = do {
     (_, fd) \<leftarrow> fs_seek p m (fs_open from) offset FS_SEEK_SET;
     let size = (if fsize from < offset then 0 else fsize from - offset);
     Some (from\<lparr>flags := flags from AND NOT FILE_HAS_DIRENT, startpage := curpage fd, startpofs := curpofs fd,
            fsize := (if size > len then len else size)\<rparr>) }"

definition fs_file_from_flash :: "u32 \<Rightarrow> u32 \<Rightarrow> fs_file" where
  "fs_file_from_flash addr len = \<lparr> flags = FILE_IS_RAW_FLASH, startpage = 0, startpofs = addr, fsize = len \<rparr>"

text \<open>\<open>fs_file_crc32\<close> reads 32 bytes at a time into a local buffer.\<close>

partial_function (option) fs_file_crc32_loop :: "plat \<Rightarrow> mem \<Rightarrow> fd \<Rightarrow> u32 \<Rightarrow> u32 \<Rightarrow> (u32 \<times> fd) option" where
  "fs_file_crc32_loop p m fd crc len =
    (if len = 0 then Some (crc, fd)
     else let bt = (if len < 32 then len else 32) in
       do { (n, fd, bs) \<leftarrow> fs_read p m fd (p_local p) bt;
            if n < bt then Some (0, fd)
            else fs_file_crc32_loop p m fd (fs_pbfs_crc32_accum crc bs) (len - bt) })"

definition fs_file_crc32 :: "plat \<Rightarrow> mem \<Rightarrow> fd \<Rightarrow> u32 \<Rightarrow> (u32 \<times> fd) option" where
  "fs_file_crc32 p m fd len = do {
     (_, fd) \<leftarrow> fs_seek p m fd 0 FS_SEEK_SET;
     fs_file_crc32_loop p m fd 0xFFFFFFFF len }"

lemma unat_u32_less: "unat (b :: u32) < 4294967296"
proof -
  have "unat b < 2 ^ LENGTH(32)" by (rule unsigned_less)
  then show ?thesis by simp
qed

subsection \<open>The bytewise walk\<close>

definition fs_addr :: "plat \<Rightarrow> u16 \<Rightarrow> u32 \<Rightarrow> nat" where
  "fs_addr p pg ofs = unat (REGION_FS_START p) + unat pg * unat (REGION_FS_PAGE_SIZE p) + unat ofs"

definition fs_next :: "plat \<Rightarrow> mem \<Rightarrow> u16 \<Rightarrow> u16" where
  "fs_next p m pg = next_page (page_hdr_of (mread m (fs_addr p pg 0) SIZEOF_PAGE_HDR))"

definition fs_step :: "plat \<Rightarrow> mem \<Rightarrow> u16 \<times> u32 \<Rightarrow> u16 \<times> u32" where
  "fs_step p m pos = (if snd pos + 1 = REGION_FS_PAGE_SIZE p then (fs_next p m (fst pos), word_of_nat SIZEOF_PAGE_HDR)
     else (fst pos, snd pos + 1))"

definition fs_walk :: "plat \<Rightarrow> mem \<Rightarrow> u16 \<times> u32 \<Rightarrow> nat \<Rightarrow> u16 \<times> u32" where
  "fs_walk p m pos k = (fs_step p m ^^ k) pos"

definition fs_run :: "plat \<Rightarrow> mem \<Rightarrow> u16 \<times> u32 \<Rightarrow> nat \<Rightarrow> nat list" where
  "fs_run p m pos n = map (\<lambda>k. fs_addr p (fst (fs_walk p m pos k)) (snd (fs_walk p m pos k))) [0..<n]"

definition fs_start :: "fs_file \<Rightarrow> u16 \<times> u32" where
  "fs_start f = (startpage f, startpofs f)"

text \<open>The flash addresses of the \<open>n\<close> bytes of file \<open>f\<close> from offset \<open>i\<close>.\<close>

definition fs_addrs :: "plat \<Rightarrow> mem \<Rightarrow> fs_file \<Rightarrow> nat \<Rightarrow> nat \<Rightarrow> nat list" where
  "fs_addrs p m f i n = fs_run p m (fs_walk p m (fs_start f) i) n"

definition fs_program :: "mem \<Rightarrow> nat list \<Rightarrow> bytes \<Rightarrow> mem" where
  "fs_program m as bs = foldl (\<lambda>m (a, b). m(a := m a AND b)) m (zip as bs)"

text \<open>A cursor inside a page, past the header; the pages a walk visits exist.\<close>

definition fs_inpage :: "plat \<Rightarrow> u16 \<times> u32 \<Rightarrow> bool" where
  "fs_inpage p pos \<longleftrightarrow> SIZEOF_PAGE_HDR \<le> unat (snd pos) \<and> snd pos < REGION_FS_PAGE_SIZE p"

definition fs_pages_ok :: "plat \<Rightarrow> mem \<Rightarrow> u16 \<times> u32 \<Rightarrow> nat \<Rightarrow> bool" where
  "fs_pages_ok p m pos n \<longleftrightarrow> (\<forall>k < n. unat (fst (fs_walk p m pos k)) < REGION_FS_N_PAGES p)"

lemma fs_walk_0 [simp]: "fs_walk p m pos 0 = pos"
  by (simp add: fs_walk_def)

lemma fs_walk_add: "fs_walk p m pos (a + b) = fs_walk p m (fs_walk p m pos a) b"
  unfolding fs_walk_def by (subst add.commute) (simp add: funpow_add)

lemma fs_run_add: "fs_run p m pos (a + b) = fs_run p m pos a @ fs_run p m (fs_walk p m pos a) b"
proof -
  have "[0..<a + b] = [0..<a] @ map (\<lambda>k. k + a) [0..<b]"
    unfolding map_add_upt by (simp add: upt_add_eq_append [of 0 a b] add.commute)
  then show ?thesis by (simp add: fs_run_def fs_walk_add [symmetric] add.commute)
qed

lemma fs_run_length [simp]: "length (fs_run p m pos n) = n"
  by (simp add: fs_run_def)

lemma all_less_add: "(\<forall>k < a + b. P k) = ((\<forall>k < a. P k) \<and> (\<forall>k < b. P (a + k :: nat)))"
proof (intro iffI conjI allI impI)
  fix k assume "(\<forall>k < a. P k) \<and> (\<forall>k < b. P (a + k))" "k < a + b"
  moreover from this have "a + (k - a) = k \<and> k - a < b" if "\<not> k < a" using that by simp
  ultimately show "P k" by metis
qed auto

lemma fs_pages_ok_add: "fs_pages_ok p m pos (a + b) = (fs_pages_ok p m pos a \<and> fs_pages_ok p m (fs_walk p m pos a) b)"
  unfolding fs_pages_ok_def fs_walk_add [symmetric] by (rule all_less_add)

lemma fs_program_append:
  "length as = length bs \<Longrightarrow> fs_program m (as @ as') (bs @ bs') = fs_program (fs_program m as bs) as' bs'"
  by (simp add: fs_program_def)

lemma fs_program_upt: "fs_program m [a..<a + length bs] bs = mprogram m a bs"
proof (induction bs arbitrary: a m)
  case Nil
  then show ?case by (simp add: fs_program_def)
next
  case (Cons b bs)
  have m1: "mprogram m a [b] = m(a := m a AND b)" by (rule ext) (simp add: mprogram_def)
  have "[a..<a + length (b # bs)] = a # [Suc a..<Suc a + length bs]" by (simp add: upt_rec)
  then have "fs_program m [a..<a + length (b # bs)] (b # bs) = fs_program (m(a := m a AND b)) [Suc a..<Suc a + length bs] bs"
    by (simp add: fs_program_def)
  also have "\<dots> = mprogram m a ([b] @ bs)" unfolding Cons.IH mprogram_append m1 by simp
  finally show ?case by simp
qed

lemma unat_u16_ucast: "unat (ucast (w :: u16) :: u32) = unat w"
proof -
  have "unat w < 2 ^ 32" by (rule less_trans [OF unat_u16_less]) simp
  then show ?thesis by (simp add: unsigned_ucast_eq take_bit_nat_eq_self)
qed

locale fs_platform = nor_platform +
  assumes fs_fit: "unat (REGION_FS_START p) + REGION_FS_N_PAGES p * unat (REGION_FS_PAGE_SIZE p) \<le> size"
    and page_lo: "128 \<le> unat (REGION_FS_PAGE_SIZE p)"
    and n_pages: "REGION_FS_N_PAGES p < 0xFFFF"
    and local_fit: "unat (p_local p) + 0x20000 < 2 ^ 32"
begin

lemma page_end:
  assumes "unat pg < REGION_FS_N_PAGES p"
  shows "fs_addr p pg 0 + unat (REGION_FS_PAGE_SIZE p) \<le> size"
proof -
  have "(unat pg + 1) * unat (REGION_FS_PAGE_SIZE p) \<le> REGION_FS_N_PAGES p * unat (REGION_FS_PAGE_SIZE p)"
    using assms by (intro mult_right_mono) simp_all
  then show ?thesis using fs_fit unfolding fs_addr_def by simp
qed

lemma addr_word:
  assumes "unat pg < REGION_FS_N_PAGES p" "unat ofs \<le> unat (REGION_FS_PAGE_SIZE p)"
  shows "unat (REGION_FS_START p + ucast pg * REGION_FS_PAGE_SIZE p + ofs) = fs_addr p pg ofs"
proof -
  have e: "unat (REGION_FS_START p) + unat pg * unat (REGION_FS_PAGE_SIZE p) + unat ofs \<le> size"
    using page_end [OF assms(1)] assms(2) unfolding fs_addr_def by simp
  have "unat (ucast pg * REGION_FS_PAGE_SIZE p) = unat pg * unat (REGION_FS_PAGE_SIZE p)"
    using e size32 by (simp add: unat_word_ariths unat_u16_ucast)
  moreover have "unat (REGION_FS_START p + ucast pg * REGION_FS_PAGE_SIZE p) = unat (REGION_FS_START p) + unat pg * unat (REGION_FS_PAGE_SIZE p)"
    using e size32 calculation by (subst unat_add_small) simp_all
  ultimately show ?thesis
    unfolding fs_addr_def using e size32 by (subst unat_add_small) simp_all
qed

lemma page_read:
  assumes "unat pg < REGION_FS_N_PAGES p" "unat ofs + unat n \<le> unat (REGION_FS_PAGE_SIZE p)"
  shows "fs_read_page_ofs p m (ucast pg) ofs dst n = Some (mread m (fs_addr p pg ofs) (unat n))"
proof -
  have a: "unat (REGION_FS_START p + ucast pg * REGION_FS_PAGE_SIZE p + ofs) = fs_addr p pg ofs"
    using assms by (intro addr_word) simp_all
  then show ?thesis unfolding fs_read_page_ofs_def
    using page_end [OF assms(1)] assms(2) by (subst flash_read) (simp_all add: fs_addr_def)
qed

lemma page_write:
  assumes "unat pg < REGION_FS_N_PAGES p" "unat ofs + unat n \<le> unat (REGION_FS_PAGE_SIZE p)" "unat src + unat n < 2 ^ 32"
  shows "fs_write_page_ofs p ram m (ucast pg) ofs src n = Some (0, mprogram m (fs_addr p pg ofs) (mread ram (unat src) (unat n)))"
proof -
  have a: "unat (REGION_FS_START p + ucast pg * REGION_FS_PAGE_SIZE p + ofs) = fs_addr p pg ofs"
    using assms by (intro addr_word) simp_all
  then show ?thesis unfolding fs_write_page_ofs_def
    using page_end [OF assms(1)] assms(2,3) by (subst flash_write) (simp_all add: fs_addr_def)
qed

lemma page_hdr_read:
  assumes "unat pg < REGION_FS_N_PAGES p"
  shows "fs_read_page_hdr p m (ucast pg) = Some (page_hdr_of (mread m (fs_addr p pg 0) SIZEOF_PAGE_HDR))"
  unfolding fs_read_page_hdr_def using page_lo assms by (subst page_read) (simp_all add: SIZEOF_PAGE_HDR_def)


lemma page_hdr_disjoint:
  assumes "SIZEOF_PAGE_HDR \<le> unat ofs" "unat ofs + length bs \<le> unat (REGION_FS_PAGE_SIZE p)"
  shows "fs_next p (mprogram m (fs_addr p pg ofs) bs) pg' = fs_next p m pg'"
proof -
  have "mread (mprogram m (fs_addr p pg ofs) bs) (fs_addr p pg' 0) SIZEOF_PAGE_HDR = mread m (fs_addr p pg' 0) SIZEOF_PAGE_HDR"
  proof (rule mread_mprogram_disjoint)
    have "(unat pg' + 1) * unat (REGION_FS_PAGE_SIZE p) \<le> unat pg * unat (REGION_FS_PAGE_SIZE p)" if "unat pg' < unat pg"
      using that by (intro mult_right_mono) simp_all
    moreover have "(unat pg + 1) * unat (REGION_FS_PAGE_SIZE p) \<le> unat pg' * unat (REGION_FS_PAGE_SIZE p)" if "unat pg < unat pg'"
      using that by (intro mult_right_mono) simp_all
    ultimately show "fs_addr p pg' 0 + SIZEOF_PAGE_HDR \<le> fs_addr p pg ofs \<or> fs_addr p pg ofs + length bs \<le> fs_addr p pg' 0"
      using assms page_lo unfolding fs_addr_def SIZEOF_PAGE_HDR_def
      by (cases "unat pg" "unat pg'" rule: linorder_cases) auto
  qed
  then show ?thesis by (simp add: fs_next_def)
qed

lemma step_inpage: "fs_inpage p pos \<Longrightarrow> fs_inpage p (fs_step p m pos)"
proof -
  assume i: "fs_inpage p pos"
  have "unat (snd pos + 1) = unat (snd pos) + 1"
    using i page_lo unat_u32_less [of "REGION_FS_PAGE_SIZE p"]
    unfolding fs_inpage_def word_less_nat_alt by (subst unat_add_small) simp_all
  then show ?thesis
    using i page_lo by (auto simp: fs_step_def fs_inpage_def word_less_nat_alt word_unat_eq_iff SIZEOF_PAGE_HDR_def)
qed

lemma walk_inpage: "fs_inpage p pos \<Longrightarrow> fs_inpage p (fs_walk p m pos k)"
  by (induction k) (simp_all add: fs_walk_def step_inpage)

lemma walk_in_page:
  assumes "unat ofs + j \<le> unat (REGION_FS_PAGE_SIZE p)" "0 < j"
  shows "fs_walk p m (pg, ofs) j = (if unat ofs + j = unat (REGION_FS_PAGE_SIZE p)
           then (fs_next p m pg, word_of_nat SIZEOF_PAGE_HDR) else (pg, ofs + word_of_nat j))"
  using assms
proof (induction j)
  case (Suc j)
  have w: "fs_walk p m (pg, ofs) j = (pg, ofs + word_of_nat j)"
    using Suc by (cases "j = 0") simp_all
  have j: "unat (word_of_nat j :: u32) = j"
    using Suc.prems unat_u32_less [of "REGION_FS_PAGE_SIZE p"] by (simp add: unat_of_nat)
  have u: "unat (ofs + word_of_nat j + 1) = unat ofs + Suc j"
    if "unat ofs + Suc j < 2 ^ 32"
    using that j by (subst unat_add_small; subst unat_add_small) simp_all
  have lt: "unat ofs + Suc j < 2 ^ 32"
    using Suc.prems unat_u32_less [of "REGION_FS_PAGE_SIZE p"] by simp
  have "fs_walk p m (pg, ofs) (Suc j) = fs_step p m (pg, ofs + word_of_nat j)"
    using w by (simp add: fs_walk_def)
  then show ?case using u [OF lt]
    by (auto simp: fs_step_def word_unat_eq_iff add.commute add.left_commute)
qed simp

lemma run_in_page:
  assumes "unat ofs + n \<le> unat (REGION_FS_PAGE_SIZE p)"
  shows "fs_run p m (pg, ofs) n = [fs_addr p pg ofs..<fs_addr p pg ofs + n]"
proof (rule nth_equalityI)
  show "fs_run p m (pg, ofs) n ! k = [fs_addr p pg ofs..<fs_addr p pg ofs + n] ! k" if "k < length (fs_run p m (pg, ofs) n)" for k
  proof -
    have k: "k < n" using that by simp
    have w: "fs_walk p m (pg, ofs) k = (pg, ofs + word_of_nat k)"
      using k assms by (cases "k = 0") (simp_all add: walk_in_page)
    have "unat (word_of_nat k :: u32) = k"
      using k assms unat_u32_less [of "REGION_FS_PAGE_SIZE p"] by (simp add: unat_of_nat)
    then have "unat (ofs + word_of_nat k) = unat ofs + k"
      using k assms unat_u32_less [of "REGION_FS_PAGE_SIZE p"] by (subst unat_add_small) simp_all
    then show ?thesis using k w by (simp add: fs_run_def fs_addr_def)
  qed
qed simp

end

text \<open>The cursor of an open file, and the file descriptor \<open>k\<close> bytes on.\<close>

definition fs_cur :: "fd \<Rightarrow> u16 \<times> u32" where
  "fs_cur fd = (curpage fd, curpofs fd)"

definition fs_at :: "plat \<Rightarrow> mem \<Rightarrow> fd \<Rightarrow> nat \<Rightarrow> fd" where
  "fs_at p m fd k = fd\<lparr>curpage := fst (fs_walk p m (fs_cur fd) k), curpofs := snd (fs_walk p m (fs_cur fd) k),
     fd_offset := fd_offset fd + word_of_nat k\<rparr>"

lemma fs_at_0 [simp]: "fs_at p m fd 0 = fd"
  by (simp add: fs_at_def fs_cur_def)

lemma fs_cur_at [simp]: "fs_cur (fs_at p m fd k) = fs_walk p m (fs_cur fd) k"
  by (simp add: fs_at_def fs_cur_def)

lemma fs_at_add: "fs_at p m (fs_at p m fd a) b = fs_at p m fd (a + b)"
  by (simp add: fs_at_def [of p m "fs_at p m fd a"] fs_walk_add) (simp add: fs_at_def fs_walk_add)

lemma fs_at_file [simp]: "fd_file (fs_at p m fd k) = fd_file fd" "replaces (fs_at p m fd k) = replaces fd"
  "fd_offset (fs_at p m fd k) = fd_offset fd + word_of_nat k"
  by (simp_all add: fs_at_def)

lemma fs_walk_cong: "(\<And>pg. fs_next p m' pg = fs_next p m pg) \<Longrightarrow> fs_walk p m' = fs_walk p m"
proof -
  assume "\<And>pg. fs_next p m' pg = fs_next p m pg"
  then have "fs_step p m' = fs_step p m" by (intro ext) (simp add: fs_step_def)
  then show ?thesis by (intro ext) (simp add: fs_walk_def)
qed

lemma fs_run_cong: "(\<And>pg. fs_next p m' pg = fs_next p m pg) \<Longrightarrow> fs_run p m' = fs_run p m"
  by (intro ext) (simp add: fs_run_def fs_walk_cong [of p m' m])

lemma fs_at_cong: "(\<And>pg. fs_next p m' pg = fs_next p m pg) \<Longrightarrow> fs_at p m' = fs_at p m"
  by (intro ext) (simp add: fs_at_def fs_walk_cong [of p m' m])

lemma fs_pages_ok_cong: "(\<And>pg. fs_next p m' pg = fs_next p m pg) \<Longrightarrow> fs_pages_ok p m' = fs_pages_ok p m"
  by (intro ext) (simp add: fs_pages_ok_def fs_walk_cong [of p m' m])

context fs_platform begin

lemma chunk:
  assumes "fs_inpage p (fs_cur fd)" "rem \<noteq> 0"
  shows "unat (fs_chunk p fd rem) = min (unat rem) (unat (REGION_FS_PAGE_SIZE p) - unat (curpofs fd))"
    and "0 < unat (fs_chunk p fd rem)" "unat (fs_chunk p fd rem) \<le> unat rem"
    and "unat (curpofs fd) + unat (fs_chunk p fd rem) \<le> unat (REGION_FS_PAGE_SIZE p)"
    and "unat (rem - fs_chunk p fd rem) = unat rem - unat (fs_chunk p fd rem)"
proof -
  have lt: "unat (curpofs fd) < unat (REGION_FS_PAGE_SIZE p)"
    using assms(1) by (simp add: fs_inpage_def fs_cur_def word_less_nat_alt)
  have s: "unat (REGION_FS_PAGE_SIZE p - curpofs fd) = unat (REGION_FS_PAGE_SIZE p) - unat (curpofs fd)"
    using lt by (intro unat_sub_small) (simp add: word_le_nat_alt)
  show u: "unat (fs_chunk p fd rem) = min (unat rem) (unat (REGION_FS_PAGE_SIZE p) - unat (curpofs fd))"
    unfolding fs_chunk_def word_less_nat_alt by (simp add: s)
  have n0: "0 < unat rem" using assms(2) by (simp add: unat_gt_0)
  show "0 < unat (fs_chunk p fd rem)" unfolding u using lt n0 by simp
  show "unat (fs_chunk p fd rem) \<le> unat rem" unfolding u by simp
  then show "unat (rem - fs_chunk p fd rem) = unat rem - unat (fs_chunk p fd rem)"
    by (intro unat_sub_small) (simp add: word_le_nat_alt)
  show "unat (curpofs fd) + unat (fs_chunk p fd rem) \<le> unat (REGION_FS_PAGE_SIZE p)" unfolding u using lt by simp
qed

lemma page_ok:
  assumes "fs_pages_ok p m (fs_cur fd) n" "0 < n"
  shows "unat (curpage fd) < REGION_FS_N_PAGES p"
  using assms unfolding fs_pages_ok_def by (auto dest: spec [of _ 0] simp: fs_cur_def)

lemma turn_page:
  assumes i: "fs_inpage p (fs_cur fd)" and n: "0 < unat n" "unat (curpofs fd) + unat n \<le> unat (REGION_FS_PAGE_SIZE p)"
    and pg: "unat (curpage fd) < REGION_FS_N_PAGES p"
  shows "fs_turn_page p m (fs_advance fd n) = Some (fs_at p m fd (unat n))"
proof -
  have u: "unat (curpofs fd + n) = unat (curpofs fd) + unat n"
    using n unat_u32_less [of "REGION_FS_PAGE_SIZE p"] by (intro unat_add_small) simp
  have w: "fs_walk p m (fs_cur fd) (unat n) = (if curpofs fd + n = REGION_FS_PAGE_SIZE p
     then (fs_next p m (curpage fd), word_of_nat SIZEOF_PAGE_HDR) else (curpage fd, curpofs fd + n))"
    unfolding fs_cur_def using n u by (subst walk_in_page) (auto simp: word_unat_eq_iff)
  show ?thesis
    by (simp add: fs_turn_page_def fs_advance_def page_hdr_read [OF pg] fs_at_def w fs_next_def)
qed

lemma seek_loop:
  assumes "fs_inpage p (fs_cur fd)" "fs_pages_ok p m (fs_cur fd) (unat delta)"
  shows "fs_seek_loop p m fd delta = Some (fs_at p m fd (unat delta))"
  using assms
proof (induction "unat delta" arbitrary: delta fd rule: less_induct)
  case less
  show ?case
  proof (cases "delta = 0")
    case True
    then show ?thesis by (subst fs_seek_loop.simps) simp
  next
    case False
    define n where "n = fs_chunk p fd delta"
    note c = chunk [OF less.prems(1) False, folded n_def]
    have pg: "unat (curpage fd) < REGION_FS_N_PAGES p"
      by (rule page_ok [OF less.prems(2)]) (use c(2,3) in linarith)
    have split: "unat delta = unat n + unat (delta - n)" using c by simp
    have "fs_pages_ok p m (fs_walk p m (fs_cur fd) (unat n)) (unat (delta - n))"
      using less.prems(2) unfolding split fs_pages_ok_add by simp
    then have "fs_seek_loop p m (fs_at p m fd (unat n)) (delta - n) = Some (fs_at p m (fs_at p m fd (unat n)) (unat (delta - n)))"
      using c less.prems(1) by (intro less.hyps) (simp_all add: walk_inpage)
    then show ?thesis
      by (subst fs_seek_loop.simps)
        (simp add: False Let_def n_def [symmetric] turn_page [OF less.prems(1) c(2,4) pg] fs_at_add split [symmetric])
  qed
qed

lemma read_loop:
  assumes "fs_inpage p (fs_cur fd)" "fs_pages_ok p m (fs_cur fd) (unat rem)"
  shows "fs_read_loop p m fd dst rem = Some (fs_at p m fd (unat rem), map m (fs_run p m (fs_cur fd) (unat rem)))"
  using assms
proof (induction "unat rem" arbitrary: rem fd dst rule: less_induct)
  case less
  show ?case
  proof (cases "rem = 0")
    case True
    then show ?thesis by (subst fs_read_loop.simps) (simp add: fs_run_def)
  next
    case False
    define n where "n = fs_chunk p fd rem"
    note c = chunk [OF less.prems(1) False, folded n_def]
    have pg: "unat (curpage fd) < REGION_FS_N_PAGES p"
      by (rule page_ok [OF less.prems(2)]) (use c(2,3) in linarith)
    have split: "unat rem = unat n + unat (rem - n)" using c by simp
    have "fs_pages_ok p m (fs_walk p m (fs_cur fd) (unat n)) (unat (rem - n))"
      using less.prems(2) unfolding split fs_pages_ok_add by simp
    then have rest: "fs_read_loop p m (fs_at p m fd (unat n)) (dst + n) (rem - n)
       = Some (fs_at p m (fs_at p m fd (unat n)) (unat (rem - n)), map m (fs_run p m (fs_walk p m (fs_cur fd) (unat n)) (unat (rem - n))))"
      using c less.prems(1) by (subst less.hyps) (simp_all add: walk_inpage)
    have bytes: "mread m (fs_addr p (curpage fd) (curpofs fd)) (unat n) = map m (fs_run p m (fs_cur fd) (unat n))"
      unfolding fs_cur_def run_in_page [OF c(4)] by (rule nth_equalityI) simp_all
    show ?thesis
      using c(4) pg
      by (subst fs_read_loop.simps)
        (simp add: False Let_def n_def [symmetric] turn_page [OF less.prems(1) c(2,4) pg] fs_at_add split [symmetric]
          page_read rest bytes map_append [symmetric] fs_run_add [symmetric] del: map_append)
  qed
qed

lemma write_loop:
  assumes "fs_inpage p (fs_cur fd)" "fs_pages_ok p m (fs_cur fd) (unat rem)" "unat src + unat rem < 2 ^ 32"
  shows "\<exists>m'. fs_write_loop p ram m fd src rem = Some (fs_at p m fd (unat rem), m') \<and>
     m' = fs_program m (fs_run p m (fs_cur fd) (unat rem)) (mread ram (unat src) (unat rem)) \<and>
     (\<forall>pg. fs_next p m' pg = fs_next p m pg)"
  using assms
proof (induction "unat rem" arbitrary: rem fd src m rule: less_induct)
  case less
  show ?case
  proof (cases "rem = 0")
    case True
    then show ?thesis by (subst fs_write_loop.simps) (simp add: fs_run_def fs_program_def)
  next
    case False
    define n where "n = fs_chunk p fd rem"
    note c = chunk [OF less.prems(1) False, folded n_def]
    have pg: "unat (curpage fd) < REGION_FS_N_PAGES p"
      by (rule page_ok [OF less.prems(2)]) (use c(2,3) in linarith)
    have split: "unat rem = unat n + unat (rem - n)" using c by simp
    define m1 where "m1 = mprogram m (fs_addr p (curpage fd) (curpofs fd)) (mread ram (unat src) (unat n))"
    have nx: "fs_next p m1 pg = fs_next p m pg" for pg
      unfolding m1_def using less.prems(1) c(4) by (intro page_hdr_disjoint) (simp_all add: fs_inpage_def fs_cur_def)
    note cong = fs_walk_cong [OF nx] fs_run_cong [OF nx] fs_at_cong [OF nx] fs_pages_ok_cong [OF nx]
    have src: "unat (src + n) = unat src + unat n" using less.prems(3) c(3) by (intro unat_add_small) simp
    have "fs_pages_ok p m1 (fs_walk p m (fs_cur fd) (unat n)) (unat (rem - n))"
      using less.prems(2) unfolding split fs_pages_ok_add cong by simp
    then have "\<exists>m'. fs_write_loop p ram m1 (fs_at p m fd (unat n)) (src + n) (rem - n)
       = Some (fs_at p m1 (fs_at p m fd (unat n)) (unat (rem - n)), m') \<and>
       m' = fs_program m1 (fs_run p m1 (fs_cur (fs_at p m fd (unat n))) (unat (rem - n))) (mread ram (unat (src + n)) (unat (rem - n))) \<and>
       (\<forall>pg. fs_next p m' pg = fs_next p m1 pg)"
      using c src less.prems by (intro less.hyps) (simp_all add: walk_inpage)
    then obtain m' where m': "fs_write_loop p ram m1 (fs_at p m fd (unat n)) (src + n) (rem - n) = Some (fs_at p m fd (unat rem), m')"
       "m' = fs_program m1 (fs_run p m (fs_walk p m (fs_cur fd) (unat n)) (unat (rem - n))) (mread ram (unat src + unat n) (unat (rem - n)))"
       "\<forall>pg. fs_next p m' pg = fs_next p m pg"
      by (auto simp: cong nx fs_at_add split [symmetric] src)
    have "m1 = fs_program m (fs_run p m (fs_cur fd) (unat n)) (mread ram (unat src) (unat n))"
      unfolding m1_def fs_cur_def run_in_page [OF c(4)] using fs_program_upt [of m _ "mread ram (unat src) (unat n)"] by simp
    then have m'': "m' = fs_program m (fs_run p m (fs_cur fd) (unat rem)) (mread ram (unat src) (unat rem))"
      unfolding split fs_run_add mread_add m'(2) by (simp add: fs_program_append)
    have w: "fs_write_page_ofs p ram m (ucast (curpage fd)) (curpofs fd) src n = Some (0, m1)"
      unfolding m1_def using pg c less.prems(3) by (intro page_write) simp_all
    have "fs_write_loop p ram m fd src rem = Some (fs_at p m fd (unat rem), m')"
      using w m'(1) turn_page [OF less.prems(1) c(2,4) pg, of m1]
      by (subst fs_write_loop.simps) (simp add: False Let_def n_def [symmetric] cong)
    then show ?thesis using m'' m'(3) by blast
  qed
qed
end

subsection \<open>What the operations promise\<close>

text \<open>A file whose bytes lie in existing pages, and a descriptor whose cursor is where its offset
  says.\<close>

definition file_ok :: "plat \<Rightarrow> mem \<Rightarrow> fs_file \<Rightarrow> bool" where
  "file_ok p m f \<longleftrightarrow> flags f AND FILE_IS_RAW_FLASH = 0 \<and> fs_inpage p (fs_start f) \<and> fs_pages_ok p m (fs_start f) (unat (fsize f))"

definition fd_ok :: "plat \<Rightarrow> mem \<Rightarrow> fd \<Rightarrow> bool" where
  "fd_ok p m fd \<longleftrightarrow> file_ok p m (fd_file fd) \<and> unat (fd_offset fd) \<le> unat (fsize (fd_file fd)) \<and>
     fs_cur fd = fs_walk p m (fs_start (fd_file fd)) (unat (fd_offset fd))"

definition fs_goto :: "plat \<Rightarrow> mem \<Rightarrow> fd \<Rightarrow> nat \<Rightarrow> fd" where
  "fs_goto p m fd k = fd\<lparr>curpage := fst (fs_walk p m (fs_start (fd_file fd)) k),
     curpofs := snd (fs_walk p m (fs_start (fd_file fd)) k), fd_offset := word_of_nat k\<rparr>"

lemma fs_goto_fields [simp]: "fd_file (fs_goto p m fd k) = fd_file fd" "replaces (fs_goto p m fd k) = replaces fd"
  "fd_offset (fs_goto p m fd k) = word_of_nat k" "fs_cur (fs_goto p m fd k) = fs_walk p m (fs_start (fd_file fd)) k"
  "fs_goto p m (fs_goto p m fd i) k = fs_goto p m fd k"
  by (simp_all add: fs_goto_def fs_cur_def)

lemma fs_at_goto:
  "fs_cur fd = fs_walk p m (fs_start (fd_file fd)) (unat (fd_offset fd)) \<Longrightarrow>
   fs_at p m fd k = fs_goto p m fd (unat (fd_offset fd) + k)"
  by (simp add: fs_at_def fs_goto_def fs_walk_add)

lemma fs_open_ok: "file_ok p m f \<Longrightarrow> fd_ok p m (fs_open f)"
  by (simp add: fd_ok_def fs_open_def fs_cur_def fs_start_def)

lemma fs_goto_ok:
  assumes "fd_ok p m fd" "k \<le> unat (fsize (fd_file fd))"
  shows "fd_ok p m (fs_goto p m fd k)"
proof -
  have "unat (word_of_nat k :: u32) = k" using assms(2) unat_u32_less [of "fsize (fd_file fd)"] by (simp add: unat_of_nat)
  then show ?thesis using assms by (simp add: fd_ok_def)
qed

lemma fs_left_unat:
  assumes "fd_ok p m fd"
  shows "unat (fs_left fd n) = min (unat n) (unat (fsize (fd_file fd)) - unat (fd_offset fd))"
proof -
  have "unat (fsize (fd_file fd) - fd_offset fd) = unat (fsize (fd_file fd)) - unat (fd_offset fd)"
    using assms by (intro unat_sub_small) (simp add: fd_ok_def word_le_nat_alt)
  then show ?thesis by (simp add: fs_left_def word_less_nat_alt)
qed

lemma fs_newoffset_le: "unat (fs_newoffset fd ofs w) \<le> unat (fsize (fd_file fd))"
  by (simp add: fs_newoffset_def Let_def word_less_nat_alt)

lemma fs_addrs_split: "fs_addrs p m f i (a + b) = fs_addrs p m f i a @ fs_addrs p m f (i + a) b"
  by (simp add: fs_addrs_def fs_run_add fs_walk_add)

context fs_platform begin

lemma cursor_ok:
  assumes "fd_ok p m fd" "unat (fd_offset fd) + n \<le> unat (fsize (fd_file fd))"
  shows "fs_inpage p (fs_cur fd)" "fs_pages_ok p m (fs_cur fd) n"
proof -
  show "fs_inpage p (fs_cur fd)" using assms(1) by (simp add: fd_ok_def file_ok_def walk_inpage)
  obtain r where r: "unat (fsize (fd_file fd)) = unat (fd_offset fd) + n + r"
    using assms(2) le_Suc_ex by blast
  show "fs_pages_ok p m (fs_cur fd) n"
    using assms(1) unfolding fd_ok_def file_ok_def r fs_pages_ok_add by simp
qed

theorem seek_ok:
  assumes "fd_ok p m fd"
  shows "fs_seek p m fd ofs w = Some (fs_newoffset fd ofs w, fs_goto p m fd (unat (fs_newoffset fd ofs w)))"
proof -
  define new where "new = fs_newoffset fd ofs w"
  define fd1 where "fd1 = (if new < fd_offset fd
    then fd\<lparr>curpage := startpage (fd_file fd), curpofs := startpofs (fd_file fd), fd_offset := 0\<rparr> else fd)"
  have ok: "fd_ok p m fd1" using assms by (simp add: fd1_def fd_ok_def fs_cur_def fs_start_def)
  have f: "fd_file fd1 = fd_file fd" "fs_goto p m fd1 = fs_goto p m fd" by (simp_all add: fd1_def fs_goto_def fun_eq_iff)
  have le: "fd_offset fd1 \<le> new" by (simp add: fd1_def not_less)
  have sum: "unat (fd_offset fd1) + unat (new - fd_offset fd1) = unat new"
    using le by (simp add: unat_sub_small word_le_nat_alt)
  have "fs_seek_loop p m fd1 (new - fd_offset fd1) = Some (fs_at p m fd1 (unat (new - fd_offset fd1)))"
    by (rule seek_loop; rule cursor_ok [OF ok, of "unat (new - fd_offset fd1)"])
      (use sum fs_newoffset_le [of fd ofs w] f in \<open>simp_all add: new_def\<close>)
  also have "fs_at p m fd1 (unat (new - fd_offset fd1)) = fs_goto p m fd (unat new)"
    using ok f sum by (subst fs_at_goto) (simp_all add: fd_ok_def)
  finally show ?thesis
    using assms unfolding fs_seek_def Let_def new_def [symmetric] fd1_def [symmetric]
    by (simp add: fd_ok_def file_ok_def)
qed

theorem read_ok:
  assumes ok: "fd_ok p m fd" and k: "k = min (unat n) (unat (fsize (fd_file fd)) - unat (fd_offset fd))"
  shows "fs_read p m fd dst n = Some (word_of_nat k, fs_goto p m fd (unat (fd_offset fd) + k),
           map m (fs_addrs p m (fd_file fd) (unat (fd_offset fd)) k))"
proof -
  have u: "unat (fs_left fd n) = k" using fs_left_unat [OF ok, of n] k by simp
  then have e: "fs_left fd n = word_of_nat k" unfolding u [symmetric] by simp
  have "unat (fd_offset fd) + k \<le> unat (fsize (fd_file fd))" using ok k unfolding fd_ok_def by linarith
  then have "fs_read_loop p m fd dst (fs_left fd n) = Some (fs_at p m fd k, map m (fs_run p m (fs_cur fd) k))"
    using cursor_ok [OF ok, of k] u by (subst read_loop) simp_all
  then show ?thesis
    using ok fs_at_goto [of fd p m k] unfolding fs_read_def Let_def
    by (simp add: e fd_ok_def file_ok_def fs_addrs_def)
qed

theorem write_ok:
  assumes ok: "fd_ok p m fd" and k: "k = min (unat n) (unat (fsize (fd_file fd)) - unat (fd_offset fd))"
    and src: "unat src + k < 2 ^ 32"
    and m': "m' = fs_program m (fs_addrs p m (fd_file fd) (unat (fd_offset fd)) k) (mread ram (unat src) k)"
  shows "fs_write p ram m fd src n = Some (word_of_nat k, fs_goto p m fd (unat (fd_offset fd) + k), m')"
    and "\<And>pg. fs_next p m' pg = fs_next p m pg"
proof -
  have u: "unat (fs_left fd n) = k" using fs_left_unat [OF ok, of n] k by simp
  then have e: "fs_left fd n = word_of_nat k" unfolding u [symmetric] by simp
  have le: "unat (fd_offset fd) + k \<le> unat (fsize (fd_file fd))" using ok k unfolding fd_ok_def by linarith
  obtain m1 where m1: "fs_write_loop p ram m fd src (fs_left fd n) = Some (fs_at p m fd k, m1)"
     "m1 = fs_program m (fs_run p m (fs_cur fd) k) (mread ram (unat src) k)"
     "\<forall>pg. fs_next p m1 pg = fs_next p m pg"
    using write_loop [of fd m "fs_left fd n" src ram] cursor_ok [OF ok le] src u by auto
  then have "m1 = m'" using ok by (simp add: m' fs_addrs_def fd_ok_def)
  then show "fs_write p ram m fd src n = Some (word_of_nat k, fs_goto p m fd (unat (fd_offset fd) + k), m')"
    using ok m1 fs_at_goto [of fd p m k] unfolding fs_write_def Let_def
    by (simp add: e fd_ok_def file_ok_def)
  show "\<And>pg. fs_next p m' pg = fs_next p m pg" using m1(3) \<open>m1 = m'\<close> by simp
qed

end

lemma fs_program_other: "a \<notin> set as \<Longrightarrow> fs_program m as bs a = m a"
proof (induction as arbitrary: m bs)
  case (Cons x as)
  show ?case
  proof (cases bs)
    case (Cons b bs')
    then have "fs_program m (x # as) bs = fs_program (m(x := m x AND b)) as bs'" by (simp add: fs_program_def)
    moreover have "fs_program (m(x := m x AND b)) as bs' a = (m(x := m x AND b)) a"
      by (rule Cons.IH) (use Cons.prems in simp)
    moreover have "(m(x := m x AND b)) a = m a" using Cons.prems by simp
    ultimately show ?thesis by (simp only:)
  qed (simp add: fs_program_def)
qed (simp add: fs_program_def)

lemma fs_program_read:
  "distinct as \<Longrightarrow> length as = length bs \<Longrightarrow> map (fs_program m as bs) as = map2 (AND) (map m as) bs"
proof (induction as arbitrary: m bs)
  case (Cons x as)
  then obtain b bs' where bs: "bs = b # bs'" by (cases bs) auto
  let ?m = "m(x := m x AND b)"
  have e: "fs_program m (x # as) (b # bs') = fs_program ?m as bs'" by (simp add: fs_program_def)
  have "map (fs_program ?m as bs') as = map2 (AND) (map ?m as) bs'" using Cons bs by simp
  moreover have "map ?m as = map m as" using Cons.prems(1) by auto
  moreover have "fs_program ?m as bs' x = m x AND b" using Cons.prems(1) by (simp add: fs_program_other)
  ultimately show ?case unfolding bs by (simp add: e del: fun_upd_apply)
qed (simp add: fs_program_def)

lemma fs_program_erased:
  assumes "distinct as" "length as = length bs" "\<forall>a \<in> set as. m a = 0xFF"
  shows "map (fs_program m as bs) as = bs"
proof -
  have "map m as = replicate (length bs) 0xFF" using assms(2,3) by (intro replicate_eqI) auto
  moreover have "map2 (AND) (replicate (length bs) 0xFF) bs = (bs :: bytes)" by (induction bs) simp_all
  ultimately show ?thesis using assms by (simp add: fs_program_read)
qed

context fs_platform begin

theorem write_read_back:
  assumes ok: "fd_ok p m fd" and n: "unat (fd_offset fd) + unat n \<le> unat (fsize (fd_file fd))"
    and src: "unat src + unat n < 2 ^ 32"
    and fresh: "distinct (fs_addrs p m (fd_file fd) (unat (fd_offset fd)) (unat n))"
      "\<forall>a \<in> set (fs_addrs p m (fd_file fd) (unat (fd_offset fd)) (unat n)). m a = 0xFF"
  shows "do { (_, fd1, m1) \<leftarrow> fs_write p ram m fd src n;
              (_, fd2) \<leftarrow> fs_seek p m1 fd1 (fd_offset fd) FS_SEEK_SET;
              (_, _, bs) \<leftarrow> fs_read p m1 fd2 dst n;
              Some bs } = Some (mread ram (unat src) (unat n))"
proof -
  define f where "f = fd_file fd"
  define i where "i = unat (fd_offset fd)"
  define k where "k = min (unat n) (unat (fsize f) - i)"
  define as where "as = fs_addrs p m f i k"
  define m1 where "m1 = fs_program m as (mread ram (unat src) k)"
  have k: "k = unat n" using n by (simp add: k_def f_def i_def)
  note w = write_ok [OF ok, of k n src m1 ram, folded f_def i_def, OF k_def, folded as_def, OF _ m1_def]
  have w1: "fs_write p ram m fd src n = Some (word_of_nat k, fs_goto p m fd (i + k), m1)"
    and nx: "\<And>pg. fs_next p m1 pg = fs_next p m pg" using w src k by simp_all
  have goto: "fs_goto p m1 = fs_goto p m"
    by (intro ext) (simp add: fs_goto_def fs_walk_cong [OF nx])
  have addrs: "fs_addrs p m1 = fs_addrs p m"
    by (intro ext) (simp add: fs_addrs_def fs_walk_cong [OF nx] fs_run_cong [OF nx])
  have fok: "fd_ok p m1 fd"
    using ok by (simp add: fd_ok_def file_ok_def fs_walk_cong [OF nx] fs_pages_ok_cong [OF nx])
  have fok1: "fd_ok p m1 (fs_goto p m fd (i + k))"
    unfolding goto [symmetric] using fs_goto_ok [OF fok, of "i + k"] n k by (simp add: i_def)
  have "\<not> fd_offset fd > fsize f" using ok by (simp add: fd_ok_def f_def not_less word_le_nat_alt)
  then have off: "fs_newoffset (fs_goto p m fd (i + k)) (fd_offset fd) FS_SEEK_SET = fd_offset fd"
    by (simp add: fs_newoffset_def f_def)
  have s1: "fs_seek p m1 (fs_goto p m fd (i + k)) (fd_offset fd) FS_SEEK_SET = Some (fd_offset fd, fs_goto p m fd i)"
    unfolding seek_ok [OF fok1] off by (simp add: goto i_def)
  have fok2: "fd_ok p m1 (fs_goto p m fd i)"
    unfolding goto [symmetric] using fs_goto_ok [OF fok, of i] n by (simp add: i_def)
  have ki: "k = min (unat n) (unat (fsize (fd_file (fs_goto p m fd i))) - unat (fd_offset (fs_goto p m fd i)))"
    by (simp add: k_def f_def i_def)
  have r1: "fs_read p m1 (fs_goto p m fd i) dst n = Some (word_of_nat k, fs_goto p m fd (i + k), map m1 as)"
    using read_ok [OF fok2 ki, of dst] by (simp add: goto addrs as_def f_def i_def)
  have "map m1 as = mread ram (unat src) k"
    unfolding m1_def using fresh k by (intro fs_program_erased) (simp_all add: as_def f_def i_def fs_addrs_def)
  then have "do { (_, fd1, m1) \<leftarrow> fs_write p ram m fd src n;
              (_, fd2) \<leftarrow> fs_seek p m1 fd1 (fd_offset fd) FS_SEEK_SET;
              (_, _, bs) \<leftarrow> fs_read p m1 fd2 dst n;
              Some bs } = Some (mread ram (unat src) k)"
    by (simp add: w1 s1 r1)
  then show ?thesis by (simp only: k)
qed

lemma crc_loop:
  assumes "fd_ok p m fd" "unat (fd_offset fd) + unat len \<le> unat (fsize (fd_file fd))"
  shows "fs_file_crc32_loop p m fd crc len = Some (fs_pbfs_crc32_accum crc
      (map m (fs_addrs p m (fd_file fd) (unat (fd_offset fd)) (unat len))), fs_goto p m fd (unat (fd_offset fd) + unat len))"
  using assms
proof (induction "unat len" arbitrary: len fd crc rule: less_induct)
  case less
  define i where "i = unat (fd_offset fd)"
  show ?case
  proof (cases "len = 0")
    case True
    then show ?thesis using less.prems(1) fs_at_goto [of fd p m 0]
      by (subst fs_file_crc32_loop.simps) (simp add: fs_addrs_def fs_run_def fd_ok_def)
  next
    case False
    define bt where "bt = (if len < 32 then len else 32)"
    have bt: "unat bt = min (unat len) 32" by (simp add: bt_def word_less_nat_alt)
    have n0: "0 < unat len" using False by (simp add: unat_gt_0)
    have sub: "unat (len - bt) = unat len - unat bt" using bt by (intro unat_sub_small) (simp add: word_le_nat_alt)
    have rd: "fs_read p m fd (p_local p) bt = Some (bt, fs_goto p m fd (i + unat bt), map m (fs_addrs p m (fd_file fd) i (unat bt)))"
    proof -
      have "unat bt = min (unat bt) (unat (fsize (fd_file fd)) - unat (fd_offset fd))"
        using less.prems(2) bt by linarith
      from read_ok [OF less.prems(1) this] show ?thesis by (simp add: i_def)
    qed
    have ok: "fd_ok p m (fs_goto p m fd (i + unat bt))"
      using less.prems bt by (intro fs_goto_ok) (simp_all add: i_def)
    have ib: "unat (word_of_nat (i + unat bt) :: u32) = i + unat bt"
      using less.prems(2) bt unat_u32_less [of "fsize (fd_file fd)"] unfolding unat_of_nat i_def by simp
    have split: "unat len = unat bt + unat (len - bt)" using sub bt by simp
    have rest: "fs_file_crc32_loop p m (fs_goto p m fd (i + unat bt)) c (len - bt)
       = Some (fs_pbfs_crc32_accum c (map m (fs_addrs p m (fd_file fd) (i + unat bt) (unat (len - bt)))), fs_goto p m fd (i + unat len))" for c
    proof -
      have "unat (fd_offset (fs_goto p m fd (i + unat bt))) + unat (len - bt) \<le> unat (fsize (fd_file (fs_goto p m fd (i + unat bt))))"
        using less.prems(2) ib split by (simp add: i_def)
      moreover have "unat (len - bt) < unat len" using sub bt n0 by simp
      ultimately show ?thesis using less.hyps [OF _ ok, of "len - bt" c] ib split by (simp add: i_def add.assoc)
    qed
    have crc: "fs_pbfs_crc32_accum (fs_pbfs_crc32_accum crc (map m (fs_addrs p m (fd_file fd) i (unat bt))))
         (map m (fs_addrs p m (fd_file fd) (i + unat bt) (unat (len - bt))))
       = fs_pbfs_crc32_accum crc (map m (fs_addrs p m (fd_file fd) i (unat len)))"
    proof (cases "unat len \<le> 32")
      case True
      then have "unat (len - bt) = 0" "unat bt = unat len" using sub bt by simp_all
      then show ?thesis by (simp add: fs_addrs_def fs_run_def)
    next
      case False
      then have "unat bt = 32" using bt by simp
      then show ?thesis unfolding split fs_addrs_split map_append
        by (subst fs_pbfs_crc32_accum_append) (simp_all add: fs_addrs_def)
    qed
    show ?thesis
      by (subst fs_file_crc32_loop.simps)
        (simp add: False Let_def bt_def [symmetric] rd rest crc i_def [symmetric])
  qed
qed

theorem file_crc32_ok:
  assumes "fd_ok p m fd" "unat len \<le> unat (fsize (fd_file fd))"
  shows "map_option fst (fs_file_crc32 p m fd len) = Some (fs_pbfs_crc32 (map m (fs_addrs p m (fd_file fd) 0 (unat len))))"
proof -
  have "fs_newoffset fd 0 FS_SEEK_SET = 0" by (simp add: fs_newoffset_def)
  then have "fs_seek p m fd 0 FS_SEEK_SET = Some (0, fs_goto p m fd 0)" using seek_ok [OF assms(1), of 0 FS_SEEK_SET] by simp
  moreover have "fd_ok p m (fs_goto p m fd 0)" using assms by (intro fs_goto_ok) simp_all
  ultimately show ?thesis
    using crc_loop [of m "fs_goto p m fd 0" len "0xFFFFFFFF"] assms(2) by (simp add: fs_file_crc32_def fs_pbfs_crc32_def)
qed

theorem file_from_file_ok:
  assumes f: "file_ok p m f" and off: "unat off \<le> unat (fsize f)"
  obtains f' where "fs_file_from_file p m f off len = Some f'" "file_ok p m f'"
    "unat (fsize f') = min (unat len) (unat (fsize f) - unat off)"
    "\<And>i n. fs_addrs p m f' i n = fs_addrs p m f (unat off + i) n"
proof -
  define sz where "sz = (if fsize f < off then 0 else fsize f - off)"
  have sz: "unat sz = unat (fsize f) - unat off"
    unfolding sz_def using off by (simp add: word_less_nat_alt word_le_nat_alt unat_sub_small)
  have no: "fs_newoffset (fs_open f) off FS_SEEK_SET = off"
    using off by (simp add: fs_newoffset_def fs_open_def word_less_nat_alt)
  define f' where "f' = f\<lparr>flags := flags f AND NOT FILE_HAS_DIRENT, startpage := fst (fs_walk p m (fs_start f) (unat off)),
      startpofs := snd (fs_walk p m (fs_start f) (unat off)), fsize := (if sz > len then len else sz)\<rparr>"
  have ff: "fs_file_from_file p m f off len = Some f'"
    using seek_ok [OF fs_open_ok [OF f], of off FS_SEEK_SET]
    unfolding fs_file_from_file_def by (simp add: no f'_def sz_def [symmetric]) (simp add: fs_goto_def fs_open_def)
  have st: "fs_start f' = fs_walk p m (fs_start f) (unat off)" by (simp add: f'_def fs_start_def)
  have len: "unat (fsize f') = min (unat len) (unat (fsize f) - unat off)" by (simp add: f'_def sz word_less_nat_alt)
  obtain r where r: "unat (fsize f) = unat off + unat (fsize f') + r"
    using len off by (metis le_Suc_ex le_add_diff_inverse min.cobounded2 add.assoc)
  have "fs_pages_ok p m (fs_start f') (unat (fsize f'))"
    using f unfolding st file_ok_def r fs_pages_ok_add by simp
  moreover have "flags f' AND FILE_IS_RAW_FLASH = (flags f AND FILE_IS_RAW_FLASH) AND NOT FILE_HAS_DIRENT"
    by (simp add: f'_def ac_simps)
  ultimately have "file_ok p m f'" using f by (simp add: file_ok_def st walk_inpage)
  then show ?thesis using that [OF ff _ len] by (simp add: fs_addrs_def st fs_walk_add)
qed

end

lemma fs_platform_snowy: "nor_chip_ok c \<Longrightarrow> fs_platform (snowy_plat c) 6 0x1000000"
  by (intro fs_platform.intro nor_platform_snowy fs_platform_axioms.intro) (simp_all add: snowy_plat_def)

interpretation snowy_fs: fs_platform "snowy_plat nor_ideal" 6 "0x1000000"
  by (rule fs_platform_snowy [OF nor_ideal_ok])

lemma fs_open_fields [simp]: "fd_file (fs_open f) = f" "fd_offset (fs_open f) = 0"
  by (simp_all add: fs_open_def)

lemma fs_next_bytes:
  "fs_next p m pg = ucast (m (fs_addr p pg 0 + 22)) OR push_bit 8 (ucast (m (fs_addr p pg 0 + 23)))"
  by (simp add: fs_next_def page_hdr_of_def get16_def SIZEOF_PAGE_HDR_def)

lemma fs_walk_Suc: "fs_walk p m pos (Suc k) = fs_walk p m (fs_step p m pos) k"
  unfolding fs_walk_def by (simp only: funpow_Suc_right o_apply)

subsection \<open>An example file: four bytes, two at the end of page 0 and two at the start of page 5\<close>

definition ex_flash :: mem where
  "ex_flash x = (if x = 0x400016 then 5 else if x = 0x400017 then 0 else 0xFF)"

definition ex_file :: fs_file where
  "ex_file = \<lparr> flags = FILE_HAS_DIRENT, startpage = 0, startpofs = 0x1FFE, fsize = 4 \<rparr>"

lemma snowy_geometry [simp]: "REGION_FS_START (snowy_plat c) = 0x400000" "REGION_FS_PAGE_SIZE (snowy_plat c) = 0x2000"
  "REGION_FS_N_PAGES (snowy_plat c) = 1536"
  by (simp_all add: snowy_plat_def)

lemma ex_next: "fs_next (snowy_plat c) ex_flash 0 = 5"
  by (simp add: fs_next_bytes fs_addr_def ex_flash_def)

lemma ex_steps: "fs_step (snowy_plat c) ex_flash (0, 0x1FFE) = (0, 0x1FFF)"
  "fs_step (snowy_plat c) ex_flash (0, 0x1FFF) = (5, 28)" "fs_step (snowy_plat c) ex_flash (5, 28) = (5, 29)"
  by (simp_all add: fs_step_def ex_next SIZEOF_PAGE_HDR_def)

lemma ex_walk: "fs_walk (snowy_plat c) ex_flash (0, 0x1FFE) 0 = (0, 0x1FFE)"
  "fs_walk (snowy_plat c) ex_flash (0, 0x1FFE) 1 = (0, 0x1FFF)"
  "fs_walk (snowy_plat c) ex_flash (0, 0x1FFE) 2 = (5, 28)"
  "fs_walk (snowy_plat c) ex_flash (0, 0x1FFE) 3 = (5, 29)"
  by (simp_all add: numeral_2_eq_2 numeral_3_eq_3 fs_walk_Suc ex_steps)

lemma ex_start: "fs_start ex_file = (0, 0x1FFE)"
  by (simp add: fs_start_def ex_file_def)

lemma ex_run: "fs_addrs (snowy_plat c) ex_flash ex_file 0 4 = [0x401FFE, 0x401FFF, 0x40A01C, 0x40A01D]"
proof -
  have "[0..<4] = [0, 1, 2, 3 :: nat]" by (simp add: upt_rec)
  then show ?thesis unfolding fs_addrs_def fs_run_def ex_start
    by (simp only: fs_walk_0 list.map ex_walk) (simp add: fs_addr_def)
qed

lemma ex_file_ok: "file_ok (snowy_plat c) ex_flash ex_file"
proof -
  have *: "(\<forall>k < 4. P k) = (P 0 \<and> P 1 \<and> P 2 \<and> P (3 :: nat))" for P
  proof -
    have "{k. k < 4} = {0, 1, 2, 3 :: nat}" by auto
    then show ?thesis by (metis (mono_tags, lifting) insert_iff mem_Collect_eq singletonD)
  qed
  have "unat (fsize ex_file) = 4" by (simp add: ex_file_def)
  then have "fs_pages_ok (snowy_plat c) ex_flash (fs_start ex_file) (unat (fsize ex_file))"
    unfolding fs_pages_ok_def ex_start by (simp only: * ex_walk) simp
  then show ?thesis
    by (simp add: file_ok_def fs_inpage_def ex_start SIZEOF_PAGE_HDR_def)
      (simp add: ex_file_def FILE_HAS_DIRENT_def FILE_IS_RAW_FLASH_def)
qed

text \<open>C8: what \<open>fs_write\<close> stores in an open file is what \<open>fs_seek\<close> back and \<open>fs_read\<close> return. The bytes may
  cross any number of file system pages; the only condition on the flash is that the bytes' places
  are different and erased.\<close>

theorem fs_write_read_back:
  assumes "fd_ok (snowy_plat nor_ideal) m fd"
    and "unat (fd_offset fd) + unat n \<le> unat (fsize (fd_file fd))" "unat src + unat n < 2 ^ 32"
    and "distinct (fs_addrs (snowy_plat nor_ideal) m (fd_file fd) (unat (fd_offset fd)) (unat n))"
    and "\<forall>a \<in> set (fs_addrs (snowy_plat nor_ideal) m (fd_file fd) (unat (fd_offset fd)) (unat n)). m a = 0xFF"
  shows "do { (_, fd1, m1) \<leftarrow> fs_write (snowy_plat nor_ideal) ram m fd src n;
              (_, fd2) \<leftarrow> fs_seek (snowy_plat nor_ideal) m1 fd1 (fd_offset fd) FS_SEEK_SET;
              (_, _, bs) \<leftarrow> fs_read (snowy_plat nor_ideal) m1 fd2 dst n;
              Some bs } = Some (mread ram (unat src) (unat n))"
  using assms by (rule snowy_fs.write_read_back)

theorem fs_write_read_back_witness:
  "do { (_, fd1, m1) \<leftarrow> fs_write (snowy_plat nor_ideal) (\<lambda>x. word_of_nat x) ex_flash (fs_open ex_file) 0x20000101 4;
        (_, fd2) \<leftarrow> fs_seek (snowy_plat nor_ideal) m1 fd1 0 FS_SEEK_SET;
        (_, _, bs) \<leftarrow> fs_read (snowy_plat nor_ideal) m1 fd2 0x20000200 4;
        Some bs } = Some [1, 2, 3, 4]"
proof -
  have "unat (4 :: u32) = 4" by simp
  with fs_write_read_back [OF fs_open_ok [OF ex_file_ok], of 4 "0x20000101" "\<lambda>x. word_of_nat x" "0x20000200"] ex_run
  show ?thesis by (simp add: fs_open_def ex_file_def ex_flash_def mread_def upt_rec)
qed

text \<open>\<open>fs_read\<close> after \<open>fs_seek\<close>: seeking to an absolute offset and reading returns the bytes of the
  file's page chain from there, as many as were asked for or are left, and never fails or hangs.\<close>

theorem fs_seek_read:
  assumes "fd_ok (snowy_plat nor_ideal) m fd" "unat ofs \<le> unat (fsize (fd_file fd))"
  shows "do { (_, fd1) \<leftarrow> fs_seek (snowy_plat nor_ideal) m fd ofs FS_SEEK_SET;
              (n', _, bs) \<leftarrow> fs_read (snowy_plat nor_ideal) m fd1 dst n;
              Some (n', bs) }
    = (let k = min (unat n) (unat (fsize (fd_file fd)) - unat ofs)
       in Some (word_of_nat k, map m (fs_addrs (snowy_plat nor_ideal) m (fd_file fd) (unat ofs) k)))"
proof -
  have no: "fs_newoffset fd ofs FS_SEEK_SET = ofs"
    using assms(2) by (simp add: fs_newoffset_def word_less_nat_alt)
  let ?fd = "fs_goto (snowy_plat nor_ideal) m fd (unat ofs)"
  have "fs_seek (snowy_plat nor_ideal) m fd ofs FS_SEEK_SET = Some (ofs, ?fd)"
    using snowy_fs.seek_ok [OF assms(1), of ofs FS_SEEK_SET] by (simp add: no)
  moreover have "fd_ok (snowy_plat nor_ideal) m ?fd" using assms by (rule fs_goto_ok)
  ultimately show ?thesis using snowy_fs.read_ok [of m ?fd _ n dst] by (simp add: Let_def)
qed

theorem fs_seek_read_witness:
  "do { (_, fd1) \<leftarrow> fs_seek (snowy_plat nor_ideal) ex_flash (fs_open ex_file) 1 FS_SEEK_SET;
        (n', _, bs) \<leftarrow> fs_read (snowy_plat nor_ideal) ex_flash fd1 0x20000200 9;
        Some (n', bs) } = Some (3, [0xFF, 0xFF, 0xFF])"
proof -
  have "fs_addrs (snowy_plat nor_ideal) ex_flash ex_file 1 3 = [0x401FFF, 0x40A01C, 0x40A01D]"
    using ex_run fs_addrs_split [of "snowy_plat nor_ideal" ex_flash ex_file 0 1 3] by (simp add: fs_addrs_def fs_run_def)
  then show ?thesis
    using fs_seek_read [OF fs_open_ok [OF ex_file_ok], of 1 "0x20000200" 9]
    by (simp add: fs_open_def ex_file_def ex_flash_def)
qed

text \<open>A file within a file (\<open>fs_file_from_file\<close>, how resources are found in their pack): opening
  it, seeking and reading gives the bytes of the outer file shifted by the offset, cut at
  the inner length.\<close>

theorem fs_file_from_file_read:
  assumes "file_ok (snowy_plat nor_ideal) m f" "unat off \<le> unat (fsize f)"
    and i: "unat i \<le> min (unat len) (unat (fsize f) - unat off)"
  shows "do { f' \<leftarrow> fs_file_from_file (snowy_plat nor_ideal) m f off len;
              (_, fd1) \<leftarrow> fs_seek (snowy_plat nor_ideal) m (fs_open f') i FS_SEEK_SET;
              (_, _, bs) \<leftarrow> fs_read (snowy_plat nor_ideal) m fd1 dst n;
              Some bs }
    = Some (map m (fs_addrs (snowy_plat nor_ideal) m f (unat off + unat i)
              (min (unat n) (min (unat len) (unat (fsize f) - unat off) - unat i))))"
proof -
  obtain f' where f': "fs_file_from_file (snowy_plat nor_ideal) m f off len = Some f'" "file_ok (snowy_plat nor_ideal) m f'"
    "unat (fsize f') = min (unat len) (unat (fsize f) - unat off)"
    "\<And>i n. fs_addrs (snowy_plat nor_ideal) m f' i n = fs_addrs (snowy_plat nor_ideal) m f (unat off + i) n"
    using snowy_fs.file_from_file_ok [OF assms(1,2)] by metis
  have ok: "fd_ok (snowy_plat nor_ideal) m (fs_open f')" by (rule fs_open_ok [OF f'(2)])
  have "\<not> unat (fsize f') < unat i" using i f'(3) by linarith
  then have "fs_newoffset (fs_open f') i FS_SEEK_SET = i"
    by (simp add: fs_newoffset_def fs_open_def word_less_nat_alt)
  then have sk: "fs_seek (snowy_plat nor_ideal) m (fs_open f') i FS_SEEK_SET = Some (i, fs_goto (snowy_plat nor_ideal) m (fs_open f') (unat i))"
    using snowy_fs.seek_ok [OF ok, of i FS_SEEK_SET] by simp
  have "fd_ok (snowy_plat nor_ideal) m (fs_goto (snowy_plat nor_ideal) m (fs_open f') (unat i))"
    using ok i f'(3) by (intro fs_goto_ok) (simp_all add: fs_open_def)
  from snowy_fs.read_ok [OF this refl, of dst n] show ?thesis
    by (simp add: f'(1,3,4) sk)
qed

theorem fs_file_from_file_read_witness:
  "do { f' \<leftarrow> fs_file_from_file (snowy_plat nor_ideal) ex_flash ex_file 1 2;
        (_, fd1) \<leftarrow> fs_seek (snowy_plat nor_ideal) ex_flash (fs_open f') 1 FS_SEEK_SET;
        (_, _, bs) \<leftarrow> fs_read (snowy_plat nor_ideal) ex_flash fd1 0x20000200 7;
        Some bs } = Some [0xFF]"
proof -
  have "fs_addrs (snowy_plat nor_ideal) ex_flash ex_file 2 1 = [0x40A01C]"
    unfolding fs_addrs_def fs_run_def ex_start by (simp add: ex_walk fs_addr_def)
  then have "fs_addrs (snowy_plat nor_ideal) ex_flash ex_file (Suc (Suc 0)) (Suc 0) = [0x40A01C]"
    by (simp only: numeral_2_eq_2 One_nat_def)
  then show ?thesis
    using fs_file_from_file_read [OF ex_file_ok, of 1 1 2 "0x20000200" 7]
    by (simp add: ex_file_def ex_flash_def)
qed

text \<open>\<open>fs_file_crc32\<close>, which reads a file 32 bytes at a time through \<open>fs_read\<close>, returns the
  checksum \<open>fs_pbfs_crc32\<close> of the file's first \<open>len\<close> bytes taken as one buffer.\<close>

theorem fs_file_crc32_whole:
  assumes "fd_ok (snowy_plat nor_ideal) m fd" "unat len \<le> unat (fsize (fd_file fd))"
  shows "map_option fst (fs_file_crc32 (snowy_plat nor_ideal) m fd len)
    = Some (fs_pbfs_crc32 (map m (fs_addrs (snowy_plat nor_ideal) m (fd_file fd) 0 (unat len))))"
  using assms by (rule snowy_fs.file_crc32_ok)

theorem fs_file_crc32_whole_witness:
  "map_option fst (fs_file_crc32 (snowy_plat nor_ideal) ex_flash (fs_open ex_file) 4)
    = Some (fs_pbfs_crc32 [0xFF, 0xFF, 0xFF, 0xFF])"
  using fs_file_crc32_whole [OF fs_open_ok [OF ex_file_ok], of 4]
  by (simp add: fs_open_def ex_file_def [symmetric] ex_run) (simp add: ex_flash_def ex_file_def)

end
