(* ===== verification/FsAlloc.thy ===== *)
theory FsAlloc
  imports FsFile
begin

section \<open>The file system: rcore/fs.c, pages, allocation, creation and deletion\<close>

text \<open>
  The state of rcore/fs.c (its static variables, one record \<open>fs\<close>, with the flash contents), the
  2-bit page table, the scan that fills it, the wear-levelling allocator, the GC sector search,
  creation, deletion, formatting and lookup of files. An access to the page table past its end, a
  failing assert, a panic and a loop that does not end are \<open>None\<close>. The log lines and the counters
  that only feed them are left out. \<open>fs_free_pages\<close> is compared as the unsigned number
  the C converts it to.
\<close>

record fs =
  fs_flash :: mem
  fs_valid :: bool
  fs_lastpg :: int
  fs_best_erase_count :: u32
  fs_last_allocated_page :: int
  fs_free_pages :: u32
  fs_page_flags :: bytes
  gc_sector :: int

subsection \<open>The page table\<close>

datatype page_state = PageStateClean | PageStateFileStart | PageStateFileCont | PageStateDirty

primrec page_state_code :: "page_state \<Rightarrow> u8" where
  "page_state_code PageStateClean = 0" |
  "page_state_code PageStateFileStart = 1" |
  "page_state_code PageStateFileCont = 2" |
  "page_state_code PageStateDirty = 3"

definition page_state_of :: "u8 \<Rightarrow> page_state" where
  "page_state_of w = (if w = 0 then PageStateClean else if w = 1 then PageStateFileStart
     else if w = 2 then PageStateFileCont else PageStateDirty)"

definition pg_offset :: "u16 \<Rightarrow> nat" where
  "pg_offset pg = 6 - 2 * unat (pg AND 3)"

definition pg_index :: "u16 \<Rightarrow> nat" where
  "pg_index pg = unat (drop_bit 2 pg)"

definition set_page_flags :: "bytes \<Rightarrow> u16 \<Rightarrow> page_state \<Rightarrow> bytes" where
  "set_page_flags fl pg st =
    (let fl = fl[pg_index pg := fl ! pg_index pg AND NOT (push_bit (pg_offset pg) 3)]
     in fl[pg_index pg := fl ! pg_index pg OR push_bit (pg_offset pg) (page_state_code st)])"

definition get_page_flags :: "bytes \<Rightarrow> u16 \<Rightarrow> page_state" where
  "get_page_flags fl pg = page_state_of (drop_bit (pg_offset pg) (fl ! pg_index pg) AND 3)"

definition fs_set_page_state :: "fs \<Rightarrow> int \<Rightarrow> page_state \<Rightarrow> fs option" where
  "fs_set_page_state s pg st = do {
     c_assert (pg_index (word_of_int pg) < length (fs_page_flags s));
     Some (s\<lparr>fs_page_flags := set_page_flags (fs_page_flags s) (word_of_int pg) st\<rparr>) }"

definition fs_get_page_state :: "fs \<Rightarrow> int \<Rightarrow> page_state option" where
  "fs_get_page_state s pg = do {
     c_assert (pg_index (word_of_int pg) < length (fs_page_flags s));
     Some (get_page_flags (fs_page_flags s) (word_of_int pg)) }"

subsection \<open>Headers in place\<close>

definition page_hdr_at :: "plat \<Rightarrow> fs \<Rightarrow> int \<Rightarrow> fs_page_hdr option" where
  "page_hdr_at p s pg = fs_read_page_hdr p (fs_flash s) (word_of_int pg)"

definition file_hdr_at :: "plat \<Rightarrow> fs \<Rightarrow> int \<Rightarrow> fs_file_hdr option" where
  "file_hdr_at p s pg = map_option file_hdr_of
     (fs_read_page_ofs p (fs_flash s) (word_of_int pg) 0 (p_local p) (word_of_nat SIZEOF_FILE_HDR))"

definition fs_put :: "plat \<Rightarrow> fs \<Rightarrow> int \<Rightarrow> u32 \<Rightarrow> bytes \<Rightarrow> (u32 \<times> fs) option" where
  "fs_put p s pg ofs bs = do {
     (rv, m) \<leftarrow> fs_write_page_ofs p (mwrite (\<lambda>_. 0) (unat (p_local p)) bs) (fs_flash s)
        (word_of_int pg) ofs (p_local p) (word_of_nat (length bs));
     Some (rv, s\<lparr>fs_flash := m\<rparr>) }"

definition c_string :: "bytes \<Rightarrow> bytes" where
  "c_string bs = takeWhile (\<lambda>b. b \<noteq> 0) bs"

text \<open>\<open>struct fs_file_hdr_with_name\<close> is 76 + 33 bytes, padded to 112; the name is cut at \<open>filename_len\<close>.\<close>

definition fs_read_file_hdr :: "plat \<Rightarrow> fs \<Rightarrow> int \<Rightarrow> (fs_file_hdr \<times> bytes) option" where
  "fs_read_file_hdr p s pg = do {
     bs \<leftarrow> fs_read_page_ofs p (fs_flash s) (word_of_int pg) 0 (p_local p) 112;
     let hdr = file_hdr_of bs;
     let name = take (MAX_FILENAME_LEN + 1) (drop SIZEOF_FILE_HDR bs);
     let end = (if MAX_FILENAME_LEN < unat (filename_len hdr) then MAX_FILENAME_LEN else unat (filename_len hdr));
     Some (hdr, c_string (name[end := 0])) }"

subsection \<open>Filling the page table\<close>

definition fs_scan_lastpg :: "fs_page_hdr \<Rightarrow> int \<Rightarrow> int \<Rightarrow> int" where
  "fs_scan_lastpg hdr pg lastpg =
    (if FLASHFLAG (empty hdr) HDR_EMPTY_ALLOCATED \<and> \<not> FLASHFLAG (empty hdr) HDR_EMPTY_MOREBLOCKS \<and> lastpg = -1 then pg
     else if lastpg \<noteq> -1 \<and> FLASHFLAG (empty hdr) HDR_EMPTY_ALLOCATED then pg
     else lastpg)"

text \<open>One round of the loop; \<open>False\<close> stands for the early \<open>return -1\<close>.\<close>

definition fs_scan_page :: "plat \<Rightarrow> fs \<Rightarrow> int \<Rightarrow> (bool \<times> fs) option" where
  "fs_scan_page p s pg = do {
     hdr \<leftarrow> page_hdr_at p s pg;
     if v_0x5001 hdr = 0xFFFF
     then do { s \<leftarrow> fs_set_page_state s pg PageStateClean;
               Some (True, s\<lparr>fs_free_pages := fs_free_pages s + 1\<rparr>) }
     else if v_0x5001 hdr \<noteq> 0x5001 then Some (False, s)
     else let s = s\<lparr>fs_lastpg := fs_scan_lastpg hdr pg (fs_lastpg s)\<rparr> in
       if \<not> FLASHFLAG (empty hdr) HDR_EMPTY_ALLOCATED \<or>
          (\<not> FLASHFLAG (status hdr) HDR_STATUS_FILE_START \<and> \<not> FLASHFLAG (status hdr) HDR_STATUS_FILE_CONT)
       then do { s \<leftarrow> fs_set_page_state s pg PageStateClean;
                 let s = (if wear_level_counter hdr < fs_best_erase_count s
                          then s\<lparr>fs_best_erase_count := wear_level_counter hdr, fs_last_allocated_page := pg\<rparr> else s);
                 Some (True, s\<lparr>fs_free_pages := fs_free_pages s + 1\<rparr>) }
       else if FLASHFLAG (status hdr) HDR_STATUS_DEAD
       then do { s \<leftarrow> fs_set_page_state s pg PageStateDirty;
                 Some (True, s\<lparr>fs_free_pages := fs_free_pages s + 1\<rparr>) }
       else if FLASHFLAG (status hdr) HDR_STATUS_FILE_START
       then do { s \<leftarrow> fs_set_page_state s pg PageStateFileStart; Some (True, s) }
       else if FLASHFLAG (status hdr) HDR_STATUS_FILE_CONT
       then do { s \<leftarrow> fs_set_page_state s pg PageStateFileCont; Some (True, s) }
       else None }"

primrec fs_scan_pages :: "plat \<Rightarrow> fs \<Rightarrow> int list \<Rightarrow> (bool \<times> fs) option" where
  "fs_scan_pages p s [] = Some (True, s)" |
  "fs_scan_pages p s (pg # pgs) = do {
     (ok, s) \<leftarrow> fs_scan_page p s pg;
     if ok then fs_scan_pages p s pgs else Some (False, s) }"

definition fs_page_table_init :: "plat \<Rightarrow> fs \<Rightarrow> (bool \<times> fs) option" where
  "fs_page_table_init p s =
     fs_scan_pages p (s\<lparr>fs_lastpg := -1, fs_best_erase_count := 0xFFFFFFFF, fs_last_allocated_page := -1, fs_free_pages := 0\<rparr>)
       (map int [0..<REGION_FS_N_PAGES p])"

subsection \<open>The allocator\<close>

text \<open>The scan for a clean page of a given erase count, which also gathers the lowest count seen
  before it: \<open>Inl\<close> the page, or \<open>Inr\<close> the lowest count.\<close>

primrec fs_alloc_scan :: "plat \<Rightarrow> fs \<Rightarrow> u32 \<Rightarrow> int list \<Rightarrow> u32 \<Rightarrow> (int + u32) option" where
  "fs_alloc_scan p s best [] new_best = Some (Inr new_best)" |
  "fs_alloc_scan p s best (pg # pgs) new_best = do {
     st \<leftarrow> fs_get_page_state s pg;
     if st \<noteq> PageStateClean then fs_alloc_scan p s best pgs new_best
     else do { hdr \<leftarrow> page_hdr_at p s pg;
               let new_best = (if wear_level_counter hdr < new_best then wear_level_counter hdr else new_best);
               if wear_level_counter hdr = best then Some (Inl pg)
               else fs_alloc_scan p s best pgs new_best } }"

definition fs_alloc_order :: "plat \<Rightarrow> int \<Rightarrow> int list" where
  "fs_alloc_order p pgstart = map (\<lambda>i. (int i + pgstart) mod int (REGION_FS_N_PAGES p)) [0..<REGION_FS_N_PAGES p]"

definition fs_page_alloc :: "plat \<Rightarrow> fs \<Rightarrow> (int \<times> fs) option" where
  "fs_page_alloc p s = do {
     c_assert (fs_best_erase_count s \<noteq> 0xFFFFFFFF);
     c_assert (fs_last_allocated_page s \<noteq> -1);
     let order = fs_alloc_order p (fs_last_allocated_page s);
     r \<leftarrow> fs_alloc_scan p s (fs_best_erase_count s) order 0xFFFFFFFF;
     case r of
       Inl pg \<Rightarrow> Some (pg, s\<lparr>fs_last_allocated_page := pg\<rparr>)
     | Inr new_best \<Rightarrow> do {
         r \<leftarrow> fs_alloc_scan p s new_best order 0xFFFFFFFF;
         case r of
           Inl pg \<Rightarrow> Some (pg, s\<lparr>fs_best_erase_count := new_best, fs_last_allocated_page := pg\<rparr>)
         | Inr _ \<Rightarrow> Some (-1, s\<lparr>fs_best_erase_count := new_best\<rparr>) } }"

text \<open>The collector that would be triggered next panics, so the allocation that would be tried
  again after it is never reached.\<close>

definition fs_gc_trigger :: "fs \<Rightarrow> fs option" where
  "fs_gc_trigger s = None"

definition fs_verily_alloc_page :: "plat \<Rightarrow> fs \<Rightarrow> page_state \<Rightarrow> (u16 \<times> fs) option" where
  "fs_verily_alloc_page p s st = do {
     (pg, s) \<leftarrow> fs_page_alloc p s;
     (pg, s) \<leftarrow> (if pg < 0 then do { s \<leftarrow> fs_gc_trigger s; fs_page_alloc p s } else Some (pg, s));
     c_assert (pg \<ge> 0);
     s \<leftarrow> fs_set_page_state s pg st;
     Some (word_of_int pg, if pg > fs_lastpg s then s\<lparr>fs_lastpg := pg\<rparr> else s) }"

definition update_moreblocks :: "plat \<Rightarrow> fs \<Rightarrow> int \<Rightarrow> (u32 \<times> fs) option" where
  "update_moreblocks p s pg = do {
     hdr \<leftarrow> page_hdr_at p s pg;
     fs_put p s pg 0 (page_hdr_bytes (hdr\<lparr>empty := empty hdr AND NOT HDR_EMPTY_ALLOCATED\<rparr>)) }"

subsection \<open>The GC sector\<close>

definition PAGES_PER_SECTOR :: "plat \<Rightarrow> nat" where
  "PAGES_PER_SECTOR p = unat (REGION_FS_ERASE_SIZE p div REGION_FS_PAGE_SIZE p)"

text \<open>Whether the pages are all clean or dirty, and whether one is dirty; the scan stops at a used one.\<close>

primrec fs_sector_scan :: "fs \<Rightarrow> int list \<Rightarrow> bool \<Rightarrow> (bool \<times> bool) option" where
  "fs_sector_scan s [] is_dirty = Some (True, is_dirty)" |
  "fs_sector_scan s (pg # pgs) is_dirty = do {
     st \<leftarrow> fs_get_page_state s pg;
     if st \<noteq> PageStateClean \<and> st \<noteq> PageStateDirty then Some (False, is_dirty)
     else fs_sector_scan s pgs (is_dirty \<or> st = PageStateDirty) }"

definition fs_sector_pages :: "plat \<Rightarrow> int \<Rightarrow> int list" where
  "fs_sector_pages p pg = map (\<lambda>i. pg + int i) [0..<PAGES_PER_SECTOR p]"

primrec fs_gc_best :: "plat \<Rightarrow> fs \<Rightarrow> int list \<Rightarrow> u32 \<Rightarrow> int \<Rightarrow> int option" where
  "fs_gc_best p s [] lowest best = Some best" |
  "fs_gc_best p s (pg # pgs) lowest best = do {
     (possible, dirty) \<leftarrow> fs_sector_scan s (fs_sector_pages p pg) False;
     if \<not> possible then fs_gc_best p s pgs lowest best
     else do { hdr \<leftarrow> page_hdr_at p s pg;
               let cur = (if dirty then wear_level_counter hdr + 1 else wear_level_counter hdr);
               if cur < lowest then fs_gc_best p s pgs cur pg else fs_gc_best p s pgs lowest best } }"

primrec fs_gc_mark :: "plat \<Rightarrow> fs \<Rightarrow> int list \<Rightarrow> fs option" where
  "fs_gc_mark p s [] = Some s" |
  "fs_gc_mark p s (pg # pgs) = do {
     s \<leftarrow> fs_set_page_state s pg PageStateDirty;
     hdr \<leftarrow> page_hdr_at p s pg;
     (rv, s) \<leftarrow> update_moreblocks p s (pg + 1);
     c_assert (0 \<le>s rv);
     (rv, s) \<leftarrow> fs_put p s pg 0 (page_hdr_bytes
        (hdr\<lparr>empty := empty hdr AND NOT (HDR_EMPTY_MOREBLOCKS OR HDR_EMPTY_ALLOCATED)\<rparr>));
     c_assert (0 \<le>s rv);
     fs_gc_mark p s pgs }"

definition fs_sectors :: "plat \<Rightarrow> int list" where
  "fs_sectors p = filter (\<lambda>pg. pg < int (REGION_FS_N_PAGES p))
     (map (\<lambda>k. int (k * PAGES_PER_SECTOR p)) [0..<REGION_FS_N_PAGES p])"

definition fs_gc_find_sector :: "plat \<Rightarrow> fs \<Rightarrow> fs option" where
  "fs_gc_find_sector p s = do {
     best \<leftarrow> fs_gc_best p s (fs_sectors p) 0xFFFFFFFF (-1);
     c_assert (best \<noteq> -1);
     fs_gc_mark p (s\<lparr>gc_sector := best\<rparr>) (fs_sector_pages p best) }"

subsection \<open>Deletion\<close>

text \<open>The walk over a file's pages: \<open>False\<close> is the early \<open>return -1\<close>.\<close>

partial_function (option) fs_delete_chain :: "plat \<Rightarrow> fs \<Rightarrow> int \<Rightarrow> (bool \<times> fs) option" where
  "fs_delete_chain p s curpg = do {
     hdr \<leftarrow> page_hdr_at p s curpg;
     (rv, s) \<leftarrow> fs_put p s curpg 0 (page_hdr_bytes (hdr\<lparr>status := status hdr AND NOT HDR_STATUS_DEAD\<rparr>));
     if rv \<noteq> 0 then Some (False, s)
     else do {
       s \<leftarrow> fs_set_page_state s curpg PageStateDirty;
       if next_page hdr = 0xFFFF then Some (True, s)
       else fs_delete_chain p s (uint (next_page hdr)) } }"

definition delete_file_by_pg :: "plat \<Rightarrow> fs \<Rightarrow> int \<Rightarrow> (bool \<times> fs) option" where
  "delete_file_by_pg p s pg = do {
     filehdr \<leftarrow> file_hdr_at p s pg;
     c_assert (\<not> FLASHFLAG (status filehdr) HDR_STATUS_DEAD \<or> st_delete_complete filehdr \<noteq> 0);
     (ok, s) \<leftarrow> fs_delete_chain p s pg;
     if \<not> ok then Some (False, s)
     else do {
       filehdr \<leftarrow> file_hdr_at p s pg;
       (rv, s) \<leftarrow> fs_put p s pg 0 (file_hdr_bytes (filehdr\<lparr>st_delete_complete := 0\<rparr>));
       Some (rv = 0, s) } }"

subsection \<open>Lookup\<close>

partial_function (option) fs_find_loop :: "plat \<Rightarrow> fs \<Rightarrow> bytes \<Rightarrow> u16 \<Rightarrow> fs_file option option" where
  "fs_find_loop p s name pg =
    (if \<not> uint pg \<le> fs_lastpg s then Some None
     else do {
       st \<leftarrow> fs_get_page_state s (uint pg);
       if st = PageStateFileStart
       then do { (hdr, hname) \<leftarrow> fs_read_file_hdr p s (uint pg);
                 if name = hname \<and> st_tmp_file hdr = 0
                 then Some (Some \<lparr> flags = FILE_HAS_DIRENT, startpage = pg,
                        startpofs = word_of_nat SIZEOF_FILE_HDR + ucast (filename_len hdr), fsize = file_size hdr \<rparr>)
                 else fs_find_loop p s name (pg + 1) }
       else fs_find_loop p s name (pg + 1) })"

text \<open>\<open>None\<close> inside is the \<open>return -1\<close>.\<close>

definition fs_find_file :: "plat \<Rightarrow> fs \<Rightarrow> bytes \<Rightarrow> fs_file option option" where
  "fs_find_file p s name = (if \<not> fs_valid s then Some None else fs_find_loop p s name 0)"

subsection \<open>Start-up and formatting\<close>

text \<open>One round of the clean-up loop of \<open>fs_init\<close>; \<open>False\<close> when a GC file is met.\<close>

definition fs_cleanup_page :: "plat \<Rightarrow> fs \<Rightarrow> int \<Rightarrow> (bool \<times> fs) option" where
  "fs_cleanup_page p s pg = do {
     st \<leftarrow> fs_get_page_state s pg;
     if st \<noteq> PageStateFileStart \<and> st \<noteq> PageStateDirty then Some (True, s)
     else do {
       (hdr, name) \<leftarrow> fs_read_file_hdr p s pg;
       let dead = FLASHFLAG (status hdr) HDR_STATUS_DEAD;
       if \<not> FLASHFLAG (status hdr) HDR_STATUS_FILE_START then Some (True, s)
       else if (\<not> dead \<and> st_create_complete hdr \<noteq> 0) \<or> (dead \<and> st_delete_complete hdr \<noteq> 0) \<or>
               (st_tmp_file hdr \<noteq> 0 \<and> st_delete_complete hdr \<noteq> 0)
       then do { (ok, s) \<leftarrow> delete_file_by_pg p s pg; c_assert ok; Some (True, s) }
       else if name = [0x47, 0x43] then Some (False, s\<lparr>fs_valid := False\<rparr>)
       else Some (True, s) } }"

partial_function (option) fs_cleanup_loop :: "plat \<Rightarrow> fs \<Rightarrow> int \<Rightarrow> (bool \<times> fs) option" where
  "fs_cleanup_loop p s pg =
    (if \<not> pg \<le> fs_lastpg s then Some (True, s)
     else do { (ok, s) \<leftarrow> fs_cleanup_page p s pg;
               if ok then fs_cleanup_loop p s (pg + 1) else Some (False, s) })"

definition fs_init :: "plat \<Rightarrow> fs \<Rightarrow> fs option" where
  "fs_init p s = do {
     let s = s\<lparr>fs_valid := True, fs_lastpg := -1, fs_page_flags := replicate ((REGION_FS_N_PAGES p + 3) div 4) 0\<rparr>;
     (hdr, _) \<leftarrow> fs_read_file_hdr p s 0;
     if v_0x5001 hdr \<noteq> 0x5001 then Some (s\<lparr>fs_valid := False\<rparr>)
     else do {
       (ok, s) \<leftarrow> fs_page_table_init p s;
       if \<not> ok then Some (s\<lparr>fs_valid := False\<rparr>)
       else do {
         (ok, s) \<leftarrow> fs_cleanup_loop p s 0;
         if \<not> ok then Some s
         else do {
           s \<leftarrow> fs_gc_find_sector p s;
           r \<leftarrow> fs_find_file p s [0x61, 0x70, 0x70, 0x64, 0x62];
           case r of
             None \<Rightarrow> Some s
           | Some f \<Rightarrow> do { _ \<leftarrow> fs_read p (fs_flash s) (fs_open f) (p_local p) 3; Some s } } } } }"

definition fs_blank_hdr :: fs_page_hdr where
  "fs_blank_hdr = (page_hdr_of (replicate SIZEOF_PAGE_HDR 0xFF))
     \<lparr>v_0x5001 := 0x5001, empty := 0xFF, wear_level_counter := 1\<rparr>"

primrec fs_format_pages :: "plat \<Rightarrow> fs \<Rightarrow> int list \<Rightarrow> (u32 \<times> fs) option" where
  "fs_format_pages p s [] = Some (0, s\<lparr>fs_valid := True\<rparr>)" |
  "fs_format_pages p s (pg # pgs) = do {
     (rv, s) \<leftarrow> fs_put p s pg 0 (page_hdr_bytes fs_blank_hdr);
     if rv \<noteq> 0 then Some (rv, s) else fs_format_pages p s pgs }"

definition fs_format :: "plat \<Rightarrow> fs \<Rightarrow> (u32 \<times> fs) option" where
  "fs_format p s = do {
     let s = s\<lparr>fs_valid := False, fs_lastpg := 0\<rparr>;
     (rv, m) \<leftarrow> flash_erase p (fs_flash s) (REGION_FS_START p)
        (word_of_nat (REGION_FS_N_PAGES p) * REGION_FS_PAGE_SIZE p);
     let s = s\<lparr>fs_flash := m\<rparr>;
     if rv \<noteq> 0 then Some (rv, s)
     else fs_format_pages p s (map int [0..<REGION_FS_N_PAGES p]) }"

subsection \<open>Creation\<close>

text \<open>The header of the first page, and of a continuation page, from the header found there.\<close>

definition fs_new_file_hdr :: "fs_page_hdr \<Rightarrow> bytes \<Rightarrow> u32 \<Rightarrow> u16 \<Rightarrow> fs_file_hdr" where
  "fs_new_file_hdr pagehdr name n nextpg =
    (let h = file_hdr_of (replicate SIZEOF_FILE_HDR 0xFF);
         h = h\<lparr>v_0x5001 := 0x5001,
               empty := empty pagehdr AND NOT (HDR_EMPTY_MOREBLOCKS OR HDR_EMPTY_ALLOCATED),
               status := status h AND NOT (HDR_STATUS_VALID OR HDR_STATUS_FILE_START),
               wear_level_counter := wear_level_counter pagehdr,
               next_page := nextpg, next_page_crc := fs_next_page_crc nextpg\<rparr>;
         h = h\<lparr>pagehdr_crc := fs_pagehdr_crc h\<rparr>
     in h\<lparr>file_size := n, flag_2 := flag_2 h AND NOT HDR_FLAG_2_HAS_FILENAME,
          filename_len := word_of_nat (length name)\<rparr>)"

definition fs_new_cont_hdr :: "fs_page_hdr \<Rightarrow> u16 \<Rightarrow> fs_page_hdr" where
  "fs_new_cont_hdr pagehdr nextpg =
    (let h = pagehdr\<lparr>empty := empty pagehdr AND NOT (HDR_EMPTY_MOREBLOCKS OR HDR_EMPTY_ALLOCATED),
               status := status pagehdr AND NOT (HDR_STATUS_VALID OR HDR_STATUS_FILE_CONT),
               next_page := nextpg, next_page_crc := fs_next_page_crc nextpg\<rparr>
     in h\<lparr>pagehdr_crc := fs_pagehdr_crc h\<rparr>)"

text \<open>A NULL name is None: the length of it is asserted on, which is a fault (\<open>strlen (NULL)\<close>).\<close>

definition fs_creat_first :: "plat \<Rightarrow> fs \<Rightarrow> bytes option \<Rightarrow> u32 \<Rightarrow> u16 \<Rightarrow> u16 \<Rightarrow> fs_page_hdr \<Rightarrow> (fs_file_hdr \<times> fs) option" where
  "fs_creat_first p s name n pg nextpg pagehdr = do {
     nm \<leftarrow> name;
     c_assert (length nm < MAX_FILENAME_LEN);
     let filehdr = fs_new_file_hdr pagehdr nm n nextpg;
     (rv, s) \<leftarrow> update_moreblocks p s (uint pg + 1);
     c_assert (0 \<le>s rv);
     (rv, s) \<leftarrow> fs_put p s (uint pg) 0 (file_hdr_bytes filehdr);
     c_assert (0 \<le>s rv);
     (rv, s) \<leftarrow> fs_put p s (uint pg) (word_of_nat SIZEOF_FILE_HDR) nm;
     c_assert (0 \<le>s rv);
     Some (filehdr, s) }"

definition fs_creat_cont :: "plat \<Rightarrow> fs \<Rightarrow> u16 \<Rightarrow> u16 \<Rightarrow> fs_page_hdr \<Rightarrow> fs option" where
  "fs_creat_cont p s pg nextpg pagehdr = do {
     (rv, s) \<leftarrow> update_moreblocks p s (uint pg + 1);
     c_assert (0 \<le>s rv);
     (rv, s) \<leftarrow> fs_put p s (uint pg) 0 (page_hdr_bytes (fs_new_cont_hdr pagehdr nextpg));
     c_assert (0 \<le>s rv);
     Some s }"

text \<open>The loop over the pages; \<open>k\<close> counts the pages to go. The result carries the start page and
  the header kept for the final rewrite, undefined when no page was visited.\<close>

primrec fs_creat_pages :: "nat \<Rightarrow> plat \<Rightarrow> fs \<Rightarrow> bytes option \<Rightarrow> u32 \<Rightarrow> u16 \<Rightarrow> (u16 \<times> fs_file_hdr) option
    \<Rightarrow> ((u16 \<times> fs_file_hdr) option \<times> fs) option" where
  "fs_creat_pages 0 p s name n pg first = Some (first, s)" |
  "fs_creat_pages (Suc k) p s name n pg first = do {
     (nextpg, s) \<leftarrow> (if k \<noteq> 0 then fs_verily_alloc_page p s PageStateFileCont else Some (0xFFFF, s));
     pagehdr \<leftarrow> page_hdr_at p s (uint pg);
     (first, s) \<leftarrow> (case first of
         None \<Rightarrow> do { (filehdr, s) \<leftarrow> fs_creat_first p s name n pg nextpg pagehdr; Some (Some (pg, filehdr), s) }
       | Some f \<Rightarrow> do { s \<leftarrow> fs_creat_cont p s pg nextpg pagehdr; Some (Some f, s) });
     fs_creat_pages k p s name n nextpg first }"

definition name_length :: "bytes option \<Rightarrow> u32" where
  "name_length name = (case name of None \<Rightarrow> 0 | Some nm \<Rightarrow> word_of_nat (length nm))"

definition fs_npages :: "plat \<Rightarrow> bytes option \<Rightarrow> u32 \<Rightarrow> u32" where
  "fs_npages p name n =
    (let fs_bytes = n + name_length name + word_of_nat SIZEOF_FILE_HDR - word_of_nat SIZEOF_PAGE_HDR;
         bytes_in_pg = REGION_FS_PAGE_SIZE p - word_of_nat SIZEOF_PAGE_HDR
     in fs_bytes div bytes_in_pg + (if fs_bytes mod bytes_in_pg \<noteq> 0 then 1 else 0))"

text \<open>\<open>None\<close> inside is the NULL the C returns when the pages do not suffice.\<close>

definition fs_creat_replacing :: "plat \<Rightarrow> fs \<Rightarrow> bytes option \<Rightarrow> u32 \<Rightarrow> fs_file option \<Rightarrow> (fd option \<times> fs) option" where
  "fs_creat_replacing p s name n previous = do {
     c_assert (case previous of None \<Rightarrow> True | Some f \<Rightarrow> flags f AND FILE_HAS_DIRENT \<noteq> 0);
     let npgs = fs_npages p name n;
     if fs_free_pages s < npgs then Some (None, s)
     else do {
       (pg, s) \<leftarrow> fs_verily_alloc_page p (s\<lparr>fs_free_pages := fs_free_pages s - npgs\<rparr>) PageStateFileStart;
       (first, s) \<leftarrow> fs_creat_pages (unat npgs) p s name n pg None;
       (startpg, filehdr) \<leftarrow> first;
       (rv, s) \<leftarrow> fs_put p s (uint startpg) 0 (file_hdr_bytes (filehdr\<lparr>st_create_complete := 0\<rparr>));
       c_assert (0 \<le>s rv);
       let f = \<lparr> flags = FILE_HAS_DIRENT, startpage = startpg,
                 startpofs = name_length name + word_of_nat SIZEOF_FILE_HDR, fsize = n \<rparr>;
       Some (Some \<lparr> fd_file = f, replaces = (case previous of None \<Rightarrow> file_zero | Some g \<Rightarrow> g),
                    curpage = startpage f, curpofs = startpofs f, fd_offset = 0 \<rparr>, s) } }"

definition fs_creat :: "plat \<Rightarrow> fs \<Rightarrow> bytes option \<Rightarrow> u32 \<Rightarrow> (fd option \<times> fs) option" where
  "fs_creat p s name n = fs_creat_replacing p s name n None"

text \<open>The final \<open>memset (&fd, 0, sizeof (fd))\<close> clears the local pointer only.\<close>

definition fs_mark_written :: "plat \<Rightarrow> fs \<Rightarrow> fd \<Rightarrow> fs option" where
  "fs_mark_written p s fd =
    (if fsize (replaces fd) \<noteq> 0
     then do {
       filehdr \<leftarrow> file_hdr_at p s (uint (startpage (replaces fd)));
       (rv, s) \<leftarrow> fs_put p s (uint (startpage (replaces fd))) 0
          (file_hdr_bytes (filehdr\<lparr>status := status filehdr AND NOT HDR_STATUS_DEAD\<rparr>));
       c_assert (0 \<le>s rv);
       filehdr \<leftarrow> file_hdr_at p s (uint (startpage (fd_file fd)));
       (rv, s) \<leftarrow> fs_put p s (uint (startpage (fd_file fd))) 0 (file_hdr_bytes (filehdr\<lparr>st_tmp_file := 0\<rparr>));
       c_assert (0 \<le>s rv);
       (_, s) \<leftarrow> delete_file_by_pg p s (uint (startpage (replaces fd)));
       Some s }
     else do {
       filehdr \<leftarrow> file_hdr_at p s (uint (startpage (fd_file fd)));
       (rv, s) \<leftarrow> fs_put p s (uint (startpage (fd_file fd))) 0 (file_hdr_bytes (filehdr\<lparr>st_tmp_file := 0\<rparr>));
       c_assert (0 \<le>s rv);
       Some s })"

subsection \<open>The page table is a table\<close>

lemma page_state_of_code [simp]: "page_state_of (page_state_code st) = st"
  by (cases st) (simp_all add: page_state_of_def)

lemma three_mask: "(3 :: 'a :: len word) = mask 2"
  by (simp add: mask_eq_exp_minus_1)

lemma page_state_code_3: "page_state_code st AND 3 = page_state_code st"
  by (cases st) simp_all

lemma flag_bits_same:
  assumes "o1 \<le> 6" "c AND 3 = c"
  shows "drop_bit o1 ((b AND NOT (push_bit o1 3)) OR push_bit o1 c) AND 3 = (c :: u8)"
proof (rule bit_word_eqI)
  fix n assume n: "n < LENGTH(8)"
  have "bit c n \<longrightarrow> n < 2" using assms(2) unfolding three_mask by (metis bit_and_iff bit_mask_iff)
  then show "bit (drop_bit o1 ((b AND NOT (push_bit o1 3)) OR push_bit o1 c) AND 3) n = bit c n"
    unfolding three_mask using n assms(1) by (auto simp: bit_simps)
qed

lemma flag_bits_other:
  assumes "o1 + 2 \<le> o2 \<or> o2 + 2 \<le> o1" "c AND 3 = c"
  shows "drop_bit o2 ((b AND NOT (push_bit o1 3)) OR push_bit o1 c) AND 3 = drop_bit o2 (b :: u8) AND 3"
proof (rule bit_word_eqI)
  fix n assume n: "n < LENGTH(8)"
  have "bit c k \<Longrightarrow> k < 2" for k using assms(2) unfolding three_mask by (metis bit_and_iff bit_mask_iff)
  then have "\<not> bit c (o2 + n - o1)" if "n < 2" "o1 \<le> o2 + n" using that assms(1) by force
  then show "bit (drop_bit o2 ((b AND NOT (push_bit o1 3)) OR push_bit o1 c) AND 3) n = bit (drop_bit o2 b AND 3) n"
    unfolding three_mask using assms(1) by (auto simp: bit_simps dest: bit_imp_le_length)
qed

lemma pg_and3: "unat (pg AND 3 :: u16) = unat pg mod 4"
proof -
  have "pg AND 3 = take_bit 2 pg" unfolding three_mask take_bit_eq_mask ..
  moreover have "unat (take_bit 2 pg) = unat pg mod 2 ^ 2" by (metis unsigned_take_bit_eq take_bit_eq_mod)
  ultimately show ?thesis by simp
qed

lemma pg_index: "pg_index pg = unat pg div 4"
proof -
  have "unat (drop_bit 2 pg) = drop_bit 2 (unat pg)" by (rule unat_drop_bit_eq)
  then show ?thesis unfolding pg_index_def by (simp add: drop_bit_eq_div)
qed

lemma get_set_page_flags:
  assumes "pg_index pg < length fl"
  shows "get_page_flags (set_page_flags fl pg st) pg' = (if pg' = pg then st else get_page_flags fl pg')"
proof (cases "pg_index pg' = pg_index pg")
  case False
  then have "pg' \<noteq> pg" by auto
  with False show ?thesis by (simp add: get_page_flags_def set_page_flags_def Let_def)
next
  case True
  have "pg_offset pg \<le> 6" by (simp add: pg_offset_def)
  note same = flag_bits_same [OF this page_state_code_3, of "fl ! pg_index pg" st]
  show ?thesis
  proof (cases "pg' = pg")
    case True
    then show ?thesis using same assms by (simp add: get_page_flags_def set_page_flags_def Let_def)
  next
    case False
    have "unat pg' mod 4 \<noteq> unat pg mod 4"
      using False True unfolding pg_index word_unat_eq_iff by (metis div_mult_mod_eq)
    moreover have "unat pg' mod 4 < 4" "unat pg mod 4 < 4" by simp_all
    ultimately have "pg_offset pg + 2 \<le> pg_offset pg' \<or> pg_offset pg' + 2 \<le> pg_offset pg"
      unfolding pg_offset_def pg_and3 by linarith
    from flag_bits_other [OF this page_state_code_3, of "fl ! pg_index pg" st]
    show ?thesis using False True assms by (simp add: get_page_flags_def set_page_flags_def Let_def)
  qed
qed

lemma set_page_flags_length [simp]: "length (set_page_flags fl pg st) = length fl"
  by (simp add: set_page_flags_def Let_def)

subsection \<open>Wear levelling\<close>

definition page_clean :: "fs \<Rightarrow> int \<Rightarrow> bool" where
  "page_clean s pg \<longleftrightarrow> get_page_flags (fs_page_flags s) (word_of_int pg) = PageStateClean"

definition page_wear :: "plat \<Rightarrow> fs \<Rightarrow> int \<Rightarrow> u32" where
  "page_wear p s pg = wear_level_counter (page_hdr_of (mread (fs_flash s) (fs_addr p (word_of_int pg) 0) SIZEOF_PAGE_HDR))"

definition fs_pages :: "plat \<Rightarrow> int set" where
  "fs_pages p = {0..<int (REGION_FS_N_PAGES p)}"

text \<open>What the allocator is called with: a full-size table, a last allocated page, and a best count
  no clean page is below.\<close>

definition alloc_ok :: "plat \<Rightarrow> fs \<Rightarrow> bool" where
  "alloc_ok p s \<longleftrightarrow> REGION_FS_N_PAGES p \<le> 4 * length (fs_page_flags s) \<and> fs_last_allocated_page s \<in> fs_pages p \<and>
     fs_best_erase_count s \<noteq> 0xFFFFFFFF \<and> (\<forall>pg \<in> fs_pages p. page_clean s pg \<longrightarrow> fs_best_erase_count s \<le> page_wear p s pg)"

lemma alloc_order_set:
  assumes "start \<in> fs_pages p"
  shows "set (fs_alloc_order p start) = fs_pages p"
proof -
  let ?N = "int (REGION_FS_N_PAGES p)"
  have N: "0 < ?N" using assms by (auto simp: fs_pages_def)
  have "x \<in> (\<lambda>i. (int i + start) mod ?N) ` {0..<REGION_FS_N_PAGES p}" if "x \<in> fs_pages p" for x
  proof
    let ?i = "nat ((x - start) mod ?N)"
    have "int ?i = (x - start) mod ?N" using N by simp
    then have "(int ?i + start) mod ?N = x mod ?N" by (simp add: mod_simps)
    then show "x = (int ?i + start) mod ?N" using that by (simp add: fs_pages_def)
    have "(x - start) mod ?N < ?N" using N by simp
    then show "?i \<in> {0..<REGION_FS_N_PAGES p}" using N by (simp add: nat_less_iff)
  qed
  then show ?thesis using N by (auto simp: fs_alloc_order_def fs_pages_def)
qed

context fs_platform begin

lemma page_word:
  assumes "pg \<in> fs_pages p"
  shows "unat (word_of_int pg :: u16) = nat pg" "(word_of_int pg :: u32) = ucast (word_of_int pg :: u16)"
    "unat (word_of_int pg :: u16) < REGION_FS_N_PAGES p"
proof -
  have pg: "0 \<le> pg" "pg < int (REGION_FS_N_PAGES p)" "pg < 65536"
    using assms n_pages by (auto simp: fs_pages_def)
  then show u: "unat (word_of_int pg :: u16) = nat pg"
    by (simp add: unat_eq_nat_uint uint_word_of_int_eq take_bit_int_eq_self)
  have "unat (word_of_int pg :: u32) = nat pg"
    using pg by (simp add: unat_eq_nat_uint uint_word_of_int_eq take_bit_int_eq_self)
  then show "(word_of_int pg :: u32) = ucast (word_of_int pg :: u16)"
    by (simp only: word_unat_eq_iff unat_u16_ucast u)
  show "unat (word_of_int pg :: u16) < REGION_FS_N_PAGES p" using pg u by simp
qed

lemma page_hdr_ok: "pg \<in> fs_pages p \<Longrightarrow>
   page_hdr_at p s pg = Some (page_hdr_of (mread (fs_flash s) (fs_addr p (word_of_int pg) 0) SIZEOF_PAGE_HDR))"
  unfolding page_hdr_at_def by (simp add: page_word(2) page_hdr_read page_word(3))

lemma page_state_ok:
  assumes "pg \<in> fs_pages p" "REGION_FS_N_PAGES p \<le> 4 * length (fs_page_flags s)"
  shows "fs_get_page_state s pg = Some (get_page_flags (fs_page_flags s) (word_of_int pg))"
    "fs_set_page_state s pg st = Some (s\<lparr>fs_page_flags := set_page_flags (fs_page_flags s) (word_of_int pg) st\<rparr>)"
proof -
  have "pg_index (word_of_int pg) < length (fs_page_flags s)"
    using page_word(3) [OF assms(1)] assms(2) unfolding pg_index by linarith
  then show "fs_get_page_state s pg = Some (get_page_flags (fs_page_flags s) (word_of_int pg))"
    "fs_set_page_state s pg st = Some (s\<lparr>fs_page_flags := set_page_flags (fs_page_flags s) (word_of_int pg) st\<rparr>)"
    by (simp_all add: fs_get_page_state_def fs_set_page_state_def)
qed

lemma alloc_scan:
  assumes "set order \<subseteq> fs_pages p" "REGION_FS_N_PAGES p \<le> 4 * length (fs_page_flags s)"
  shows "\<exists>r. fs_alloc_scan p s best order nb = Some r \<and>
    (\<forall>pg. r = Inl pg \<longrightarrow> pg \<in> set order \<and> page_clean s pg \<and> page_wear p s pg = best) \<and>
    (\<forall>nb'. r = Inr nb' \<longrightarrow> nb' \<le> nb \<and> (\<forall>pg \<in> set order. page_clean s pg \<longrightarrow> page_wear p s pg \<noteq> best \<and> nb' \<le> page_wear p s pg) \<and>
       (nb' = nb \<or> (\<exists>pg \<in> set order. page_clean s pg \<and> page_wear p s pg = nb')))"
  using assms(1)
proof (induction order arbitrary: nb)
  case (Cons pg order)
  have pg: "pg \<in> fs_pages p" using Cons.prems by simp
  note st = page_state_ok(1) [OF pg assms(2)]
  let ?w = "page_wear p s pg"
  let ?nb = "if ?w < nb then ?w else nb"
  show ?case
  proof (cases "page_clean s pg \<and> ?w = best")
    case True
    then show ?thesis using page_hdr_ok [OF pg, of s]
      by (auto simp: st page_clean_def page_wear_def)
  next
    case False
    define nb1 where "nb1 = (if page_clean s pg then ?nb else nb)"
    have e: "fs_alloc_scan p s best (pg # order) nb = fs_alloc_scan p s best order nb1"
      using False page_hdr_ok [OF pg, of s] by (auto simp: st page_clean_def page_wear_def nb1_def)
    obtain r where r: "fs_alloc_scan p s best order nb1 = Some r"
      "\<And>pg. r = Inl pg \<Longrightarrow> pg \<in> set order \<and> page_clean s pg \<and> page_wear p s pg = best"
      "\<And>nb'. r = Inr nb' \<Longrightarrow> nb' \<le> nb1 \<and> (\<forall>pg \<in> set order. page_clean s pg \<longrightarrow> page_wear p s pg \<noteq> best \<and> nb' \<le> page_wear p s pg) \<and>
       (nb' = nb1 \<or> (\<exists>pg \<in> set order. page_clean s pg \<and> page_wear p s pg = nb'))"
      using Cons.IH [of nb1] Cons.prems by auto
    have "nb1 \<le> nb" "page_clean s pg \<Longrightarrow> nb1 \<le> ?w" "nb1 = nb \<or> (page_clean s pg \<and> ?w = nb1)"
      by (auto simp: nb1_def not_less)
    then show ?thesis using r False unfolding e by (auto dest!: r(3))
  qed
qed simp

lemma page_alloc:
  assumes ok: "alloc_ok p s"
  shows "\<exists>pg b l. fs_page_alloc p s = Some (pg, s\<lparr>fs_best_erase_count := b, fs_last_allocated_page := l\<rparr>) \<and>
    (pg = -1 \<and> (\<forall>q \<in> fs_pages p. \<not> page_clean s q) \<or>
     pg \<in> fs_pages p \<and> page_clean s pg \<and> l = pg \<and> b = page_wear p s pg \<and>
       (\<forall>q \<in> fs_pages p. page_clean s q \<longrightarrow> page_wear p s pg \<le> page_wear p s q))"
proof -
  let ?o = "fs_alloc_order p (fs_last_allocated_page s)"
  have len: "REGION_FS_N_PAGES p \<le> 4 * length (fs_page_flags s)" and so: "set ?o = fs_pages p"
    using ok by (simp_all add: alloc_ok_def alloc_order_set)
  have sub: "set ?o \<subseteq> fs_pages p" using so by simp
  have "fs_last_allocated_page s \<noteq> -1" "fs_best_erase_count s \<noteq> 0xFFFFFFFF"
    using ok by (auto simp: alloc_ok_def fs_pages_def)
  then have e: "fs_page_alloc p s = do {
     r \<leftarrow> fs_alloc_scan p s (fs_best_erase_count s) ?o 0xFFFFFFFF;
     case r of
       Inl pg \<Rightarrow> Some (pg, s\<lparr>fs_last_allocated_page := pg\<rparr>)
     | Inr new_best \<Rightarrow> do {
         r \<leftarrow> fs_alloc_scan p s new_best ?o 0xFFFFFFFF;
         case r of
           Inl pg \<Rightarrow> Some (pg, s\<lparr>fs_best_erase_count := new_best, fs_last_allocated_page := pg\<rparr>)
         | Inr _ \<Rightarrow> Some (-1, s\<lparr>fs_best_erase_count := new_best\<rparr>) } }"
    by (simp add: fs_page_alloc_def Let_def)
  obtain r where r: "fs_alloc_scan p s (fs_best_erase_count s) ?o 0xFFFFFFFF = Some r"
    "\<And>pg. r = Inl pg \<Longrightarrow> pg \<in> fs_pages p \<and> page_clean s pg \<and> page_wear p s pg = fs_best_erase_count s"
    "\<And>nb. r = Inr nb \<Longrightarrow> (\<forall>pg \<in> fs_pages p. page_clean s pg \<longrightarrow> nb \<le> page_wear p s pg) \<and>
       (nb = 0xFFFFFFFF \<or> (\<exists>pg \<in> fs_pages p. page_clean s pg \<and> page_wear p s pg = nb))"
    using alloc_scan [OF sub len, of "fs_best_erase_count s" "0xFFFFFFFF"] unfolding so by auto
  show ?thesis
  proof (cases r)
    case (Inl pg)
    then show ?thesis using r(1) r(2) [OF Inl] ok
      by (intro exI [of _ pg] exI [of _ "fs_best_erase_count s"]) (auto simp: e alloc_ok_def)
  next
    case (Inr nb)
    obtain r2 where r2: "fs_alloc_scan p s nb ?o 0xFFFFFFFF = Some r2"
      "\<And>pg. r2 = Inl pg \<Longrightarrow> pg \<in> fs_pages p \<and> page_clean s pg \<and> page_wear p s pg = nb"
      "\<And>nb'. r2 = Inr nb' \<Longrightarrow> \<forall>pg \<in> fs_pages p. page_clean s pg \<longrightarrow> page_wear p s pg \<noteq> nb"
      using alloc_scan [OF sub len, of nb "0xFFFFFFFF"] unfolding so by auto
    show ?thesis
    proof (cases r2)
      case Inl2: (Inl pg)
      then show ?thesis using r(1) Inr r(3) [OF Inr] r2(1) r2(2) [OF Inl2]
        by (intro exI [of _ pg] exI [of _ nb]) (auto simp: e)
    next
      case Inr2: (Inr nb')
      have "\<not> page_clean s q" if q: "q \<in> fs_pages p" for q
      proof
        assume c: "page_clean s q"
        have no: "page_wear p s q \<noteq> nb" and le: "nb \<le> page_wear p s q" and "nb = 0xFFFFFFFF"
          using r2(3) [OF Inr2] r(3) [OF Inr] q c by auto
        moreover have "page_wear p s q \<le> 0xFFFFFFFF" using unat_u32_less [of "page_wear p s q"] by (simp add: word_le_nat_alt)
        ultimately show False by simp
      qed
      then show ?thesis using r(1) Inr r2(1) Inr2
        by (intro exI [of _ "-1"] exI [of _ nb] exI [of _ "fs_last_allocated_page s"]) (auto simp: e)
    qed
  qed
qed

end

subsection \<open>What the page table scan computes\<close>

definition page_hdr_in :: "plat \<Rightarrow> fs \<Rightarrow> int \<Rightarrow> fs_page_hdr" where
  "page_hdr_in p s pg = page_hdr_of (mread (fs_flash s) (fs_addr p (word_of_int pg) 0) SIZEOF_PAGE_HDR)"

definition page_class :: "fs_page_hdr \<Rightarrow> page_state" where
  "page_class h =
    (if v_0x5001 h = 0xFFFF \<or> \<not> FLASHFLAG (empty h) HDR_EMPTY_ALLOCATED \<or>
        (\<not> FLASHFLAG (status h) HDR_STATUS_FILE_START \<and> \<not> FLASHFLAG (status h) HDR_STATUS_FILE_CONT) then PageStateClean
     else if FLASHFLAG (status h) HDR_STATUS_DEAD then PageStateDirty
     else if FLASHFLAG (status h) HDR_STATUS_FILE_START then PageStateFileStart
     else PageStateFileCont)"

definition page_free :: "fs_page_hdr \<Rightarrow> bool" where
  "page_free h \<longleftrightarrow> page_class h = PageStateClean \<or> page_class h = PageStateDirty"

definition page_at :: "fs \<Rightarrow> int \<Rightarrow> page_state" where
  "page_at s pg = get_page_flags (fs_page_flags s) (word_of_int pg)"

context fs_platform begin

lemma page_word_inj: "pg \<in> fs_pages p \<Longrightarrow> q \<in> fs_pages p \<Longrightarrow> (word_of_int pg :: u16) = word_of_int q \<longleftrightarrow> pg = q"
  using page_word(1) [of pg] page_word(1) [of q] by (auto simp: fs_pages_def)

lemma scan_page:
  assumes pg: "pg \<in> fs_pages p" and len: "REGION_FS_N_PAGES p \<le> 4 * length (fs_page_flags s)"
    and h: "h = page_hdr_in p s pg" and v: "v_0x5001 h = 0x5001 \<or> v_0x5001 h = 0xFFFF"
    and b: "b \<longleftrightarrow> v_0x5001 h \<noteq> 0xFFFF \<and> page_class h = PageStateClean \<and> wear_level_counter h < fs_best_erase_count s"
  shows "\<exists>s'. fs_scan_page p s pg = Some (True, s') \<and> fs_flash s' = fs_flash s \<and>
     fs_page_flags s' = set_page_flags (fs_page_flags s) (word_of_int pg) (page_class h) \<and>
     fs_free_pages s' = fs_free_pages s + (if page_free h then 1 else 0) \<and>
     fs_best_erase_count s' = (if b then wear_level_counter h else fs_best_erase_count s) \<and>
     fs_last_allocated_page s' = (if b then pg else fs_last_allocated_page s)"
proof -
  have rd: "page_hdr_at p s pg = Some h" using page_hdr_ok [OF pg] by (simp add: h page_hdr_in_def)
  have set: "fs_set_page_state s' pg st = Some (s'\<lparr>fs_page_flags := set_page_flags (fs_page_flags s') (word_of_int pg) st\<rparr>)"
    if "fs_page_flags s' = fs_page_flags s" for s' st
    using page_state_ok(2) [OF pg, of s' st] len that by simp
  consider "v_0x5001 h = 0xFFFF" | "v_0x5001 h \<noteq> 0xFFFF" "v_0x5001 h = 0x5001" using v by auto
  then show ?thesis
    by cases (auto simp: fs_scan_page_def rd set Let_def page_class_def page_free_def b)
qed

lemma scan_pages:
  assumes "distinct pgs" "set pgs \<subseteq> fs_pages p" "D \<subseteq> fs_pages p" "set pgs \<inter> D = {}"
    and "REGION_FS_N_PAGES p \<le> 4 * length (fs_page_flags s)"
    and "\<forall>pg \<in> set pgs. v_0x5001 (page_hdr_in p s pg) = 0x5001 \<or> v_0x5001 (page_hdr_in p s pg) = 0xFFFF \<and> page_wear p s pg = 0xFFFFFFFF"
    and "\<forall>q \<in> D. page_at s q = page_class (page_hdr_in p s q)"
    and "\<forall>q \<in> D. page_clean s q \<longrightarrow> fs_best_erase_count s \<le> page_wear p s q"
    and "fs_best_erase_count s = 0xFFFFFFFF \<or> fs_last_allocated_page s \<in> D"
  shows "\<exists>s'. fs_scan_pages p s pgs = Some (True, s') \<and> fs_flash s' = fs_flash s \<and>
     length (fs_page_flags s') = length (fs_page_flags s) \<and>
     (\<forall>q \<in> D \<union> set pgs. page_at s' q = page_class (page_hdr_in p s q)) \<and>
     (\<forall>q \<in> D \<union> set pgs. page_clean s' q \<longrightarrow> fs_best_erase_count s' \<le> page_wear p s q) \<and>
     (fs_best_erase_count s' = 0xFFFFFFFF \<or> fs_last_allocated_page s' \<in> D \<union> set pgs) \<and>
     fs_free_pages s' = fs_free_pages s + word_of_nat (length (filter (\<lambda>q. page_free (page_hdr_in p s q)) pgs))"
  using assms
proof (induction pgs arbitrary: s D)
  case Nil
  then show ?case by auto
next
  case (Cons pg pgs)
  define h where "h = page_hdr_in p s pg"
  have pg: "pg \<in> fs_pages p" "pg \<notin> D" using Cons.prems by auto
  have v: "v_0x5001 h = 0x5001 \<or> v_0x5001 h = 0xFFFF" using Cons.prems(6) by (auto simp: h_def)
  obtain s1 where s1: "fs_scan_page p s pg = Some (True, s1)" "fs_flash s1 = fs_flash s"
     "fs_page_flags s1 = set_page_flags (fs_page_flags s) (word_of_int pg) (page_class h)"
     "fs_free_pages s1 = fs_free_pages s + (if page_free h then 1 else 0)"
     "fs_best_erase_count s1 = (if v_0x5001 h \<noteq> 0xFFFF \<and> page_class h = PageStateClean \<and> wear_level_counter h < fs_best_erase_count s
        then wear_level_counter h else fs_best_erase_count s)"
     "fs_last_allocated_page s1 = (if v_0x5001 h \<noteq> 0xFFFF \<and> page_class h = PageStateClean \<and> wear_level_counter h < fs_best_erase_count s
        then pg else fs_last_allocated_page s)"
    using scan_page [OF pg(1) Cons.prems(5) h_def v refl] by blast
  have hdr: "page_hdr_in p s1 = page_hdr_in p s" "page_wear p s1 = page_wear p s"
    by (simp_all add: fun_eq_iff page_hdr_in_def page_wear_def s1(2))
  have idx: "pg_index (word_of_int pg) < length (fs_page_flags s)"
    using page_word(3) [OF pg(1)] Cons.prems(5) unfolding pg_index by linarith
  have at: "page_at s1 q = (if q = pg then page_class h else page_at s q)" if "q \<in> fs_pages p" for q
    using page_word_inj [OF that pg(1)] by (simp add: page_at_def s1(3) get_set_page_flags [OF idx])
  have clean: "page_clean s1 q \<longleftrightarrow> page_at s1 q = PageStateClean" "page_clean s q \<longleftrightarrow> page_at s q = PageStateClean" for q
    by (simp_all add: page_clean_def page_at_def)
  have le: "fs_best_erase_count s1 \<le> fs_best_erase_count s" by (auto simp: s1(5))
  have wpg: "page_at s1 pg = PageStateClean \<Longrightarrow> fs_best_erase_count s1 \<le> page_wear p s pg"
    using Cons.prems(6) at [OF pg(1)] unat_u32_less [of "fs_best_erase_count s1"]
    by (auto simp: s1(5) h_def page_wear_def page_hdr_in_def word_le_nat_alt not_less split: if_splits)
  have "\<exists>s'. fs_scan_pages p s1 pgs = Some (True, s') \<and> fs_flash s' = fs_flash s1 \<and>
     length (fs_page_flags s') = length (fs_page_flags s1) \<and>
     (\<forall>q \<in> insert pg D \<union> set pgs. page_at s' q = page_class (page_hdr_in p s1 q)) \<and>
     (\<forall>q \<in> insert pg D \<union> set pgs. page_clean s' q \<longrightarrow> fs_best_erase_count s' \<le> page_wear p s1 q) \<and>
     (fs_best_erase_count s' = 0xFFFFFFFF \<or> fs_last_allocated_page s' \<in> insert pg D \<union> set pgs) \<and>
     fs_free_pages s' = fs_free_pages s1 + word_of_nat (length (filter (\<lambda>q. page_free (page_hdr_in p s1 q)) pgs))"
  proof (rule Cons.IH)
    show "\<forall>q \<in> insert pg D. page_at s1 q = page_class (page_hdr_in p s1 q)"
      using Cons.prems(3,7) at pg by (auto simp: hdr h_def)
    show "\<forall>q \<in> insert pg D. page_clean s1 q \<longrightarrow> fs_best_erase_count s1 \<le> page_wear p s1 q"
    proof (intro ballI impI)
      fix q assume q: "q \<in> insert pg D" "page_clean s1 q"
      show "fs_best_erase_count s1 \<le> page_wear p s1 q"
      proof (cases "q = pg")
        case True
        then show ?thesis using wpg q(2) by (simp add: clean hdr)
      next
        case False
        then have "q \<in> D" "page_clean s q" using q at Cons.prems(3) by (auto simp: clean)
        then show ?thesis using Cons.prems(8) le by (auto simp: hdr intro: order_trans)
      qed
    qed
    show "fs_best_erase_count s1 = 0xFFFFFFFF \<or> fs_last_allocated_page s1 \<in> insert pg D"
      using Cons.prems(9) by (auto simp: s1(5,6))
  qed (use Cons.prems pg in \<open>auto simp: hdr s1(3)\<close>)
  then show ?case by (auto simp: s1(1,2,3,4) hdr h_def)
qed

lemma page_table_init:
  assumes "REGION_FS_N_PAGES p \<le> 4 * length (fs_page_flags s)"
    and "\<forall>pg \<in> fs_pages p. v_0x5001 (page_hdr_in p s pg) = 0x5001 \<or> v_0x5001 (page_hdr_in p s pg) = 0xFFFF \<and> page_wear p s pg = 0xFFFFFFFF"
  shows "\<exists>s'. fs_page_table_init p s = Some (True, s') \<and> fs_flash s' = fs_flash s \<and>
     (\<forall>q \<in> fs_pages p. page_at s' q = page_class (page_hdr_in p s q)) \<and>
     fs_free_pages s' = word_of_nat (card {q \<in> fs_pages p. page_free (page_hdr_in p s q)}) \<and>
     (\<forall>q \<in> fs_pages p. page_clean s' q \<longrightarrow> fs_best_erase_count s' \<le> page_wear p s q) \<and>
     (fs_best_erase_count s' \<noteq> 0xFFFFFFFF \<longrightarrow> alloc_ok p s')"
proof -
  define s0 where "s0 = s\<lparr>fs_lastpg := -1, fs_best_erase_count := 0xFFFFFFFF, fs_last_allocated_page := -1, fs_free_pages := 0\<rparr>"
  define pgs where "pgs = map int [0..<REGION_FS_N_PAGES p]"
  have pgs: "set pgs = fs_pages p" "distinct pgs"
    by (auto simp: pgs_def fs_pages_def distinct_map image_int_atLeastLessThan)
  have hdr: "page_hdr_in p s0 = page_hdr_in p s" "page_wear p s0 = page_wear p s"
    by (simp_all add: fun_eq_iff page_hdr_in_def page_wear_def s0_def)
  have card: "length (filter P pgs) = card {q \<in> fs_pages p. P q}" for P
    using distinct_card [of "filter P pgs"] pgs by simp
  have fl: "fs_page_flags s0 = fs_page_flags s" "fs_flash s0 = fs_flash s" "fs_free_pages s0 = 0" "fs_best_erase_count s0 = 0xFFFFFFFF"
    by (simp_all add: s0_def)
  obtain s' where s': "fs_scan_pages p s0 pgs = Some (True, s')" "fs_flash s' = fs_flash s"
     "length (fs_page_flags s') = length (fs_page_flags s)"
     "\<forall>q \<in> fs_pages p. page_at s' q = page_class (page_hdr_in p s q)"
     "\<forall>q \<in> fs_pages p. page_clean s' q \<longrightarrow> fs_best_erase_count s' \<le> page_wear p s q"
     "fs_best_erase_count s' = 0xFFFFFFFF \<or> fs_last_allocated_page s' \<in> fs_pages p"
     "fs_free_pages s' = word_of_nat (card {q \<in> fs_pages p. page_free (page_hdr_in p s q)})"
    using scan_pages [of pgs "{}" s0] assms pgs fl by (auto simp: hdr card)
  have "page_wear p s' = page_wear p s" by (simp add: fun_eq_iff page_wear_def s'(2))
  then have "fs_best_erase_count s' \<noteq> 0xFFFFFFFF \<Longrightarrow> alloc_ok p s'" using s' assms(1) by (auto simp: alloc_ok_def)
  moreover have "fs_page_table_init p s = Some (True, s')" using s'(1) by (simp add: fs_page_table_init_def s0_def pgs_def)
  ultimately show ?thesis using s' by auto
qed


lemma fs_put_ok:
  assumes "pg \<in> fs_pages p" "unat ofs + length bs \<le> unat (REGION_FS_PAGE_SIZE p)" "length bs \<le> 127"
  shows "fs_put p s pg ofs bs = Some (0, s\<lparr>fs_flash := mprogram (fs_flash s) (fs_addr p (word_of_int pg) ofs) bs\<rparr>)"
proof -
  have n: "unat (word_of_nat (length bs) :: u32) = length bs" using assms(3) by (simp add: unat_of_nat)
  have "fs_write_page_ofs p (mwrite (\<lambda>_. 0) (unat (p_local p)) bs) (fs_flash s) (word_of_int pg) ofs (p_local p) (word_of_nat (length bs))
     = Some (0, mprogram (fs_flash s) (fs_addr p (word_of_int pg) ofs) (mread (mwrite (\<lambda>_. 0) (unat (p_local p)) bs) (unat (p_local p)) (length bs)))"
    unfolding page_word(2) [OF assms(1)]
    using page_word(3) [OF assms(1)] assms(2,3) n local_fit by (subst page_write) simp_all
  then show ?thesis by (simp add: fs_put_def mread_mwrite_same)
qed

lemma pages_apart:
  assumes "pg \<in> fs_pages p" "q \<in> fs_pages p" "pg \<noteq> q" "n \<le> unat (REGION_FS_PAGE_SIZE p)" "k \<le> unat (REGION_FS_PAGE_SIZE p)"
  shows "fs_addr p (word_of_int pg) 0 + n \<le> fs_addr p (word_of_int q) 0 \<or> fs_addr p (word_of_int q) 0 + k \<le> fs_addr p (word_of_int pg) 0"
proof -
  have "(nat a + 1) * unat (REGION_FS_PAGE_SIZE p) \<le> nat b * unat (REGION_FS_PAGE_SIZE p)" if "a < b" "0 \<le> a" for a b
    using that by (intro mult_right_mono) auto
  from this [of pg q] this [of q pg] show ?thesis
    using assms page_word(1) [OF assms(1)] page_word(1) [OF assms(2)]
    by (cases "pg < q") (auto simp: fs_addr_def fs_pages_def)
qed

lemma format_pages:
  assumes "distinct pgs" "set pgs \<subseteq> fs_pages p"
    and "\<forall>q \<in> set pgs. \<forall>i < SIZEOF_PAGE_HDR. fs_flash s (fs_addr p (word_of_int q) 0 + i) = 0xFF"
  shows "\<exists>m. fs_format_pages p s pgs = Some (0, s\<lparr>fs_flash := m, fs_valid := True\<rparr>) \<and>
     (\<forall>q \<in> set pgs. mread m (fs_addr p (word_of_int q) 0) SIZEOF_PAGE_HDR = page_hdr_bytes fs_blank_hdr) \<and>
     (\<forall>q \<in> fs_pages p - set pgs. mread m (fs_addr p (word_of_int q) 0) SIZEOF_PAGE_HDR
        = mread (fs_flash s) (fs_addr p (word_of_int q) 0) SIZEOF_PAGE_HDR)"
  using assms
proof (induction pgs arbitrary: s)
  case Nil
  then show ?case by (intro exI [of _ "fs_flash s"]) simp
next
  case (Cons pg pgs)
  have pg: "pg \<in> fs_pages p" using Cons.prems(2) by simp
  define m1 where "m1 = mprogram (fs_flash s) (fs_addr p (word_of_int pg) 0) (page_hdr_bytes fs_blank_hdr)"
  have put: "fs_put p s pg 0 (page_hdr_bytes fs_blank_hdr) = Some (0, s\<lparr>fs_flash := m1\<rparr>)"
    unfolding m1_def using page_lo by (subst fs_put_ok [OF pg]) simp_all
  have own: "mread m1 (fs_addr p (word_of_int pg) 0) SIZEOF_PAGE_HDR = page_hdr_bytes fs_blank_hdr"
    using mread_mprogram_erased [of "page_hdr_bytes fs_blank_hdr" "fs_flash s" "fs_addr p (word_of_int pg) 0"] Cons.prems(3)
    by (simp add: m1_def SIZEOF_PAGE_HDR_def)
  have other: "mread m1 (fs_addr p (word_of_int q) 0) SIZEOF_PAGE_HDR = mread (fs_flash s) (fs_addr p (word_of_int q) 0) SIZEOF_PAGE_HDR"
    if "q \<in> fs_pages p" "q \<noteq> pg" for q
    unfolding m1_def using pages_apart [OF that(1) pg that(2), of 28 28] page_lo
    by (intro mread_mprogram_disjoint) (simp add: SIZEOF_PAGE_HDR_def)
  have byte: "m1 (fs_addr p (word_of_int q) 0 + i) = fs_flash s (fs_addr p (word_of_int q) 0 + i)"
    if "q \<in> fs_pages p" "q \<noteq> pg" "i < SIZEOF_PAGE_HDR" for q i
    using arg_cong [OF other [OF that(1,2)], of "\<lambda>l. l ! i"] that(3) by simp
  have "\<exists>m. fs_format_pages p (s\<lparr>fs_flash := m1\<rparr>) pgs = Some (0, s\<lparr>fs_flash := m1\<rparr>\<lparr>fs_flash := m, fs_valid := True\<rparr>) \<and>
     (\<forall>q \<in> set pgs. mread m (fs_addr p (word_of_int q) 0) SIZEOF_PAGE_HDR = page_hdr_bytes fs_blank_hdr) \<and>
     (\<forall>q \<in> fs_pages p - set pgs. mread m (fs_addr p (word_of_int q) 0) SIZEOF_PAGE_HDR
        = mread (fs_flash (s\<lparr>fs_flash := m1\<rparr>)) (fs_addr p (word_of_int q) 0) SIZEOF_PAGE_HDR)"
  proof (rule Cons.IH)
    show "\<forall>q \<in> set pgs. \<forall>i < SIZEOF_PAGE_HDR. fs_flash (s\<lparr>fs_flash := m1\<rparr>) (fs_addr p (word_of_int q) 0 + i) = 0xFF"
    proof (intro ballI allI impI)
      fix q i assume q: "q \<in> set pgs" "i < SIZEOF_PAGE_HDR"
      then have "q \<in> fs_pages p" "q \<noteq> pg" using Cons.prems(1,2) by auto
      then show "fs_flash (s\<lparr>fs_flash := m1\<rparr>) (fs_addr p (word_of_int q) 0 + i) = 0xFF"
        using byte q Cons.prems(3) by simp
    qed
  qed (use Cons.prems in auto)
  then obtain m where m: "fs_format_pages p (s\<lparr>fs_flash := m1\<rparr>) pgs = Some (0, s\<lparr>fs_flash := m, fs_valid := True\<rparr>)"
     "\<forall>q \<in> set pgs. mread m (fs_addr p (word_of_int q) 0) SIZEOF_PAGE_HDR = page_hdr_bytes fs_blank_hdr"
     "\<forall>q \<in> fs_pages p - set pgs. mread m (fs_addr p (word_of_int q) 0) SIZEOF_PAGE_HDR = mread m1 (fs_addr p (word_of_int q) 0) SIZEOF_PAGE_HDR"
    by auto
  then show ?case using own other Cons.prems(1) pg put by (intro exI [of _ m]) auto
qed

lemma format:
  assumes al: "unat (REGION_FS_START p) mod 0x8000 = 0" "REGION_FS_N_PAGES p * unat (REGION_FS_PAGE_SIZE p) mod 0x8000 = 0"
  shows "\<exists>s'. fs_format p s = Some (0, s') \<and> fs_valid s' \<and> fs_page_flags s' = fs_page_flags s \<and>
     (\<forall>q \<in> fs_pages p. page_hdr_in p s' q = fs_blank_hdr)"
proof -
  define n where "n = (word_of_nat (REGION_FS_N_PAGES p) * REGION_FS_PAGE_SIZE p :: u32)"
  have lt: "REGION_FS_N_PAGES p * unat (REGION_FS_PAGE_SIZE p) < 2 ^ 32" using fs_fit size32 by simp
  have "unat (word_of_nat (REGION_FS_N_PAGES p) :: u32) = REGION_FS_N_PAGES p" using n_pages by (simp add: unat_of_nat)
  then have n: "unat n = REGION_FS_N_PAGES p * unat (REGION_FS_PAGE_SIZE p)"
    unfolding n_def using lt by (simp add: unat_word_ariths)
  define m where "m = mfill (fs_flash s) (unat (REGION_FS_START p)) (unat n) 0xFF"
  have er: "flash_erase p (fs_flash s) (REGION_FS_START p) n = Some (0, m)"
    unfolding m_def using al n fs_fit by (intro flash_erase_ok) simp_all
  define s1 where "s1 = s\<lparr>fs_valid := False, fs_lastpg := 0, fs_flash := m\<rparr>"
  define pgs where "pgs = map int [0..<REGION_FS_N_PAGES p]"
  have pgs: "set pgs = fs_pages p" "distinct pgs"
    by (auto simp: pgs_def fs_pages_def distinct_map image_int_atLeastLessThan)
  have ff: "\<forall>q \<in> set pgs. \<forall>i < SIZEOF_PAGE_HDR. fs_flash s1 (fs_addr p (word_of_int q) 0 + i) = 0xFF"
  proof (intro ballI allI impI)
    fix q i assume q: "q \<in> set pgs" and i: "i < SIZEOF_PAGE_HDR"
    have "(unat (word_of_int q :: u16) + 1) * unat (REGION_FS_PAGE_SIZE p) \<le> REGION_FS_N_PAGES p * unat (REGION_FS_PAGE_SIZE p)"
      using page_word(3) [of q] q pgs by (intro mult_right_mono) simp_all
    then have "unat (REGION_FS_START p) \<le> fs_addr p (word_of_int q) 0 + i"
      "fs_addr p (word_of_int q) 0 + i < unat (REGION_FS_START p) + unat n"
      using i page_lo by (simp_all add: fs_addr_def n SIZEOF_PAGE_HDR_def)
    then show "fs_flash s1 (fs_addr p (word_of_int q) 0 + i) = 0xFF" by (simp add: s1_def m_def mfill_def)
  qed
  obtain m' where m': "fs_format_pages p s1 pgs = Some (0, s1\<lparr>fs_flash := m', fs_valid := True\<rparr>)"
    "\<forall>q \<in> fs_pages p. mread m' (fs_addr p (word_of_int q) 0) SIZEOF_PAGE_HDR = page_hdr_bytes fs_blank_hdr"
    using format_pages [OF pgs(2) _ ff] pgs(1) by auto
  have blank: "page_hdr_of (page_hdr_bytes fs_blank_hdr) = fs_blank_hdr"
    using page_hdr_of_bytes [of fs_blank_hdr "[]"] by (simp add: fs_page_hdr.defs)
  show ?thesis
    using er m' blank by (auto simp: fs_format_def n_def [symmetric] s1_def pgs_def page_hdr_in_def Let_def)
qed

lemma format_then_alloc:
  assumes al: "unat (REGION_FS_START p) mod 0x8000 = 0" "REGION_FS_N_PAGES p * unat (REGION_FS_PAGE_SIZE p) mod 0x8000 = 0"
    and len: "REGION_FS_N_PAGES p \<le> 4 * length (fs_page_flags s)" and N: "0 < REGION_FS_N_PAGES p"
  shows "\<exists>s1 s2. fs_format p s = Some (0, s1) \<and> fs_page_table_init p s1 = Some (True, s2) \<and>
     (\<forall>q \<in> fs_pages p. page_at s2 q = PageStateClean) \<and> fs_free_pages s2 = word_of_nat (REGION_FS_N_PAGES p) \<and> alloc_ok p s2"
proof -
  obtain s1 where s1: "fs_format p s = Some (0, s1)" "fs_page_flags s1 = fs_page_flags s"
     "\<forall>q \<in> fs_pages p. page_hdr_in p s1 q = fs_blank_hdr"
    using format [OF al, of s] by auto
  have b: "v_0x5001 fs_blank_hdr = 0x5001" "page_class fs_blank_hdr = PageStateClean" "wear_level_counter fs_blank_hdr = 1"
    by (simp_all add: fs_blank_hdr_def page_class_def FLASHFLAG_def HDR_EMPTY_ALLOCATED_def)
  have w: "page_wear p s1 q = 1" if "q \<in> fs_pages p" for q
    using s1(3) that b(3) by (auto simp: page_wear_def page_hdr_in_def)
  have all: "{q \<in> fs_pages p. page_free (page_hdr_in p s1 q)} = fs_pages p"
    using s1(3) b(2) by (auto simp: page_free_def)
  obtain s2 where s2: "fs_page_table_init p s1 = Some (True, s2)"
     "\<forall>q \<in> fs_pages p. page_at s2 q = page_class (page_hdr_in p s1 q)"
     "fs_free_pages s2 = word_of_nat (card (fs_pages p))"
     "\<forall>q \<in> fs_pages p. page_clean s2 q \<longrightarrow> fs_best_erase_count s2 \<le> page_wear p s1 q"
     "fs_best_erase_count s2 \<noteq> 0xFFFFFFFF \<longrightarrow> alloc_ok p s2"
    using page_table_init [of s1] len s1 b(1) by (auto simp: all)
  have at: "\<forall>q \<in> fs_pages p. page_at s2 q = PageStateClean" using s2(2) s1(3) b(2) by simp
  have "0 \<in> fs_pages p" using N by (simp add: fs_pages_def)
  then have "fs_best_erase_count s2 \<le> 1" using s2(4) at w by (auto simp: page_clean_def page_at_def)
  then have "alloc_ok p s2" using s2(5) by (auto simp: word_le_nat_alt)
  then show ?thesis using s1(1) s2(1,3) at by (auto simp: fs_pages_def)
qed

end

text \<open>The packed page table is a table: after \<open>_fs_set_page_state\<close> of a page, \<open>_fs_get_page_state\<close>
  of that page returns the state set and that of every other page what it returned before, though four
  pages share a byte.\<close>

theorem fs_page_state_table:
  assumes "fs_set_page_state s pg st = Some s'"
  shows "fs_get_page_state s' q =
    (if (word_of_int q :: u16) = word_of_int pg then Some st else fs_get_page_state s q)"
  using assms by (auto simp: fs_set_page_state_def fs_get_page_state_def c_assert_def get_set_page_flags split: if_splits)

definition ex_fs :: fs where
  "ex_fs = \<lparr> fs_flash = (\<lambda>_. 0), fs_valid = True, fs_lastpg = -1, fs_best_erase_count = 0, fs_last_allocated_page = 3,
     fs_free_pages = 1536, fs_page_flags = replicate 384 0, gc_sector = -1 \<rparr>"

theorem fs_page_state_table_witness:
  "\<exists>s'. fs_set_page_state ex_fs 6 PageStateDirty = Some s' \<and>
     fs_get_page_state s' 6 = Some PageStateDirty \<and> fs_get_page_state s' 5 = Some PageStateClean"
proof -
  have e: "fs_set_page_state ex_fs 6 PageStateDirty
     = Some (ex_fs\<lparr>fs_page_flags := set_page_flags (fs_page_flags ex_fs) 6 PageStateDirty\<rparr>)"
    by (simp add: fs_set_page_state_def ex_fs_def pg_index)
  have g: "fs_get_page_state ex_fs 5 = Some PageStateClean"
    by (simp add: fs_get_page_state_def ex_fs_def pg_index get_page_flags_def page_state_of_def)
  show ?thesis using e g fs_page_state_table [OF e, of 6] fs_page_state_table [OF e, of 5] by simp
qed

text \<open>C18: wear levelling: \<open>_fs_page_alloc\<close>, started with a best erase count that no clean page is
  below, returns a clean page whose erase count is the lowest of all clean pages, and records that
  count and that page; it returns -1 exactly when no page is clean. It never fails an
  assert.\<close>

theorem fs_page_alloc_wear_levelling:
  assumes "alloc_ok (snowy_plat nor_ideal) s"
  shows "\<exists>pg b l. fs_page_alloc (snowy_plat nor_ideal) s
      = Some (pg, s\<lparr>fs_best_erase_count := b, fs_last_allocated_page := l\<rparr>) \<and>
    (pg = -1 \<and> (\<forall>q \<in> fs_pages (snowy_plat nor_ideal). \<not> page_clean s q) \<or>
     pg \<in> fs_pages (snowy_plat nor_ideal) \<and> page_clean s pg \<and> l = pg \<and> b = page_wear (snowy_plat nor_ideal) s pg \<and>
       (\<forall>q \<in> fs_pages (snowy_plat nor_ideal). page_clean s q \<longrightarrow>
          page_wear (snowy_plat nor_ideal) s pg \<le> page_wear (snowy_plat nor_ideal) s q))"
  using assms by (rule snowy_fs.page_alloc)

lemma ex_fs_clean: "pg \<in> fs_pages (snowy_plat nor_ideal) \<Longrightarrow> page_clean ex_fs pg"
proof -
  assume pg: "pg \<in> fs_pages (snowy_plat nor_ideal)"
  have "pg_index (word_of_int pg) < 384"
    using snowy_fs.page_word(3) [OF pg] unfolding pg_index by simp
  then show ?thesis by (simp add: page_clean_def ex_fs_def get_page_flags_def page_state_of_def)
qed

theorem fs_page_alloc_wear_levelling_witness:
  "\<exists>pg \<in> fs_pages (snowy_plat nor_ideal). \<exists>s'. fs_page_alloc (snowy_plat nor_ideal) ex_fs = Some (pg, s')"
proof -
  have ok: "alloc_ok (snowy_plat nor_ideal) ex_fs"
    by (simp add: alloc_ok_def) (simp add: ex_fs_def fs_pages_def)
  have "0 \<in> fs_pages (snowy_plat nor_ideal)" by (simp add: fs_pages_def)
  then show ?thesis using fs_page_alloc_wear_levelling [OF ok] ex_fs_clean by blast
qed

text \<open>C22: \<open>_fs_page_table_init\<close> over a flash whose page headers are blank or of version 0x5001 succeeds,
  gives every page the state its header says, and counts the pages that are clean or dirty. It leaves the allocator's invariant when
  some clean page has an erase count below 0xFFFFFFFF, that is, when there is a formatted clean page; with none there is no page the
  allocator could remember as the last one, and the theorem claims nothing of its state.\<close>

theorem fs_page_table_init_ok:
  assumes "1536 \<le> 4 * length (fs_page_flags s)"
    and "\<forall>pg \<in> fs_pages (snowy_plat nor_ideal). v_0x5001 (page_hdr_in (snowy_plat nor_ideal) s pg) = 0x5001 \<or>
       v_0x5001 (page_hdr_in (snowy_plat nor_ideal) s pg) = 0xFFFF \<and> page_wear (snowy_plat nor_ideal) s pg = 0xFFFFFFFF"
  shows "\<exists>s'. fs_page_table_init (snowy_plat nor_ideal) s = Some (True, s') \<and> fs_flash s' = fs_flash s \<and>
     (\<forall>q \<in> fs_pages (snowy_plat nor_ideal). page_at s' q = page_class (page_hdr_in (snowy_plat nor_ideal) s q)) \<and>
     fs_free_pages s' = word_of_nat (card {q \<in> fs_pages (snowy_plat nor_ideal). page_free (page_hdr_in (snowy_plat nor_ideal) s q)}) \<and>
     ((\<exists>q \<in> fs_pages (snowy_plat nor_ideal). page_class (page_hdr_in (snowy_plat nor_ideal) s q) = PageStateClean \<and>
        page_wear (snowy_plat nor_ideal) s q \<noteq> 0xFFFFFFFF) \<longrightarrow> alloc_ok (snowy_plat nor_ideal) s')"
proof -
  from snowy_fs.page_table_init [of s] assms obtain s' where s': "fs_page_table_init (snowy_plat nor_ideal) s = Some (True, s')"
    "fs_flash s' = fs_flash s"
    "\<forall>q \<in> fs_pages (snowy_plat nor_ideal). page_at s' q = page_class (page_hdr_in (snowy_plat nor_ideal) s q)"
    "fs_free_pages s' = word_of_nat (card {q \<in> fs_pages (snowy_plat nor_ideal). page_free (page_hdr_in (snowy_plat nor_ideal) s q)})"
    "\<forall>q \<in> fs_pages (snowy_plat nor_ideal). page_clean s' q \<longrightarrow> fs_best_erase_count s' \<le> page_wear (snowy_plat nor_ideal) s q"
    "fs_best_erase_count s' \<noteq> 0xFFFFFFFF \<longrightarrow> alloc_ok (snowy_plat nor_ideal) s'" by auto
  have "fs_best_erase_count s' \<noteq> 0xFFFFFFFF"
    if "q \<in> fs_pages (snowy_plat nor_ideal)" "page_class (page_hdr_in (snowy_plat nor_ideal) s q) = PageStateClean"
      "page_wear (snowy_plat nor_ideal) s q \<noteq> 0xFFFFFFFF" for q
  proof
    assume b: "fs_best_erase_count s' = 0xFFFFFFFF"
    have "page_clean s' q" using s'(3) that(1,2) by (simp add: page_clean_def page_at_def)
    then have "(0xFFFFFFFF :: u32) \<le> page_wear (snowy_plat nor_ideal) s q" using s'(5) that(1) b by auto
    then show False using that(3) unat_u32_less [of "page_wear (snowy_plat nor_ideal) s q"]
      by (simp add: word_le_nat_alt word_unat_eq_iff)
  qed
  then show ?thesis using s' by blast
qed

text \<open>A flash whose even pages are formatted, erased three times, and whose odd ones are blank.\<close>

definition ex_half :: fs where
  "ex_half = ex_fs\<lparr>fs_flash := \<lambda>a. if a mod 0x4000 < 28 then page_hdr_bytes (fs_blank_hdr\<lparr>wear_level_counter := 3\<rparr>) ! (a mod 0x4000) else 0xFF\<rparr>"

lemma ex_half_hdr: "page_hdr_in (snowy_plat nor_ideal) ex_half pg =
  (if even (unat (word_of_int pg :: u16)) then fs_blank_hdr\<lparr>wear_level_counter := 3\<rparr> else page_hdr_of (replicate 28 0xFF))"
proof -
  define n where "n = unat (word_of_int pg :: u16)"
  let ?h = "fs_blank_hdr\<lparr>wear_level_counter := 3\<rparr>"
  have l: "length (page_hdr_bytes ?h) = 28" by (simp add: page_hdr_bytes_def le16_def le32_def)
  have ad: "fs_addr (snowy_plat nor_ideal) (word_of_int pg) 0 = 0x400000 + n * 0x2000" by (simp add: fs_addr_def n_def)
  have md: "(0x400000 + n * 0x2000 + i) mod 0x4000 = (if even n then i else 0x2000 + i)" if "i < 28" for i
  proof -
    obtain k where k: "n = 2 * k \<or> n = 2 * k + 1" by (metis oddE evenE)
    then have "0x400000 + n * 0x2000 + i = (if even n then i else 0x2000 + i) + 0x4000 * (256 + k)" by auto
    then have "(0x400000 + n * 0x2000 + i) mod 0x4000 = (if even n then i else 0x2000 + i) mod 0x4000" by (simp only: mod_mult_self2)
    then show ?thesis using that by simp
  qed
  have "mread (fs_flash ex_half) (0x400000 + n * 0x2000) 28 = (if even n then page_hdr_bytes ?h else replicate 28 0xFF)"
    by (rule nth_equalityI) (auto simp: l mread_def ex_half_def md)
  moreover have "page_hdr_of (page_hdr_bytes ?h) = ?h" using page_hdr_of_bytes [of ?h "[]"] by (simp add: fs_page_hdr.defs)
  ultimately show ?thesis by (simp add: page_hdr_in_def ad SIZEOF_PAGE_HDR_def flip: n_def)
qed

theorem fs_page_table_init_ok_witness:
  "\<exists>s'. fs_page_table_init (snowy_plat nor_ideal) ex_half = Some (True, s') \<and> page_at s' 7 = PageStateClean \<and>
    alloc_ok (snowy_plat nor_ideal) s'"
proof -
  have b: "v_0x5001 fs_blank_hdr = 0x5001" "status fs_blank_hdr = 0xFF" by (simp_all add: fs_blank_hdr_def page_hdr_of_def SIZEOF_PAGE_HDR_def)
  have v: "v_0x5001 (page_hdr_of (replicate 28 0xFF)) = 0xFFFF" "wear_level_counter (page_hdr_of (replicate 28 0xFF)) = 0xFFFFFFFF"
    by (simp_all add: page_hdr_of_def get16_def get32_def)
  have w: "page_wear (snowy_plat nor_ideal) ex_half pg = (if even (unat (word_of_int pg :: u16)) then 3 else 0xFFFFFFFF)" for pg
    using ex_half_hdr [of pg] v by (simp add: page_hdr_in_def page_wear_def)
  have cl: "page_class (page_hdr_in (snowy_plat nor_ideal) ex_half pg) = PageStateClean" for pg
    by (simp add: ex_half_hdr page_class_def v b FLASHFLAG_def HDR_STATUS_FILE_START_def HDR_STATUS_FILE_CONT_def)
  have pg: "0 \<in> fs_pages (snowy_plat nor_ideal)" "7 \<in> fs_pages (snowy_plat nor_ideal)" by (simp_all add: fs_pages_def)
  have h: "1536 \<le> 4 * length (fs_page_flags ex_half)" by (simp add: ex_half_def ex_fs_def)
  have hd: "\<forall>pg \<in> fs_pages (snowy_plat nor_ideal). v_0x5001 (page_hdr_in (snowy_plat nor_ideal) ex_half pg) = 0x5001 \<or>
     v_0x5001 (page_hdr_in (snowy_plat nor_ideal) ex_half pg) = 0xFFFF \<and> page_wear (snowy_plat nor_ideal) ex_half pg = 0xFFFFFFFF"
    by (simp add: ex_half_hdr w v b)
  from fs_page_table_init_ok [OF h hd] obtain s' where "fs_page_table_init (snowy_plat nor_ideal) ex_half = Some (True, s')"
    "\<forall>q \<in> fs_pages (snowy_plat nor_ideal). page_at s' q = page_class (page_hdr_in (snowy_plat nor_ideal) ex_half q)"
    "(\<exists>q \<in> fs_pages (snowy_plat nor_ideal). page_class (page_hdr_in (snowy_plat nor_ideal) ex_half q) = PageStateClean \<and>
        page_wear (snowy_plat nor_ideal) ex_half q \<noteq> 0xFFFFFFFF) \<longrightarrow> alloc_ok (snowy_plat nor_ideal) s'" by blast
  moreover have "page_wear (snowy_plat nor_ideal) ex_half 0 \<noteq> 0xFFFFFFFF" by (simp add: w)
  ultimately show ?thesis using pg cl by (metis (no_types))
qed

text \<open>A file system just formatted can be used: \<open>fs_format\<close> succeeds, the scan of its pages finds
  them all clean and counts them all as free, and the allocator's invariant holds.\<close>

theorem fs_format_then_alloc:
  assumes "1536 \<le> 4 * length (fs_page_flags s)"
  shows "\<exists>s1 s2. fs_format (snowy_plat nor_ideal) s = Some (0, s1) \<and>
     fs_page_table_init (snowy_plat nor_ideal) s1 = Some (True, s2) \<and>
     (\<forall>q \<in> fs_pages (snowy_plat nor_ideal). page_at s2 q = PageStateClean) \<and>
     fs_free_pages s2 = 1536 \<and> alloc_ok (snowy_plat nor_ideal) s2"
  using snowy_fs.format_then_alloc [of s] assms by simp

theorem fs_format_then_alloc_witness:
  "\<exists>s1 s2. fs_format (snowy_plat nor_ideal) ex_fs = Some (0, s1) \<and>
     fs_page_table_init (snowy_plat nor_ideal) s1 = Some (True, s2) \<and> fs_free_pages s2 = 1536"
  using fs_format_then_alloc [of ex_fs] by (auto simp: ex_fs_def)

end
