(* ===== verification/Rdb.thy ===== *)
theory Rdb
  imports FsAlloc
begin

section \<open>The record database: rcore/rdb.c\<close>

text \<open>
  A key-value store kept as a log of records in a file: a 4-byte header (flags that are cleared to
  mean true, key length, data length), the key, the data. The model follows rcore/rdb.c over the
  file operations of \<open>FsFile\<close> and \<open>FsAlloc\<close>. The specification side reads the file's content as
  a list of bytes: \<open>rdb_walk\<close> lists the valid records of a content. The lemmas show that the
  iterator ends and visits exactly those records, that an insertion appends one record, and that
  one cut off between or inside its writes leaves the old records or is as good as finished.
\<close>

datatype rdb_operator = RDB_OP_NONE | RDB_OP_GREATER | RDB_OP_LESS | RDB_OP_EQ | RDB_OP_NEQ
  | RDB_OP_RESULT | RDB_OP_RESULT_FULLY_LOAD

datatype blob_result = Blob_Success | Blob_GeneralFailure | Blob_InvalidOperation | Blob_InvalidDatabaseID
  | Blob_InvalidData | Blob_KeyDoesNotExist | Blob_DatabaseFull | Blob_DataStale | Blob_NotSupported
  | Blob_Locked | Blob_TryLater

record rdb_hdr =
  h_flags :: u8
  h_key_len :: u8
  h_data_len :: u16

record rdb_iter =
  it_fd :: fd
  it_key_len :: u8
  it_data_len :: u16

record rdb_database =
  db_id :: u8
  db_filename :: bytes
  def_db_size :: u16
  db_locked :: bool

record rdb_selector =
  sel_offsetof :: u16
  sel_size :: u16
  sel_operator :: rdb_operator
  sel_val :: bytes

record rdb_select_result =
  res_it :: rdb_iter
  res_result :: "bytes list"

definition FLAG_SET :: "u8 \<Rightarrow> u8 \<Rightarrow> bool" where
  "FLAG_SET v flag \<longleftrightarrow> v AND flag = 0"

definition RDB_FLAG_WRITTEN :: u8 where "RDB_FLAG_WRITTEN = 1"
definition RDB_FLAG_HEADER_WRITTEN :: u8 where "RDB_FLAG_HEADER_WRITTEN = 2"
definition RDB_FLAG_ERASED :: u8 where "RDB_FLAG_ERASED = 4"
definition RDB_SELECTOR_OFFSET_KEY :: u16 where "RDB_SELECTOR_OFFSET_KEY = 0xFFFF"
definition SIZEOF_RDB_HDR :: nat where "SIZEOF_RDB_HDR = 4"

definition rdb_hdr_bytes :: "rdb_hdr \<Rightarrow> bytes" where
  "rdb_hdr_bytes h = [h_flags h, h_key_len h] @ le16 (h_data_len h)"

definition rdb_hdr_of :: "bytes \<Rightarrow> rdb_hdr" where
  "rdb_hdr_of bs = \<lparr> h_flags = bs ! 0, h_key_len = bs ! 1, h_data_len = get16 bs 2 \<rparr>"

subsection \<open>Opening\<close>

text \<open>The table of databases; each has a lock that \<open>rdb_open\<close> takes.\<close>

definition ascii :: "string \<Rightarrow> bytes" where
  "ascii s = map (\<lambda>c. word_of_nat (of_char c)) s"

definition databases :: "rdb_database list" where
  "databases = map (\<lambda>(i, f, n). \<lparr> db_id = i, db_filename = ascii f, def_db_size = n, db_locked = False \<rparr>)
    [(0, ''rebble/rdbtest'', 1024), (4, ''rebble/notifstr'', 16384), (2, ''rebble/appdb'', 16384),
     (16, ''rebble/apppersistdb'', 16384), (128, ''rebble/bluetooth'', 8192), (129, ''rebble/prefs'', 8192)]"

text \<open>A database that is already locked is waited for, which is \<open>None\<close>; an unknown id gives NULL.\<close>

primrec rdb_open :: "rdb_database list \<Rightarrow> u16 \<Rightarrow> (rdb_database option \<times> rdb_database list) option" where
  "rdb_open [] database_id = Some (None, [])" |
  "rdb_open (db # dbs) database_id =
    (if ucast (db_id db) = database_id
     then do { c_assert (\<not> db_locked db);
               Some (Some (db\<lparr>db_locked := True\<rparr>), db\<lparr>db_locked := True\<rparr> # dbs) }
     else do { (r, dbs) \<leftarrow> rdb_open dbs database_id; Some (r, db # dbs) })"

definition rdb_close :: "rdb_database list \<Rightarrow> u8 \<Rightarrow> rdb_database list option" where
  "rdb_close dbs i = do {
     c_assert (\<exists>db \<in> set dbs. db_id db = i \<and> db_locked db);
     Some (map (\<lambda>db. if db_id db = i then db\<lparr>db_locked := False\<rparr> else db) dbs) }"

subsection \<open>Walking the log\<close>

definition hdr_empty :: "rdb_hdr \<Rightarrow> bool" where
  "hdr_empty h \<longleftrightarrow> h_flags h = 0xFF \<and> h_key_len h = 0xFF \<and> h_data_len h = 0xFFFF"

definition hdr_partial :: "rdb_hdr \<Rightarrow> bool" where
  "hdr_partial h \<longleftrightarrow> (h_key_len h \<noteq> 0xFF \<or> h_data_len h \<noteq> 0xFF) \<and>
     \<not> (FLAG_SET (h_flags h) RDB_FLAG_HEADER_WRITTEN \<or> FLAG_SET (h_flags h) RDB_FLAG_WRITTEN)"

definition hdr_dead :: "rdb_hdr \<Rightarrow> bool" where
  "hdr_dead h \<longleftrightarrow> FLAG_SET (h_flags h) RDB_FLAG_ERASED \<or> \<not> FLAG_SET (h_flags h) RDB_FLAG_WRITTEN"

definition hdr_body :: "rdb_hdr \<Rightarrow> u32" where
  "hdr_body h = ucast (h_key_len h) + ucast (h_data_len h)"

text \<open>The new position and the header there, \<open>None\<close> for the return value 0.\<close>

partial_function (option) rdb_seek_valid :: "plat \<Rightarrow> mem \<Rightarrow> fd \<Rightarrow> bool \<Rightarrow> (fd \<times> rdb_hdr option) option" where
  "rdb_seek_valid p m fdp next = do {
     (n, fd, bs) \<leftarrow> fs_read p m fdp (p_local p) (word_of_nat SIZEOF_RDB_HDR);
     if n < word_of_nat SIZEOF_RDB_HDR then Some (fdp, None)
     else let hdr = rdb_hdr_of bs in
       if hdr_empty hdr then Some (fdp, None)
       else if hdr_partial hdr then rdb_seek_valid p m fd next
       else if hdr_dead hdr \<or> next
       then do { (_, fd) \<leftarrow> fs_seek p m fd (hdr_body hdr) FS_SEEK_CUR;
                 rdb_seek_valid p m fd False }
       else Some (fdp, Some hdr) }"

definition rdb_iter_at :: "fd \<Rightarrow> rdb_hdr option \<Rightarrow> bool \<times> rdb_iter" where
  "rdb_iter_at fd h = (case h of
     None \<Rightarrow> (False, \<lparr> it_fd = fd, it_key_len = 0, it_data_len = 0 \<rparr>)
   | Some hdr \<Rightarrow> (True, \<lparr> it_fd = fd, it_key_len = h_key_len hdr, it_data_len = h_data_len hdr \<rparr>))"

definition rdb_iter_start_from_fd :: "plat \<Rightarrow> mem \<Rightarrow> fd \<Rightarrow> (bool \<times> rdb_iter) option" where
  "rdb_iter_start_from_fd p m fd = do {
     (fd, h) \<leftarrow> rdb_seek_valid p m fd False;
     Some (rdb_iter_at fd h) }"

text \<open>When the file is not found the iterator is left as it was, uninitialised in the callers.\<close>

definition rdb_iter_start :: "plat \<Rightarrow> fs \<Rightarrow> rdb_database \<Rightarrow> rdb_iter \<Rightarrow> (bool \<times> rdb_iter) option" where
  "rdb_iter_start p s db it = do {
     c_assert (db_locked db);
     r \<leftarrow> fs_find_file p s (db_filename db);
     case r of
       None \<Rightarrow> Some (False, it)
     | Some f \<Rightarrow> rdb_iter_start_from_fd p (fs_flash s) (fs_open f) }"

definition rdb_iter_next :: "plat \<Rightarrow> mem \<Rightarrow> rdb_iter \<Rightarrow> (bool \<times> rdb_iter) option" where
  "rdb_iter_next p m it = do {
     (fd, h) \<leftarrow> rdb_seek_valid p m (it_fd it) True;
     Some (rdb_iter_at fd h) }"

definition rdb_iter_read_key :: "plat \<Rightarrow> mem \<Rightarrow> rdb_iter \<Rightarrow> (u32 \<times> bytes) option" where
  "rdb_iter_read_key p m it = do {
     (_, fd) \<leftarrow> fs_seek p m (it_fd it) (word_of_nat SIZEOF_RDB_HDR) FS_SEEK_CUR;
     (n, _, bs) \<leftarrow> fs_read p m fd (p_local p) (ucast (it_key_len it));
     Some (n, bs) }"

definition rdb_iter_read_data :: "plat \<Rightarrow> mem \<Rightarrow> rdb_iter \<Rightarrow> int \<Rightarrow> int \<Rightarrow> (u32 \<times> bytes) option" where
  "rdb_iter_read_data p m it ofs len =
    (if uint (it_data_len it) \<le> ofs then Some (0, [])
     else let len = (if uint (it_data_len it) > ofs + len then len else uint (it_data_len it) - ofs) in
       do { (_, fd) \<leftarrow> fs_seek p m (it_fd it) (word_of_nat SIZEOF_RDB_HDR + ucast (it_key_len it) + word_of_int ofs) FS_SEEK_CUR;
            (n, _, bs) \<leftarrow> fs_read p m fd (p_local p) (word_of_int len);
            Some (n, bs) })"

subsection \<open>Selection\<close>

definition le_value :: "bytes \<Rightarrow> nat" where
  "le_value bs = foldr (\<lambda>b n. unat b + 256 * n) bs 0"

definition rdb_compare :: "rdb_operator \<Rightarrow> bytes \<Rightarrow> bytes \<Rightarrow> nat \<Rightarrow> bool option" where
  "rdb_compare op where_prop where_val n = (case op of
     RDB_OP_GREATER \<Rightarrow> Some (n \<le> 4 \<and> le_value (take n where_prop) > le_value (take n where_val))
   | RDB_OP_LESS \<Rightarrow> Some (n \<le> 4 \<and> le_value (take n where_prop) < le_value (take n where_val))
   | RDB_OP_EQ \<Rightarrow> Some (take n where_prop = take n where_val)
   | RDB_OP_NEQ \<Rightarrow> Some (take n where_prop = take n where_val)
   | _ \<Rightarrow> None)"

definition op_is_result :: "rdb_operator \<Rightarrow> bool" where
  "op_is_result op \<longleftrightarrow> op = RDB_OP_RESULT \<or> op = RDB_OP_RESULT_FULLY_LOAD"

text \<open>The first inner loop: whether the record under the iterator meets every comparison.\<close>

primrec rdb_matches :: "plat \<Rightarrow> mem \<Rightarrow> rdb_iter \<Rightarrow> rdb_selector list \<Rightarrow> bool option" where
  "rdb_matches p m it [] = Some True" |
  "rdb_matches p m it (sel # sels) =
    (if sel_operator sel = RDB_OP_NONE then Some True
     else if op_is_result (sel_operator sel) then rdb_matches p m it sels
     else do {
       prop \<leftarrow>
         (if sel_offsetof sel = RDB_SELECTOR_OFFSET_KEY
          then (if ucast (it_key_len it) \<noteq> sel_size sel then Some None
                else do { (n, bs) \<leftarrow> rdb_iter_read_key p m it;
                          Some (if n \<noteq> ucast (sel_size sel) then None else Some bs) })
          else do { (n, bs) \<leftarrow> rdb_iter_read_data p m it (uint (sel_offsetof sel)) (uint (sel_size sel));
                    Some (if n \<noteq> ucast (sel_size sel) then None else Some bs) });
       case prop of
         None \<Rightarrow> Some False
       | Some bs \<Rightarrow> do { ok \<leftarrow> rdb_compare (sel_operator sel) bs (sel_val sel) (unat (sel_size sel));
                          if ok then rdb_matches p m it sels else Some False } })"

text \<open>The second: the result values, \<open>None\<close> when one cannot be read or allocated. \<open>calloc n\<close> says whether
  an allocation of \<open>n\<close> bytes succeeds: \<open>heap_room\<close> is the heap as long as it has room. It still answers a request for
  no bytes with \<open>NULL\<close>, as \<open>_realloc\<close> in rcore/rebble_memory.c takes that for a call of \<open>free\<close>.\<close>

definition heap_room :: "nat \<Rightarrow> bool" where
  "heap_room n \<longleftrightarrow> n \<noteq> 0"

primrec rdb_results :: "plat \<Rightarrow> mem \<Rightarrow> (nat \<Rightarrow> bool) \<Rightarrow> rdb_iter \<Rightarrow> rdb_selector list \<Rightarrow> bytes list option option" where
  "rdb_results p m calloc it [] = Some (Some [])" |
  "rdb_results p m calloc it (sel # sels) =
    (if sel_operator sel = RDB_OP_NONE then Some (Some [])
     else if \<not> op_is_result (sel_operator sel) then rdb_results p m calloc it sels
     else let (ofs, n) = (if sel_operator sel = RDB_OP_RESULT then (uint (sel_offsetof sel), uint (sel_size sel))
                          else (0, uint (it_data_len it))) in
       if \<not> calloc (nat n) then Some None
       else do { (k, bs) \<leftarrow> rdb_iter_read_data p m it ofs n;
                 if uint k \<noteq> n then Some None
                 else do { rest \<leftarrow> rdb_results p m calloc it sels;
                           Some (map_option (\<lambda>rs. bs # rs) rest) } })"

definition rdb_nresults :: "rdb_selector list \<Rightarrow> nat" where
  "rdb_nresults sels = length (filter (\<lambda>sel. op_is_result (sel_operator sel))
     (takeWhile (\<lambda>sel. sel_operator sel \<noteq> RDB_OP_NONE) sels))"

partial_function (option) rdb_select :: "plat \<Rightarrow> mem \<Rightarrow> (nat \<Rightarrow> bool) \<Rightarrow> rdb_iter \<Rightarrow> bool
    \<Rightarrow> rdb_select_result list \<Rightarrow> rdb_selector list \<Rightarrow> rdb_select_result list option" where
  "rdb_select p m calloc it valid head sels =
    (if \<not> valid then Some head
     else do {
       comp \<leftarrow> rdb_matches p m it sels;
       if \<not> comp
       then do { (valid, it) \<leftarrow> rdb_iter_next p m it; rdb_select p m calloc it valid head sels }
       else if \<not> (calloc (56 + 4 * rdb_nresults sels) \<and> calloc (unat (it_key_len it))) then Some head
       else do {
         rs \<leftarrow> rdb_results p m calloc it sels;
         case rs of
           None \<Rightarrow> Some head
         | Some rs \<Rightarrow> do { (valid, it') \<leftarrow> rdb_iter_next p m it;
                            rdb_select p m calloc it' valid (head @ [\<lparr> res_it = it, res_result = rs \<rparr>]) sels } } })"


subsection \<open>Garbage collection\<close>

text \<open>The bytes the valid records take.\<close>

partial_function (option) rdb_used_loop :: "plat \<Rightarrow> mem \<Rightarrow> bool \<Rightarrow> rdb_iter \<Rightarrow> int \<Rightarrow> int option" where
  "rdb_used_loop p m valid it used =
    (if \<not> valid then Some used
     else do { (valid, it') \<leftarrow> rdb_iter_next p m it;
               rdb_used_loop p m valid it' (used + int SIZEOF_RDB_HDR + uint (it_key_len it) + uint (it_data_len it)) })"

text \<open>Writing local bytes to an open file; the flag says whether all were written.\<close>

definition rdb_put :: "plat \<Rightarrow> fs \<Rightarrow> fd \<Rightarrow> bytes \<Rightarrow> (bool \<times> fd \<times> fs) option" where
  "rdb_put p s fd bs = do {
     (n, fd, m) \<leftarrow> fs_write p (mwrite (\<lambda>_. 0) (unat (p_local p)) bs) (fs_flash s) fd (p_local p) (word_of_nat (length bs));
     Some (n = word_of_nat (length bs), fd, s\<lparr>fs_flash := m\<rparr>) }"

text \<open>Copying one record in pieces of 16 bytes; \<open>False\<close> when a read or a write comes short.\<close>

partial_function (option) rdb_copy_loop :: "plat \<Rightarrow> fs \<Rightarrow> fd \<Rightarrow> fd \<Rightarrow> nat \<Rightarrow> (bool \<times> fd \<times> fs) option" where
  "rdb_copy_loop p s from fd nbytes =
    (if nbytes = 0 then Some (True, fd, s)
     else let ibytes = (if nbytes < 16 then nbytes else 16) in
       do { (n, from, buf) \<leftarrow> fs_read p (fs_flash s) from (p_local p) (word_of_nat ibytes);
            if n \<noteq> word_of_nat ibytes then Some (False, fd, s)
            else do { (ok, fd, s) \<leftarrow> rdb_put p s fd buf;
                      if \<not> ok then Some (False, fd, s)
                      else rdb_copy_loop p s from fd (nbytes - ibytes) } })"

partial_function (option) rdb_gc_copy :: "plat \<Rightarrow> fs \<Rightarrow> fd \<Rightarrow> bool \<Rightarrow> rdb_iter \<Rightarrow> (bool \<times> fd \<times> fs) option" where
  "rdb_gc_copy p s fd valid it =
    (if \<not> valid then Some (True, fd, s)
     else do { (ok, fd, s) \<leftarrow> rdb_copy_loop p s (it_fd it) fd (SIZEOF_RDB_HDR + unat (it_key_len it) + unat (it_data_len it));
               if \<not> ok then Some (False, fd, s)
               else do { (valid, it) \<leftarrow> rdb_iter_next p (fs_flash s) it;
                         rdb_gc_copy p s fd valid it } })"

definition rdb_gc_for_bytes :: "plat \<Rightarrow> fs \<Rightarrow> rdb_database \<Rightarrow> fd \<Rightarrow> int \<Rightarrow> (bool \<times> fd \<times> fs) option" where
  "rdb_gc_for_bytes p s db fd n = do {
     (_, fd) \<leftarrow> fs_seek p (fs_flash s) fd 0 FS_SEEK_SET;
     (valid, it) \<leftarrow> rdb_iter_start_from_fd p (fs_flash s) fd;
     used \<leftarrow> rdb_used_loop p (fs_flash s) valid it 0;
     if n \<ge> sint (fs_size fd) - used then Some (False, fd, s)
     else do {
       (valid, it) \<leftarrow> rdb_iter_start_from_fd p (fs_flash s) fd;
       (r, s) \<leftarrow> fs_creat_replacing p s (Some (db_filename db)) (ucast (def_db_size db)) (Some (fd_file fd));
       case r of
         None \<Rightarrow> Some (False, fd, s)
       | Some fd \<Rightarrow> do {
           (ok, fd, s) \<leftarrow> rdb_gc_copy p s fd valid it;
           if \<not> ok then Some (False, fd, s)
           else do { s \<leftarrow> fs_mark_written p s fd; Some (True, fd, s) } } } }"

subsection \<open>Creation, insertion, deletion, update\<close>

definition rdb_create :: "plat \<Rightarrow> fs \<Rightarrow> rdb_database \<Rightarrow> (blob_result \<times> fs) option" where
  "rdb_create p s db = do {
     r \<leftarrow> fs_find_file p s (db_filename db);
     if r \<noteq> None then Some (Blob_Success, s)
     else do {
       (r, s) \<leftarrow> fs_creat p s (Some (db_filename db)) (ucast (def_db_size db));
       case r of
         None \<Rightarrow> Some (Blob_DatabaseFull, s)
       | Some fd \<Rightarrow> do { s \<leftarrow> fs_mark_written p s fd; Some (Blob_Success, s) } } }"

text \<open>The search for a duplicate key. \<open>Inl\<close> is an early return, \<open>Inr\<close> the iterator at the end.\<close>

partial_function (option) rdb_dup_loop :: "plat \<Rightarrow> mem \<Rightarrow> bytes \<Rightarrow> bool \<Rightarrow> rdb_iter \<Rightarrow> (blob_result + rdb_iter) option" where
  "rdb_dup_loop p m key valid it =
    (if \<not> valid then Some (Inr it)
     else if unat (it_key_len it) \<noteq> length key
     then do { (valid, it) \<leftarrow> rdb_iter_next p m it; rdb_dup_loop p m key valid it }
     else do { (n, rdkey) \<leftarrow> rdb_iter_read_key p m it;
               if unat n < length key then Some (Inl Blob_GeneralFailure)
               else if rdkey = key then Some (Inl Blob_InvalidData)
               else do { (valid, it) \<leftarrow> rdb_iter_next p m it; rdb_dup_loop p m key valid it } })"

text \<open>An insertion reads the file system and acts on it in three ways. \<open>rdb_io\<close> names them, over a state \<open>'st\<close> that holds a file system:
  the firmware acts on the file system itself (\<open>rdb_direct\<close>), and \<open>rdb_logged\<close> also keeps, for each \<open>fs_write\<close> of the insertion, the
  state before it, the descriptor and the bytes.\<close>

record 'st rdb_io =
  io_fs :: "'st \<Rightarrow> fs"
  io_create :: "'st \<Rightarrow> rdb_database \<Rightarrow> (blob_result \<times> 'st) option"
  io_gc :: "'st \<Rightarrow> rdb_database \<Rightarrow> fd \<Rightarrow> int \<Rightarrow> (bool \<times> fd \<times> 'st) option"
  io_put :: "'st \<Rightarrow> fd \<Rightarrow> bytes \<Rightarrow> (bool \<times> fd \<times> 'st) option"

definition rdb_direct :: "plat \<Rightarrow> fs rdb_io" where
  "rdb_direct p = \<lparr> io_fs = (\<lambda>s. s), io_create = rdb_create p, io_gc = rdb_gc_for_bytes p, io_put = rdb_put p \<rparr>"

definition rdb_logged :: "plat \<Rightarrow> (fs \<times> (fs \<times> fd \<times> bytes) list) rdb_io" where
  "rdb_logged p = \<lparr> io_fs = fst,
     io_create = (\<lambda>(s, l) db. map_option (\<lambda>(rv, s'). (rv, s', l)) (rdb_create p s db)),
     io_gc = (\<lambda>(s, l) db fd n. map_option (\<lambda>(ok, fd', s'). (ok, fd', s', l)) (rdb_gc_for_bytes p s db fd n)),
     io_put = (\<lambda>(s, l) fd bs. map_option (\<lambda>(ok, fd', s'). (ok, fd', s', l @ [(s, fd, bs)])) (rdb_put p s fd bs)) \<rparr>"

text \<open>The five writes of a record at \<open>fd\<close>; the second header write leaves the descriptor where the key goes.\<close>

definition rdb_put_at :: "'st rdb_io \<Rightarrow> 'st \<Rightarrow> fd \<Rightarrow> u8 \<Rightarrow> bytes \<Rightarrow> bytes \<Rightarrow> (bool \<times> fd \<times> 'st) option" where
  "rdb_put_at io s fd fl key data =
     io_put io s fd (rdb_hdr_bytes \<lparr> h_flags = fl, h_key_len = word_of_nat (length key), h_data_len = word_of_nat (length data) \<rparr>)"

definition rdb_write_record :: "'st rdb_io \<Rightarrow> 'st \<Rightarrow> fd \<Rightarrow> bytes \<Rightarrow> bytes \<Rightarrow> (blob_result \<times> 'st) option" where
  "rdb_write_record io s fd key data = do {
     (ok, _, s) \<leftarrow> rdb_put_at io s fd 0xFF key data;
     if \<not> ok then Some (Blob_GeneralFailure, s)
     else do {
       (ok, hfd, s) \<leftarrow> rdb_put_at io s fd (0xFF AND NOT RDB_FLAG_HEADER_WRITTEN) key data;
       if \<not> ok then Some (Blob_GeneralFailure, s)
       else do {
         (ok, hfd, s) \<leftarrow> io_put io s hfd key;
         if \<not> ok then Some (Blob_GeneralFailure, s)
         else do {
           (ok, hfd, s) \<leftarrow> io_put io s hfd data;
           if \<not> ok then Some (Blob_GeneralFailure, s)
           else do {
             (ok, _, s) \<leftarrow> rdb_put_at io s fd (0xFF AND NOT RDB_FLAG_HEADER_WRITTEN AND NOT RDB_FLAG_WRITTEN) key data;
             Some (if ok then Blob_Success else Blob_GeneralFailure, s) } } } } }"

definition rdb_insert_on :: "'st rdb_io \<Rightarrow> plat \<Rightarrow> 'st \<Rightarrow> rdb_database \<Rightarrow> rdb_iter \<Rightarrow> bytes \<Rightarrow> bytes \<Rightarrow> (blob_result \<times> 'st) option" where
  "rdb_insert_on io p s db it0 key data = do {
     c_assert (db_locked db);
     (rv, s) \<leftarrow> io_create io s db;
     if rv \<noteq> Blob_Success then Some (rv, s)
     else do {
       (valid, it) \<leftarrow> rdb_iter_start p (io_fs io s) db it0;
       r \<leftarrow> rdb_dup_loop p (fs_flash (io_fs io s)) key valid it;
       case r of
         Inl rv \<Rightarrow> Some (rv, s)
       | Inr it \<Rightarrow> do {
           (pos, fd) \<leftarrow> fs_seek p (fs_flash (io_fs io s)) (it_fd it) 0 FS_SEEK_CUR;
           if pos + word_of_nat SIZEOF_RDB_HDR + word_of_nat (length key) + word_of_nat (length data) > fsize (fd_file fd)
           then do {
             (ok, fd, s) \<leftarrow> io_gc io s db fd (int SIZEOF_RDB_HDR + int (length key) + int (length data));
             if \<not> ok then Some (Blob_DatabaseFull, s) else rdb_write_record io s fd key data }
           else rdb_write_record io s fd key data } } }"

definition rdb_insert :: "plat \<Rightarrow> fs \<Rightarrow> rdb_database \<Rightarrow> rdb_iter \<Rightarrow> bytes \<Rightarrow> bytes \<Rightarrow> (blob_result \<times> fs) option" where
  "rdb_insert p s db it0 key data = rdb_insert_on (rdb_direct p) p s db it0 key data"

definition rdb_delete :: "plat \<Rightarrow> fs \<Rightarrow> rdb_iter \<Rightarrow> (blob_result \<times> fs) option" where
  "rdb_delete p s it = do {
     (n, _, bs) \<leftarrow> fs_read p (fs_flash s) (it_fd it) (p_local p) (word_of_nat SIZEOF_RDB_HDR);
     if n < word_of_nat SIZEOF_RDB_HDR then Some (Blob_GeneralFailure, s)
     else let hdr = rdb_hdr_of bs in
       do { (ok, _, s) \<leftarrow> rdb_put p s (it_fd it) (rdb_hdr_bytes (hdr\<lparr>h_flags := h_flags hdr AND NOT RDB_FLAG_ERASED\<rparr>));
            Some (if ok then Blob_Success else Blob_GeneralFailure, s) } }"

text \<open>The loop of \<open>rdb_update\<close>: no return code of \<open>rdb_delete\<close> and \<open>rdb_insert\<close> is zero, so the failure
  branch (\<open>! rdb_delete || ! rdb_insert\<close>) is never taken.\<close>

primrec rdb_update_loop :: "plat \<Rightarrow> fs \<Rightarrow> rdb_database \<Rightarrow> rdb_iter \<Rightarrow> bytes \<Rightarrow> bytes \<Rightarrow> rdb_select_result list \<Rightarrow> fs option" where
  "rdb_update_loop p s db it0 key data [] = Some s" |
  "rdb_update_loop p s db it0 key data (res # ress) = do {
     (_, s) \<leftarrow> rdb_delete p s (res_it res);
     (_, s) \<leftarrow> rdb_insert p s db it0 (take (unat (it_key_len (res_it res))) key) data;
     rdb_update_loop p s db it0 key data ress }"

definition rdb_update :: "plat \<Rightarrow> fs \<Rightarrow> (nat \<Rightarrow> bool) \<Rightarrow> rdb_database \<Rightarrow> rdb_iter \<Rightarrow> bytes \<Rightarrow> bytes \<Rightarrow> (blob_result \<times> fs) option" where
  "rdb_update p s calloc db it0 key data = do {
     (ok, it) \<leftarrow> rdb_iter_start p s db it0;
     if \<not> ok then Some (Blob_InvalidDatabaseID, s)
     else do {
       ress \<leftarrow> rdb_select p (fs_flash s) calloc it True []
         [\<lparr> sel_offsetof = RDB_SELECTOR_OFFSET_KEY, sel_size = word_of_nat (length key), sel_operator = RDB_OP_EQ, sel_val = key \<rparr>,
          \<lparr> sel_offsetof = 0, sel_size = 0, sel_operator = RDB_OP_NONE, sel_val = [] \<rparr>];
       if ress = [] then Some (Blob_KeyDoesNotExist, s)
       else do { s \<leftarrow> rdb_update_loop p s db it0 key data ress; Some (Blob_Success, s) } } }"

section \<open>Specification\<close>

subsection \<open>A file as a list of bytes\<close>

definition fcontent :: "plat \<Rightarrow> mem \<Rightarrow> fs_file \<Rightarrow> bytes" where
  "fcontent p m f = map m (fs_addrs p m f 0 (unat (fsize f)))"

definition content_ok :: "plat \<Rightarrow> mem \<Rightarrow> fs_file \<Rightarrow> bool" where
  "content_ok p m f \<longleftrightarrow> file_ok p m f \<and> unat (fsize f) < 2 ^ 31 \<and> distinct (fs_addrs p m f 0 (unat (fsize f)))"

definition fd_at :: "plat \<Rightarrow> mem \<Rightarrow> fs_file \<Rightarrow> nat \<Rightarrow> fd \<Rightarrow> bool" where
  "fd_at p m f i fd \<longleftrightarrow> content_ok p m f \<and> fd_ok p m fd \<and> fd_file fd = f \<and> unat (fd_offset fd) = i"

text \<open>A change of memory within the data of a file that leaves its chain of pages as it is.\<close>

definition file_frame :: "plat \<Rightarrow> fs_file \<Rightarrow> mem \<Rightarrow> mem \<Rightarrow> bool" where
  "file_frame p f m m' \<longleftrightarrow> fs_addrs p m' = fs_addrs p m \<and>
     (\<forall>a. a \<notin> set (fs_addrs p m f 0 (unat (fsize f))) \<longrightarrow> m' a = m a)"

lemma file_frame_refl: "file_frame p f m m"
  by (simp add: file_frame_def)

lemma file_frame_trans: "file_frame p f m m' \<Longrightarrow> file_frame p f m' m'' \<Longrightarrow> file_frame p f m m''"
  by (simp add: file_frame_def)

text \<open>Flash programmed at a place of a content.\<close>

definition overlay :: "bytes \<Rightarrow> nat \<Rightarrow> bytes \<Rightarrow> bytes" where
  "overlay c i bs = take i c @ map2 (AND) (take (length bs) (drop i c)) bs @ drop (i + length bs) c"

lemma fcontent_length [simp]: "length (fcontent p m f) = unat (fsize f)"
  by (simp add: fcontent_def fs_addrs_def)

lemma overlay_length [simp]: "i + length bs \<le> length c \<Longrightarrow> length (overlay c i bs) = length c"
  by (simp add: overlay_def)

lemma fs_addrs_length [simp]: "length (fs_addrs p m f i n) = n"
  by (simp add: fs_addrs_def)

lemma fcontent_slice:
  assumes "i + k \<le> unat (fsize f)"
  shows "map m (fs_addrs p m f i k) = take k (drop i (fcontent p m f))"
proof -
  obtain r where r: "unat (fsize f) = i + k + r" using assms le_Suc_ex by blast
  show ?thesis unfolding fcontent_def r fs_addrs_split by simp
qed

lemma fd_at_le: "fd_at p m f i fd \<Longrightarrow> i \<le> unat (fsize f)"
  by (auto simp: fd_at_def fd_ok_def)

lemma fd_at_open: "content_ok p m f \<Longrightarrow> fd_at p m f 0 (fs_open f)"
  by (simp add: fd_at_def content_ok_def fs_open_ok)

lemma fd_at_goto:
  assumes "fd_at p m f i fd" "k \<le> unat (fsize f)"
  shows "fd_at p m f k (fs_goto p m fd k)"
proof -
  have "unat (word_of_nat k :: u32) = k" using assms(2) unat_u32_less [of "fsize f"] by (simp add: unat_of_nat)
  then show ?thesis using assms fs_goto_ok by (simp add: fd_at_def)
qed

context fs_platform begin

lemma at_read:
  assumes at: "fd_at p m f i fd" and k: "k = min (unat n) (unat (fsize f) - i)"
  shows "\<exists>fd'. fs_read p m fd dst n = Some (word_of_nat k, fd', take k (drop i (fcontent p m f))) \<and> fd_at p m f (i + k) fd'"
proof -
  have ok: "fd_ok p m fd" "fd_file fd = f" "unat (fd_offset fd) = i" using at by (simp_all add: fd_at_def)
  have "i + k \<le> unat (fsize f)" using fd_at_le [OF at] k by linarith
  then show ?thesis
    using read_ok [OF ok(1), of k n dst] k ok fd_at_goto [OF at, of "i + k"] by (auto simp: fcontent_slice)
qed

lemma at_seek_cur:
  assumes at: "fd_at p m f i fd" and d: "unat d < 2 ^ 31"
  shows "\<exists>fd'. fs_seek p m fd d FS_SEEK_CUR = Some (word_of_nat (min (i + unat d) (unat (fsize f))), fd') \<and>
     fd_at p m f (min (i + unat d) (unat (fsize f))) fd'"
proof -
  have ok: "fd_ok p m fd" "fd_file fd = f" "unat (fd_offset fd) = i" using at by (simp_all add: fd_at_def)
  have lt: "unat (fsize f) < 2 ^ 31" using at by (simp add: fd_at_def content_ok_def)
  have s: "unat (fd_offset fd + d) = i + unat d"
    using ok d lt fd_at_le [OF at] by (subst unat_add_small) simp_all
  define w where "w = fs_newoffset fd d FS_SEEK_CUR"
  have u: "unat w = min (i + unat d) (unat (fsize f))"
    unfolding w_def fs_newoffset_def using ok s by (simp add: word_less_nat_alt)
  then have "w = word_of_nat (min (i + unat d) (unat (fsize f)))" unfolding u [symmetric] by simp
  then show ?thesis
    using seek_ok [OF ok(1), of d FS_SEEK_CUR] fd_at_goto [OF at, of "unat w"] u by (simp add: w_def)
qed

lemma at_write:
  assumes at: "fd_at p m0 f i fd" and n: "unat n = k" and fit: "i + k \<le> unat (fsize f)" and src: "unat src + k < 2 ^ 32"
  shows "\<exists>fd' m. fs_write p ram m0 fd src n = Some (n, fd', m) \<and> fd_at p m f (i + k) fd' \<and> replaces fd' = replaces fd \<and>
     fcontent p m f = overlay (fcontent p m0 f) i (mread ram (unat src) k) \<and>
     (\<forall>j fd. fd_at p m0 f j fd \<longrightarrow> fd_at p m f j fd) \<and> file_frame p f m0 m"
proof -
  have ok: "fd_ok p m0 fd" "fd_file fd = f" "unat (fd_offset fd) = i" "content_ok p m0 f" using at by (simp_all add: fd_at_def)
  define bs where "bs = mread ram (unat src) k"
  have lb: "length bs = k" by (simp add: bs_def)
  have n': "word_of_nat k = n" unfolding n [symmetric] by simp
  have k: "k = min (unat n) (unat (fsize (fd_file fd)) - unat (fd_offset fd))"
    using n fit ok by simp
  define m where "m = fs_program m0 (fs_addrs p m0 f i k) bs"
  have m': "m = fs_program m0 (fs_addrs p m0 (fd_file fd) (unat (fd_offset fd)) k) (mread ram (unat src) k)"
    by (simp add: m_def bs_def ok)
  note w = write_ok [OF ok(1) k src m']
  have w1: "fs_write p ram m0 fd src n = Some (n, fs_goto p m0 fd (i + k), m)"
    and nx: "\<And>pg. fs_next p m pg = fs_next p m0 pg" using w ok by (simp_all add: n')
  have addrs: "fs_addrs p m = fs_addrs p m0"
    by (intro ext) (simp add: fs_addrs_def fs_walk_cong [OF nx] fs_run_cong [OF nx])
  have keep: "content_ok p m f" "\<And>fd. fd_ok p m0 fd \<Longrightarrow> fd_ok p m fd"
    using ok(4) by (simp_all add: content_ok_def addrs fd_ok_def file_ok_def fs_walk_cong [OF nx] fs_pages_ok_cong [OF nx])
  have goto: "fd_at p m f (i + k) (fs_goto p m0 fd (i + k))"
    using fd_at_goto [OF at fit] keep by (simp add: fd_at_def)
  obtain r where r: "unat (fsize f) = i + k + r" using fit le_Suc_ex by blast
  define A B C where "A = fs_addrs p m0 f 0 i" and "B = fs_addrs p m0 f i k" and "C = fs_addrs p m0 f (i + k) r"
  have abc: "fs_addrs p m0 f 0 (unat (fsize f)) = A @ B @ C"
    unfolding r A_def B_def C_def by (simp add: fs_addrs_split)
  then have d: "distinct (A @ B @ C)" using ok(4) by (simp add: content_ok_def)
  have "map m A = map m0 A" "map m C = map m0 C"
    using d by (auto simp: m_def B_def [symmetric] intro!: map_cong fs_program_other)
  moreover have "map m B = map2 (AND) (map m0 B) bs"
    unfolding m_def B_def [symmetric] using d by (intro fs_program_read) (simp_all add: B_def lb)
  moreover have "fcontent p m0 f = map m0 A @ map m0 B @ map m0 C" by (simp add: fcontent_def abc)
  moreover have "length A = i" "length B = k" by (simp_all add: A_def B_def)
  ultimately have "fcontent p m f = overlay (fcontent p m0 f) i bs"
    by (simp add: fcontent_def addrs abc overlay_def lb)
  moreover have "file_frame p f m0 m"
    unfolding file_frame_def addrs abc
    by (auto simp: m_def B_def [symmetric] intro!: fs_program_other)
  ultimately show ?thesis using w1 goto keep by (auto simp: fd_at_def bs_def)
qed

lemma at_put:
  assumes at: "fd_at p (fs_flash s) f i fd" and fit: "i + length bs \<le> unat (fsize f)" and len: "length bs < 0x10000"
  shows "\<exists>fd' m. rdb_put p s fd bs = Some (True, fd', s\<lparr>fs_flash := m\<rparr>) \<and> fd_at p m f (i + length bs) fd' \<and>
     fcontent p m f = overlay (fcontent p (fs_flash s) f) i bs \<and>
     (\<forall>j fd. fd_at p (fs_flash s) f j fd \<longrightarrow> fd_at p m f j fd) \<and> file_frame p f (fs_flash s) m"
proof -
  have n: "unat (word_of_nat (length bs) :: u32) = length bs" using len by (simp add: unat_of_nat)
  have src: "unat (p_local p) + length bs < 2 ^ 32" using local_fit len by simp
  show ?thesis
    using at_write [OF at n fit src, of "mwrite (\<lambda>_. 0) (unat (p_local p)) bs"] by (auto simp: rdb_put_def mread_mwrite_same)
qed

end

subsection \<open>The records of a content\<close>

definition hdr_in :: "bytes \<Rightarrow> nat \<Rightarrow> rdb_hdr" where
  "hdr_in c i = rdb_hdr_of (take 4 (drop i c))"

definition rec_next :: "bytes \<Rightarrow> nat \<Rightarrow> nat" where
  "rec_next c i = min (i + 4 + unat (h_key_len (hdr_in c i)) + unat (h_data_len (hdr_in c i))) (length c)"

function rdb_scan :: "bytes \<Rightarrow> nat \<Rightarrow> bool \<Rightarrow> nat \<times> rdb_hdr option" where
  "rdb_scan c i next =
    (if i + 4 > length c \<or> hdr_empty (hdr_in c i) then (i, None)
     else if hdr_partial (hdr_in c i) then rdb_scan c (i + 4) next
     else if hdr_dead (hdr_in c i) \<or> next then rdb_scan c (rec_next c i) False
     else (i, Some (hdr_in c i)))"
  by pat_completeness auto
termination
  by (relation "measure (\<lambda>(c, i, _). length c - i)") (auto simp: rec_next_def)

function rdb_walk :: "bytes \<Rightarrow> nat \<Rightarrow> (nat \<times> bytes \<times> bytes) list \<times> nat" where
  "rdb_walk c i =
    (if i + 4 > length c \<or> hdr_empty (hdr_in c i) then ([], i)
     else if hdr_partial (hdr_in c i) then rdb_walk c (i + 4)
     else if hdr_dead (hdr_in c i) then rdb_walk c (rec_next c i)
     else (let (rs, e) = rdb_walk c (rec_next c i)
           in ((i, take (unat (h_key_len (hdr_in c i))) (drop (i + 4) c),
                   take (unat (h_data_len (hdr_in c i))) (drop (i + 4 + unat (h_key_len (hdr_in c i))) c)) # rs, e)))"
  by pat_completeness auto
termination
  by (relation "measure (\<lambda>(c, i). length c - i)") (auto simp: rec_next_def)

declare rdb_scan.simps [simp del] rdb_walk.simps [simp del]

lemma body_bound: "unat (h_key_len h) + unat (h_data_len h) < 65792"
  by (rule less_le_trans [OF add_strict_mono [OF unat_u8_less unat_u16_less]]) simp

lemma hdr_body_unat: "unat (hdr_body h) = unat (h_key_len h) + unat (h_data_len h)"
proof -
  have "unat (ucast (h_key_len h) :: u32) = unat (h_key_len h)" by (rule unat_ucast_u8)
  moreover have "unat (ucast (h_data_len h) :: u32) = unat (h_data_len h)" by (rule unat_u16_ucast)
  moreover have "unat (h_key_len h) + unat (h_data_len h) < 2 ^ 32"
    by (rule less_trans [OF body_bound]) simp
  ultimately show ?thesis unfolding hdr_body_def by (subst unat_add_small) simp_all
qed

lemma rec_next_body: "rec_next c i = min (i + 4 + unat (hdr_body (hdr_in c i))) (length c)"
  by (simp add: rec_next_def hdr_body_unat)

lemma rdb_scan_le: "i \<le> length c \<Longrightarrow> fst (rdb_scan c i nx) \<le> length c"
proof (induction c i nx rule: rdb_scan.induct)
  case (1 c i nx)
  then show ?case by (subst rdb_scan.simps) (auto simp: rec_next_def)
qed

lemma walk_scan:
  "rdb_walk c i = (case rdb_scan c i False of
     (j, None) \<Rightarrow> ([], j)
   | (j, Some h) \<Rightarrow> (let (rs, e) = rdb_walk c (rec_next c j)
       in ((j, take (unat (h_key_len h)) (drop (j + 4) c), take (unat (h_data_len h)) (drop (j + 4 + unat (h_key_len h)) c)) # rs, e)))"
proof (induction c i rule: rdb_walk.induct)
  case (1 c i)
  show ?case
    by (subst rdb_walk.simps, subst rdb_scan.simps) (use 1 in auto)
qed

lemma scan_some:
  "rdb_scan c i nx = (j, Some h) \<Longrightarrow> h = hdr_in c j \<and> j + 4 \<le> length c \<and> \<not> hdr_empty h \<and> \<not> hdr_partial h \<and> \<not> hdr_dead h"
proof (induction c i nx rule: rdb_scan.induct)
  case (1 c i nx)
  then show ?case by (subst (asm) rdb_scan.simps) (auto split: if_splits)
qed

lemma scan_next:
  assumes "rdb_scan c i nx = (j, Some h)"
  shows "rdb_scan c j True = rdb_scan c (rec_next c j) False"
  using scan_some [OF assms] by (subst rdb_scan.simps) auto

context fs_platform begin

lemma seek_valid:
  assumes "fd_at p m f i fd"
  shows "\<exists>fd'. rdb_seek_valid p m fd nx = Some (fd', snd (rdb_scan (fcontent p m f) i nx)) \<and>
     fd_at p m f (fst (rdb_scan (fcontent p m f) i nx)) fd'"
  using assms
proof (induction "fcontent p m f" i nx arbitrary: fd rule: rdb_scan.induct)
  case (1 i nx)
  let ?c = "fcontent p m f"
  have n4: "unat (word_of_nat SIZEOF_RDB_HDR :: u32) = 4" by (simp add: SIZEOF_RDB_HDR_def)
  obtain fd1 where rd: "fs_read p m fd (p_local p) (word_of_nat SIZEOF_RDB_HDR)
       = Some (word_of_nat (min 4 (unat (fsize f) - i)), fd1, take (min 4 (unat (fsize f) - i)) (drop i ?c))"
     "fd_at p m f (i + min 4 (unat (fsize f) - i)) fd1"
    using at_read [OF 1(3) refl, of "p_local p" "word_of_nat SIZEOF_RDB_HDR"] n4 by auto
  show ?case
  proof (cases "i + 4 > length ?c")
    case True
    then have "word_of_nat (min 4 (unat (fsize f) - i)) < (word_of_nat SIZEOF_RDB_HDR :: u32)"
      by (simp add: word_less_nat_alt SIZEOF_RDB_HDR_def unat_of_nat)
    moreover have "rdb_scan ?c i nx = (i, None)" using True by (subst rdb_scan.simps) simp
    ultimately show ?thesis using 1(3) by (subst rdb_seek_valid.simps) (simp add: rd)
  next
    case False
    then have four: "min 4 (unat (fsize f) - i) = 4" by simp
    have h: "rdb_hdr_of (take 4 (drop i ?c)) = hdr_in ?c i" by (simp add: hdr_in_def)
    have nl: "\<not> (4 :: u32) < word_of_nat SIZEOF_RDB_HDR" by (simp add: SIZEOF_RDB_HDR_def)
    note rd4 = rd [unfolded four]
    obtain fd2 where sk: "fs_seek p m fd1 (hdr_body (hdr_in ?c i)) FS_SEEK_CUR = Some (word_of_nat (rec_next ?c i), fd2)"
      "fd_at p m f (rec_next ?c i) fd2"
    proof -
      have "unat (hdr_body (hdr_in ?c i)) < 2 ^ 31"
        unfolding hdr_body_unat by (rule less_trans [OF body_bound]) simp
      from at_seek_cur [OF rd4(2) this] show ?thesis using that by (auto simp: rec_next_body)
    qed
    show ?thesis
      using False 1(1) [OF _ _ rd4(2)] 1(2) [OF _ _ _ sk(2)] 1(3)
      by (subst rdb_seek_valid.simps, unfold rdb_scan.simps [of ?c i nx]) (auto simp: rd4 h nl sk)
  qed
qed

end

subsection \<open>Changing the end of a log\<close>

lemma slice_cong:
  assumes "take e c' = take e c" "a + n \<le> e"
  shows "take n (drop a c') = take n (drop a c)"
proof -
  have "take n (drop a c') = drop a (take (a + n) c')" by (simp add: take_drop add.commute)
  also have "take (a + n) c' = take (a + n) (take e c')" using assms(2) by (simp add: min_absorb1)
  also have "\<dots> = take (a + n) c" using assms by (simp add: min_absorb1)
  finally show ?thesis by (simp add: take_drop add.commute)
qed

lemma walk_ge: "i \<le> length c \<Longrightarrow> i \<le> snd (rdb_walk c i) \<and> snd (rdb_walk c i) \<le> length c"
proof (induction c i rule: rdb_walk.induct)
  case (1 c i)
  then show ?case
    by (subst (1 2) rdb_walk.simps) (fastforce simp: rec_next_def split: prod.split)
qed

lemma walk_end: "rdb_walk c (length c) = ([], length c)"
  by (subst rdb_walk.simps) simp

lemma walk_change:
  assumes "rdb_walk c i = (rs, e)" "i \<le> length c" "length c' = length c" "take e c' = take e c"
  shows "rdb_walk c' i = (rs @ fst (rdb_walk c' e), snd (rdb_walk c' e))"
  using assms
proof (induction c i arbitrary: rs e rule: rdb_walk.induct)
  case (1 c i)
  show ?case
  proof (cases "i + 4 > length c \<or> hdr_empty (hdr_in c i)")
    case True
    then have "rs = []" "e = i" using 1(4) by (auto simp: rdb_walk.simps [of c i])
    then show ?thesis by simp
  next
    case False
    have step: "rdb_walk c i = (if hdr_partial (hdr_in c i) then rdb_walk c (i + 4)
     else if hdr_dead (hdr_in c i) then rdb_walk c (rec_next c i)
     else (let (rs, e) = rdb_walk c (rec_next c i)
           in ((i, take (unat (h_key_len (hdr_in c i))) (drop (i + 4) c),
                   take (unat (h_data_len (hdr_in c i))) (drop (i + 4 + unat (h_key_len (hdr_in c i))) c)) # rs, e)))"
      using False by (subst rdb_walk.simps) simp
    have e4: "i + 4 \<le> e"
    proof -
      define j where "j = (if hdr_partial (hdr_in c i) then i + 4 else rec_next c i)"
      have "i + 4 \<le> j" "j \<le> length c" using False by (auto simp: j_def rec_next_def)
      moreover have "snd (rdb_walk c i) = snd (rdb_walk c j)" unfolding step j_def by (simp split: prod.split)
      ultimately show ?thesis using walk_ge [of j c] 1(4) by simp
    qed
    then have hd: "hdr_in c' i = hdr_in c i" unfolding hdr_in_def using slice_cong [OF 1(7), of i 4] by simp
    have rn: "rec_next c' i = rec_next c i" by (simp add: rec_next_def hd 1(6))
    have step': "rdb_walk c' i = (if hdr_partial (hdr_in c i) then rdb_walk c' (i + 4)
     else if hdr_dead (hdr_in c i) then rdb_walk c' (rec_next c i)
     else (let (rs, e) = rdb_walk c' (rec_next c i)
           in ((i, take (unat (h_key_len (hdr_in c i))) (drop (i + 4) c'),
                   take (unat (h_data_len (hdr_in c i))) (drop (i + 4 + unat (h_key_len (hdr_in c i))) c')) # rs, e)))"
      using False hd rn 1(6) by (subst rdb_walk.simps) simp
    show ?thesis
    proof (cases "hdr_partial (hdr_in c i) \<or> hdr_dead (hdr_in c i)")
      case True
      then show ?thesis using 1 step step' False by (auto simp: rec_next_def)
    next
      case valid: False
      obtain rs1 where r: "rdb_walk c (rec_next c i) = (rs1, e)"
        "rs = (i, take (unat (h_key_len (hdr_in c i))) (drop (i + 4) c),
                   take (unat (h_data_len (hdr_in c i))) (drop (i + 4 + unat (h_key_len (hdr_in c i))) c)) # rs1"
        using step valid 1(4) by (auto split: prod.splits)
      have "rec_next c i \<le> length c" by (simp add: rec_next_def)
      then have IH: "rdb_walk c' (rec_next c i) = (rs1 @ fst (rdb_walk c' e), snd (rdb_walk c' e))"
        using 1(3) [OF False _ _ r(1)] valid 1(6,7) by simp
      have "take (unat (h_key_len (hdr_in c i))) (drop (i + 4) c') = take (unat (h_key_len (hdr_in c i))) (drop (i + 4) c)
        \<and> take (unat (h_data_len (hdr_in c i))) (drop (i + 4 + unat (h_key_len (hdr_in c i))) c')
        = take (unat (h_data_len (hdr_in c i))) (drop (i + 4 + unat (h_key_len (hdr_in c i))) c)"
      proof (cases "i + 4 + unat (h_key_len (hdr_in c i)) + unat (h_data_len (hdr_in c i)) \<le> length c")
        case True
        then have "i + 4 + unat (h_key_len (hdr_in c i)) + unat (h_data_len (hdr_in c i)) \<le> e"
          using walk_ge [of "rec_next c i" c] r(1) by (simp add: rec_next_def)
        then show ?thesis by (intro conjI slice_cong [OF 1(7)]) simp_all
      next
        case False
        then have "e = length c" using r(1) walk_end [of c] by (simp add: rec_next_def)
        then show ?thesis using 1(6,7) by simp
      qed
      then show ?thesis using step' valid IH r(2) by simp
    qed
  qed
qed

lemma hdr_of_bytes: "rdb_hdr_of (rdb_hdr_bytes h @ xs) = h"
  by (simp add: rdb_hdr_of_def rdb_hdr_bytes_def le16_def get16_def get16_le16)

lemma hdr_bytes_length [simp]: "length (rdb_hdr_bytes h) = 4"
  by (simp add: rdb_hdr_bytes_def)

lemma hdr_in_append: "hdr_in (pre @ rdb_hdr_bytes h @ post) (length pre) = h"
  using hdr_of_bytes [of h "[]"] by (simp add: hdr_in_def)

lemma walk_blank:
  assumes "drop i c = replicate n 0xFF"
  shows "rdb_walk c i = ([], i)"
proof (cases "i + 4 > length c")
  case False
  have "length (drop i c) = n" using assms by simp
  then have "4 \<le> n" using False by simp
  then have "take 4 (drop i c) = replicate 4 0xFF" using False assms by (simp add: min_absorb1)
  then have "hdr_empty (hdr_in c i)"
    by (simp add: hdr_in_def hdr_empty_def rdb_hdr_of_def get16_def)
  then show ?thesis by (subst rdb_walk.simps) simp
qed (subst rdb_walk.simps, simp)

lemma overlay_mid:
  "i = length pre \<Longrightarrow> length x = length bs \<Longrightarrow> overlay (pre @ x @ post) i bs = pre @ map2 (AND) x bs @ post"
  by (simp add: overlay_def)

lemma overlay_blank:
  assumes "i = length pre" "length bs \<le> n"
  shows "overlay (pre @ replicate n 0xFF) i bs = pre @ bs @ replicate (n - length bs) 0xFF"
proof -
  have "replicate n (0xFF :: u8) = replicate (length bs) 0xFF @ replicate (n - length bs) 0xFF"
    using assms(2) by (simp add: replicate_add [symmetric])
  moreover have "map2 (AND) (replicate (length bs) 0xFF) bs = bs" by (induction bs) simp_all
  ultimately show ?thesis using assms(1) by (simp add: overlay_mid)
qed

lemma hdr_bytes_and:
  "map2 (AND) (rdb_hdr_bytes h) (rdb_hdr_bytes (h\<lparr>h_flags := fl\<rparr>)) = rdb_hdr_bytes (h\<lparr>h_flags := h_flags h AND fl\<rparr>)"
  by (simp add: rdb_hdr_bytes_def le16_def)

text \<open>A header followed by room for the record and blank flash.\<close>

lemma walk_one:
  assumes c: "c = pre @ rdb_hdr_bytes h @ body @ replicate n 0xFF" and i: "i = length pre"
    and len: "length body = unat (h_key_len h) + unat (h_data_len h)" and ne: "\<not> hdr_empty h" and np: "\<not> hdr_partial h"
  shows "rdb_walk c i = (if hdr_dead h then ([], i + 4 + length body)
    else ([(i, take (unat (h_key_len h)) body, drop (unat (h_key_len h)) body)], i + 4 + length body))"
proof -
  have h: "hdr_in c i = h" unfolding c i by (rule hdr_in_append)
  have rn: "rec_next c i = i + 4 + length body" by (simp add: rec_next_def h len) (simp add: c i len)
  have "drop (i + 4 + length body) c = replicate n 0xFF" by (simp add: c i)
  from walk_blank [OF this] have w: "rdb_walk c (rec_next c i) = ([], i + 4 + length body)" by (simp add: rn)
  have "i + 4 \<le> length c" by (simp add: c i)
  moreover have "take (unat (h_key_len h)) (drop (i + 4) c) = take (unat (h_key_len h)) body"
    using len by (simp add: c i)
  moreover have "take (unat (h_data_len h)) (drop (i + 4 + unat (h_key_len h)) c) = drop (unat (h_key_len h)) body"
    using len by (simp add: c i)
  ultimately show ?thesis by (subst rdb_walk.simps) (simp add: h ne np w)
qed

subsection \<open>Insertion\<close>

text \<open>Every record's key lies wholly in the file, and none is \<open>key\<close>.\<close>

definition log_without :: "bytes \<Rightarrow> (nat \<times> bytes \<times> bytes) list \<Rightarrow> bytes \<Rightarrow> bool" where
  "log_without c rs key \<longleftrightarrow> (\<forall>(i, k, d) \<in> set rs. k \<noteq> key \<and> length k = unat (h_key_len (hdr_in c i)))"

context fs_platform begin

lemma iter_next:
  assumes "fd_at p m f j (it_fd it)" "rdb_scan (fcontent p m f) i nx = (j, Some h)"
  shows "\<exists>fd'. rdb_iter_next p m it = Some (rdb_iter_at fd' (snd (rdb_scan (fcontent p m f) (rec_next (fcontent p m f) j) False))) \<and>
     fd_at p m f (fst (rdb_scan (fcontent p m f) (rec_next (fcontent p m f) j) False)) fd'"
  using seek_valid [OF assms(1), of True] scan_next [OF assms(2)] by (auto simp: rdb_iter_next_def)

lemma dup_loop:
  assumes "rdb_walk (fcontent p m f) i = (rs, e)" "log_without (fcontent p m f) rs key"
    and "fd_at p m f (fst (rdb_scan (fcontent p m f) i False)) fd"
    and "rdb_iter_at fd (snd (rdb_scan (fcontent p m f) i False)) = (valid, it)"
  shows "\<exists>it'. rdb_dup_loop p m key valid it = Some (Inr it') \<and> fd_at p m f e (it_fd it')"
  using assms
proof (induction rs arbitrary: i fd valid it)
  case Nil
  let ?c = "fcontent p m f"
  have "snd (rdb_scan ?c i False) = None" "fst (rdb_scan ?c i False) = e"
    using Nil(1) walk_scan [of ?c i] by (auto simp: Let_def split: prod.splits option.splits)
  then show ?case using Nil(3,4) by (subst rdb_dup_loop.simps) (auto simp: rdb_iter_at_def)
next
  case (Cons r rs)
  let ?c = "fcontent p m f"
  obtain j h where sc: "rdb_scan ?c i False = (j, Some h)" and w: "rdb_walk ?c (rec_next ?c j) = (rs, e)"
    and r: "r = (j, take (unat (h_key_len h)) (drop (j + 4) ?c), take (unat (h_data_len h)) (drop (j + 4 + unat (h_key_len h)) ?c))"
    using Cons.prems(1) walk_scan [of ?c i] by (auto simp: Let_def split: prod.splits option.splits)
  note so = scan_some [OF sc]
  define k where "k = take (unat (h_key_len h)) (drop (j + 4) ?c)"
  have k: "k \<noteq> key" "length k = unat (h_key_len h)"
    using Cons.prems(2) so by (auto simp: r log_without_def k_def)
  have it: "valid" "it_fd it = fd" "it_key_len it = h_key_len h" and at: "fd_at p m f j fd"
    using Cons.prems(3,4) by (auto simp: sc rdb_iter_at_def)
  have rk: "\<exists>n. rdb_iter_read_key p m it = Some (n, k) \<and> unat n = length k"
  proof -
    have "unat (word_of_nat SIZEOF_RDB_HDR :: u32) < 2 ^ 31" by (simp add: SIZEOF_RDB_HDR_def)
    from at_seek_cur [OF at this] obtain fd1 x where fd1: "fs_seek p m fd (word_of_nat SIZEOF_RDB_HDR) FS_SEEK_CUR = Some (x, fd1)"
      "fd_at p m f (j + 4) fd1" using so by (auto simp: SIZEOF_RDB_HDR_def min_absorb1)
    have u: "unat (ucast (h_key_len h) :: u32) = unat (h_key_len h)" by (rule unat_ucast_u8)
    have mn: "unat (h_key_len h) = min (unat (ucast (h_key_len h) :: u32)) (unat (fsize f) - (j + 4))"
      using k(2) unfolding u k_def by simp
    have "unat (word_of_nat (unat (h_key_len h)) :: u32) = unat (h_key_len h)"
      by (simp add: u)
    then show ?thesis using at_read [OF fd1(2) mn, of "p_local p"] fd1(1) k(2) it by (auto simp: rdb_iter_read_key_def k_def)
  qed
  obtain fd' where nx: "rdb_iter_next p m it = Some (rdb_iter_at fd' (snd (rdb_scan ?c (rec_next ?c j) False)))"
     "fd_at p m f (fst (rdb_scan ?c (rec_next ?c j) False)) fd'"
    using iter_next [OF _ sc, of it] at it(2) by auto
  obtain valid' it' where vi: "rdb_iter_at fd' (snd (rdb_scan ?c (rec_next ?c j) False)) = (valid', it')" by fastforce
  have "log_without ?c rs key" using Cons.prems(2) by (simp add: log_without_def)
  from Cons.IH [OF w this nx(2) vi] obtain it'' where it'': "rdb_dup_loop p m key valid' it' = Some (Inr it'')" "fd_at p m f e (it_fd it'')"
    by blast
  have "rdb_dup_loop p m key valid it = rdb_dup_loop p m key valid' it'"
    using it rk k nx(1) vi by (subst rdb_dup_loop.simps) auto
  then show ?case using it'' by simp
qed

end

lemmas rdb_insert_eq = rdb_insert_def [unfolded rdb_insert_on_def rdb_direct_def rdb_io.simps]

text \<open>The logged insertion is the insertion with a log beside it.\<close>

lemma rdb_logged_put_at:
  "rdb_put_at (rdb_logged p) (s, l) fd fl key data = map_option (\<lambda>(ok, fd', s'). (ok, fd', s', l @ [(s, fd, rdb_hdr_bytes
      \<lparr> h_flags = fl, h_key_len = word_of_nat (length key), h_data_len = word_of_nat (length data) \<rparr>)])) (rdb_put_at (rdb_direct p) s fd fl key data)"
  by (simp add: rdb_put_at_def rdb_logged_def rdb_direct_def)

lemma rdb_logged_record:
  "map_option (\<lambda>(rv, s, l). (rv, s)) (rdb_write_record (rdb_logged p) (s, l) fd key data) = rdb_write_record (rdb_direct p) s fd key data"
  by (auto simp: rdb_write_record_def rdb_put_at_def rdb_logged_def rdb_direct_def split: Option.bind_split option.split prod.split if_split)

lemma rdb_logged_insert:
  "map_option (\<lambda>(rv, s, l). (rv, s)) (rdb_insert_on (rdb_logged p) p (s, l) db it0 key data) = rdb_insert p s db it0 key data"
proof -
  have io: "io_create (rdb_logged p) (s, l) db = map_option (\<lambda>(rv, s'). (rv, s', l)) (io_create (rdb_direct p) s db)"
    "io_gc (rdb_logged p) (s, l) db fd n = map_option (\<lambda>(ok, fd', s'). (ok, fd', s', l)) (io_gc (rdb_direct p) s db fd n)"
    "io_fs (rdb_logged p) (s, l) = io_fs (rdb_direct p) s" for s l fd n
    by (simp_all add: rdb_logged_def rdb_direct_def)
  show ?thesis
    by (auto simp: rdb_insert_def rdb_insert_on_def io rdb_logged_record split: Option.bind_split option.split prod.split if_split sum.split)
qed

text \<open>A power failure during an insertion: the writes before one of those logged are complete, that one has reached the flash with a first
  part of its bytes, and nothing after it was done.\<close>

definition cut_off :: "plat \<Rightarrow> (fs \<times> fd \<times> bytes) list \<Rightarrow> fs \<Rightarrow> bool" where
  "cut_off p l t \<longleftrightarrow> (\<exists>(s, fd, bs) \<in> set l. \<exists>j < length bs. \<exists>ok fd'. rdb_put p s fd (take j bs) = Some (ok, fd', t))"

definition new_hdr :: "u8 \<Rightarrow> bytes \<Rightarrow> bytes \<Rightarrow> rdb_hdr" where
  "new_hdr fl key data = \<lparr> h_flags = fl, h_key_len = word_of_nat (length key), h_data_len = word_of_nat (length data) \<rparr>"

text \<open>The log with a new record in the state the flags say.\<close>

definition staged :: "bytes \<Rightarrow> nat \<Rightarrow> u8 \<Rightarrow> bytes \<Rightarrow> bytes \<Rightarrow> bytes \<Rightarrow> bytes" where
  "staged pre n fl key data body = pre @ rdb_hdr_bytes (new_hdr fl key data) @ body @ replicate (n - 4 - length body) 0xFF"

text \<open>What an insertion may leave in the file: old content, part of a header, a record that is not marked as written, or the whole record.\<close>

inductive staging :: "bytes \<Rightarrow> nat \<Rightarrow> bytes \<Rightarrow> bytes \<Rightarrow> bytes \<Rightarrow> bool" for pre n key data where
  part: "j < 4 \<Longrightarrow> staging pre n key data (pre @ take j (rdb_hdr_bytes (new_hdr 0xFF key data)) @ replicate (n - j) 0xFF)"
| header: "staging pre n key data (staged pre n 0xFF key data [])"
| body: "length b \<le> length key + length data \<Longrightarrow> staging pre n key data (staged pre n 0xFD key data b)"
| whole: "staging pre n key data (staged pre n 0xFC key data (key @ data))"

lemma overlay_hdr:
  assumes "j < 4" "e = length pre"
  shows "overlay (pre @ rdb_hdr_bytes (new_hdr fl key data) @ post) e (take j (rdb_hdr_bytes (new_hdr fl' key data)))
    = pre @ rdb_hdr_bytes (new_hdr (if j = 0 then fl else fl AND fl') key data) @ post"
proof -
  have "j = 0 \<or> j = 1 \<or> j = 2 \<or> j = 3" using assms(1) by auto
  then show ?thesis using assms(2)
    by (elim disjE) (simp_all add: overlay_def rdb_hdr_bytes_def new_hdr_def le16_def numeral_eq_Suc)
qed

context fs_platform begin

lemma write_record:
  assumes at: "fd_at p (fs_flash s) f e fd" and e: "e = length pre"
    and c: "fcontent p (fs_flash s) f = pre @ replicate n 0xFF"
    and fit: "4 + length key + length data \<le> n" and k: "length key < 256" and d: "length data < 0x10000"
  shows "\<exists>m log. rdb_write_record (rdb_logged p) (s, l) fd key data = Some (Blob_Success, s\<lparr>fs_flash := m\<rparr>, l @ log) \<and>
     fcontent p m f = staged pre n 0xFC key data (key @ data) \<and> fd_at p m f e fd \<and> file_frame p f (fs_flash s) m \<and>
     (\<forall>t. cut_off p log t \<longrightarrow> staging pre n key data (fcontent p (fs_flash t) f))"
proof -
  have size: "unat (fsize f) = e + n"
    using arg_cong [OF c, of length] e by (simp add: fcontent_def)
  have hl: "length (rdb_hdr_bytes (new_hdr fl key data)) = 4" for fl by simp
  have put_at: "rdb_put_at (rdb_logged p) (s, l) fd fl key data = map_option (\<lambda>(ok, fd', s'). (ok, fd', s', l @ [(s, fd, rdb_hdr_bytes (new_hdr fl key data))]))
      (rdb_put p s fd (rdb_hdr_bytes (new_hdr fl key data)))" for s l fl
    by (simp add: rdb_logged_def rdb_put_at_def new_hdr_def)
  have put: "io_put (rdb_logged p) (s, l) fd bs = map_option (\<lambda>(ok, fd', s'). (ok, fd', s', l @ [(s, fd, bs)])) (rdb_put p s fd bs)" for s l fd bs
    by (simp add: rdb_logged_def)
  have an: "map2 (AND) (rdb_hdr_bytes (new_hdr fl key data)) (rdb_hdr_bytes (new_hdr fl' key data)) = rdb_hdr_bytes (new_hdr (fl AND fl') key data)" for fl fl'
    using hdr_bytes_and [of "new_hdr fl key data" fl'] by (simp add: new_hdr_def)
  let ?h = "\<lambda>fl. rdb_hdr_bytes (new_hdr fl key data)"
  obtain fd1 m1 where p1: "rdb_put p s fd (?h 0xFF) = Some (True, fd1, s\<lparr>fs_flash := m1\<rparr>)"
     "fcontent p m1 f = overlay (pre @ replicate n 0xFF) e (?h 0xFF)"
     "\<forall>j fd. fd_at p (fs_flash s) f j fd \<longrightarrow> fd_at p m1 f j fd" "file_frame p f (fs_flash s) m1"
    using at_put [OF at, of "?h 0xFF"] size fit c by auto
  have c1: "fcontent p m1 f = staged pre n 0xFF key data []"
    using p1(2) fit by (simp add: overlay_blank e staged_def)
  have a1: "fd_at p (fs_flash (s\<lparr>fs_flash := m1\<rparr>)) f e fd" using p1(3) at by simp
  obtain fd2 m2 where p2: "rdb_put p (s\<lparr>fs_flash := m1\<rparr>) fd (?h 0xFD) = Some (True, fd2, s\<lparr>fs_flash := m2\<rparr>)"
     "fcontent p m2 f = overlay (fcontent p m1 f) e (?h 0xFD)" "fd_at p m2 f (e + 4) fd2"
     "\<forall>j fd. fd_at p m1 f j fd \<longrightarrow> fd_at p m2 f j fd" "file_frame p f m1 m2"
    using at_put [OF a1, of "?h 0xFD"] size fit by auto
  have c2: "fcontent p m2 f = staged pre n 0xFD key data []"
    using p2(2) unfolding c1 staged_def by (simp add: overlay_mid e an)
  have a2: "fd_at p (fs_flash (s\<lparr>fs_flash := m2\<rparr>)) f (e + 4) fd2" using p2(3) by simp
  obtain fd3 m3 where p3: "rdb_put p (s\<lparr>fs_flash := m2\<rparr>) fd2 key = Some (True, fd3, s\<lparr>fs_flash := m3\<rparr>)"
     "fcontent p m3 f = overlay (fcontent p m2 f) (e + 4) key" "fd_at p m3 f (e + 4 + length key) fd3"
     "\<forall>j fd. fd_at p m2 f j fd \<longrightarrow> fd_at p m3 f j fd" "file_frame p f m2 m3"
    using at_put [OF a2, of key] size fit k by auto
  have c3: "fcontent p m3 f = staged pre n 0xFD key data key"
    using p3(2) fit overlay_blank [of "e + 4" "pre @ ?h 0xFD" key "n - 4"] unfolding c2 staged_def by (simp add: e)
  have a3: "fd_at p (fs_flash (s\<lparr>fs_flash := m3\<rparr>)) f (e + 4 + length key) fd3" using p3(3) by simp
  obtain fd4 m4 where p4: "rdb_put p (s\<lparr>fs_flash := m3\<rparr>) fd3 data = Some (True, fd4, s\<lparr>fs_flash := m4\<rparr>)"
     "fcontent p m4 f = overlay (fcontent p m3 f) (e + 4 + length key) data"
     "\<forall>j fd. fd_at p m3 f j fd \<longrightarrow> fd_at p m4 f j fd" "file_frame p f m3 m4"
    using at_put [OF a3, of data] size fit d by auto
  have c4: "fcontent p m4 f = staged pre n 0xFD key data (key @ data)"
    using p4(2) fit overlay_blank [of "e + 4 + length key" "pre @ ?h 0xFD @ key" data "n - 4 - length key"]
    unfolding c3 staged_def by (simp add: e)
  have a4: "fd_at p (fs_flash (s\<lparr>fs_flash := m4\<rparr>)) f e fd" using p1(3) p2(4) p3(4) p4(3) at by simp
  obtain fd5 m5 where p5: "rdb_put p (s\<lparr>fs_flash := m4\<rparr>) fd (?h 0xFC) = Some (True, fd5, s\<lparr>fs_flash := m5\<rparr>)"
     "fcontent p m5 f = overlay (fcontent p m4 f) e (?h 0xFC)" "\<forall>j fd. fd_at p m4 f j fd \<longrightarrow> fd_at p m5 f j fd" "file_frame p f m4 m5"
    using at_put [OF a4, of "?h 0xFC"] size fit by auto
  have c5: "fcontent p m5 f = staged pre n 0xFC key data (key @ data)"
    using p5(2) unfolding c4 staged_def by (simp add: overlay_mid e an)
  have fl: "0xFF AND NOT RDB_FLAG_HEADER_WRITTEN = 0xFD" "0xFF AND NOT RDB_FLAG_HEADER_WRITTEN AND NOT RDB_FLAG_WRITTEN = 0xFC"
    by (simp_all add: RDB_FLAG_HEADER_WRITTEN_def RDB_FLAG_WRITTEN_def)
  let ?s = "\<lambda>m. s\<lparr>fs_flash := m\<rparr>"
  let ?log = "[(s, fd, ?h 0xFF), (?s m1, fd, ?h 0xFD), (?s m2, fd2, key), (?s m3, fd3, data), (?s m4, fd, ?h 0xFC)]"
  have "rdb_write_record (rdb_logged p) (s, l) fd key data = Some (Blob_Success, ?s m5, l @ ?log)"
    unfolding rdb_write_record_def fl by (simp add: put_at put p1(1) p2(1) p3(1) p4(1) p5(1))
  moreover have "fd_at p m5 f e fd" using p5(3) a4 by simp
  moreover have "file_frame p f (fs_flash s) m5"
    by (rule file_frame_trans [OF file_frame_trans [OF file_frame_trans [OF file_frame_trans [OF p1(4) p2(5)] p3(5)] p4(4)] p5(4)])
  moreover have "staging pre n key data (fcontent p (fs_flash t) f)" if "cut_off p ?log t" for t
  proof -
    have cut: "fcontent p (fs_flash t) f = overlay (fcontent p (fs_flash x) f) i (take j bs)"
      if "rdb_put p x fd bs' = Some (ok, fd', t)" "bs' = take j bs" "fd_at p (fs_flash x) f i fd" "i + length bs \<le> unat (fsize f)" "length bs < 0x10000"
      for x fd bs' ok fd' i j bs
    proof -
      have "i + length (take j bs) \<le> unat (fsize f)" "length (take j bs) < 0x10000" using that(4,5) by (simp_all add: min_def)
      from at_put [OF that(3) this] show ?thesis using that(1,2) by auto
    qed
    from that consider
        j ok fd' where "j < 4" "rdb_put p s fd (take j (?h 0xFF)) = Some (ok, fd', t)"
      | j ok fd' where "j < 4" "rdb_put p (?s m1) fd (take j (?h 0xFD)) = Some (ok, fd', t)"
      | j ok fd' where "j < length key" "rdb_put p (?s m2) fd2 (take j key) = Some (ok, fd', t)"
      | j ok fd' where "j < length data" "rdb_put p (?s m3) fd3 (take j data) = Some (ok, fd', t)"
      | j ok fd' where "j < 4" "rdb_put p (?s m4) fd (take j (?h 0xFC)) = Some (ok, fd', t)"
      unfolding cut_off_def using hl by auto
    then show ?thesis
    proof cases
      case (1 j)
      then show ?thesis
        using cut [OF 1(2) refl at] size fit overlay_blank [of e pre "take j (?h 0xFF)" n] c e staging.part [OF 1(1), of pre n key data]
        by (simp add: min_absorb1)
    next
      case (2 j)
      have "fcontent p (fs_flash t) f = staged pre n (if j = 0 then 0xFF else 0xFF AND 0xFD) key data []"
        using cut [OF 2(2) refl a1] size fit overlay_hdr [OF 2(1) e] by (simp add: c1 staged_def)
      then show ?thesis using staging.header [of pre n key data] staging.body [of "[]" key data pre n] by (cases "j = 0") simp_all
    next
      case (3 j)
      have "fcontent p (fs_flash t) f = staged pre n 0xFD key data (take j key)"
        using cut [OF 3(2) refl a2] 3(1) size fit k overlay_blank [of "e + 4" "pre @ ?h 0xFD" "take j key" "n - 4"] by (simp add: c2 staged_def e)
      then show ?thesis using staging.body [of "take j key" key data pre n] by simp
    next
      case (4 j)
      have "fcontent p (fs_flash t) f = staged pre n 0xFD key data (key @ take j data)"
        using cut [OF 4(2) refl a3] 4(1) size fit d overlay_blank [of "e + 4 + length key" "pre @ ?h 0xFD @ key" "take j data" "n - 4 - length key"]
        by (simp add: c3 staged_def e)
      then show ?thesis using staging.body [of "key @ take j data" key data pre n] by simp
    next
      case (5 j)
      have "fcontent p (fs_flash t) f = staged pre n (if j = 0 then 0xFD else 0xFD AND 0xFC) key data (key @ data)"
        using cut [OF 5(2) refl a4] size fit overlay_hdr [OF 5(1) e] by (simp add: c4 staged_def)
      then show ?thesis using staging.body [of "key @ data" key data pre n] staging.whole [of pre n key data] by (cases "j = 0") simp_all
    qed
  qed
  ultimately show ?thesis using c5 by blast
qed

end

lemma staged_walk:
  assumes e: "e = length pre" and k: "length key < 256" and d: "length data < 0x10000"
    and body: "length body \<le> length key + length data" and fit: "4 + length key + length data \<le> n"
  shows "fl = 0xFD \<Longrightarrow> fst (rdb_walk (staged pre n fl key data body) e) = []"
    and "fl = 0xFC \<Longrightarrow> fst (rdb_walk (staged pre n fl key data (key @ data)) e) = [(e, key, data)]"
    and "length key \<noteq> 0xFF \<or> (length data \<noteq> 0xFF \<and> length data \<noteq> 0xFFFF) \<Longrightarrow> fst (rdb_walk (staged pre n 0xFF key data []) e) = []"
proof -
  have kl: "unat (word_of_nat (length key) :: u8) = length key" and dl: "unat (word_of_nat (length data) :: u16) = length data"
    using k d by (simp_all add: unat_of_nat)
  let ?b = "body @ replicate (length key + length data - length body) 0xFF"
  have s: "staged pre n fl key data body = pre @ rdb_hdr_bytes (new_hdr fl key data) @ ?b @ replicate (n - 4 - (length key + length data)) 0xFF" for fl
    using body fit by (simp add: staged_def replicate_add [symmetric])
  have s2: "staged pre n fl key data (key @ data) = pre @ rdb_hdr_bytes (new_hdr fl key data) @ (key @ data) @ replicate (n - 4 - (length key + length data)) 0xFF" for fl
    by (simp add: staged_def)
  have fd: "\<not> hdr_empty (new_hdr 0xFD key data)" "\<not> hdr_partial (new_hdr 0xFD key data)" "hdr_dead (new_hdr 0xFD key data)"
    "\<not> hdr_empty (new_hdr 0xFC key data)" "\<not> hdr_partial (new_hdr 0xFC key data)" "\<not> hdr_dead (new_hdr 0xFC key data)"
    by (simp_all add: new_hdr_def hdr_empty_def hdr_partial_def hdr_dead_def FLAG_SET_def RDB_FLAG_HEADER_WRITTEN_def RDB_FLAG_WRITTEN_def RDB_FLAG_ERASED_def)
  show "fl = 0xFD \<Longrightarrow> fst (rdb_walk (staged pre n fl key data body) e) = []"
    using fd walk_one [OF s e, of fl] body by (simp add: new_hdr_def kl dl)
  show "fl = 0xFC \<Longrightarrow> fst (rdb_walk (staged pre n fl key data (key @ data)) e) = [(e, key, data)]"
    using fd walk_one [OF s2 e, of fl] by (simp add: new_hdr_def kl dl)
  show "fst (rdb_walk (staged pre n 0xFF key data []) e) = []"
    if ne: "length key \<noteq> 0xFF \<or> (length data \<noteq> 0xFF \<and> length data \<noteq> 0xFFFF)"
  proof -
    let ?c = "staged pre n 0xFF key data []"
    have h: "hdr_in ?c e = new_hdr 0xFF key data" unfolding e staged_def by (rule hdr_in_append)
    have "(word_of_nat (length key) :: u8) = 0xFF \<longleftrightarrow> length key = 0xFF" "(word_of_nat (length data) :: u16) = 0xFF \<longleftrightarrow> length data = 0xFF"
       "(word_of_nat (length data) :: u16) = 0xFFFF \<longleftrightarrow> length data = 0xFFFF"
      using kl dl by (auto simp: word_unat_eq_iff)
    then have "\<not> hdr_empty (hdr_in ?c e)" "hdr_partial (hdr_in ?c e)"
      using ne by (auto simp: h new_hdr_def hdr_empty_def hdr_partial_def FLAG_SET_def RDB_FLAG_HEADER_WRITTEN_def RDB_FLAG_WRITTEN_def)
    moreover have "drop (e + 4) ?c = replicate (n - 4) 0xFF" by (simp add: staged_def e)
    ultimately show ?thesis using walk_blank [of "e + 4" ?c "n - 4"] by (subst rdb_walk.simps) (simp add: staged_def e)
  qed
qed

lemma part_walk:
  assumes "j < 4" "length key < 256" "length data < 0x10000"
  shows "fst (rdb_walk (pre @ take j (rdb_hdr_bytes (new_hdr 0xFF key data)) @ replicate (n - j) 0xFF) (length pre)) = []"
proof -
  let ?c = "pre @ take j (rdb_hdr_bytes (new_hdr 0xFF key data)) @ replicate (n - j) 0xFF"
  show ?thesis
  proof (cases "length pre + 4 > length ?c")
    case True
    have "rdb_walk c i = ([], i)" if "i + 4 > length c" for c i using that by (subst rdb_walk.simps) simp
    from this [OF True] show ?thesis by simp
  next
    case False
    then have n: "4 \<le> n" using assms(1) by simp
    have j: "j = 0 \<or> j = 1 \<or> j = 2 \<or> j = 3" using assms(1) by auto
    obtain b0 b1 where d: "le16 (word_of_nat (length data)) = [b0, b1]" by (simp add: le16_def)
    have r: "replicate (n - j) (0xFF :: u8) = replicate (4 - j) 0xFF @ replicate (n - 4) 0xFF"
      using n assms(1) by (simp flip: replicate_add)
    have h: "hdr_in ?c (length pre) = rdb_hdr_of (take j (rdb_hdr_bytes (new_hdr 0xFF key data)) @ replicate (4 - j) 0xFF)"
      using j unfolding r by (elim disjE) (simp_all add: hdr_in_def rdb_hdr_bytes_def new_hdr_def d numeral_eq_Suc)
    have x: "hdr_partial (rdb_hdr_of x)" if "x ! 0 = 0xFF" "x ! 3 = 0xFF" for x
    proof -
      have "get16 x 2 \<noteq> 0xFF"
      proof
        assume "get16 x 2 = 0xFF"
        then have "le16 (get16 x 2) = le16 0xFF" by simp
        then show False using that(2) by (simp add: le16_get) (simp add: le16_def)
      qed
      then show ?thesis
        using that(1) by (simp add: rdb_hdr_of_def hdr_partial_def FLAG_SET_def RDB_FLAG_HEADER_WRITTEN_def RDB_FLAG_WRITTEN_def)
    qed
    have "(take j [0xFF, k, b0, b1] @ replicate (4 - j) (0xFF :: u8)) ! 0 = 0xFF"
       "(take j [0xFF, k, b0, b1] @ replicate (4 - j) (0xFF :: u8)) ! 3 = 0xFF" for k
      using j by (auto simp: nth_append min_def take_Cons')
    then have b: "hdr_partial (hdr_in ?c (length pre))"
      unfolding h by (intro x) (simp_all add: rdb_hdr_bytes_def new_hdr_def d)
    have "drop (length pre + 4) ?c = replicate (n - 4) 0xFF" using j unfolding r by (elim disjE) (simp_all add: rdb_hdr_bytes_def d)
    then have "rdb_walk ?c (length pre + 4) = ([], length pre + 4)" by (rule walk_blank)
    moreover have "fst (rdb_walk c i) = []" if "hdr_empty (hdr_in c i) \<or> hdr_partial (hdr_in c i)" "rdb_walk c (i + 4) = ([], i + 4)" for c i
      using that by (subst rdb_walk.simps) auto
    ultimately show ?thesis using b by blast
  qed
qed

lemma staging_walk:
  assumes "staging pre n key data c" "length key < 256" "length data < 0x10000" "4 + length key + length data \<le> n"
    and "length key \<noteq> 0xFF \<or> (length data \<noteq> 0xFF \<and> length data \<noteq> 0xFFFF)"
  shows "length c = length pre + n \<and> take (length pre) c = pre \<and>
    (fst (rdb_walk c (length pre)) = [] \<or> c = staged pre n 0xFC key data (key @ data))"
  using assms(1)
proof cases
  case (part j)
  then show ?thesis using part_walk [OF _ assms(2,3)] assms(4) by (simp add: min_def)
next
  case header
  then show ?thesis using staged_walk(3) [OF refl assms(2,3) _ assms(4,5), of "[]" pre] assms(4) by (simp add: staged_def)
next
  case (body b)
  then show ?thesis using staged_walk(1) [OF refl assms(2,3) body(2) assms(4) refl, of pre] assms(4) by (simp add: staged_def)
next
  case whole
  then show ?thesis using assms(4) by (simp add: staged_def)
qed

context fs_platform begin

lemma insert_steps:
  assumes db: "db_locked db" and find: "fs_find_file p s (db_filename db) = Some (Some f)"
    and ok: "content_ok p (fs_flash s) f" and w: "rdb_walk (fcontent p (fs_flash s) f) 0 = (rs, e)"
    and new: "log_without (fcontent p (fs_flash s) f) rs key"
    and blank: "drop e (fcontent p (fs_flash s) f) = replicate n 0xFF"
    and fit: "4 + length key + length data \<le> n" and k: "length key < 256" and d: "length data < 0x10000"
  shows "\<exists>log s'. rdb_insert p s db it0 key data = Some (Blob_Success, s') \<and>
    rdb_insert_on (rdb_logged p) p (s, []) db it0 key data = Some (Blob_Success, s', log) \<and>
    fst (rdb_walk (fcontent p (fs_flash s') f) 0) = rs @ [(e, key, data)] \<and>
    content_ok p (fs_flash s') f \<and> take e (fcontent p (fs_flash s') f) = take e (fcontent p (fs_flash s) f) \<and>
    hdr_in (fcontent p (fs_flash s') f) e = new_hdr 0xFC key data \<and>
    fcontent p (fs_flash s') f = staged (take e (fcontent p (fs_flash s) f)) n 0xFC key data (key @ data) \<and>
    s' = s\<lparr>fs_flash := fs_flash s'\<rparr> \<and> file_frame p f (fs_flash s) (fs_flash s') \<and>
    (length key \<noteq> 0xFF \<or> (length data \<noteq> 0xFF \<and> length data \<noteq> 0xFFFF) \<longrightarrow>
      (\<forall>t. cut_off p log t \<longrightarrow> fst (rdb_walk (fcontent p (fs_flash t) f) 0) = rs \<or> fcontent p (fs_flash t) f = fcontent p (fs_flash s') f))"
proof -
  let ?m = "fs_flash s"
  let ?c = "fcontent p ?m f"
  define pre where "pre = take e ?c"
  have e: "e \<le> length ?c" using walk_ge [of 0 ?c] w by simp
  have pre: "length pre = e" "?c = pre @ replicate n 0xFF"
    using e blank append_take_drop_id [of e ?c] by (simp_all add: pre_def)
  have size: "unat (fsize f) = e + n" using arg_cong [OF pre(2), of length] pre(1) by simp
  have lt: "unat (fsize f) < 2 ^ 31" using ok by (simp add: content_ok_def)
  obtain fd0 where fd0: "rdb_seek_valid p ?m (fs_open f) False = Some (fd0, snd (rdb_scan ?c 0 False))"
     "fd_at p ?m f (fst (rdb_scan ?c 0 False)) fd0"
    using seek_valid [OF fd_at_open [OF ok], of False] by auto
  obtain valid it where vi: "rdb_iter_at fd0 (snd (rdb_scan ?c 0 False)) = (valid, it)" by fastforce
  have start: "rdb_iter_start p s db it0 = Some (valid, it)"
    by (simp add: rdb_iter_start_def db find rdb_iter_start_from_fd_def fd0 vi)
  obtain it' where dup: "rdb_dup_loop p ?m key valid it = Some (Inr it')" "fd_at p ?m f e (it_fd it')"
    using dup_loop [OF w new fd0(2) vi] by blast
  obtain fd where sk: "fs_seek p ?m (it_fd it') 0 FS_SEEK_CUR = Some (word_of_nat e, fd)" "fd_at p ?m f e fd"
    using at_seek_cur [OF dup(2), of 0] size by auto
  have fdf: "fd_file fd = f" using sk(2) by (simp add: fd_at_def)
  have sum: "unat (word_of_nat e + word_of_nat SIZEOF_RDB_HDR + word_of_nat (length key) + word_of_nat (length data) :: u32) = e + 4 + length key + length data"
  proof -
    have "word_of_nat e + word_of_nat SIZEOF_RDB_HDR + word_of_nat (length key) + word_of_nat (length data)
       = (word_of_nat (e + 4 + length key + length data) :: u32)" by (simp add: SIZEOF_RDB_HDR_def)
    also have "unat \<dots> = e + 4 + length key + length data"
      using size lt fit by (subst unat_of_nat) simp
    finally show ?thesis .
  qed
  have room: "\<not> word_of_nat e + word_of_nat SIZEOF_RDB_HDR + word_of_nat (length key) + word_of_nat (length data) > fsize (fd_file fd)"
    unfolding word_less_nat_alt sum fdf using size fit by simp
  from write_record [OF sk(2) pre(1) [symmetric] pre(2) fit k d, of "[]"] obtain m log where
    m: "rdb_write_record (rdb_logged p) (s, []) fd key data = Some (Blob_Success, s\<lparr>fs_flash := m\<rparr>, log)"
      "fcontent p m f = staged pre n 0xFC key data (key @ data)" "fd_at p m f e fd" "file_frame p f (fs_flash s) m"
      "\<forall>t. cut_off p log t \<longrightarrow> staging pre n key data (fcontent p (fs_flash t) f)" by auto
  have create: "rdb_create p s db = Some (Blob_Success, s)" by (simp add: rdb_create_def find)
  have io: "io_create (rdb_logged p) (s, []) db = Some (Blob_Success, s, [])" "io_fs (rdb_logged p) (s, []) = s"
    by (simp_all add: rdb_logged_def create)
  have ins: "rdb_insert_on (rdb_logged p) p (s, []) db it0 key data = Some (Blob_Success, s\<lparr>fs_flash := m\<rparr>, log)"
    using room by (simp add: rdb_insert_on_def db io start dup(1) sk(1) m(1))
  have "rdb_insert p s db it0 key data = Some (Blob_Success, s\<lparr>fs_flash := m\<rparr>)"
    unfolding rdb_logged_insert [of p s "[]", symmetric] ins by simp
  moreover have walk: "rdb_walk c 0 = (rs @ fst (rdb_walk c e), snd (rdb_walk c e))" if "length c = length pre + n" "take e c = pre" for c
    by (rule walk_change [OF w]) (use that size pre in simp_all)
  moreover have "fst (rdb_walk (fcontent p m f) 0) = rs @ [(e, key, data)]"
    using walk [of "staged pre n 0xFC key data (key @ data)"] staged_walk(2) [OF pre(1) [symmetric] k d _ fit, of "[]" "0xFC"] fit
    by (simp add: m(2) staged_def pre(1))
  moreover have "fst (rdb_walk (fcontent p (fs_flash t) f) 0) = rs \<or> fcontent p (fs_flash t) f = fcontent p m f"
    if "length key \<noteq> 0xFF \<or> (length data \<noteq> 0xFF \<and> length data \<noteq> 0xFFFF)" "cut_off p log t" for t
    using staging_walk [OF m(5) [rule_format, OF that(2)] k d fit that(1)] walk [of "fcontent p (fs_flash t) f"] by (auto simp: m(2) pre(1))
  moreover have "hdr_in (fcontent p m f) e = new_hdr 0xFC key data" "take e (fcontent p m f) = take e ?c"
    "fcontent p m f = staged (take e ?c) n 0xFC key data (key @ data)"
    using m(2) hdr_in_append [of pre "new_hdr 0xFC key data"] pre by (simp_all add: staged_def flip: pre_def)
  moreover have "content_ok p m f" using m(3) by (simp add: fd_at_def)
  ultimately show ?thesis using ins m(4)
    by (intro exI [of _ log] exI [of _ "s\<lparr>fs_flash := m\<rparr>"]) simp
qed

end

subsection \<open>Lookup\<close>

lemma unat_ucast_8_16: "unat (ucast (b :: u8) :: u16) = unat b"
proof -
  have "unat b < 2 ^ 16" by (rule less_trans [OF unat_u8_less]) simp
  then show ?thesis by (simp add: unsigned_ucast_eq take_bit_nat_eq_self)
qed

definition log_whole :: "bytes \<Rightarrow> (nat \<times> bytes \<times> bytes) list \<Rightarrow> bool" where
  "log_whole c rs \<longleftrightarrow> (\<forall>(i, k, d) \<in> set rs. length k = unat (h_key_len (hdr_in c i)) \<and> length d = unat (h_data_len (hdr_in c i)))"

definition key_selector :: "bytes \<Rightarrow> rdb_selector list" where
  "key_selector key = [\<lparr> sel_offsetof = RDB_SELECTOR_OFFSET_KEY, sel_size = word_of_nat (length key), sel_operator = RDB_OP_EQ, sel_val = key \<rparr>,
     \<lparr> sel_offsetof = 0, sel_size = 0, sel_operator = RDB_OP_NONE, sel_val = [] \<rparr>]"

text \<open>The selectors of a read: the key, and the data loaded whole.\<close>

definition load_selector :: "bytes \<Rightarrow> rdb_selector list" where
  "load_selector key = [\<lparr> sel_offsetof = RDB_SELECTOR_OFFSET_KEY, sel_size = word_of_nat (length key), sel_operator = RDB_OP_EQ, sel_val = key \<rparr>,
     \<lparr> sel_offsetof = 0, sel_size = 0, sel_operator = RDB_OP_RESULT_FULLY_LOAD, sel_val = [] \<rparr>,
     \<lparr> sel_offsetof = 0, sel_size = 0, sel_operator = RDB_OP_NONE, sel_val = [] \<rparr>]"

text \<open>A result of a selection for the record \<open>(i, k, d)\<close>: its iterator stands on the record and reads its data,
  and the values are those the selectors ask for.\<close>

definition rec_result :: "plat \<Rightarrow> mem \<Rightarrow> fs_file \<Rightarrow> (bytes \<Rightarrow> bytes list) \<Rightarrow> nat \<times> bytes \<times> bytes \<Rightarrow> rdb_select_result \<Rightarrow> bool" where
  "rec_result p m f vals = (\<lambda>(i, k, d) res. fd_at p m f i (it_fd (res_it res)) \<and>
     unat (it_key_len (res_it res)) = length k \<and> unat (it_data_len (res_it res)) = length d \<and>
     map_option snd (rdb_iter_read_data p m (res_it res) 0 (uint (it_data_len (res_it res)))) = Some d \<and> res_result res = vals d)"

lemma walk_member: "(i, k, d) \<in> set (fst (rdb_walk c j)) \<Longrightarrow> j \<le> length c \<Longrightarrow> i + 4 \<le> snd (rdb_walk c j)"
proof (induction c j rule: rdb_walk.induct)
  case (1 c j)
  show ?case
  proof (cases "j + 4 > length c \<or> hdr_empty (hdr_in c j)")
    case True
    then show ?thesis using 1(4) by (simp add: rdb_walk.simps [of c j])
  next
    case False
    have ge: "rec_next c j \<le> snd (rdb_walk c (rec_next c j))" "j + 4 \<le> rec_next c j"
      using False walk_ge [of "rec_next c j" c] by (auto simp: rec_next_def)
    show ?thesis
      using 1 False ge by (subst (asm) (7) rdb_walk.simps, subst rdb_walk.simps) (auto simp: rec_next_def split: prod.splits if_splits)
  qed
qed

context fs_platform begin

lemma read_key:
  assumes at: "fd_at p m f j (it_fd it)" and j: "j + 4 \<le> unat (fsize f)"
    and k: "k = take (unat (it_key_len it)) (drop (j + 4) (fcontent p m f))" "length k = unat (it_key_len it)"
  shows "rdb_iter_read_key p m it = Some (ucast (it_key_len it), k)"
proof -
  have "unat (word_of_nat SIZEOF_RDB_HDR :: u32) < 2 ^ 31" by (simp add: SIZEOF_RDB_HDR_def)
  from at_seek_cur [OF at this] obtain fd1 x where fd1: "fs_seek p m (it_fd it) (word_of_nat SIZEOF_RDB_HDR) FS_SEEK_CUR = Some (x, fd1)"
    "fd_at p m f (j + 4) fd1" using j by (auto simp: SIZEOF_RDB_HDR_def min_absorb1)
  have u: "unat (ucast (it_key_len it) :: u32) = unat (it_key_len it)" by (rule unat_ucast_u8)
  have mn: "unat (it_key_len it) = min (unat (ucast (it_key_len it) :: u32)) (unat (fsize f) - (j + 4))"
    using k unfolding u by simp
  show ?thesis using at_read [OF fd1(2) mn, of "p_local p"] fd1(1) k by (auto simp: rdb_iter_read_key_def)
qed

lemma read_data:
  assumes at: "fd_at p m f j (it_fd it)"
    and d: "d = take (unat (it_data_len it)) (drop (j + 4 + unat (it_key_len it)) (fcontent p m f))" "length d = unat (it_data_len it)"
  shows "\<exists>n. rdb_iter_read_data p m it 0 (uint (it_data_len it)) = Some (n, d) \<and> unat n = length d"
proof (cases "it_data_len it = 0")
  case True
  then show ?thesis using d by (simp add: rdb_iter_read_data_def)
next
  case False
  then have pos: "0 < unat (it_data_len it)" by (simp add: unat_gt_0)
  then have up: "0 < uint (it_data_len it)" by (metis of_nat_0_less_iff uint_nat)
  define ofs where "ofs = (word_of_nat SIZEOF_RDB_HDR + ucast (it_key_len it) + word_of_int 0 :: u32)"
  have kl: "unat (ucast (it_key_len it) :: u32) = unat (it_key_len it)" by (rule unat_ucast_u8)
  have "unat (word_of_nat SIZEOF_RDB_HDR + ucast (it_key_len it) :: u32) = 4 + unat (it_key_len it)"
    using less_trans [OF unat_u8_less [of "it_key_len it"], of 4294967292]
    by (subst unat_add_small) (simp_all add: SIZEOF_RDB_HDR_def kl)
  then have ofs: "unat ofs = 4 + unat (it_key_len it)" by (simp add: ofs_def)
  have fit: "j + 4 + unat (it_key_len it) + unat (it_data_len it) \<le> unat (fsize f)" using d pos by simp
  have lt: "unat ofs < 2 ^ 31" unfolding ofs using less_trans [OF unat_u8_less [of "it_key_len it"], of 2147483644] by simp
  obtain x fd1 where fd1: "fs_seek p m (it_fd it) ofs FS_SEEK_CUR = Some (x, fd1)" "fd_at p m f (j + 4 + unat (it_key_len it)) fd1"
    using at_seek_cur [OF at lt] fit by (auto simp: ofs add.assoc)
  have u: "unat (word_of_int (uint (it_data_len it)) :: u32) = unat (it_data_len it)"
    using unat_u16_ucast [of "it_data_len it"] by simp
  have mn: "unat (it_data_len it) = min (unat (word_of_int (uint (it_data_len it)) :: u32)) (unat (fsize f) - (j + 4 + unat (it_key_len it)))"
    unfolding u using fit by simp
  obtain fd2 where rd: "fs_read p m fd1 (p_local p) (word_of_int (uint (it_data_len it)))
     = Some (word_of_nat (unat (it_data_len it)), fd2, d)"
    using at_read [OF fd1(2) mn, of "p_local p"] d by auto
  have "unat (word_of_nat (unat (it_data_len it)) :: u32) = length d" using unat_u16_ucast [of "it_data_len it"] d(2) by simp
  then show ?thesis using up fd1(1) rd by (simp add: rdb_iter_read_data_def ofs_def)
qed

lemma matches_key:
  assumes at: "fd_at p m f j (it_fd it)" and j: "j + 4 \<le> unat (fsize f)"
    and k: "k = take (unat (it_key_len it)) (drop (j + 4) (fcontent p m f))" "length k = unat (it_key_len it)"
    and key: "length key < 256"
  shows "rdb_matches p m it (key_selector key) = Some (k = key)"
proof -
  have s: "unat (word_of_nat (length key) :: u16) = length key" using key by (simp add: unat_of_nat)
  have "unat (ucast (it_key_len it) :: u16) = unat (it_key_len it)"
    by (rule unat_ucast_8_16)
  then have eq: "(ucast (it_key_len it) = (word_of_nat (length key) :: u16)) \<longleftrightarrow> unat (it_key_len it) = length key"
    unfolding word_unat_eq_iff using s by simp
  show ?thesis
  proof (cases "unat (it_key_len it) = length key")
    case True
    have "unat (ucast (it_key_len it) :: u32) = length key" using unat_ucast_u8 [of "it_key_len it"] True by simp
    moreover have "unat (ucast (word_of_nat (length key) :: u16) :: u32) = length key" using unat_u16_ucast s by metis
    ultimately have "(ucast (it_key_len it) :: u32) = ucast (word_of_nat (length key) :: u16)" by (simp add: word_unat_eq_iff)
    then show ?thesis using True eq k(2) read_key [OF at j k]
      by (simp add: key_selector_def op_is_result_def rdb_compare_def s)
  next
    case False
    then have "k \<noteq> key" using k(2) by auto
    then show ?thesis using False eq by (simp add: key_selector_def op_is_result_def)
  qed
qed

lemma select_general:
  assumes "rdb_walk (fcontent p m f) i = (rs, e)" "log_whole (fcontent p m f) rs" "length key < 256"
    and "fd_at p m f (fst (rdb_scan (fcontent p m f) i False)) fd"
    and "rdb_iter_at fd (snd (rdb_scan (fcontent p m f) i False)) = (valid, it)"
    and sels: "\<And>it. rdb_matches p m it sels = rdb_matches p m it (key_selector key)"
    and vals: "\<And>it n d. rdb_iter_read_data p m it 0 (uint (it_data_len it)) = Some (n, d) \<Longrightarrow> unat n = unat (it_data_len it) \<Longrightarrow>
       length d = unat (it_data_len it) \<Longrightarrow> rdb_results p m heap_room it sels = Some (if ok d then Some (vals d) else None)"
  shows "\<exists>out. rdb_select p m heap_room it valid head sels = Some (head @ out) \<and>
    list_all2 (rec_result p m f vals) (takeWhile (\<lambda>(_, k, d). k \<noteq> [] \<and> ok d) (filter (\<lambda>(_, k, _). k = key) rs)) out"
  using assms(1-5)
proof (induction rs arbitrary: i fd valid it head)
  case Nil
  let ?c = "fcontent p m f"
  have "snd (rdb_scan ?c i False) = None" "fst (rdb_scan ?c i False) = e"
    using Nil(1) walk_scan [of ?c i] by (auto simp: Let_def split: prod.splits option.splits)
  then show ?case using Nil(4,5) by (subst rdb_select.simps) (auto simp: rdb_iter_at_def)
next
  case (Cons r rs)
  let ?c = "fcontent p m f"
  obtain j h where sc: "rdb_scan ?c i False = (j, Some h)" and w: "rdb_walk ?c (rec_next ?c j) = (rs, e)"
    and r: "r = (j, take (unat (h_key_len h)) (drop (j + 4) ?c), take (unat (h_data_len h)) (drop (j + 4 + unat (h_key_len h)) ?c))"
    using Cons.prems(1) walk_scan [of ?c i] by (auto simp: Let_def split: prod.splits option.splits)
  note so = scan_some [OF sc]
  define k where "k = take (unat (h_key_len h)) (drop (j + 4) ?c)"
  define d where "d = take (unat (h_data_len h)) (drop (j + 4 + unat (h_key_len h)) ?c)"
  have r: "r = (j, k, d)" by (simp add: r k_def d_def)
  have k: "length k = unat (h_key_len h)" and d: "length d = unat (h_data_len h)"
    using Cons.prems(2) so by (auto simp: r log_whole_def)
  have it: "valid" "it_fd it = fd" "it_key_len it = h_key_len h" "it_data_len it = h_data_len h" and at: "fd_at p m f j fd"
    using Cons.prems(4,5) by (auto simp: sc rdb_iter_at_def)
  have mk: "rdb_matches p m it sels = Some (k = key)"
    unfolding sels using so k by (intro matches_key [OF _ _ _ _ Cons.prems(3), of m f j]) (simp_all add: it at k_def)
  obtain n where rd: "rdb_iter_read_data p m it 0 (uint (it_data_len it)) = Some (n, d)" "unat n = unat (it_data_len it)"
    using read_data [of m f j it d] d by (auto simp: it at d_def)
  have "length d = unat (it_data_len it)" using d it by simp
  note res = vals [OF rd this]
  obtain fd' where nx: "rdb_iter_next p m it = Some (rdb_iter_at fd' (snd (rdb_scan ?c (rec_next ?c j) False)))"
     "fd_at p m f (fst (rdb_scan ?c (rec_next ?c j) False)) fd'"
    using iter_next [OF _ sc, of it] at it(2) by auto
  obtain valid' it' where vi: "rdb_iter_at fd' (snd (rdb_scan ?c (rec_next ?c j) False)) = (valid', it')" by fastforce
  have lw: "log_whole ?c rs" using Cons.prems(2) by (simp add: log_whole_def)
  have room: "heap_room (56 + 4 * rdb_nresults sels)" by (simp add: heap_room_def)
  note IH = Cons.IH [OF w lw Cons.prems(3) nx(2) vi]
  have kl: "heap_room (unat (it_key_len it)) \<longleftrightarrow> k \<noteq> []" by (metis heap_room_def it(3) k length_0_conv)
  consider "k = key" "k \<noteq> []" "ok d" | "k = key" "k = [] \<or> \<not> ok d" | "k \<noteq> key" by blast
  then show ?case
  proof cases
    case 1
    define res1 where "res1 = \<lparr> res_it = it, res_result = vals d \<rparr>"
    have "rdb_select p m heap_room it valid head sels = rdb_select p m heap_room it' valid' (head @ [res1]) sels"
      using it(1) mk 1 kl room res nx(1) vi by (subst rdb_select.simps) (simp add: res1_def)
    with IH [of "head @ [res1]"] obtain out where out: "rdb_select p m heap_room it valid head sels = Some (head @ res1 # out)"
      "list_all2 (rec_result p m f vals) (takeWhile (\<lambda>(_, k, d). k \<noteq> [] \<and> ok d) (filter (\<lambda>(_, k, _). k = key) rs)) out" by auto
    moreover have "rec_result p m f vals r res1" using at it k d rd by (simp add: rec_result_def res1_def r)
    ultimately show ?thesis using 1 by (intro exI [of _ "res1 # out"]) (simp add: r)
  next
    case 2
    have "rdb_select p m heap_room it valid head sels = Some head"
      using it(1) mk 2 kl room res by (subst rdb_select.simps) auto
    then show ?thesis using 2 by (auto simp: r)
  next
    case 3
    have "rdb_select p m heap_room it valid head sels = rdb_select p m heap_room it' valid' head sels"
      using it(1) mk 3 nx(1) vi by (subst rdb_select.simps) simp
    then show ?thesis using IH [of head] 3 by (simp add: r)
  qed
qed

lemma select_key:
  assumes "rdb_walk (fcontent p m f) i = (rs, e)" "log_whole (fcontent p m f) rs" "length key < 256"
    and "fd_at p m f (fst (rdb_scan (fcontent p m f) i False)) fd"
    and "rdb_iter_at fd (snd (rdb_scan (fcontent p m f) i False)) = (valid, it)"
  shows "\<exists>out. rdb_select p m heap_room it valid head (key_selector key) = Some (head @ out) \<and>
    list_all2 (rec_result p m f (\<lambda>_. [])) (if key = [] then [] else filter (\<lambda>(_, k, _). k = key) rs) out"
proof -
  have "takeWhile (\<lambda>(_, k, d). k \<noteq> [] \<and> True) (filter (\<lambda>(_, k, _). k = key) rs) = (if key = [] then [] else filter (\<lambda>(_, k, _). k = key) rs)"
    by (induction rs) auto
  then show ?thesis
    using select_general [OF assms refl, where ok = "\<lambda>_. True" and vals = "\<lambda>_. []" and head = head] by (simp add: key_selector_def op_is_result_def)
qed

lemma select_load:
  assumes "rdb_walk (fcontent p m f) i = (rs, e)" "log_whole (fcontent p m f) rs" "length key < 256"
    and "fd_at p m f (fst (rdb_scan (fcontent p m f) i False)) fd"
    and "rdb_iter_at fd (snd (rdb_scan (fcontent p m f) i False)) = (valid, it)"
  shows "\<exists>out. rdb_select p m heap_room it valid head (load_selector key) = Some (head @ out) \<and>
    list_all2 (rec_result p m f (\<lambda>d. [d]))
      (if key = [] then [] else takeWhile (\<lambda>(_, _, d). d \<noteq> []) (filter (\<lambda>(_, k, _). k = key) rs)) out"
proof -
  have m: "rdb_matches p m it (load_selector key) = rdb_matches p m it (key_selector key)" for it
    by (simp add: key_selector_def load_selector_def op_is_result_def cong: option.case_cong Option.bind_cong if_cong prod.case_cong)
  have l: "rdb_results p m heap_room it (load_selector key) = Some (if d \<noteq> [] then Some [d] else None)"
    if "rdb_iter_read_data p m it 0 (uint (it_data_len it)) = Some (n, d)" "unat n = unat (it_data_len it)" "length d = unat (it_data_len it)" for it n d
  proof -
    have "uint n = uint (it_data_len it)" using that(2) by (simp only: uint_nat)
    moreover have "heap_room (nat (uint (it_data_len it))) \<longleftrightarrow> d \<noteq> []" by (metis heap_room_def length_0_conv that(3) unat_eq_nat_uint)
    ultimately show ?thesis using that(1) by (simp add: load_selector_def op_is_result_def)
  qed
  have "takeWhile (\<lambda>(_, k, d). k \<noteq> [] \<and> d \<noteq> []) (filter (\<lambda>(_, k, _). k = key) rs)
      = (if key = [] then [] else takeWhile (\<lambda>(_, _, d). d \<noteq> []) (filter (\<lambda>(_, k, _). k = key) rs))"
    by (induction rs) auto
  then show ?thesis
    using select_general [OF assms m, where ok = "\<lambda>d. d \<noteq> []" and vals = "\<lambda>d. [d]" and head = head, OF l] by simp
qed

end

end
