(* ===== verification/RdbLaws.thy ===== *)
theory RdbLaws
  imports Rdb
begin

section \<open>The record database: deletion and the properties\<close>

text \<open>
  Deletion of a record as an edit of the log, an example file system that holds one database
  file, and the properties of the record database on the platform of rcore/flash.c: insertion appends
  one record, an interrupted insertion leaves the old ones, deletion removes one, selection by
  key finds exactly the records with the key.
\<close>

unbundle bit_operations_syntax

subsection \<open>Deletion\<close>

lemma walk_suffix:
  "length c' = length c \<Longrightarrow> drop j c' = drop j c \<Longrightarrow> rdb_walk c' j = rdb_walk c j"
proof (induction c j rule: rdb_walk.induct)
  case (1 c j)
  have drops: "drop (j + n) c' = drop (j + n) c" for n
    using arg_cong [OF 1(5), of "drop n"] by (simp add: add.commute)
  have h: "hdr_in c' j = hdr_in c j" using 1(5) by (simp add: hdr_in_def)
  have n: "rec_next c' j = rec_next c j" by (simp add: rec_next_def h 1(4))
  show ?case
  proof (cases "j + 4 > length c \<or> hdr_empty (hdr_in c j)")
    case True
    then show ?thesis using h 1(4) by (simp add: rdb_walk.simps [of c j] rdb_walk.simps [of c' j])
  next
    case False
    have rn: "drop (rec_next c j) c' = drop (rec_next c j) c"
      using drops [of "rec_next c j - j"] False by (simp add: rec_next_def)
    have "drop (j + 4 + unat (h_key_len (hdr_in c j))) c' = drop (j + 4 + unat (h_key_len (hdr_in c j))) c"
      using drops [of "4 + unat (h_key_len (hdr_in c j))"] by (simp add: add.assoc)
    then show ?thesis
      using 1 False rn drops [of 4] by (simp add: rdb_walk.simps [of c j] rdb_walk.simps [of c' j] h n)
  qed
qed

lemma walk_from: "x \<in> set (fst (rdb_walk c n)) \<Longrightarrow> n \<le> fst x"
proof (induction c n rule: rdb_walk.induct)
  case (1 c n)
  have "n \<le> rec_next c n" if "n + 4 \<le> length c" using that by (simp add: rec_next_def)
  then show ?case using 1 by (subst (asm) (4) rdb_walk.simps) (fastforce split: if_splits prod.splits)
qed

text \<open>A content is walked the same up to a valid record when only later bytes differ.\<close>

lemma walk_split:
  assumes "rdb_walk c j = (rs, e)" "(i, k, d) \<in> set rs" "length c' = length c" "take i c' = take i c"
  shows "\<exists>rs1 rs2. rs = rs1 @ (i, k, d) # rs2 \<and> rdb_walk c i = ((i, k, d) # rs2, e) \<and> i \<notin> fst ` set rs1 \<and>
     rdb_walk c' j = (rs1 @ fst (rdb_walk c' i), snd (rdb_walk c' i)) \<and> j \<le> i \<and> i + 4 \<le> length c"
  using assms
proof (induction c j arbitrary: rs rule: rdb_walk.induct)
  case (1 c j)
  have ne: "\<not> (j + 4 > length c \<or> hdr_empty (hdr_in c j))"
    using 1(4,5) by (auto simp: rdb_walk.simps [of c j])
  show ?case
  proof (cases "hdr_partial (hdr_in c j) \<or> hdr_dead (hdr_in c j)")
    case True
    define n where "n = (if hdr_partial (hdr_in c j) then j + 4 else rec_next c j)"
    have w: "rdb_walk c j = rdb_walk c n" using ne True by (auto simp: n_def rdb_walk.simps [of c j])
    have "\<exists>rs1 rs2. rs = rs1 @ (i, k, d) # rs2 \<and> rdb_walk c i = ((i, k, d) # rs2, e) \<and> i \<notin> fst ` set rs1 \<and>
       rdb_walk c' n = (rs1 @ fst (rdb_walk c' i), snd (rdb_walk c' i)) \<and> n \<le> i \<and> i + 4 \<le> length c"
    proof (cases "hdr_partial (hdr_in c j)")
      case True
      then show ?thesis using 1(1) [OF ne True, of rs] 1(4-) w by (simp add: n_def)
    next
      case False
      then show ?thesis using 1(2) [OF ne False, of rs] True 1(4-) w by (simp add: n_def)
    qed
    then obtain rs1 rs2 where r: "rs = rs1 @ (i, k, d) # rs2" "rdb_walk c i = ((i, k, d) # rs2, e)" "i \<notin> fst ` set rs1"
       "rdb_walk c' n = (rs1 @ fst (rdb_walk c' i), snd (rdb_walk c' i))" "n \<le> i" "i + 4 \<le> length c" by blast
    have j4: "j + 4 \<le> n" using ne by (auto simp: n_def rec_next_def)
    have h: "hdr_in c' j = hdr_in c j" unfolding hdr_in_def using slice_cong [OF 1(7), of j 4] j4 r(5) by simp
    have "rec_next c' j = rec_next c j" by (simp add: rec_next_def h 1(6))
    then have "rdb_walk c' j = rdb_walk c' n"
      using ne True h 1(6) by (auto simp: n_def rdb_walk.simps [of c' j])
    then show ?thesis using r j4 by (intro exI [of _ rs1] exI [of _ rs2]) simp
  next
    case False
    let ?k = "take (unat (h_key_len (hdr_in c j))) (drop (j + 4) c)"
    let ?d = "take (unat (h_data_len (hdr_in c j))) (drop (j + 4 + unat (h_key_len (hdr_in c j))) c)"
    obtain rs0 where w: "rdb_walk c (rec_next c j) = (rs0, e)" "rs = (j, ?k, ?d) # rs0"
      using 1(4) ne False by (auto simp: rdb_walk.simps [of c j] split: prod.splits)
    have ge: "x \<in> set rs0 \<Longrightarrow> rec_next c j \<le> fst x" for x
      using walk_from [of x c "rec_next c j"] w(1) by simp
    have j4: "j + 4 \<le> rec_next c j" using ne by (simp add: rec_next_def)
    show ?thesis
    proof (cases "i = j")
      case True
      then have "(i, k, d) = (j, ?k, ?d)" using 1(5) w(2) ge [of "(i, k, d)"] j4 by auto
      then show ?thesis using 1(4) w ne by (intro exI [of _ "[]"] exI [of _ rs0]) auto
    next
      case ij: False
      then have "(i, k, d) \<in> set rs0" using 1(5) w(2) by auto
      then obtain rs1 rs2 where r: "rs0 = rs1 @ (i, k, d) # rs2" "rdb_walk c i = ((i, k, d) # rs2, e)" "i \<notin> fst ` set rs1"
         "rdb_walk c' (rec_next c j) = (rs1 @ fst (rdb_walk c' i), snd (rdb_walk c' i))" "rec_next c j \<le> i" "i + 4 \<le> length c"
        using 1(3) [OF ne _ _ w(1)] False 1(6,7) by auto
      have h: "hdr_in c' j = hdr_in c j" unfolding hdr_in_def using slice_cong [OF 1(7), of j 4] j4 r(5) by simp
      have n: "rec_next c' j = rec_next c j" by (simp add: rec_next_def h 1(6))
      have full: "j + 4 + unat (h_key_len (hdr_in c j)) + unat (h_data_len (hdr_in c j)) \<le> i"
        using r(5,6) by (simp add: rec_next_def)
      have "take (unat (h_key_len (hdr_in c j))) (drop (j + 4) c') = ?k"
        "take (unat (h_data_len (hdr_in c j))) (drop (j + 4 + unat (h_key_len (hdr_in c j))) c') = ?d"
        using full by (intro slice_cong [OF 1(7)]; simp)+
      then have "rdb_walk c' j = ((j, ?k, ?d) # rs1 @ fst (rdb_walk c' i), snd (rdb_walk c' i))"
        using ne False 1(6) r(4) by (simp add: rdb_walk.simps [of c' j] h n)
      then show ?thesis using r w(2) j4 ij by (intro exI [of _ "(j, ?k, ?d) # rs1"] exI [of _ rs2]) auto
    qed
  qed
qed


lemma hdr_bytes_of: "length bs = 4 \<Longrightarrow> rdb_hdr_bytes (rdb_hdr_of bs) = bs"
  by (auto simp: rdb_hdr_bytes_def rdb_hdr_of_def le16_get numeral_eq_Suc length_Suc_conv)

lemma erased_flags:
  "FLAG_SET (x AND NOT RDB_FLAG_ERASED) RDB_FLAG_ERASED"
  "FLAG_SET (x AND NOT RDB_FLAG_ERASED) RDB_FLAG_WRITTEN = FLAG_SET x RDB_FLAG_WRITTEN"
  "FLAG_SET (x AND NOT RDB_FLAG_ERASED) RDB_FLAG_HEADER_WRITTEN = FLAG_SET x RDB_FLAG_HEADER_WRITTEN"
  "x AND NOT RDB_FLAG_ERASED \<noteq> 0xFF"
proof -
  show "FLAG_SET (x AND NOT RDB_FLAG_ERASED) RDB_FLAG_ERASED"
    by (simp add: FLAG_SET_def and.assoc)
  then show "x AND NOT RDB_FLAG_ERASED \<noteq> 0xFF" by (auto simp: FLAG_SET_def RDB_FLAG_ERASED_def)
  have "NOT (4 :: u8) AND 1 = 1" "NOT (4 :: u8) AND 2 = 2" by simp_all
  then show "FLAG_SET (x AND NOT RDB_FLAG_ERASED) RDB_FLAG_WRITTEN = FLAG_SET x RDB_FLAG_WRITTEN"
    "FLAG_SET (x AND NOT RDB_FLAG_ERASED) RDB_FLAG_HEADER_WRITTEN = FLAG_SET x RDB_FLAG_HEADER_WRITTEN"
    unfolding FLAG_SET_def RDB_FLAG_ERASED_def RDB_FLAG_WRITTEN_def RDB_FLAG_HEADER_WRITTEN_def and.assoc by (simp_all only:)
qed

lemma walk_erase:
  assumes w: "rdb_walk c 0 = (rs, e)" and mem: "(i, k, d) \<in> set rs"
    and c': "c' = take i c @ rdb_hdr_bytes ((hdr_in c i)\<lparr>h_flags := h_flags (hdr_in c i) AND NOT RDB_FLAG_ERASED\<rparr>) @ drop (i + 4) c"
  shows "rdb_walk c' 0 = (filter (\<lambda>r. fst r \<noteq> i) rs, e)" "i + 4 \<le> length c"
proof -
  define h' where "h' = (hdr_in c i)\<lparr>h_flags := h_flags (hdr_in c i) AND NOT RDB_FLAG_ERASED\<rparr>"
  have "i + 4 \<le> length c" using walk_split [OF w mem, of c] by blast
  then have len: "length c' = length c" and pre: "take i c' = take i c" and post: "drop (i + 4) c' = drop (i + 4) c"
    by (simp_all add: c')
  obtain rs1 rs2 where r: "rs = rs1 @ (i, k, d) # rs2" "rdb_walk c i = ((i, k, d) # rs2, e)" "i \<notin> fst ` set rs1"
     "rdb_walk c' 0 = (rs1 @ fst (rdb_walk c' i), snd (rdb_walk c' i))" "i + 4 \<le> length c"
    using walk_split [OF w mem len pre] by blast
  have hi: "hdr_in c' i = h'" using hdr_in_append [of "take i c" h' "drop (i + 4) c"] r(5) by (simp add: c' h'_def min_absorb2)
  obtain ne: "\<not> (i + 4 > length c \<or> hdr_empty (hdr_in c i))" "\<not> hdr_partial (hdr_in c i) \<and> \<not> hdr_dead (hdr_in c i)"
    and w2: "rdb_walk c (rec_next c i) = (rs2, e)"
  proof -
    have ne: "\<not> (i + 4 > length c \<or> hdr_empty (hdr_in c i))" using r(2) by (auto simp: rdb_walk.simps [of c i])
    have "n \<noteq> i" if "rdb_walk c n = ((i, k, d) # rs2, e)" "i + 4 \<le> n" for n
      using walk_from [of "(i, k, d)" c n] that by simp
    then have v: "\<not> hdr_partial (hdr_in c i) \<and> \<not> hdr_dead (hdr_in c i)"
      using r(2) ne walk_from [of "(i, k, d)" c "i + 4"] walk_from [of "(i, k, d)" c "rec_next c i"]
      by (auto simp: rdb_walk.simps [of c i] rec_next_def split: if_splits)
    then show ?thesis using that ne r(2) by (auto simp: rdb_walk.simps [of c i] split: prod.splits)
  qed
  have dead: "\<not> hdr_empty h'" "\<not> hdr_partial h'" "hdr_dead h'"
    using ne by (simp_all add: h'_def hdr_empty_def hdr_partial_def hdr_dead_def erased_flags)
  have rn: "rec_next c' i = rec_next c i" by (simp add: rec_next_def hi len h'_def)
  have "drop (rec_next c i) c' = drop (rec_next c i) c"
    using arg_cong [OF post, of "drop (rec_next c i - (i + 4))"] r(5) by (simp add: rec_next_def)
  then have "rdb_walk c' i = (rs2, e)"
    using dead r(5) w2 walk_suffix [OF len, of "rec_next c i"] by (simp add: rdb_walk.simps [of c' i] hi rn len)
  moreover have "filter (\<lambda>r. fst r \<noteq> i) rs2 = rs2"
  proof (rule filter_True)
    show "\<forall>x \<in> set rs2. fst x \<noteq> i" using walk_from [of _ c "rec_next c i"] w2 r(5) by (fastforce simp: rec_next_def)
  qed
  moreover have "filter (\<lambda>r. fst r \<noteq> i) rs1 = rs1" using r(3) by (intro filter_True) force
  ultimately show "rdb_walk c' 0 = (filter (\<lambda>r. fst r \<noteq> i) rs, e)" using r(1,4) by simp
  show "i + 4 \<le> length c" by fact
qed

context fs_platform begin

lemma delete_steps:
  assumes at: "fd_at p (fs_flash s) f i (it_fd it)" and w: "rdb_walk (fcontent p (fs_flash s) f) 0 = (rs, e)"
    and mem: "(i, k, d) \<in> set rs"
  shows "\<exists>m. rdb_delete p s it = Some (Blob_Success, s\<lparr>fs_flash := m\<rparr>) \<and> content_ok p m f \<and>
    rdb_walk (fcontent p m f) 0 = (filter (\<lambda>r. fst r \<noteq> i) rs, e) \<and> file_frame p f (fs_flash s) m \<and>
    fcontent p m f = take i (fcontent p (fs_flash s) f) @ rdb_hdr_bytes ((hdr_in (fcontent p (fs_flash s) f) i)\<lparr>h_flags :=
      h_flags (hdr_in (fcontent p (fs_flash s) f) i) AND NOT RDB_FLAG_ERASED\<rparr>) @ drop (i + 4) (fcontent p (fs_flash s) f)"
proof -
  let ?c = "fcontent p (fs_flash s) f"
  define h' where "h' = (hdr_in ?c i)\<lparr>h_flags := h_flags (hdr_in ?c i) AND NOT RDB_FLAG_ERASED\<rparr>"
  note we = walk_erase [OF w mem refl]
  have n4: "unat (word_of_nat SIZEOF_RDB_HDR :: u32) = 4" by (simp add: SIZEOF_RDB_HDR_def)
  have "4 = min (unat (word_of_nat SIZEOF_RDB_HDR :: u32)) (unat (fsize f) - i)" using we(2) n4 by simp
  from at_read [OF at this, of "p_local p"] obtain fd' where rd:
    "fs_read p (fs_flash s) (it_fd it) (p_local p) (word_of_nat SIZEOF_RDB_HDR) = Some (word_of_nat 4, fd', take 4 (drop i ?c))"
    by auto
  obtain fd2 m where pt: "rdb_put p s (it_fd it) (rdb_hdr_bytes h') = Some (True, fd2, s\<lparr>fs_flash := m\<rparr>)"
     "fcontent p m f = overlay ?c i (rdb_hdr_bytes h')" "\<forall>j fd. fd_at p (fs_flash s) f j fd \<longrightarrow> fd_at p m f j fd" "file_frame p f (fs_flash s) m"
    using at_put [OF at, of "rdb_hdr_bytes h'"] we(2) by auto
  have "take 4 (drop i ?c) = rdb_hdr_bytes (hdr_in ?c i)" using we(2) by (simp add: hdr_in_def hdr_bytes_of)
  moreover have "map2 (AND) (rdb_hdr_bytes (hdr_in ?c i)) (rdb_hdr_bytes h') = rdb_hdr_bytes h'"
    using hdr_bytes_and [of "hdr_in ?c i" "h_flags h'"] by (simp add: h'_def and.assoc [symmetric])
  ultimately have c': "fcontent p m f = take i ?c @ rdb_hdr_bytes h' @ drop (i + 4) ?c"
    by (simp add: pt(2) overlay_def)
  then have "rdb_walk (fcontent p m f) 0 = (filter (\<lambda>r. fst r \<noteq> i) rs, e)" using we(1) by (simp add: h'_def)
  moreover have "rdb_delete p s it = Some (Blob_Success, s\<lparr>fs_flash := m\<rparr>)"
    using rd pt(1) by (simp add: rdb_delete_def SIZEOF_RDB_HDR_def Let_def hdr_in_def h'_def)
  moreover have "content_ok p m f" using pt(3) at by (auto simp: fd_at_def)
  ultimately show ?thesis using pt(4) c' unfolding h'_def by blast
qed

end

subsection \<open>A small file system with one database file\<close>

definition ex_db :: rdb_database where
  "ex_db = \<lparr> db_id = 129, db_filename = ascii ''rebble/prefs'', def_db_size = 8192, db_locked = True \<rparr>"

definition ex_name :: bytes where
  "ex_name = [114, 101, 98, 98, 108, 101, 47, 112, 114, 101, 102, 115]"

lemma ex_db_name: "db_filename ex_db = ex_name"
  by (simp add: ex_db_def ascii_def ex_name_def)

text \<open>A file of 128 bytes named \<open>nm\<close> in the first page, the only page of the scanned file system in use; its content
  is \<open>lg\<close> and erased flash.\<close>

definition ex_file_hdr :: "bytes \<Rightarrow> fs_file_hdr" where
  "ex_file_hdr nm = fs_page_hdr.extend \<lparr> v_0x5001 = 0x5001, empty = 0xFE, status = 0xFA, rsvd_0 = 0xFFFFFFFF, wear_level_counter = 1,
      rsvd_1 = 0xFFFFFFFF, rsvd_2 = 0xFFFFFFFF, rsvd_3 = 0xFF, next_page_crc = 0xFF, next_page = 0xFFFF, pagehdr_crc = 0 \<rparr>
     (fs_file_hdr.fields 128 0xFE (word_of_nat (length nm)) 0xFFFF 0xFFFFFFFF 0 0 0 0xFFFF (replicate 26 0xFF))"

definition ex_page :: "bytes \<Rightarrow> bytes" where
  "ex_page nm = file_hdr_bytes (ex_file_hdr nm) @ nm"

definition ex_fsys :: "bytes \<Rightarrow> bytes \<Rightarrow> fs" where
  "ex_fsys nm lg = \<lparr> fs_flash = mwrite (\<lambda>_. 0xFF) 0x400000 (ex_page nm @ lg), fs_valid = True, fs_lastpg = 0, fs_best_erase_count = 1,
     fs_last_allocated_page = 0, fs_free_pages = 1535, fs_page_flags = 0x40 # replicate 383 0, gc_sector = -1 \<rparr>"

definition ex_file_named :: "bytes \<Rightarrow> fs_file" where
  "ex_file_named nm = \<lparr> flags = FILE_HAS_DIRENT, startpage = 0, startpofs = 76 + word_of_nat (length nm), fsize = 128 \<rparr>"

definition ex_named :: "bytes \<Rightarrow> bool" where
  "ex_named nm \<longleftrightarrow> length nm \<le> 32 \<and> 0 \<notin> set nm"

lemma ex_file_hdr_fields: "length (v_full (ex_file_hdr nm)) = 26" "filename_len (ex_file_hdr nm) = word_of_nat (length nm)"
  "st_tmp_file (ex_file_hdr nm) = 0" "file_size (ex_file_hdr nm) = 128"
  by (simp_all add: ex_file_hdr_def fs_page_hdr.defs fs_file_hdr.defs)

lemma ex_page_length: "length (ex_page nm) = 76 + length nm"
  using ex_file_hdr_fields(1) [of nm] by (simp add: ex_page_def)

lemma file_hdr_of_bytes: "length (v_full h) = 26 \<Longrightarrow> file_hdr_of (file_hdr_bytes h @ xs) = h"
  by (simp add: file_hdr_of_def file_hdr_bytes_def page_hdr_of_bytes file_hdr_tail_def nth_append get16_def get32_def
      le16_def le32_def get16_le16 get32_le32 fs_page_hdr.defs fs_file_hdr.defs)

lemma c_string_cut:
  assumes "n < length xs"
  shows "c_string (xs[n := 0]) = c_string (take n xs)"
proof -
  have "xs[n := 0] = take n xs @ 0 # drop (Suc n) xs" using assms by (simp add: upd_conv_take_nth_drop)
  then show ?thesis by (auto simp: c_string_def takeWhile_append takeWhile_eq_all_conv [THEN iffD2])
qed

lemma ex_name_len: "ex_named nm \<Longrightarrow> unat (word_of_nat (length nm) :: u8) = length nm"
  by (simp add: ex_named_def unat_of_nat)

lemma ex_read_hdr: "ex_named nm \<Longrightarrow> fs_read_file_hdr (snowy_plat nor_ideal) (ex_fsys nm lg) 0 = Some (ex_file_hdr nm, nm)"
proof -
  assume nm: "ex_named nm"
  let ?m = "fs_flash (ex_fsys nm lg)"
  have rd: "fs_read_page_ofs (snowy_plat nor_ideal) ?m (word_of_int 0) 0 (p_local (snowy_plat nor_ideal)) 112 = Some (mread ?m 0x400000 112)"
    using snowy_fs.page_read [of 0 0 112 ?m "p_local (snowy_plat nor_ideal)"] by (simp add: fs_addr_def)
  define ys where "ys = mread ?m (0x400000 + (76 + length nm)) (36 - length nm)"
  have "mread (mwrite (\<lambda>_. 0xFF) 0x400000 (ex_page nm @ lg)) 0x400000 (76 + length nm) = ex_page nm"
    by (rule nth_equalityI) (simp_all add: ex_page_length mwrite_def nth_append)
  then have m: "mread ?m 0x400000 112 = file_hdr_bytes (ex_file_hdr nm) @ nm @ ys"
    using mread_add [of ?m "0x400000" "76 + length nm" "36 - length nm"] nm by (simp add: ex_fsys_def ys_def ex_named_def) (simp add: ex_page_def)
  note vf = ex_file_hdr_fields(1) [of nm]
  have hd: "file_hdr_of (file_hdr_bytes (ex_file_hdr nm) @ nm @ ys) = ex_file_hdr nm" by (rule file_hdr_of_bytes [OF vf])
  have n: "unat (filename_len (ex_file_hdr nm)) = length nm" using nm by (simp add: ex_file_hdr_fields ex_name_len)
  have yl: "length ys = 36 - length nm" by (simp add: ys_def)
  have t: "take (MAX_FILENAME_LEN + 1) (drop SIZEOF_FILE_HDR (file_hdr_bytes (ex_file_hdr nm) @ nm @ ys)) = nm @ take (33 - length nm) ys"
    unfolding MAX_FILENAME_LEN_def SIZEOF_FILE_HDR_def using vf nm by (simp add: ex_named_def)
  have c: "c_string ((nm @ take (33 - length nm) ys)[length nm := 0]) = nm"
    using nm yl by (subst c_string_cut) (auto simp: ex_named_def c_string_def takeWhile_eq_all_conv)
  show ?thesis
    unfolding fs_read_file_hdr_def rd m Option.bind.bind_lunit Let_def hd t n using c nm by (simp add: MAX_FILENAME_LEN_def ex_named_def)
qed

lemma ex_fsys_find: "ex_named nm \<Longrightarrow> fs_find_file (snowy_plat nor_ideal) (ex_fsys nm lg) nm = Some (Some (ex_file_named nm))"
proof -
  assume nm: "ex_named nm"
  have lp: "fs_lastpg (ex_fsys nm lg) = 0" "fs_valid (ex_fsys nm lg)" by (simp_all add: ex_fsys_def)
  have st: "fs_get_page_state (ex_fsys nm lg) 0 = Some PageStateFileStart"
    by (simp add: fs_get_page_state_def ex_fsys_def pg_index get_page_flags_def pg_offset_def page_state_of_def)
  have "unat (ucast (word_of_nat (length nm) :: u8) :: u32) = unat (word_of_nat (length nm) :: u32)"
    using ex_name_len [OF nm] nm by (simp only: unat_ucast_u8) (simp add: ex_named_def unat_of_nat)
  then have len: "ucast (word_of_nat (length nm) :: u8) = (word_of_nat (length nm) :: u32)" by (simp only: word_unat_eq_iff)
  then show ?thesis unfolding fs_find_file_def
    by (subst fs_find_loop.simps)
      (simp add: lp st ex_read_hdr nm ex_file_hdr_fields ex_file_named_def SIZEOF_FILE_HDR_def len)
qed

lemma ex_file_start: "ex_named nm \<Longrightarrow> unat (76 + word_of_nat (length nm) :: u32) = 76 + length nm"
proof -
  assume nm: "ex_named nm"
  then have "unat (word_of_nat (76 + length nm) :: u32) = 76 + length nm" by (subst unat_of_nat) (simp add: ex_named_def)
  then show ?thesis by simp
qed

lemma ex_fsys_addrs: "ex_named nm \<Longrightarrow> fs_addrs (snowy_plat nor_ideal) m (ex_file_named nm) 0 128 = [0x40004C + length nm..<0x4000CC + length nm]"
  using snowy_fs.run_in_page [of "76 + word_of_nat (length nm)" 128 m 0] ex_file_start [of nm]
  by (simp add: fs_addrs_def fs_start_def ex_file_named_def fs_addr_def ex_named_def)

lemma ex_file_size: "unat (fsize (ex_file_named nm)) = 128" by (simp add: ex_file_named_def)

lemma ex_fsys_content:
  assumes nm: "ex_named nm" and lg: "length lg \<le> 128"
  shows "fcontent (snowy_plat nor_ideal) (fs_flash (ex_fsys nm lg)) (ex_file_named nm) = lg @ replicate (128 - length lg) 0xFF"
proof -
  have "map (fs_flash (ex_fsys nm lg)) [0x40004C + length nm..<0x4000CC + length nm] = lg @ replicate (128 - length lg) 0xFF" (is "?l = ?r")
  proof (rule nth_equalityI)
    show "length ?l = length ?r" using lg by (simp only: length_map length_upt length_append length_replicate)
    show "?l ! i = ?r ! i" if "i < length ?l" for i
    proof -
      have i: "i < 128" using that by (simp only: length_map length_upt)
      then have "?l ! i = fs_flash (ex_fsys nm lg) (0x40004C + length nm + i)"
        by (subst nth_map) (simp add: length_upt del: upt_conv_Cons_Cons, subst nth_upt, simp_all del: upt.simps)
      then show ?thesis using i lg by (simp add: ex_fsys_def mwrite_def ex_page_length nth_append)
    qed
  qed
  then show ?thesis by (simp only: fcontent_def ex_fsys_addrs [OF nm] ex_file_size)
qed

lemma ex_fsys_ok: "ex_named nm \<Longrightarrow> content_ok (snowy_plat nor_ideal) (fs_flash (ex_fsys nm lg)) (ex_file_named nm)"
proof -
  assume nm: "ex_named nm"
  then have l: "length nm \<le> 32" by (simp add: ex_named_def)
  have "fst (fs_walk (snowy_plat nor_ideal) (fs_flash (ex_fsys nm lg)) (0, 76 + word_of_nat (length nm)) k) = 0" if "k < 128" for k
    using snowy_fs.walk_in_page [of "76 + word_of_nat (length nm)" k "fs_flash (ex_fsys nm lg)" 0] that l ex_file_start [OF nm] by (cases "k = 0") auto
  then have "file_ok (snowy_plat nor_ideal) (fs_flash (ex_fsys nm lg)) (ex_file_named nm)"
    using ex_file_start [OF nm] l
    by (simp add: file_ok_def fs_inpage_def fs_start_def fs_pages_ok_def ex_file_named_def SIZEOF_PAGE_HDR_def word_less_nat_alt
        FILE_HAS_DIRENT_def FILE_IS_RAW_FLASH_def)
  then show ?thesis by (simp only: content_ok_def ex_fsys_addrs [OF nm] ex_file_size) simp
qed

text \<open>The preferences database.\<close>

definition ex_dbfs :: "bytes \<Rightarrow> fs" where
  "ex_dbfs = ex_fsys ex_name"

definition ex_dbfile :: fs_file where
  "ex_dbfile = ex_file_named ex_name"

lemma ex_name_named: "ex_named ex_name"
  by (simp add: ex_named_def ex_name_def)

lemma ex_find: "fs_find_file (snowy_plat nor_ideal) (ex_dbfs lg) (db_filename ex_db) = Some (Some ex_dbfile)"
  unfolding ex_db_name ex_dbfs_def ex_dbfile_def by (rule ex_fsys_find [OF ex_name_named])

lemma ex_db_content:
  "length lg \<le> 128 \<Longrightarrow> fcontent (snowy_plat nor_ideal) (fs_flash (ex_dbfs lg)) ex_dbfile = lg @ replicate (128 - length lg) 0xFF"
  unfolding ex_dbfs_def ex_dbfile_def by (rule ex_fsys_content [OF ex_name_named])

lemma ex_db_ok: "content_ok (snowy_plat nor_ideal) (fs_flash (ex_dbfs lg)) ex_dbfile"
  unfolding ex_dbfs_def ex_dbfile_def by (rule ex_fsys_ok [OF ex_name_named])

text \<open>C16: \<open>rdb_insert\<close> of a key that is not in the database, with room left: it succeeds, and the
  records of the file are then the old ones followed by the new one, whole.\<close>

theorem rdb_insert_appends:
  assumes "db_locked db" "fs_find_file (snowy_plat nor_ideal) s (db_filename db) = Some (Some f)"
    and "content_ok (snowy_plat nor_ideal) (fs_flash s) f"
    and "rdb_walk (fcontent (snowy_plat nor_ideal) (fs_flash s) f) 0 = (rs, e)"
    and "log_without (fcontent (snowy_plat nor_ideal) (fs_flash s) f) rs key"
    and "drop e (fcontent (snowy_plat nor_ideal) (fs_flash s) f) = replicate n 0xFF"
    and "4 + length key + length data \<le> n" "length key < 256" "length data < 0x10000"
  shows "\<exists>s'. rdb_insert (snowy_plat nor_ideal) s db it0 key data = Some (Blob_Success, s') \<and>
    fst (rdb_walk (fcontent (snowy_plat nor_ideal) (fs_flash s') f) 0) = rs @ [(e, key, data)] \<and>
    content_ok (snowy_plat nor_ideal) (fs_flash s') f"
  using snowy_fs.insert_steps [OF assms, of it0] by blast

lemma ex_db_walk: "rdb_walk (fcontent (snowy_plat nor_ideal) (fs_flash (ex_dbfs [])) ex_dbfile) 0 = ([], 0)"
  using walk_blank [of 0 "replicate 128 0xFF" 128] by (simp add: ex_db_content [of "[]", simplified])

definition ex_it :: rdb_iter where
  "ex_it = \<lparr> it_fd = fs_open ex_dbfile, it_key_len = 0, it_data_len = 0 \<rparr>"

theorem rdb_insert_appends_witness:
  "\<exists>s'. rdb_insert (snowy_plat nor_ideal) (ex_dbfs []) ex_db ex_it [1, 2] [7, 8, 9] = Some (Blob_Success, s') \<and>
    fst (rdb_walk (fcontent (snowy_plat nor_ideal) (fs_flash s') ex_dbfile) 0) = [(0, [1, 2], [7, 8, 9])]"
  using rdb_insert_appends [OF _ ex_find ex_db_ok ex_db_walk, of "[1, 2]" 128 "[7, 8, 9]" ex_it]
  by (auto simp: ex_db_content [of "[]", simplified] log_without_def) (auto simp: ex_db_def)

text \<open>C3: an insertion cut off by a power failure. Run \<open>rdb_insert\<close> with a log of the states, places and bytes of its calls of
  \<open>fs_write\<close>, for a new key and with room that needs no collection. If the power fails before one of those writes or after any
  first part of its bytes, then the file has exactly the old records, or its bytes are those the finished insertion leaves; so the new
  record is there only when it is there whole, and no old one is lost. Lengths of key and data that make the header look erased are
  excepted.\<close>

theorem rdb_insert_interrupted:
  assumes "db_locked db" "fs_find_file (snowy_plat nor_ideal) s (db_filename db) = Some (Some f)"
    and "content_ok (snowy_plat nor_ideal) (fs_flash s) f"
    and "rdb_walk (fcontent (snowy_plat nor_ideal) (fs_flash s) f) 0 = (rs, e)"
    and "log_without (fcontent (snowy_plat nor_ideal) (fs_flash s) f) rs key"
    and "drop e (fcontent (snowy_plat nor_ideal) (fs_flash s) f) = replicate n 0xFF"
    and "4 + length key + length data \<le> n" "length key < 256" "length data < 0x10000"
    and "length key \<noteq> 0xFF \<or> (length data \<noteq> 0xFF \<and> length data \<noteq> 0xFFFF)"
  shows "\<exists>log s'. rdb_insert (snowy_plat nor_ideal) s db it0 key data = Some (Blob_Success, s') \<and>
    rdb_insert_on (rdb_logged (snowy_plat nor_ideal)) (snowy_plat nor_ideal) (s, []) db it0 key data = Some (Blob_Success, s', log) \<and>
    fst (rdb_walk (fcontent (snowy_plat nor_ideal) (fs_flash s') f) 0) = rs @ [(e, key, data)] \<and>
    (\<forall>t. cut_off (snowy_plat nor_ideal) log t \<longrightarrow>
       fst (rdb_walk (fcontent (snowy_plat nor_ideal) (fs_flash t) f) 0) = rs \<or>
       fcontent (snowy_plat nor_ideal) (fs_flash t) f = fcontent (snowy_plat nor_ideal) (fs_flash s') f)"
  using snowy_fs.insert_steps [OF assms(1-9), of it0] assms(10) by blast

theorem rdb_insert_interrupted_witness:
  "\<exists>log s'. rdb_insert_on (rdb_logged (snowy_plat nor_ideal)) (snowy_plat nor_ideal) (ex_dbfs [], []) ex_db ex_it [1, 2] [7, 8, 9]
      = Some (Blob_Success, s', log) \<and>
    (\<forall>t. cut_off (snowy_plat nor_ideal) log t \<longrightarrow>
       fst (rdb_walk (fcontent (snowy_plat nor_ideal) (fs_flash t) ex_dbfile) 0) \<in> {[], [(0, [1, 2], [7, 8, 9])]})"
proof -
  have "db_locked ex_db" by (simp add: ex_db_def)
  moreover have "log_without (fcontent (snowy_plat nor_ideal) (fs_flash (ex_dbfs [])) ex_dbfile) [] [1, 2]" by (simp add: log_without_def)
  moreover have "drop 0 (fcontent (snowy_plat nor_ideal) (fs_flash (ex_dbfs [])) ex_dbfile) = replicate 128 0xFF" by (simp only: ex_db_content [of "[]", simplified] drop_0)
  ultimately obtain log s' where
    "rdb_insert_on (rdb_logged (snowy_plat nor_ideal)) (snowy_plat nor_ideal) (ex_dbfs [], []) ex_db ex_it [1, 2] [7, 8, 9] = Some (Blob_Success, s', log)"
    "fst (rdb_walk (fcontent (snowy_plat nor_ideal) (fs_flash s') ex_dbfile) 0) = [(0, [1, 2], [7, 8, 9])]"
    "\<forall>t. cut_off (snowy_plat nor_ideal) log t \<longrightarrow> fst (rdb_walk (fcontent (snowy_plat nor_ideal) (fs_flash t) ex_dbfile) 0) = [] \<or>
       fcontent (snowy_plat nor_ideal) (fs_flash t) ex_dbfile = fcontent (snowy_plat nor_ideal) (fs_flash s') ex_dbfile"
    using rdb_insert_interrupted [of ex_db "ex_dbfs []" ex_dbfile "[]" 0 "[1, 2]" 128 "[7, 8, 9]" ex_it] ex_find ex_db_ok ex_db_walk by auto
  then show ?thesis by (metis insert_iff)
qed

text \<open>A log of two records with keys \<open>[1]\<close> and \<open>[2]\<close>.\<close>

definition ex_log :: bytes where
  "ex_log = rdb_hdr_bytes (new_hdr 0xFC [1] [7, 8]) @ [1, 7, 8] @ rdb_hdr_bytes (new_hdr 0xFC [2] [9]) @ [2, 9]"

lemma ex_log_bytes: "ex_log = [252, 1, 2, 0, 1, 7, 8, 252, 1, 1, 0, 2, 9]"
  by (simp add: ex_log_def new_hdr_def rdb_hdr_bytes_def le16_def)

lemma ex_log_content:
  "fcontent (snowy_plat nor_ideal) (fs_flash (ex_dbfs ex_log)) ex_dbfile = ex_log @ replicate 115 0xFF"
  using ex_db_content [of ex_log] by (simp add: ex_log_bytes)

lemma ex_log_hdrs: "hdr_in (ex_log @ replicate 115 0xFF) 0 = new_hdr 0xFC [1] [7, 8]"
  "hdr_in (ex_log @ replicate 115 0xFF) 7 = new_hdr 0xFC [2] [9]"
  by (simp_all add: hdr_in_def ex_log_bytes rdb_hdr_of_def get16_def new_hdr_def)

lemma ex_log_walk: "rdb_walk (ex_log @ replicate 115 0xFF) 0 = ([(0, [1], [7, 8]), (7, [2], [9])], 13)"
proof -
  have v: "\<not> hdr_empty (new_hdr 0xFC k d)" "\<not> hdr_partial (new_hdr 0xFC k d)" "\<not> hdr_dead (new_hdr 0xFC k d)" for k d
    by (simp_all add: new_hdr_def hdr_empty_def hdr_partial_def hdr_dead_def FLAG_SET_def RDB_FLAG_HEADER_WRITTEN_def
        RDB_FLAG_WRITTEN_def RDB_FLAG_ERASED_def)
  have l: "length ex_log = 13" by (simp add: ex_log_bytes)
  have r: "rec_next (ex_log @ replicate 115 0xFF) 0 = 7" "rec_next (ex_log @ replicate 115 0xFF) 7 = 13"
    by (simp_all add: rec_next_def ex_log_hdrs l) (simp_all add: new_hdr_def)
  have e: "rdb_walk (ex_log @ replicate 115 0xFF) 13 = ([], 13)" by (rule walk_blank [of _ _ 115]) (simp add: l)
  have w7: "rdb_walk (ex_log @ replicate 115 0xFF) 7 = ([(7, [2], [9])], 13)"
    by (subst rdb_walk.simps, unfold r e ex_log_hdrs) (simp add: v l, simp add: new_hdr_def ex_log_bytes)
  show ?thesis
    by (subst rdb_walk.simps, unfold r w7 ex_log_hdrs) (simp add: v l, simp add: new_hdr_def ex_log_bytes)
qed

text \<open>C17: \<open>rdb_delete\<close> of the record an iterator stands on removes that record and no other.\<close>

theorem rdb_delete_removes:
  assumes "fd_at (snowy_plat nor_ideal) (fs_flash s) f i (it_fd it)"
    and "rdb_walk (fcontent (snowy_plat nor_ideal) (fs_flash s) f) 0 = (rs, e)" "(i, k, d) \<in> set rs"
  shows "\<exists>s'. rdb_delete (snowy_plat nor_ideal) s it = Some (Blob_Success, s') \<and>
    rdb_walk (fcontent (snowy_plat nor_ideal) (fs_flash s') f) 0 = (filter (\<lambda>r. fst r \<noteq> i) rs, e)"
  using snowy_fs.delete_steps [OF assms] by auto

theorem rdb_delete_removes_witness:
  "\<exists>s'. rdb_delete (snowy_plat nor_ideal) (ex_dbfs ex_log) \<lparr> it_fd = fs_open ex_dbfile, it_key_len = 1, it_data_len = 2 \<rparr>
      = Some (Blob_Success, s') \<and>
    fst (rdb_walk (fcontent (snowy_plat nor_ideal) (fs_flash s') ex_dbfile) 0) = [(7, [2], [9])]"
proof -
  have w: "rdb_walk (fcontent (snowy_plat nor_ideal) (fs_flash (ex_dbfs ex_log)) ex_dbfile) 0 = ([(0, [1], [7, 8]), (7, [2], [9])], 13)"
    by (simp only: ex_log_content ex_log_walk)
  show ?thesis
    using rdb_delete_removes [OF _ w, of 0 "\<lparr> it_fd = fs_open ex_dbfile, it_key_len = 1, it_data_len = 2 \<rparr>" "[1]" "[7, 8]"]
      fd_at_open [OF ex_db_ok [of ex_log]] by auto
qed

text \<open>C15: selecting by key: starting an iterator on an open database file and running \<open>rdb_select\<close> with an
  equality on the key returns, as long as the heap has room, exactly the records with that key, in the order of the log, and
  reading the data of each result gives the record's data. For the empty key it returns nothing, whatever the file holds: the
  allocation of the key's copy is one of no bytes, which the heap answers with \<open>NULL\<close>. The calls end whatever the file holds.\<close>

theorem rdb_select_by_key:
  assumes "content_ok (snowy_plat nor_ideal) m f" "length key < 256"
    and "rdb_walk (fcontent (snowy_plat nor_ideal) m f) 0 = (rs, e)"
    and "log_whole (fcontent (snowy_plat nor_ideal) m f) rs"
  shows "\<exists>valid it out. rdb_iter_start_from_fd (snowy_plat nor_ideal) m (fs_open f) = Some (valid, it) \<and>
    rdb_select (snowy_plat nor_ideal) m heap_room it valid [] (key_selector key) = Some out \<and>
    map (\<lambda>r. map_option snd (rdb_iter_read_data (snowy_plat nor_ideal) m (res_it r) 0 (uint (it_data_len (res_it r))))) out
      = (if key = [] then [] else map (\<lambda>(i, k, d). Some d) (filter (\<lambda>(_, k, _). k = key) rs))"
proof -
  let ?p = "snowy_plat nor_ideal"
  let ?c = "fcontent ?p m f"
  obtain fd0 where fd0: "rdb_seek_valid ?p m (fs_open f) False = Some (fd0, snd (rdb_scan ?c 0 False))"
     "fd_at ?p m f (fst (rdb_scan ?c 0 False)) fd0"
    using snowy_fs.seek_valid [OF fd_at_open [OF assms(1)], of False] by auto
  obtain valid it where vi: "rdb_iter_at fd0 (snd (rdb_scan ?c 0 False)) = (valid, it)" by fastforce
  have st: "rdb_iter_start_from_fd ?p m (fs_open f) = Some (valid, it)"
    by (simp add: rdb_iter_start_from_fd_def fd0 vi)
  obtain out where out: "rdb_select ?p m heap_room it valid [] (key_selector key) = Some out"
    "list_all2 (rec_result ?p m f (\<lambda>_. [])) (if key = [] then [] else filter (\<lambda>(_, k, _). k = key) rs) out"
    using snowy_fs.select_key [OF assms(3,4,2) fd0(2) vi, of "[]"] by auto
  have rd: "map (\<lambda>r. map_option snd (rdb_iter_read_data ?p m (res_it r) 0 (uint (it_data_len (res_it r))))) out
      = map (\<lambda>(i, k, d). Some d) xs" if "list_all2 (rec_result ?p m f (\<lambda>_. [])) xs out" for xs
    using that by (induction rule: list_all2_induct) (auto simp: rec_result_def)
  from rd [OF out(2)] have "map (\<lambda>r. map_option snd (rdb_iter_read_data ?p m (res_it r) 0 (uint (it_data_len (res_it r))))) out
      = (if key = [] then [] else map (\<lambda>(i, k, d). Some d) (filter (\<lambda>(_, k, _). k = key) rs))" by simp
  then show ?thesis using st out(1) by blast
qed


theorem rdb_select_by_key_witness:
  "\<exists>valid it out. rdb_iter_start_from_fd (snowy_plat nor_ideal) (fs_flash (ex_dbfs ex_log)) (fs_open ex_dbfile) = Some (valid, it) \<and>
    rdb_select (snowy_plat nor_ideal) (fs_flash (ex_dbfs ex_log)) heap_room it valid [] (key_selector [2]) = Some out \<and>
    map (\<lambda>r. map_option snd (rdb_iter_read_data (snowy_plat nor_ideal) (fs_flash (ex_dbfs ex_log)) (res_it r) 0
        (uint (it_data_len (res_it r))))) out = [Some [9]]"
proof -
  have w: "rdb_walk (fcontent (snowy_plat nor_ideal) (fs_flash (ex_dbfs ex_log)) ex_dbfile) 0 = ([(0, [1], [7, 8]), (7, [2], [9])], 13)"
    by (simp only: ex_log_content ex_log_walk)
  have "log_whole (fcontent (snowy_plat nor_ideal) (fs_flash (ex_dbfs ex_log)) ex_dbfile) [(0, [1], [7, 8]), (7, [2], [9])]"
    by (simp add: log_whole_def ex_log_content ex_log_hdrs) (simp add: new_hdr_def)
  from rdb_select_by_key [OF ex_db_ok _ w this, of "[2]"] show ?thesis by simp
qed

text \<open>An inequality selects the records with an equal value.\<close>

lemma neq_selects_equal: "rdb_compare RDB_OP_NEQ = rdb_compare RDB_OP_EQ"
  by (simp add: rdb_compare_def fun_eq_iff)

end
