(* ===== verification/RdbUpdate.thy ===== *)
theory RdbUpdate
  imports RdbLaws
begin

section \<open>The record database as a map\<close>

text \<open>
  A database of rcore/rdb.c as a finite map from keys to data. First a frame: edits of the
  database file do not move the directory entry \<open>fs_find_file\<close> finds it by. Then each operation as
  an edit of the log of valid records, with the room left in the file counted: \<open>rdb_insert\<close>
  (a new key, and one that is there), \<open>rdb_delete\<close>, \<open>rdb_select\<close>, \<open>rdb_update\<close>. The locale \<open>kv_store\<close> is the
  interface the preferences and the persistent storage of apps use; it is interpreted on the database of the
  snowy platform.
\<close>

unbundle bit_operations_syntax

subsection \<open>The directory does not move\<close>

text \<open>The bytes a directory lookup depends on in the page at address \<open>a\<close>: the header and the name.\<close>

definition dir_extent :: "mem \<Rightarrow> nat \<Rightarrow> nat" where
  "dir_extent m a = SIZEOF_FILE_HDR + min MAX_FILENAME_LEN (unat (filename_len (file_hdr_of (mread m a 112))))"

lemma file_hdr_of_take: "76 \<le> length bs \<Longrightarrow> file_hdr_of (take 76 bs) = file_hdr_of bs"
proof -
  have "take 26 (drop 50 (take 76 bs)) = take 26 (drop 50 bs)" by (simp add: drop_take)
  then show ?thesis unfolding file_hdr_of_def page_hdr_of_def get16_def get32_def by simp
qed

lemma file_hdr_cong:
  assumes "\<And>x. a \<le> x \<Longrightarrow> x < a + dir_extent m a \<Longrightarrow> m' x = m x"
  shows "file_hdr_of (mread m' a 112) = file_hdr_of (mread m a 112)"
    and "n = min MAX_FILENAME_LEN (unat (filename_len (file_hdr_of (mread m a 112)))) \<Longrightarrow>
      c_string ((take 33 (drop 76 (mread m' a 112)))[n := 0]) = c_string ((take 33 (drop 76 (mread m a 112)))[n := 0])"
proof -
  have "mread m' a 76 = mread m a 76"
    by (rule mread_cong) (use assms in \<open>simp add: dir_extent_def SIZEOF_FILE_HDR_def\<close>)
  then show "file_hdr_of (mread m' a 112) = file_hdr_of (mread m a 112)"
    using file_hdr_of_take [of "mread m a 112"] file_hdr_of_take [of "mread m' a 112"] by (simp add: mread_take)
  assume n: "n = min MAX_FILENAME_LEN (unat (filename_len (file_hdr_of (mread m a 112))))"
  have "n < 33" by (simp add: n MAX_FILENAME_LEN_def)
  moreover have "mread m' (a + 76) n = mread m (a + 76) n"
    by (rule mread_cong) (use assms n in \<open>simp add: dir_extent_def SIZEOF_FILE_HDR_def add.assoc\<close>)
  ultimately show "c_string ((take 33 (drop 76 (mread m' a 112)))[n := 0]) = c_string ((take 33 (drop 76 (mread m a 112)))[n := 0])"
    by (subst (1 2) c_string_cut) (simp_all add: mread_drop mread_take min_absorb1)
qed

text \<open>No data of the file lies where the directory is.\<close>

definition dir_apart :: "plat \<Rightarrow> fs \<Rightarrow> fs_file \<Rightarrow> bool" where
  "dir_apart p s f \<longleftrightarrow> (\<forall>pg :: u16. uint pg \<le> fs_lastpg s \<longrightarrow> fs_get_page_state s (uint pg) = Some PageStateFileStart \<longrightarrow>
     unat pg < REGION_FS_N_PAGES p \<and>
     (\<forall>a \<in> set (fs_addrs p (fs_flash s) f 0 (unat (fsize f))). a < fs_addr p pg 0 \<or> fs_addr p pg 0 + dir_extent (fs_flash s) (fs_addr p pg 0) \<le> a))"

context fs_platform begin

lemma read_file_hdr_frame:
  assumes "unat pg < REGION_FS_N_PAGES p"
    and "\<And>x. fs_addr p pg 0 \<le> x \<Longrightarrow> x < fs_addr p pg 0 + dir_extent (fs_flash s) (fs_addr p pg 0) \<Longrightarrow> m x = fs_flash s x"
  shows "fs_read_file_hdr p (s\<lparr>fs_flash := m\<rparr>) (uint pg) = fs_read_file_hdr p s (uint pg)"
proof -
  have rd: "fs_read_page_ofs p m (ucast pg) 0 (p_local p) 112 = Some (mread m (fs_addr p pg 0) 112)" for m
    using page_read [OF assms(1), of 0 112 m "p_local p"] page_lo by simp
  have e: "(if MAX_FILENAME_LEN < k then MAX_FILENAME_LEN else k) = min MAX_FILENAME_LEN k" for k by simp
  show ?thesis
    unfolding fs_read_file_hdr_def using file_hdr_cong [of "fs_addr p pg 0" "fs_flash s" m, OF assms(2)]
    by (simp add: rd e SIZEOF_FILE_HDR_def Let_def) (simp add: MAX_FILENAME_LEN_def)
qed

lemma find_loop_frame:
  assumes "dir_apart p s f" "\<forall>a. a \<notin> set (fs_addrs p (fs_flash s) f 0 (unat (fsize f))) \<longrightarrow> m a = fs_flash s a"
    and "fs_find_loop p s name pg = Some r"
  shows "fs_find_loop p (s\<lparr>fs_flash := m\<rparr>) name pg = Some r"
proof -
  have st: "fs_get_page_state (s\<lparr>fs_flash := m\<rparr>) = fs_get_page_state s" by (simp add: fs_get_page_state_def fun_eq_iff)
  have hdr: "fs_read_file_hdr p (s\<lparr>fs_flash := m\<rparr>) (uint pg) = fs_read_file_hdr p s (uint pg)"
    if "uint pg \<le> fs_lastpg s" "fs_get_page_state s (uint pg) = Some PageStateFileStart" for pg :: u16
  proof (rule read_file_hdr_frame)
    show "unat pg < REGION_FS_N_PAGES p" using assms(1) that by (simp add: dir_apart_def)
    fix x assume x: "fs_addr p pg 0 \<le> x" "x < fs_addr p pg 0 + dir_extent (fs_flash s) (fs_addr p pg 0)"
    have "x \<notin> set (fs_addrs p (fs_flash s) f 0 (unat (fsize f)))"
      using assms(1) that x unfolding dir_apart_def by (metis not_less)
    then show "m x = fs_flash s x" using assms(2) by simp
  qed
  have "P \<longrightarrow> fs_find_loop p (s\<lparr>fs_flash := m\<rparr>) name pg = Some r" if P: "P = (fs_find_loop p s name pg = Some r)" for P pg r
  proof -
    have "p = p \<and> s = s \<and> name = name \<longrightarrow> fs_find_loop p (s\<lparr>fs_flash := m\<rparr>) name pg = Some r"
      if "fs_find_loop p s name pg = Some r"
      using that
    proof (rule fs_find_loop.raw_induct [where P = "\<lambda>q s0 nm pg r. q = p \<and> s0 = s \<and> nm = name \<longrightarrow> fs_find_loop p (s\<lparr>fs_flash := m\<rparr>) name pg = Some r", rotated])
      fix loop q s0 nm pg0 y
      assume ih: "\<And>q s0 nm pg y. loop q s0 nm pg = Some y \<Longrightarrow> q = p \<and> s0 = s \<and> nm = name \<longrightarrow> fs_find_loop p (s\<lparr>fs_flash := m\<rparr>) name pg = Some y"
      assume y: "(if \<not> uint pg0 \<le> fs_lastpg s0 then Some None
        else fs_get_page_state s0 (uint pg0) \<bind> (\<lambda>st. if st = PageStateFileStart
          then fs_read_file_hdr q s0 (uint pg0) \<bind> (\<lambda>(hdr, hname). if nm = hname \<and> st_tmp_file hdr = 0
             then Some (Some \<lparr>flags = FILE_HAS_DIRENT, startpage = pg0, startpofs = word_of_nat SIZEOF_FILE_HDR + ucast (filename_len hdr), fsize = file_size hdr\<rparr>)
             else loop q s0 nm (pg0 + 1))
          else loop q s0 nm (pg0 + 1))) = Some y"
      show "q = p \<and> s0 = s \<and> nm = name \<longrightarrow> fs_find_loop p (s\<lparr>fs_flash := m\<rparr>) name pg0 = Some y"
      proof
        assume eq: "q = p \<and> s0 = s \<and> nm = name"
        show "fs_find_loop p (s\<lparr>fs_flash := m\<rparr>) name pg0 = Some y"
        proof (cases "uint pg0 \<le> fs_lastpg s")
          case False
          then show ?thesis using y eq by (subst fs_find_loop.simps) simp
        next
          case True
          then obtain st' where st': "fs_get_page_state s (uint pg0) = Some st'" using y eq by (auto simp: bind_eq_Some_conv)
          show ?thesis
          proof (cases "st' = PageStateFileStart")
            case False
            then have "loop p s name (pg0 + 1) = Some y" using y eq True st' by simp
            then show ?thesis using ih True st' False by (subst fs_find_loop.simps) (simp add: st)
          next
            case start: True
            then obtain h n where h: "fs_read_file_hdr p s (uint pg0) = Some (h, n)" using y eq True st' by (auto simp: bind_eq_Some_conv)
            then show ?thesis using y eq True st' start ih hdr [OF True]
              by (subst fs_find_loop.simps) (auto simp: st split: if_splits)
          qed
        qed
      qed
    qed
    then show ?thesis using P by blast
  qed
  then show ?thesis using assms(3) by blast
qed

end

subsection \<open>Edits of the log\<close>

context fs_platform begin

lemma frame_pages: "file_frame p f (fs_flash s) m \<Longrightarrow> dir_apart p s f \<Longrightarrow> dir_apart p (s\<lparr>fs_flash := m\<rparr>) f"
proof -
  assume fr: "file_frame p f (fs_flash s) m" and da: "dir_apart p s f"
  have "dir_extent m (fs_addr p pg 0) = dir_extent (fs_flash s) (fs_addr p pg 0)"
    if "uint pg \<le> fs_lastpg s" "fs_get_page_state s (uint pg) = Some PageStateFileStart" for pg :: u16
  proof -
    have "m x = fs_flash s x" if x: "fs_addr p pg 0 \<le> x" "x < fs_addr p pg 0 + dir_extent (fs_flash s) (fs_addr p pg 0)" for x
      using fr da \<open>uint pg \<le> fs_lastpg s\<close> \<open>fs_get_page_state s (uint pg) = _\<close> x
      unfolding file_frame_def dir_apart_def by (metis not_less)
    then have "file_hdr_of (mread m (fs_addr p pg 0) 112) = file_hdr_of (mread (fs_flash s) (fs_addr p pg 0) 112)"
      by (rule file_hdr_cong(1))
    then show ?thesis by (simp only: dir_extent_def)
  qed
  moreover have "fs_get_page_state (s\<lparr>fs_flash := m\<rparr>) = fs_get_page_state s" by (simp add: fs_get_page_state_def fun_eq_iff)
  ultimately show ?thesis using fr da by (simp add: dir_apart_def file_frame_def)
qed

lemma find_frame:
  assumes "fs_find_file p s name = Some r" "file_frame p f (fs_flash s) m" "dir_apart p s f"
  shows "fs_find_file p (s\<lparr>fs_flash := m\<rparr>) name = Some r"
  using assms(1) find_loop_frame [OF assms(3), of m name 0 r] assms(2)
  by (simp add: fs_find_file_def file_frame_def split: if_splits)

end

lemma walk_spaced: "rdb_walk c n = (rs, e) \<Longrightarrow> sorted_wrt (\<lambda>a b. fst a + 4 \<le> fst b) rs"
proof (induction c n arbitrary: rs rule: rdb_walk.induct)
  case (1 c n)
  show ?case
  proof (cases "n + 4 > length c \<or> hdr_empty (hdr_in c n) \<or> hdr_partial (hdr_in c n) \<or> hdr_dead (hdr_in c n)")
    case True
    then show ?thesis using 1 by (subst (asm) (4) rdb_walk.simps) (auto split: if_splits)
  next
    case False
    then obtain k d rs0 where r: "rs = (n, k, d) # rs0" "rdb_walk c (rec_next c n) = (rs0, e)"
      using 1(4) by (subst (asm) rdb_walk.simps) (auto split: prod.splits)
    have "n + 4 \<le> rec_next c n" using False by (simp add: rec_next_def)
    then have "\<forall>x \<in> set rs0. n + 4 \<le> fst x" using walk_from [of _ c "rec_next c n"] r(2) by fastforce
    then show ?thesis using 1(3) [OF _ _ _ r(2)] False r(1) by simp
  qed
qed

text \<open>Two different records of a log are at least a header apart.\<close>

lemma walk_apart:
  assumes "rdb_walk c n = (rs, e)" "(i, k, d) \<in> set rs" "(j, k', d') \<in> set rs" "i \<noteq> j"
  shows "i + 4 \<le> j \<or> j + 4 \<le> i"
proof -
  have "\<forall>a \<in> set rs. \<forall>b \<in> set rs. fst a \<noteq> fst b \<longrightarrow> fst a + 4 \<le> fst b \<or> fst b + 4 \<le> fst a"
    using walk_spaced [OF assms(1)] by (induction rs) auto
  then show ?thesis using assms(2-) by fastforce
qed

lemma walk_same_place: "rdb_walk c n = (rs, e) \<Longrightarrow> distinct (map fst rs)"
proof -
  assume "rdb_walk c n = (rs, e)"
  then have "sorted_wrt (\<lambda>a b. fst a + 4 \<le> fst b) rs" by (rule walk_spaced)
  then show ?thesis by (induction rs) fastforce+
qed

lemma hdr_in_cong: "take 4 (drop j c') = take 4 (drop j c) \<Longrightarrow> hdr_in c' j = hdr_in c j"
  by (simp add: hdr_in_def)

text \<open>The log keeps the lengths of its records when one is removed.\<close>

lemma log_whole_delete:
  assumes "rdb_walk c 0 = (rs, e)" "(i, k, d) \<in> set rs" "i + 4 \<le> length c" "log_whole c rs" "length h = 4"
  shows "log_whole (take i c @ h @ drop (i + 4) c) (filter (\<lambda>r. fst r \<noteq> i) rs)"
proof -
  let ?c = "take i c @ h @ drop (i + 4) c"
  have "hdr_in ?c j = hdr_in c j" if j: "(j, k', d') \<in> set rs" "j \<noteq> i" for j k' d'
  proof (rule hdr_in_cong)
    from walk_apart [OF assms(1,2) j(1)] j(2) consider "j + 4 \<le> i" | "i + 4 \<le> j" by auto
    then show "take 4 (drop j ?c) = take 4 (drop j c)"
    proof cases
      case 1
      have "take i ?c = take i c" using assms(3) by simp
      then show ?thesis using 1 by (rule slice_cong)
    next
      case 2
      have "drop (i + 4) ?c = drop (i + 4) c" using assms(3,5) by simp
      then have "drop (j - (i + 4)) (drop (i + 4) ?c) = drop (j - (i + 4)) (drop (i + 4) c)" by (rule arg_cong)
      then show ?thesis using 2 by (simp only: drop_drop le_add_diff_inverse2)
    qed
  qed
  then show ?thesis using assms(4) by (auto simp: log_whole_def)
qed


subsection \<open>A database and its log\<close>

text \<open>The database file of this name is \<open>f\<close>, its valid records are \<open>rs\<close>, all whole and with different keys, and
  from \<open>e\<close> on the file is \<open>n\<close> bytes of erased flash.\<close>

definition db_log :: "plat \<Rightarrow> fs \<Rightarrow> bytes \<Rightarrow> fs_file \<Rightarrow> (nat \<times> bytes \<times> bytes) list \<Rightarrow> nat \<Rightarrow> nat \<Rightarrow> bool" where
  "db_log p s name f rs e n \<longleftrightarrow> fs_find_file p s name = Some (Some f) \<and> dir_apart p s f \<and> content_ok p (fs_flash s) f \<and>
     rdb_walk (fcontent p (fs_flash s) f) 0 = (rs, e) \<and> log_whole (fcontent p (fs_flash s) f) rs \<and>
     drop e (fcontent p (fs_flash s) f) = replicate n 0xFF \<and> distinct (map (fst \<circ> snd) rs)"

text \<open>The records as a map from keys to data.\<close>

definition rdb_map :: "(nat \<times> bytes \<times> bytes) list \<Rightarrow> bytes \<rightharpoonup> bytes" where
  "rdb_map rs = map_of (map snd rs)"

lemma rdb_map_append:
  "key \<notin> (fst \<circ> snd) ` set rs \<Longrightarrow> rdb_map (rs @ [(e, key, data)]) = (rdb_map rs)(key \<mapsto> data)"
  by (induction rs) (auto simp: rdb_map_def fun_upd_twist)

lemma rdb_map_remove:
  assumes "distinct (map fst rs)" "distinct (map (fst \<circ> snd) rs)" "(i, key, d) \<in> set rs"
  shows "rdb_map (filter (\<lambda>r. fst r \<noteq> i) rs) = (rdb_map rs)(key := None)"
  using assms
proof (induction rs)
  case (Cons r rs)
  show ?case
  proof (cases "fst r = i")
    case True
    then have "r = (i, key, d)" using Cons.prems by (auto simp: image_iff)
    moreover have "filter (\<lambda>r. fst r \<noteq> i) rs = rs" using Cons.prems(1) True by (intro filter_True) (auto simp: image_iff)
    moreover have "map_of (map snd rs) key = None"
      using Cons.prems(2) \<open>r = _\<close> by (auto simp: map_of_eq_None_iff image_image)
    ultimately show ?thesis by (auto simp: rdb_map_def fun_eq_iff)
  next
    case False
    then have "(i, key, d) \<in> set rs" using Cons.prems(3) by auto
    then have "fst (snd r) \<noteq> key" "(i, key, d) \<in> set rs" using Cons.prems(2) by (auto simp: image_iff)
    then show ?thesis using Cons False by (cases r) (auto simp: rdb_map_def fun_eq_iff)
  qed
qed simp


context fs_platform begin

lemma db_insert:
  assumes lg: "db_log p s (db_filename db) f rs e n" and lock: "db_locked db" and new: "key \<notin> (fst \<circ> snd) ` set rs"
    and fit: "4 + length key + length data \<le> n" "length key < 256" "length data < 0x10000"
  shows "\<exists>s'. rdb_insert p s db it0 key data = Some (Blob_Success, s') \<and>
    db_log p s' (db_filename db) f (rs @ [(e, key, data)]) (e + (4 + length key + length data)) (n - (4 + length key + length data))"
proof -
  let ?c = "fcontent p (fs_flash s) f"
  have l: "fs_find_file p s (db_filename db) = Some (Some f)" "dir_apart p s f" "content_ok p (fs_flash s) f"
    "rdb_walk ?c 0 = (rs, e)" "log_whole ?c rs" "drop e ?c = replicate n 0xFF" "distinct (map (fst \<circ> snd) rs)"
    using lg by (simp_all add: db_log_def)
  have "log_without ?c rs key" using l(5) new unfolding log_without_def log_whole_def case_prod_unfold by auto
  from insert_steps [OF lock l(1,3,4) this l(6) fit, of it0] obtain s' where s':
    "rdb_insert p s db it0 key data = Some (Blob_Success, s')"
    "fst (rdb_walk (fcontent p (fs_flash s') f) 0) = rs @ [(e, key, data)]" "content_ok p (fs_flash s') f"
    "take e (fcontent p (fs_flash s') f) = take e ?c" "hdr_in (fcontent p (fs_flash s') f) e = new_hdr 0xFC key data"
    "fcontent p (fs_flash s') f = staged (take e ?c) n 0xFC key data (key @ data)"
    "s' = s\<lparr>fs_flash := fs_flash s'\<rparr>" "file_frame p f (fs_flash s) (fs_flash s')" by blast
  define c' where "c' = fcontent p (fs_flash s') f"
  have ele: "e \<le> length ?c" using walk_ge [of 0 ?c] l(4) by simp
  have c': "c' = take e ?c @ rdb_hdr_bytes (new_hdr 0xFC key data) @ (key @ data) @ replicate (n - (4 + length key + length data)) 0xFF"
    using s'(6) by (simp add: c'_def staged_def)
  have kl: "unat (word_of_nat (length key) :: u8) = length key" "unat (word_of_nat (length data) :: u16) = length data"
    using fit(2,3) by (simp_all add: unat_of_nat)
  have alive: "\<not> hdr_empty (new_hdr 0xFC key data)" "\<not> hdr_partial (new_hdr 0xFC key data)" "\<not> hdr_dead (new_hdr 0xFC key data)"
    by (simp_all add: new_hdr_def hdr_empty_def hdr_partial_def hdr_dead_def FLAG_SET_def RDB_FLAG_HEADER_WRITTEN_def
        RDB_FLAG_WRITTEN_def RDB_FLAG_ERASED_def)
  have we: "rdb_walk c' e = ([(e, key, data)], e + (4 + length key + length data))"
    using walk_one [OF c', of e] alive ele kl by (simp add: new_hdr_def add.assoc)
  have w': "rdb_walk c' 0 = (rs @ [(e, key, data)], e + (4 + length key + length data))"
    using walk_change [OF l(4), of c'] s'(4) we by (simp add: c'_def)
  have hdr: "hdr_in c' i = hdr_in ?c i" if "(i, k, d) \<in> set rs" for i k d
  proof (rule hdr_in_cong, unfold c'_def, rule slice_cong [OF s'(4)])
    show "i + 4 \<le> e" using walk_member [of i k d ?c 0] that l(4) by simp
  qed
  have "log_whole c' (rs @ [(e, key, data)])"
    using l(5) hdr s'(5) kl by (fastforce simp: log_whole_def c'_def new_hdr_def)
  moreover have "fs_find_file p s' (db_filename db) = Some (Some f)" "dir_apart p s' f"
    using find_frame [OF l(1) s'(8) l(2)] frame_pages [OF s'(8) l(2)] s'(7) by simp_all
  moreover have "drop (e + (4 + length key + length data)) c' = replicate (n - (4 + length key + length data)) 0xFF"
    using ele by (simp add: c')
  ultimately show ?thesis using s'(1,3) w' l(7) new by (intro exI [of _ s']) (simp add: db_log_def c'_def)
qed

lemma db_delete:
  assumes lg: "db_log p s name f rs e n" and mem: "(i, k, d) \<in> set rs" and at: "fd_at p (fs_flash s) f i (it_fd it)"
  shows "\<exists>s'. rdb_delete p s it = Some (Blob_Success, s') \<and> db_log p s' name f (filter (\<lambda>r. fst r \<noteq> i) rs) e n"
proof -
  let ?c = "fcontent p (fs_flash s) f"
  have l: "fs_find_file p s name = Some (Some f)" "dir_apart p s f"
    "rdb_walk ?c 0 = (rs, e)" "log_whole ?c rs" "drop e ?c = replicate n 0xFF" "distinct (map (fst \<circ> snd) rs)"
    using lg by (simp_all add: db_log_def)
  from delete_steps [OF at l(3) mem] obtain m where m: "rdb_delete p s it = Some (Blob_Success, s\<lparr>fs_flash := m\<rparr>)"
    "content_ok p m f" "rdb_walk (fcontent p m f) 0 = (filter (\<lambda>r. fst r \<noteq> i) rs, e)" "file_frame p f (fs_flash s) m"
    "fcontent p m f = take i ?c @ rdb_hdr_bytes ((hdr_in ?c i)\<lparr>h_flags := h_flags (hdr_in ?c i) AND NOT RDB_FLAG_ERASED\<rparr>) @ drop (i + 4) ?c"
    by blast
  have i4: "i + 4 \<le> e" "e \<le> length ?c" using walk_member [of i k d ?c 0] walk_ge [of 0 ?c] mem l(3) by simp_all
  have "log_whole (fcontent p m f) (filter (\<lambda>r. fst r \<noteq> i) rs)"
    unfolding m(5) using i4 by (intro log_whole_delete [OF l(3) mem _ l(4)]) simp_all
  moreover have "drop e (fcontent p m f) = replicate n 0xFF" using i4 l(5) by (simp add: m(5))
  moreover have "distinct (map (fst \<circ> snd) (filter (\<lambda>r. fst r \<noteq> i) rs))" using l(6) by (rule distinct_map_filter)
  moreover have "fs_find_file p (s\<lparr>fs_flash := m\<rparr>) name = Some (Some f)" "dir_apart p (s\<lparr>fs_flash := m\<rparr>) f"
    using find_frame [OF l(1) m(4) l(2)] frame_pages [OF m(4) l(2)] by simp_all
  ultimately show ?thesis using m(1-3) by (intro exI [of _ "s\<lparr>fs_flash := m\<rparr>"]) (simp add: db_log_def)
qed

text \<open>A lookup starts at the first record, if there is one, and the selection finds the record with the key, if there is one.\<close>

lemma db_select:
  assumes lg: "db_log p s (db_filename db) f rs e n" and lock: "db_locked db" and k: "length key < 256"
  shows "\<exists>it out out'. rdb_iter_start p s db it0 = Some (rs \<noteq> [], it) \<and>
    rdb_select p (fs_flash s) heap_room it (rs \<noteq> []) [] (key_selector key) = Some out \<and>
    list_all2 (rec_result p (fs_flash s) f (\<lambda>_. [])) (if key = [] then [] else filter (\<lambda>(_, k, _). k = key) rs) out \<and>
    rdb_select p (fs_flash s) heap_room it (rs \<noteq> []) [] (load_selector key) = Some out' \<and>
    list_all2 (rec_result p (fs_flash s) f (\<lambda>d. [d]))
      (if key = [] then [] else takeWhile (\<lambda>(_, _, d). d \<noteq> []) (filter (\<lambda>(_, k, _). k = key) rs)) out'"
proof -
  let ?c = "fcontent p (fs_flash s) f"
  have l: "fs_find_file p s (db_filename db) = Some (Some f)" "content_ok p (fs_flash s) f" "rdb_walk ?c 0 = (rs, e)" "log_whole ?c rs"
    using lg by (simp_all add: db_log_def)
  obtain fd0 where fd0: "rdb_seek_valid p (fs_flash s) (fs_open f) False = Some (fd0, snd (rdb_scan ?c 0 False))"
     "fd_at p (fs_flash s) f (fst (rdb_scan ?c 0 False)) fd0"
    using seek_valid [OF fd_at_open [OF l(2)], of False] by auto
  obtain valid it where vi: "rdb_iter_at fd0 (snd (rdb_scan ?c 0 False)) = (valid, it)" by fastforce
  then have v: "valid = (rs \<noteq> [])"
    using l(3) walk_scan [of ?c 0] by (auto simp: rdb_iter_at_def split: prod.splits option.splits)
  have "rdb_iter_start p s db it0 = Some (valid, it)"
    by (simp add: rdb_iter_start_def lock l(1) rdb_iter_start_from_fd_def fd0 vi)
  then show ?thesis
    using select_key [OF l(3,4) k fd0(2) vi, of "[]"] select_load [OF l(3,4) k fd0(2) vi, of "[]"] by (auto simp: v)
qed

lemma select_one:
  assumes "distinct (map (fst \<circ> snd) rs)" "(i, key, d) \<in> set rs"
  shows "filter (\<lambda>(_, k, _). k = key) rs = [(i, key, d)]"
  using assms by (induction rs) (auto simp: filter_empty_conv image_iff)

text \<open>An insertion of a key the log has is refused.\<close>

lemma dup_found:
  assumes "rdb_walk (fcontent p m f) i = (rs, e)" "log_whole (fcontent p m f) rs" "key \<in> (fst \<circ> snd) ` set rs"
    and "fd_at p m f (fst (rdb_scan (fcontent p m f) i False)) fd"
    and "rdb_iter_at fd (snd (rdb_scan (fcontent p m f) i False)) = (valid, it)"
  shows "rdb_dup_loop p m key valid it = Some (Inl Blob_InvalidData)"
  using assms
proof (induction rs arbitrary: i fd valid it)
  case (Cons r rs)
  let ?c = "fcontent p m f"
  obtain j h where sc: "rdb_scan ?c i False = (j, Some h)" and w: "rdb_walk ?c (rec_next ?c j) = (rs, e)"
    and r: "r = (j, take (unat (h_key_len h)) (drop (j + 4) ?c), take (unat (h_data_len h)) (drop (j + 4 + unat (h_key_len h)) ?c))"
    using Cons.prems(1) walk_scan [of ?c i] by (auto simp: Let_def split: prod.splits option.splits)
  note so = scan_some [OF sc]
  define k where "k = take (unat (h_key_len h)) (drop (j + 4) ?c)"
  have k: "length k = unat (h_key_len h)" using Cons.prems(2) so by (auto simp: r log_whole_def k_def)
  have it: "valid" "it_fd it = fd" "it_key_len it = h_key_len h" and at: "fd_at p m f j fd"
    using Cons.prems(4,5) by (auto simp: sc rdb_iter_at_def)
  have rk: "rdb_iter_read_key p m it = Some (ucast (it_key_len it), k)"
    using so k by (intro read_key [of m f j]) (simp_all add: it at k_def)
  have n: "unat (ucast (it_key_len it) :: u32) = length k" using unat_ucast_u8 [of "it_key_len it"] k it by simp
  show ?case
  proof (cases "k = key")
    case True
    then show ?thesis using it k rk n by (subst rdb_dup_loop.simps) simp
  next
    case False
    then have key: "key \<in> (fst \<circ> snd) ` set rs" using Cons.prems(3) by (simp add: r k_def)
    have lw: "log_whole ?c rs" using Cons.prems(2) by (simp add: log_whole_def)
    obtain fd' where nx: "rdb_iter_next p m it = Some (rdb_iter_at fd' (snd (rdb_scan ?c (rec_next ?c j) False)))"
       "fd_at p m f (fst (rdb_scan ?c (rec_next ?c j) False)) fd'"
      using iter_next [OF _ sc, of it] at it(2) by auto
    obtain valid' it' where vi: "rdb_iter_at fd' (snd (rdb_scan ?c (rec_next ?c j) False)) = (valid', it')" by fastforce
    have "rdb_dup_loop p m key valid it = rdb_dup_loop p m key valid' it'"
      using it k rk n nx(1) vi False by (subst rdb_dup_loop.simps) auto
    then show ?thesis using Cons.IH [OF w lw key nx(2) vi] by simp
  qed
qed simp

lemma db_insert_dup:
  assumes lg: "db_log p s (db_filename db) f rs e n" and lock: "db_locked db" and key: "key \<in> (fst \<circ> snd) ` set rs"
  shows "rdb_insert p s db it0 key data = Some (Blob_InvalidData, s)"
proof -
  let ?c = "fcontent p (fs_flash s) f"
  have l: "fs_find_file p s (db_filename db) = Some (Some f)" "content_ok p (fs_flash s) f" "rdb_walk ?c 0 = (rs, e)" "log_whole ?c rs"
    using lg by (simp_all add: db_log_def)
  obtain fd0 where fd0: "rdb_seek_valid p (fs_flash s) (fs_open f) False = Some (fd0, snd (rdb_scan ?c 0 False))"
     "fd_at p (fs_flash s) f (fst (rdb_scan ?c 0 False)) fd0"
    using seek_valid [OF fd_at_open [OF l(2)], of False] by auto
  obtain valid it where vi: "rdb_iter_at fd0 (snd (rdb_scan ?c 0 False)) = (valid, it)" by fastforce
  have "rdb_iter_start p s db it0 = Some (valid, it)"
    by (simp add: rdb_iter_start_def lock l(1) rdb_iter_start_from_fd_def fd0 vi)
  then show ?thesis
    using dup_found [OF l(3,4) key fd0(2) vi] by (simp add: rdb_insert_eq lock rdb_create_def l(1))
qed

lemma db_update:
  assumes lg: "db_log p s (db_filename db) f rs e n" and lock: "db_locked db" and mem: "(i, key, d) \<in> set rs"
    and fit: "4 + length key + length data \<le> n" "length key < 256" "length data < 0x10000" and key: "key \<noteq> []"
  shows "\<exists>s'. rdb_update p s heap_room db it0 key data = Some (Blob_Success, s') \<and>
    db_log p s' (db_filename db) f (filter (\<lambda>r. fst r \<noteq> i) rs @ [(e, key, data)])
      (e + (4 + length key + length data)) (n - (4 + length key + length data))"
proof -
  have dk: "distinct (map (fst \<circ> snd) rs)" using lg by (simp add: db_log_def)
  have ne: "rs \<noteq> []" using mem by auto
  from db_select [OF lg lock fit(2), of it0] select_one [OF dk mem] ne key
  obtain it r where st: "rdb_iter_start p s db it0 = Some (True, it)"
    "rdb_select p (fs_flash s) heap_room it True [] (key_selector key) = Some [r]"
    "rec_result p (fs_flash s) f (\<lambda>_. []) (i, key, d) r"
    by (auto simp: list_all2_Cons1)
  from st(3) have at: "fd_at p (fs_flash s) f i (it_fd (res_it r))" and kl: "unat (it_key_len (res_it r)) = length key"
    by (auto simp: rec_result_def)
  obtain s1 where del: "rdb_delete p s (res_it r) = Some (Blob_Success, s1)" "db_log p s1 (db_filename db) f (filter (\<lambda>r. fst r \<noteq> i) rs) e n"
    using db_delete [OF lg mem at] by blast
  have "key \<notin> (fst \<circ> snd) ` set (filter (\<lambda>r. fst r \<noteq> i) rs)"
  proof
    assume "key \<in> (fst \<circ> snd) ` set (filter (\<lambda>r. fst r \<noteq> i) rs)"
    then obtain x where x: "x \<in> set rs" "fst x \<noteq> i" "fst (snd x) = key" by auto
    then have "x \<in> set (filter (\<lambda>(_, k, _). k = key) rs)" by auto
    then show False using select_one [OF dk mem] x(2) by simp
  qed
  from db_insert [OF del(2) lock this fit, of it0] del(1) st kl show ?thesis
    unfolding rdb_update_def key_selector_def by auto
qed

lemma db_update_none:
  assumes lg: "db_log p s (db_filename db) f rs e n" and lock: "db_locked db" and ne: "rs \<noteq> []" and k: "length key < 256"
    and none: "key \<notin> (fst \<circ> snd) ` set rs \<or> key = []"
  shows "rdb_update p s heap_room db it0 key data = Some (Blob_KeyDoesNotExist, s)"
proof -
  have "(if key = [] then [] else filter (\<lambda>(_, k, _). k = key) rs) = []" using none by (force simp: filter_empty_conv)
  with db_select [OF lg lock k, of it0] ne obtain it where "rdb_iter_start p s db it0 = Some (True, it)"
    "rdb_select p (fs_flash s) heap_room it True [] (key_selector key) = Some []" by auto
  then show ?thesis unfolding rdb_update_def key_selector_def by simp
qed

end

lemma db_log_keys: "db_log p s name f rs e n \<Longrightarrow> distinct (map (fst \<circ> snd) rs) \<and> distinct (map fst rs)"
  using walk_same_place by (auto simp: db_log_def)

subsection \<open>The interface\<close>

text \<open>A store of records: \<open>view s n M\<close> says that the state \<open>s\<close> holds the map \<open>M\<close> and has room for \<open>n\<close> bytes. A record
  with the empty key is never found, and one of no data is found but not loaded, as the copies a selection makes of them would
  be allocations of no bytes.\<close>

locale kv_store =
  fixes view :: "'s \<Rightarrow> nat \<Rightarrow> (bytes \<rightharpoonup> bytes) \<Rightarrow> bool"
    and start :: "'s \<Rightarrow> (bool \<times> 'i) option"
    and find :: "'s \<Rightarrow> 'i \<Rightarrow> bytes \<Rightarrow> 'r list option"
    and load :: "'s \<Rightarrow> 'i \<Rightarrow> bytes \<Rightarrow> 'r list option"
    and result :: "'r \<Rightarrow> nat \<times> bytes list"
    and insert :: "'s \<Rightarrow> bytes \<Rightarrow> bytes \<Rightarrow> (blob_result \<times> 's) option"
    and update :: "'s \<Rightarrow> bytes \<Rightarrow> bytes \<Rightarrow> (blob_result \<times> 's) option"
    and remove :: "'s \<Rightarrow> 'r \<Rightarrow> (blob_result \<times> 's) option"
  assumes start: "view s n M \<Longrightarrow> \<exists>i. start s = Some (M \<noteq> Map.empty, i)"
    and find_none: "view s n M \<Longrightarrow> start s = Some (True, i) \<Longrightarrow> length key < 256 \<Longrightarrow> M key = None \<Longrightarrow> find s i key = Some []"
    and find_some: "view s n M \<Longrightarrow> start s = Some (True, i) \<Longrightarrow> length key < 256 \<Longrightarrow> M key = Some d \<Longrightarrow> key \<noteq> [] \<Longrightarrow>
       \<exists>r s'. find s i key = Some [r] \<and> result r = (length d, []) \<and> remove s r = Some (Blob_Success, s') \<and> view s' n (M(key := None))"
    and load_none: "view s n M \<Longrightarrow> start s = Some (True, i) \<Longrightarrow> length key < 256 \<Longrightarrow> M key = None \<Longrightarrow> load s i key = Some []"
    and load_some: "view s n M \<Longrightarrow> start s = Some (True, i) \<Longrightarrow> length key < 256 \<Longrightarrow> M key = Some d \<Longrightarrow> key \<noteq> [] \<Longrightarrow> d \<noteq> [] \<Longrightarrow>
       \<exists>r. load s i key = Some [r] \<and> result r = (length d, [d])"
    and load_empty: "view s n M \<Longrightarrow> start s = Some (True, i) \<Longrightarrow> length key < 256 \<Longrightarrow> M key = Some [] \<Longrightarrow> load s i key = Some []"
    and insert_new: "view s n M \<Longrightarrow> M key = None \<Longrightarrow> 4 + length key + length data \<le> n \<Longrightarrow> length key < 256 \<Longrightarrow> length data < 0x10000 \<Longrightarrow>
       \<exists>s'. insert s key data = Some (Blob_Success, s') \<and> view s' (n - (4 + length key + length data)) (M(key \<mapsto> data))"
    and insert_dup: "view s n M \<Longrightarrow> M key \<noteq> None \<Longrightarrow> insert s key data = Some (Blob_InvalidData, s)"
    and update_none: "view s n M \<Longrightarrow> M \<noteq> Map.empty \<Longrightarrow> length key < 256 \<Longrightarrow> M key = None \<or> key = [] \<Longrightarrow> update s key data = Some (Blob_KeyDoesNotExist, s)"
    and update: "view s n M \<Longrightarrow> M key \<noteq> None \<Longrightarrow> key \<noteq> [] \<Longrightarrow> 4 + length key + length data \<le> n \<Longrightarrow> length key < 256 \<Longrightarrow> length data < 0x10000 \<Longrightarrow>
       \<exists>s'. update s key data = Some (Blob_Success, s') \<and> view s' (n - (4 + length key + length data)) (M(key \<mapsto> data))"

context kv_store begin

lemma insert_or_update:
  assumes "view s n M" "4 + length key + length data \<le> n" "length key < 256" "length data < 0x10000" "key \<noteq> []"
  shows "\<exists>s'. view s' (n - (4 + length key + length data)) (M(key \<mapsto> data)) \<and>
    (insert s key data = Some (Blob_Success, s') \<or>
     insert s key data = Some (Blob_InvalidData, s) \<and> update s key data = Some (Blob_Success, s'))"
proof (cases "M key = None")
  case True
  then show ?thesis using insert_new [OF assms(1) True assms(2-4)] by blast
next
  case False
  then show ?thesis using insert_dup [OF assms(1) False] update [OF assms(1) False assms(5,2-4)] by blast
qed

lemma update_or_insert:
  assumes "view s n M" "4 + length key + length data \<le> n" "length key < 256" "length data < 0x10000" "key \<noteq> []"
  shows "\<exists>s'. view s' (n - (4 + length key + length data)) (M(key \<mapsto> data)) \<and>
    (if M key \<noteq> None then update s key data else insert s key data) = Some (Blob_Success, s')"
  using insert_new [OF assms(1) _ assms(2-4)] update [OF assms(1) _ assms(5,2-4)] by (cases "M key = None") (auto simp: conj_commute)

text \<open>The value of the map at a key, as the iterator and the selection give it.\<close>

lemma get:
  assumes "view s n M" "length key < 256" "key \<noteq> []"
  shows "\<exists>i. start s = Some (M \<noteq> Map.empty, i) \<and> (M \<noteq> Map.empty \<longrightarrow>
    (case M key of None \<Rightarrow> load s i key = Some []
     | Some d \<Rightarrow> if d = [] then load s i key = Some [] else \<exists>r. load s i key = Some [r] \<and> result r = (length d, [d])))"
proof -
  obtain i where i: "start s = Some (M \<noteq> Map.empty, i)" using start [OF assms(1)] by blast
  then show ?thesis
    using load_none [OF assms(1) _ assms(2)] load_some [OF assms(1) _ assms(2) _ assms(3)] load_empty [OF assms(1) _ assms(2)] by (auto split: option.split)
qed

lemma take_out:
  assumes "view s n M" "length key < 256" "key \<noteq> []"
  shows "\<exists>i. start s = Some (M \<noteq> Map.empty, i) \<and> (M \<noteq> Map.empty \<longrightarrow>
    (case M key of None \<Rightarrow> find s i key = Some []
     | Some d \<Rightarrow> \<exists>r s'. find s i key = Some [r] \<and> result r = (length d, []) \<and>
         remove s r = Some (Blob_Success, s') \<and> view s' n (M(key := None))))"
proof -
  obtain i where i: "start s = Some (M \<noteq> Map.empty, i)" using start [OF assms(1)] by blast
  then show ?thesis
    using find_none [OF assms(1) _ assms(2)] find_some [OF assms(1) _ assms(2) _ assms(3)] by (auto split: option.split)
qed

end

subsection \<open>The database provides it\<close>

definition rdb_view :: "plat \<Rightarrow> rdb_database \<Rightarrow> fs \<Rightarrow> nat \<Rightarrow> (bytes \<rightharpoonup> bytes) \<Rightarrow> bool" where
  "rdb_view p db s n M \<longleftrightarrow> db_locked db \<and> (\<exists>f rs e. db_log p s (db_filename db) f rs e n \<and> rdb_map rs = M)"

definition res_view :: "rdb_select_result \<Rightarrow> nat \<times> bytes list" where
  "res_view r = (unat (it_data_len (res_it r)), res_result r)"

lemma rdb_map_dom: "rdb_map rs key = None \<longleftrightarrow> key \<notin> (fst \<circ> snd) ` set rs"
  by (auto simp: rdb_map_def map_of_eq_None_iff image_image)

lemma rdb_map_empty: "rdb_map rs = Map.empty \<longleftrightarrow> rs = []"
  by (simp add: rdb_map_def)

lemma rdb_map_some: "rdb_map rs key = Some d \<Longrightarrow> \<exists>i. (i, key, d) \<in> set rs"
  using map_of_SomeD [of "map snd rs" key d] by (auto simp: rdb_map_def)

lemma select_none: "rdb_map rs key = None \<Longrightarrow> filter (\<lambda>(_, k, _). k = key) rs = []"
  by (force simp: rdb_map_dom filter_empty_conv)

context fs_platform begin

lemma rdb_kv_store:
  "kv_store (rdb_view p db) (\<lambda>s. rdb_iter_start p s db it0)
     (\<lambda>s it key. rdb_select p (fs_flash s) heap_room it True [] (key_selector key))
     (\<lambda>s it key. rdb_select p (fs_flash s) heap_room it True [] (load_selector key)) res_view
     (\<lambda>s. rdb_insert p s db it0) (\<lambda>s. rdb_update p s heap_room db it0) (\<lambda>s r. rdb_delete p s (res_it r))"
proof
  fix s n M assume v: "rdb_view p db s n M"
  then obtain f rs e where lg: "db_log p s (db_filename db) f rs e n" and M: "rdb_map rs = M" and lock: "db_locked db"
    by (auto simp: rdb_view_def)
  note keys = db_log_keys [OF lg]
  from db_select [OF lg lock, of "[]" it0] show "\<exists>i. rdb_iter_start p s db it0 = Some (M \<noteq> Map.empty, i)"
    by (auto simp flip: M simp: rdb_map_empty)
  show "rdb_update p s heap_room db it0 key data = Some (Blob_KeyDoesNotExist, s)"
    if "M \<noteq> Map.empty" "length key < 256" "M key = None \<or> key = []" for key data
    using that by (intro db_update_none [OF lg lock]) (auto simp: rdb_map_empty rdb_map_dom simp flip: M)
  {
    fix it and key :: bytes assume st: "rdb_iter_start p s db it0 = Some (True, it)" and k: "length key < 256"
    from db_select [OF lg lock k, of it0] st obtain out out' where sel:
      "rdb_select p (fs_flash s) heap_room it True [] (key_selector key) = Some out"
      "list_all2 (rec_result p (fs_flash s) f (\<lambda>_. [])) (if key = [] then [] else filter (\<lambda>(_, k, _). k = key) rs) out"
      "rdb_select p (fs_flash s) heap_room it True [] (load_selector key) = Some out'"
      "list_all2 (rec_result p (fs_flash s) f (\<lambda>d. [d]))
        (if key = [] then [] else takeWhile (\<lambda>(_, _, d). d \<noteq> []) (filter (\<lambda>(_, k, _). k = key) rs)) out'" by auto
    show "M key = None \<Longrightarrow> rdb_select p (fs_flash s) heap_room it True [] (key_selector key) = Some []"
      "M key = None \<Longrightarrow> rdb_select p (fs_flash s) heap_room it True [] (load_selector key) = Some []"
      using sel select_none [of rs key] by (auto simp flip: M split: if_splits)
    {
      assume "M key = Some []"
      then obtain i where i: "(i, key, []) \<in> set rs" using rdb_map_some M by blast
      from select_one [OF _ i] keys have "filter (\<lambda>(_, k, _). k = key) rs = [(i, key, [])]" by simp
      then show "rdb_select p (fs_flash s) heap_room it True [] (load_selector key) = Some []" using sel(3,4) by (auto split: if_splits)
    }
    fix d :: bytes assume d: "M key = Some d" and kn: "key \<noteq> []"
    then obtain i where i: "(i, key, d) \<in> set rs" using rdb_map_some M by blast
    from sel(2) select_one [OF _ i] keys kn obtain r where r: "out = [r]" "rec_result p (fs_flash s) f (\<lambda>_. []) (i, key, d) r"
      by (auto simp: list_all2_Cons1)
    {
      assume "d \<noteq> []"
      with sel(4) select_one [OF _ i] keys kn obtain r' where "out' = [r']" "rec_result p (fs_flash s) f (\<lambda>d. [d]) (i, key, d) r'"
        by (auto simp: list_all2_Cons1)
      then show "\<exists>r. rdb_select p (fs_flash s) heap_room it True [] (load_selector key) = Some [r] \<and> res_view r = (length d, [d])"
        using sel(3) by (simp add: rec_result_def res_view_def)
    }
    have at: "fd_at p (fs_flash s) f i (it_fd (res_it r))" using r(2) by (simp add: rec_result_def)
    from db_delete [OF lg i at] obtain s' where s': "rdb_delete p s (res_it r) = Some (Blob_Success, s')"
      "db_log p s' (db_filename db) f (filter (\<lambda>r. fst r \<noteq> i) rs) e n" by blast
    have "rdb_view p db s' n (M(key := None))"
      using s'(2) rdb_map_remove [OF _ _ i] keys lock by (auto simp: rdb_view_def M)
    then show "\<exists>r s'. rdb_select p (fs_flash s) heap_room it True [] (key_selector key) = Some [r] \<and> res_view r = (length d, []) \<and>
        rdb_delete p s (res_it r) = Some (Blob_Success, s') \<and> rdb_view p db s' n (M(key := None))"
      using sel(1) r s'(1) by (auto simp: rec_result_def res_view_def)
  }
  fix key data :: bytes
  {
    show "M key \<noteq> None \<Longrightarrow> rdb_insert p s db it0 key data = Some (Blob_InvalidData, s)"
      by (rule db_insert_dup [OF lg lock]) (simp only: rdb_map_dom not_not flip: M)
  }
  assume fit: "4 + length key + length data \<le> n" "length key < 256" "length data < 0x10000"
  {
    show "M key = None \<Longrightarrow> \<exists>s'. rdb_insert p s db it0 key data = Some (Blob_Success, s') \<and>
        rdb_view p db s' (n - (4 + length key + length data)) (M(key \<mapsto> data))"
    proof -
      assume "M key = None"
      then have new: "key \<notin> (fst \<circ> snd) ` set rs" by (simp add: rdb_map_dom flip: M)
      from db_insert [OF lg lock new fit, of it0] obtain s' where s': "rdb_insert p s db it0 key data = Some (Blob_Success, s')"
        "db_log p s' (db_filename db) f (rs @ [(e, key, data)]) (e + (4 + length key + length data)) (n - (4 + length key + length data))" by blast
      have "rdb_view p db s' (n - (4 + length key + length data)) (M(key \<mapsto> data))"
        unfolding rdb_view_def M [symmetric] using lock s'(2) rdb_map_append [OF new, of e data] by blast
      then show ?thesis using s'(1) by blast
    qed
  }
  assume "M key \<noteq> None" and kn: "key \<noteq> []"
  then obtain d where "M key = Some d" by blast
  then obtain i where i: "(i, key, d) \<in> set rs" using rdb_map_some M by blast
  from db_update [OF lg lock i fit kn, of it0] obtain s' where s': "rdb_update p s heap_room db it0 key data = Some (Blob_Success, s')"
    "db_log p s' (db_filename db) f (filter (\<lambda>r. fst r \<noteq> i) rs @ [(e, key, data)])
      (e + (4 + length key + length data)) (n - (4 + length key + length data))" by blast
  have "rdb_map (filter (\<lambda>r. fst r \<noteq> i) rs) = M(key := None)" using rdb_map_remove [OF _ _ i] keys by (simp add: M)
  moreover from this have "rdb_map (filter (\<lambda>r. fst r \<noteq> i) rs @ [(e, key, data)]) = M(key \<mapsto> data)"
    using rdb_map_append [of key "filter (\<lambda>r. fst r \<noteq> i) rs" e data] rdb_map_dom [of "filter (\<lambda>r. fst r \<noteq> i) rs" key] by simp
  ultimately show "\<exists>s'. rdb_update p s heap_room db it0 key data = Some (Blob_Success, s') \<and>
      rdb_view p db s' (n - (4 + length key + length data)) (M(key \<mapsto> data))"
    using s' lock unfolding rdb_view_def by blast
qed

end

interpretation snowy_rdb: kv_store "rdb_view (snowy_plat nor_ideal) db" "\<lambda>s. rdb_iter_start (snowy_plat nor_ideal) s db it0"
     "\<lambda>s it key. rdb_select (snowy_plat nor_ideal) (fs_flash s) heap_room it True [] (key_selector key)"
     "\<lambda>s it key. rdb_select (snowy_plat nor_ideal) (fs_flash s) heap_room it True [] (load_selector key)" res_view
     "\<lambda>s. rdb_insert (snowy_plat nor_ideal) s db it0" "\<lambda>s. rdb_update (snowy_plat nor_ideal) s heap_room db it0"
     "\<lambda>s r. rdb_delete (snowy_plat nor_ideal) s (res_it r)" for db it0
  by (rule snowy_fs.rdb_kv_store)

subsection \<open>The example file system\<close>

lemma ex_fsys_apart: "ex_named nm \<Longrightarrow> dir_apart (snowy_plat nor_ideal) (ex_fsys nm lg) (ex_file_named nm)"
proof -
  assume nm: "ex_named nm"
  have name: "unat (filename_len (file_hdr_of (mread (fs_flash (ex_fsys nm lg)) 0x400000 112))) = length nm"
  proof -
    have "mread (fs_flash (ex_fsys nm lg)) 0x400000 76 = file_hdr_bytes (ex_file_hdr nm)"
      using ex_file_hdr_fields(1) [of nm]
      by (intro nth_equalityI) (simp_all add: ex_fsys_def mwrite_def ex_page_def nth_append)
    then have "file_hdr_of (mread (fs_flash (ex_fsys nm lg)) 0x400000 112) = file_hdr_of (file_hdr_bytes (ex_file_hdr nm) @ [])"
      using file_hdr_of_take [of "mread (fs_flash (ex_fsys nm lg)) 0x400000 112"] by (simp add: mread_take)
    also have "\<dots> = ex_file_hdr nm" by (rule file_hdr_of_bytes [OF ex_file_hdr_fields(1)])
    finally show ?thesis using nm by (simp add: ex_file_hdr_fields ex_name_len)
  qed
  have pg: "pg = 0" if "uint pg \<le> fs_lastpg (ex_fsys nm lg)" for pg :: u16
    using that uint_ge_0 [of pg] by (simp add: ex_fsys_def) (simp add: uint_0_iff)
  show ?thesis unfolding dir_apart_def ex_file_size ex_fsys_addrs [OF nm]
    using nm by (auto dest!: pg simp: fs_addr_def dir_extent_def name MAX_FILENAME_LEN_def SIZEOF_FILE_HDR_def ex_named_def)
qed

lemma ex_log_walks: "log_whole (ex_log @ replicate 115 0xFF) [(0, [1], [7, 8]), (7, [2], [9])]"
  "drop 13 (ex_log @ replicate 115 0xFF) = replicate 115 0xFF"
proof -
  show "log_whole (ex_log @ replicate 115 0xFF) [(0, [1], [7, 8]), (7, [2], [9])]"
    by (simp add: log_whole_def ex_log_hdrs) (simp add: new_hdr_def)
  show "drop 13 (ex_log @ replicate 115 0xFF) = replicate 115 0xFF" by (simp add: ex_log_bytes)
qed

lemma ex_fsys_view:
  assumes nm: "ex_named (db_filename db)" and lock: "db_locked db"
  shows "rdb_view (snowy_plat nor_ideal) db (ex_fsys (db_filename db) ex_log) 115 [[1] \<mapsto> [7, 8], [2] \<mapsto> [9]]"
proof -
  have c: "fcontent (snowy_plat nor_ideal) (fs_flash (ex_fsys (db_filename db) ex_log)) (ex_file_named (db_filename db)) = ex_log @ replicate 115 0xFF"
    using ex_fsys_content [OF nm, of ex_log] by (simp add: ex_log_bytes)
  have "db_log (snowy_plat nor_ideal) (ex_fsys (db_filename db) ex_log) (db_filename db) (ex_file_named (db_filename db))
      [(0, [1], [7, 8]), (7, [2], [9])] 13 115"
    unfolding db_log_def c ex_log_walk using ex_fsys_find [OF nm] ex_fsys_ok [OF nm] ex_fsys_apart [OF nm] ex_log_walks by simp
  moreover have "rdb_map [(0, [1], [7, 8]), (7, [2], [9])] = [[1] \<mapsto> [7, 8], [2] \<mapsto> [9]]"
    by (simp add: rdb_map_def fun_eq_iff)
  ultimately show ?thesis unfolding rdb_view_def using lock by auto
qed

lemma ex_log_view: "rdb_view (snowy_plat nor_ideal) ex_db (ex_dbfs ex_log) 115 [[1] \<mapsto> [7, 8], [2] \<mapsto> [9]]"
  using ex_fsys_view [of ex_db] ex_name_named by (simp add: ex_dbfs_def ex_db_name) (simp add: ex_db_def)



end
