(* ===== verification/Persist.thy ===== *)
theory Persist
  imports RdbUpdate
begin

section \<open>Preferences and the persistent storage of apps: rcore/prefs.c, rwatch/storage/storage_persist.c\<close>

text \<open>
  The two clients of the record database. Both keep their values in a database of the table
  \<open>databases\<close>, the preferences under a 4-byte key, the storage of apps under the app's UUID followed by a
  4-byte key. Every call opens the database, which takes its lock, and is expected to close it; the
  table of databases with its locks is threaded through the calls, and opening a locked database blocks
  (\<open>None\<close>). The proofs rest on the interface \<open>kv_store\<close>: what is put is read back, except for values of no bytes, other keys keep
  their values, and which paths leave the database locked.
\<close>

definition RDB_ID_PREFS :: u16 where "RDB_ID_PREFS = 129"
definition RDB_ID_APP_PERSIST :: u16 where "RDB_ID_APP_PERSIST = 16"

subsection \<open>Preferences\<close>

text \<open>The return value, the bytes copied to \<open>buf\<close> and the databases. \<open>it0\<close> is the uninitialised iterator.\<close>

definition prefs_get :: "plat \<Rightarrow> rdb_database list \<Rightarrow> fs \<Rightarrow> (nat \<Rightarrow> bool) \<Rightarrow> rdb_iter \<Rightarrow> u32 \<Rightarrow> u32 \<Rightarrow> (int \<times> bytes \<times> rdb_database list) option" where
  "prefs_get p dbs s calloc it0 key bufsz = do {
     (r, dbs) \<leftarrow> rdb_open dbs RDB_ID_PREFS;
     db \<leftarrow> r;
     (rv, it) \<leftarrow> rdb_iter_start p s db it0;
     if \<not> rv then do { dbs \<leftarrow> rdb_close dbs (db_id db); Some (-1, [], dbs) }
     else do {
       head \<leftarrow> rdb_select p (fs_flash s) calloc it True [] (load_selector (le32 key));
       case head of
         [] \<Rightarrow> do { dbs \<leftarrow> rdb_close dbs (db_id db); Some (-1, [], dbs) }
       | res # _ \<Rightarrow>
           let sz = (if bufsz \<le> ucast (it_data_len (res_it res)) then unat bufsz else unat (it_data_len (res_it res)))
           in do { dbs \<leftarrow> rdb_close dbs (db_id db); Some (int sz, take sz (res_result res ! 0), dbs) } } }"

text \<open>When the database cannot be created the function returns without closing it.\<close>

definition prefs_put :: "plat \<Rightarrow> rdb_database list \<Rightarrow> fs \<Rightarrow> (nat \<Rightarrow> bool) \<Rightarrow> rdb_iter \<Rightarrow> u32 \<Rightarrow> bytes \<Rightarrow> (int \<times> rdb_database list \<times> fs) option" where
  "prefs_put p dbs s calloc it0 key buf = do {
     (r, dbs) \<leftarrow> rdb_open dbs RDB_ID_PREFS;
     db \<leftarrow> r;
     (rv, s) \<leftarrow> rdb_create p s db;
     if rv \<noteq> Blob_Success then Some (-1, dbs, s)
     else do {
       (rv, s) \<leftarrow> rdb_insert p s db it0 (le32 key) buf;
       if rv = Blob_Success then do { dbs \<leftarrow> rdb_close dbs (db_id db); Some (0, dbs, s) }
       else do {
         (rv, s) \<leftarrow> rdb_update p s calloc db it0 (le32 key) buf;
         dbs \<leftarrow> rdb_close dbs (db_id db);
         Some (if rv = Blob_Success then 0 else -1, dbs, s) } } }"

subsection \<open>Persistent storage of apps\<close>

definition E_ERROR :: int where "E_ERROR = -1"
definition E_INVALID_ARGUMENT :: int where "E_INVALID_ARGUMENT = -4"
definition E_OUT_OF_STORAGE :: int where "E_OUT_OF_STORAGE = -6"
definition E_DOES_NOT_EXIST :: int where "E_DOES_NOT_EXIST = -9"
definition S_SUCCESS :: int where "S_SUCCESS = 0"
definition PERSIST_DATA_MAX_LENGTH :: nat where "PERSIST_DATA_MAX_LENGTH = 256"
definition PERSIST_STRING_MAX_LENGTH :: nat where "PERSIST_STRING_MAX_LENGTH = PERSIST_DATA_MAX_LENGTH"

text \<open>The UUID of the current app, 16 bytes, is the parameter \<open>uuid\<close>.\<close>

definition create_composite_key :: "bytes \<Rightarrow> u32 \<Rightarrow> bytes" where
  "create_composite_key uuid key = uuid @ le32 key"

definition persist_read :: "plat \<Rightarrow> rdb_database list \<Rightarrow> fs \<Rightarrow> (nat \<Rightarrow> bool) \<Rightarrow> rdb_iter \<Rightarrow> bytes \<Rightarrow> u32 \<Rightarrow> u32
    \<Rightarrow> (int \<times> bytes \<times> rdb_database list) option" where
  "persist_read p dbs s calloc it0 uuid key n = do {
     (r, dbs) \<leftarrow> rdb_open dbs RDB_ID_APP_PERSIST;
     db \<leftarrow> r;
     (rv, it) \<leftarrow> rdb_iter_start p s db it0;
     if \<not> rv then do { dbs \<leftarrow> rdb_close dbs (db_id db); Some (E_ERROR, [], dbs) }
     else do {
       head \<leftarrow> rdb_select p (fs_flash s) calloc it True [] (load_selector (create_composite_key uuid key));
       case head of
         [] \<Rightarrow> do { dbs \<leftarrow> rdb_close dbs (db_id db); Some (E_DOES_NOT_EXIST, [], dbs) }
       | res # _ \<Rightarrow>
           let sz = (if n \<le> ucast (it_data_len (res_it res)) then unat n else unat (it_data_len (res_it res)))
           in do { dbs \<leftarrow> rdb_close dbs (db_id db); Some (int sz, take sz (res_result res ! 0), dbs) } } }"

definition persist_exists :: "plat \<Rightarrow> rdb_database list \<Rightarrow> fs \<Rightarrow> (nat \<Rightarrow> bool) \<Rightarrow> rdb_iter \<Rightarrow> bytes \<Rightarrow> u32
    \<Rightarrow> (bool \<times> rdb_database list) option" where
  "persist_exists p dbs s calloc it0 uuid key = do {
     (rv, _, dbs) \<leftarrow> persist_read p dbs s calloc it0 uuid key 1;
     Some (rv = 1, dbs) }"

text \<open>The size of a value. The value is deleted, no return code of \<open>rdb_delete\<close> is zero, the database stays
  locked when the key is not there, and the size is read from the result after it is freed: \<open>freed\<close>
  gives what the field then holds.\<close>

definition persist_get_size :: "plat \<Rightarrow> rdb_database list \<Rightarrow> fs \<Rightarrow> (nat \<Rightarrow> bool) \<Rightarrow> (u16 \<Rightarrow> u16) \<Rightarrow> rdb_iter \<Rightarrow> bytes \<Rightarrow> u32
    \<Rightarrow> (int \<times> rdb_database list \<times> fs) option" where
  "persist_get_size p dbs s calloc freed it0 uuid key = do {
     (r, dbs) \<leftarrow> rdb_open dbs RDB_ID_APP_PERSIST;
     db \<leftarrow> r;
     (rv, it) \<leftarrow> rdb_iter_start p s db it0;
     if \<not> rv then do { dbs \<leftarrow> rdb_close dbs (db_id db); Some (E_ERROR, dbs, s) }
     else do {
       head \<leftarrow> rdb_select p (fs_flash s) calloc it True [] (key_selector (create_composite_key uuid key));
       case head of
         [] \<Rightarrow> Some (E_DOES_NOT_EXIST, dbs, s)
       | res # _ \<Rightarrow> do {
           (_, s) \<leftarrow> rdb_delete p s (res_it res);
           dbs \<leftarrow> rdb_close dbs (db_id db);
           Some (uint (freed (it_data_len (res_it res))), dbs, s) } } }"

definition persist_delete :: "plat \<Rightarrow> rdb_database list \<Rightarrow> fs \<Rightarrow> (nat \<Rightarrow> bool) \<Rightarrow> rdb_iter \<Rightarrow> bytes \<Rightarrow> u32
    \<Rightarrow> (int \<times> rdb_database list \<times> fs) option" where
  "persist_delete p dbs s calloc it0 uuid key = do {
     (r, dbs) \<leftarrow> rdb_open dbs RDB_ID_APP_PERSIST;
     db \<leftarrow> r;
     (rv, it) \<leftarrow> rdb_iter_start p s db it0;
     if \<not> rv then do { dbs \<leftarrow> rdb_close dbs (db_id db); Some (E_ERROR, dbs, s) }
     else do {
       head \<leftarrow> rdb_select p (fs_flash s) calloc it True [] (key_selector (create_composite_key uuid key));
       case head of
         [] \<Rightarrow> Some (E_DOES_NOT_EXIST, dbs, s)
       | res # _ \<Rightarrow> do {
           (_, s) \<leftarrow> rdb_delete p s (res_it res);
           dbs \<leftarrow> rdb_close dbs (db_id db);
           Some (S_SUCCESS, dbs, s) } } }"

definition persist_write :: "plat \<Rightarrow> rdb_database list \<Rightarrow> fs \<Rightarrow> (nat \<Rightarrow> bool) \<Rightarrow> rdb_iter \<Rightarrow> bytes \<Rightarrow> u32 \<Rightarrow> bytes
    \<Rightarrow> (int \<times> rdb_database list \<times> fs) option" where
  "persist_write p dbs s calloc it0 uuid key data =
    (if length data > PERSIST_DATA_MAX_LENGTH then Some (E_INVALID_ARGUMENT, dbs, s)
     else do {
       (ex, dbs) \<leftarrow> persist_exists p dbs s calloc it0 uuid key;
       (r, dbs) \<leftarrow> rdb_open dbs RDB_ID_APP_PERSIST;
       db \<leftarrow> r;
       (rv, s) \<leftarrow> rdb_create p s db;
       if rv \<noteq> Blob_Success then Some (E_OUT_OF_STORAGE, dbs, s)
       else do {
         (rv, s) \<leftarrow> (if \<not> ex then rdb_insert p s db it0 (create_composite_key uuid key) data
                      else rdb_update p s calloc db it0 (create_composite_key uuid key) data);
         dbs \<leftarrow> rdb_close dbs (db_id db);
         Some (if rv = Blob_Success then int (length data) else E_ERROR, dbs, s) } })"

text \<open>The typed accessors. A negative code returned as a \<open>bool\<close> is true.\<close>

definition persist_read_bool :: "plat \<Rightarrow> rdb_database list \<Rightarrow> fs \<Rightarrow> (nat \<Rightarrow> bool) \<Rightarrow> rdb_iter \<Rightarrow> bytes \<Rightarrow> u32
    \<Rightarrow> (bool \<times> rdb_database list) option" where
  "persist_read_bool p dbs s calloc it0 uuid key = do {
     (rv, bs, dbs) \<leftarrow> persist_read p dbs s calloc it0 uuid key 1;
     if rv = 0 then Some (E_INVALID_ARGUMENT \<noteq> 0, dbs)
     else Some (bs \<noteq> [] \<and> hd bs \<noteq> 0, dbs) }"

definition persist_read_int :: "plat \<Rightarrow> rdb_database list \<Rightarrow> fs \<Rightarrow> (nat \<Rightarrow> bool) \<Rightarrow> rdb_iter \<Rightarrow> bytes \<Rightarrow> u32
    \<Rightarrow> (int \<times> rdb_database list) option" where
  "persist_read_int p dbs s calloc it0 uuid key = do {
     (rv, bs, dbs) \<leftarrow> persist_read p dbs s calloc it0 uuid key 4;
     if rv \<noteq> 4 then Some (E_INVALID_ARGUMENT, dbs)
     else Some (sint (get32 bs 0), dbs) }"

definition persist_read_data where "persist_read_data = persist_read"
definition persist_read_string where "persist_read_string = persist_read"

definition persist_write_bool where
  "persist_write_bool p dbs s calloc it0 uuid key v = persist_write p dbs s calloc it0 uuid key [if v then 1 else 0]"

definition persist_write_int where
  "persist_write_int p dbs s calloc it0 uuid key v = persist_write p dbs s calloc it0 uuid key (le32 (word_of_int v))"

definition persist_write_data where
  "persist_write_data p dbs s calloc it0 uuid key data =
     persist_write p dbs s calloc it0 uuid key (take (if length data < PERSIST_DATA_MAX_LENGTH then length data else PERSIST_DATA_MAX_LENGTH) data)"

definition strnlen :: "bytes \<Rightarrow> nat \<Rightarrow> nat" where
  "strnlen cs n = length (takeWhile (\<lambda>b. b \<noteq> 0) (take n cs))"

definition persist_write_string where
  "persist_write_string p dbs s calloc it0 uuid key cs =
     persist_write p dbs s calloc it0 uuid key (take (strnlen cs PERSIST_STRING_MAX_LENGTH) cs)"

section \<open>Specification\<close>

text \<open>The two databases, open.\<close>

definition prefs_db :: rdb_database where
  "prefs_db = \<lparr> db_id = 129, db_filename = ascii ''rebble/prefs'', def_db_size = 8192, db_locked = True \<rparr>"

definition persist_db :: rdb_database where
  "persist_db = \<lparr> db_id = 16, db_filename = ascii ''rebble/apppersistdb'', def_db_size = 16384, db_locked = True \<rparr>"

text \<open>The table with one database locked.\<close>

definition locked :: "u8 \<Rightarrow> rdb_database list" where
  "locked i = map (\<lambda>db. if db_id db = i then db\<lparr>db_locked := True\<rparr> else db) databases"

lemma rdb_open_databases:
  "rdb_open databases RDB_ID_PREFS = Some (Some prefs_db, locked 129)"
  "rdb_open databases RDB_ID_APP_PERSIST = Some (Some persist_db, locked 16)"
  by (simp_all add: databases_def locked_def RDB_ID_PREFS_def RDB_ID_APP_PERSIST_def prefs_db_def persist_db_def c_assert_def)

lemma rdb_close_databases:
  "rdb_close (locked 129) (db_id prefs_db) = Some databases" "rdb_close (locked 16) (db_id persist_db) = Some databases"
  by (simp_all add: databases_def locked_def rdb_close_def prefs_db_def persist_db_def c_assert_def)

lemma rdb_open_locked:
  "rdb_open (locked 129) RDB_ID_PREFS = None" "rdb_open (locked 16) RDB_ID_APP_PERSIST = None"
  by (simp_all add: databases_def locked_def RDB_ID_PREFS_def RDB_ID_APP_PERSIST_def c_assert_def)

lemma rdb_create_view: "rdb_view p db s n M \<Longrightarrow> rdb_create p s db = Some (Blob_Success, s)"
  by (auto simp: rdb_view_def db_log_def rdb_create_def)

lemma le32_inj: "le32 x = le32 y \<longleftrightarrow> x = y"
  by (metis append_Nil append_Nil2 get32_append_le32)

lemma composite_inj: "length u = 16 \<Longrightarrow> length u' = 16 \<Longrightarrow> create_composite_key u k = create_composite_key u' k' \<longleftrightarrow> u = u' \<and> k = k'"
  by (simp add: create_composite_key_def le32_inj)

subsection \<open>Reading\<close>

text \<open>What a read of at most \<open>n\<close> bytes returns: the number of bytes and the bytes. A value of no bytes is not found.\<close>

definition read_result :: "int \<Rightarrow> (bytes \<rightharpoonup> bytes) \<Rightarrow> bytes \<Rightarrow> u32 \<Rightarrow> int \<times> bytes" where
  "read_result none M key n = (if M = Map.empty then (-1, [])
     else case M key of None \<Rightarrow> (none, []) | Some d \<Rightarrow> if d = [] then (none, []) else (int (min (unat n) (length d)), take (unat n) d))"

lemma take_min [simp]: "take (min (length d) k) d = take k d"
  by (simp add: min_def)

lemma copy_size: "(if n \<le> ucast (l :: u16) then unat (n :: u32) else unat l) = min (unat n) (unat l)"
proof -
  have "n \<le> ucast l \<longleftrightarrow> unat n \<le> unat l" by (simp add: word_le_nat_alt unat_u16_ucast)
  then show ?thesis by simp
qed

lemma read_cases:
  assumes view: "rdb_view (snowy_plat nor_ideal) db s n M" and k: "length k < 256" "k \<noteq> []"
  obtains (no_records) it where "M = Map.empty" "rdb_iter_start (snowy_plat nor_ideal) s db it0 = Some (False, it)"
  | (absent) it where "M \<noteq> Map.empty" "M k = None \<or> M k = Some []" "rdb_iter_start (snowy_plat nor_ideal) s db it0 = Some (True, it)"
      "rdb_select (snowy_plat nor_ideal) (fs_flash s) heap_room it True [] (load_selector k) = Some []"
  | (found) it d r where "M \<noteq> Map.empty" "M k = Some d" "d \<noteq> []" "rdb_iter_start (snowy_plat nor_ideal) s db it0 = Some (True, it)"
      "rdb_select (snowy_plat nor_ideal) (fs_flash s) heap_room it True [] (load_selector k) = Some [r]"
      "unat (it_data_len (res_it r)) = length d" "res_result r = [d]"
proof (cases "M = Map.empty")
  case True
  then show ?thesis using snowy_rdb.start [OF view, of it0] no_records by auto
next
  case False
  then show ?thesis
    using snowy_rdb.get [OF view k, of it0] absent found by (cases "M k") (auto simp: res_view_def split: if_splits)
qed

lemma prefs_get_spec:
  assumes view: "rdb_view (snowy_plat nor_ideal) prefs_db s n M"
  shows "prefs_get (snowy_plat nor_ideal) databases s heap_room it0 key bufsz =
    (case read_result (-1) M (le32 key) bufsz of (rv, bs) \<Rightarrow> Some (rv, bs, databases))"
proof -
  have "length (le32 key) < 256" "le32 key \<noteq> []" by (simp_all add: le32_def)
  from read_cases [OF view this, of it0] show ?thesis
    by cases (auto simp: prefs_get_def rdb_open_databases rdb_close_databases read_result_def copy_size min.commute Let_def)
qed

lemma persist_read_spec:
  assumes view: "rdb_view (snowy_plat nor_ideal) persist_db s n M" and uuid: "length uuid = 16"
  shows "persist_read (snowy_plat nor_ideal) databases s heap_room it0 uuid key sz =
    (case read_result E_DOES_NOT_EXIST M (create_composite_key uuid key) sz of (rv, bs) \<Rightarrow> Some (rv, bs, databases))"
proof -
  have "length (create_composite_key uuid key) < 256" "create_composite_key uuid key \<noteq> []"
    using uuid by (auto simp: create_composite_key_def)
  from read_cases [OF view this, of it0] show ?thesis
    by cases (auto simp: persist_read_def rdb_open_databases rdb_close_databases read_result_def copy_size min.commute Let_def E_ERROR_def)
qed

lemma persist_exists_spec:
  assumes "rdb_view (snowy_plat nor_ideal) persist_db s n M" "length uuid = 16"
  shows "persist_exists (snowy_plat nor_ideal) databases s heap_room it0 uuid key =
    Some (\<exists>b d. M (create_composite_key uuid key) = Some (b # d), databases)"
proof -
  have "min 1 (length d) = 1 \<longleftrightarrow> (\<exists>b e. d = b # e)" for d :: bytes by (cases d) auto
  then show ?thesis
    using persist_read_spec [OF assms, of it0 key 1]
    by (auto simp: persist_exists_def read_result_def E_DOES_NOT_EXIST_def split: option.splits)
qed

subsection \<open>Writing\<close>

lemma prefs_put_spec:
  assumes view: "rdb_view (snowy_plat nor_ideal) prefs_db s n M" and fit: "8 + length data \<le> n" "length data < 0x10000"
  shows "\<exists>s'. prefs_put (snowy_plat nor_ideal) databases s heap_room it0 key data = Some (0, databases, s') \<and>
    rdb_view (snowy_plat nor_ideal) prefs_db s' (n - (8 + length data)) (M(le32 key \<mapsto> data))"
proof -
  have "4 + length (le32 key) + length data \<le> n" "length (le32 key) < 256" "le32 key \<noteq> []" using fit by (simp_all add: le32_def)
  from snowy_rdb.insert_or_update [OF view this(1,2) fit(2) this(3), of it0] show ?thesis
    by (auto simp: prefs_put_def rdb_open_databases rdb_close_databases rdb_create_view [OF view])
qed

lemma persist_write_spec:
  assumes view: "rdb_view (snowy_plat nor_ideal) persist_db s n M" and uuid: "length uuid = 16"
    and fit: "24 + length data \<le> n" "length data \<le> 256" and old: "M (create_composite_key uuid key) \<noteq> Some []"
  shows "\<exists>s'. persist_write (snowy_plat nor_ideal) databases s heap_room it0 uuid key data = Some (int (length data), databases, s') \<and>
    rdb_view (snowy_plat nor_ideal) persist_db s' (n - (24 + length data)) (M(create_composite_key uuid key \<mapsto> data))"
proof -
  let ?k = "create_composite_key uuid key"
  have k: "length ?k = 20" using uuid by (simp add: create_composite_key_def)
  have ex: "(\<exists>b d. M ?k = Some (b # d)) \<longleftrightarrow> M ?k \<noteq> None" using old by (metis list.exhaust option.exhaust option.distinct(1))
  have "4 + length ?k + length data \<le> n" "length ?k < 256" "length data < 0x10000" "?k \<noteq> []" using fit k by auto
  from snowy_rdb.update_or_insert [OF view this, of it0] show ?thesis
    using fit(2) k
    by (auto simp: persist_write_def PERSIST_DATA_MAX_LENGTH_def persist_exists_spec [OF view uuid] ex rdb_open_databases
        rdb_close_databases rdb_create_view [OF view] split: if_splits)
qed

text \<open>A value of no bytes is not seen by \<open>persist_exists\<close>, so a later write is an insertion that is refused.\<close>

lemma persist_rewrite_empty_fails:
  assumes view: "rdb_view (snowy_plat nor_ideal) persist_db s n M" and uuid: "length uuid = 16"
    and d: "length data \<le> 256" and old: "M (create_composite_key uuid key) = Some []"
  shows "persist_write (snowy_plat nor_ideal) databases s heap_room it0 uuid key data = Some (E_ERROR, databases, s)"
  using d old snowy_rdb.insert_dup [OF view, of "create_composite_key uuid key" it0 data]
  by (simp add: persist_write_def PERSIST_DATA_MAX_LENGTH_def persist_exists_spec [OF view uuid] rdb_open_databases
      rdb_close_databases rdb_create_view [OF view])

subsection \<open>Deletion\<close>

lemma persist_find_spec:
  assumes view: "rdb_view (snowy_plat nor_ideal) persist_db s n M" and uuid: "length uuid = 16" and k: "k = create_composite_key uuid key"
  obtains (no_records) it where "M = Map.empty" "rdb_iter_start (snowy_plat nor_ideal) s persist_db it0 = Some (False, it)"
  | (absent) it where "M \<noteq> Map.empty" "M k = None" "rdb_iter_start (snowy_plat nor_ideal) s persist_db it0 = Some (True, it)"
      "rdb_select (snowy_plat nor_ideal) (fs_flash s) heap_room it True [] (key_selector k) = Some []"
  | (found) it d r s' where "M k = Some d" "rdb_iter_start (snowy_plat nor_ideal) s persist_db it0 = Some (True, it)"
      "rdb_select (snowy_plat nor_ideal) (fs_flash s) heap_room it True [] (key_selector k) = Some [r]"
      "unat (it_data_len (res_it r)) = length d" "rdb_delete (snowy_plat nor_ideal) s (res_it r) = Some (Blob_Success, s')"
      "rdb_view (snowy_plat nor_ideal) persist_db s' n (M(k := None))"
proof -
  have kl: "length k < 256" "k \<noteq> []" using uuid by (auto simp: create_composite_key_def k)
  obtain it where it: "rdb_iter_start (snowy_plat nor_ideal) s persist_db it0 = Some (M \<noteq> Map.empty, it)"
    using snowy_rdb.start [OF view] by blast
  show ?thesis
  proof (cases "M k")
    case None
    then show ?thesis using it no_records absent snowy_rdb.find_none [OF view _ kl(1) None] by (cases "M = Map.empty") simp_all
  next
    case (Some d)
    then have "M \<noteq> Map.empty" by auto
    with it have st: "rdb_iter_start (snowy_plat nor_ideal) s persist_db it0 = Some (True, it)" by simp
    from snowy_rdb.find_some [OF view st kl(1) Some kl(2)] found [OF Some st] show ?thesis by (auto simp: res_view_def)
  qed
qed

lemma persist_delete_spec:
  assumes view: "rdb_view (snowy_plat nor_ideal) persist_db s n M" and uuid: "length uuid = 16" and k: "k = create_composite_key uuid key"
  shows "\<exists>s'. persist_delete (snowy_plat nor_ideal) databases s heap_room it0 uuid key =
      Some (if M = Map.empty then (E_ERROR, databases, s') else if M k = None then (E_DOES_NOT_EXIST, locked 16, s') else (S_SUCCESS, databases, s')) \<and>
    rdb_view (snowy_plat nor_ideal) persist_db s' n (M(k := None))"
  using persist_find_spec [OF view uuid k, of it0]
proof cases
  case 1
  then show ?thesis using view by (simp add: persist_delete_def rdb_open_databases rdb_close_databases)
next
  case 2
  then show ?thesis using view by (simp add: persist_delete_def rdb_open_databases fun_upd_idem flip: k)
next
  case 3
  then have "M \<noteq> Map.empty" by auto
  with 3 show ?thesis by (simp add: persist_delete_def rdb_open_databases rdb_close_databases flip: k)
qed

lemma persist_get_size_deletes:
  assumes view: "rdb_view (snowy_plat nor_ideal) persist_db s n M" and uuid: "length uuid = 16" and k: "k = create_composite_key uuid key"
    and d: "M k = Some d"
  shows "\<exists>s'. persist_get_size (snowy_plat nor_ideal) databases s heap_room (\<lambda>x. x) it0 uuid key = Some (int (length d), databases, s') \<and>
    rdb_view (snowy_plat nor_ideal) persist_db s' n (M(k := None))"
  using persist_find_spec [OF view uuid k, of it0]
proof cases
  case (3 it d' r s')
  have "uint (it_data_len (res_it r)) = int (length d)" using 3(1,4) d by (simp add: uint_nat)
  with 3 show ?thesis by (simp add: persist_get_size_def rdb_open_databases rdb_close_databases flip: k)
qed (use d in simp_all)

text \<open>The database stays locked when a size is asked for a key that is not there.\<close>

lemma persist_get_size_absent_locks:
  assumes view: "rdb_view (snowy_plat nor_ideal) persist_db s n M" and uuid: "length uuid = 16" and k: "k = create_composite_key uuid key"
    and ne: "M \<noteq> Map.empty" "M k = None"
  shows "persist_get_size (snowy_plat nor_ideal) databases s heap_room freed it0 uuid key = Some (E_DOES_NOT_EXIST, locked 16, s)"
  using persist_find_spec [OF view uuid k, of it0]
  by cases (use ne in \<open>simp_all add: persist_get_size_def rdb_open_databases flip: k\<close>)

subsection \<open>The properties\<close>

text \<open>C7: preferences round trip: with room for one more record \<open>prefs_put\<close> succeeds, whether the key was there
  or not, and leaves the database unlocked; \<open>prefs_get\<close> of the key then returns as many bytes of the value as the buffer
  holds, and of every other key what it returned before. The heap has room throughout; but it gives nothing for no bytes, so a value
  of no bytes, stored with success, is afterwards reported as absent.\<close>

theorem prefs_put_get:
  assumes "rdb_view (snowy_plat nor_ideal) prefs_db s n M" "8 + length data \<le> n" "length data < 0x10000"
  shows "\<exists>s'. prefs_put (snowy_plat nor_ideal) databases s heap_room it0 key data = Some (0, databases, s') \<and>
    (\<forall>bufsz. prefs_get (snowy_plat nor_ideal) databases s' heap_room it0 key bufsz
       = Some (if data = [] then (-1, [], databases) else (int (min (unat bufsz) (length data)), take (unat bufsz) data, databases))) \<and>
    (\<forall>key' bufsz. M \<noteq> Map.empty \<and> key' \<noteq> key \<longrightarrow> prefs_get (snowy_plat nor_ideal) databases s' heap_room it0 key' bufsz
       = prefs_get (snowy_plat nor_ideal) databases s heap_room it0 key' bufsz)"
proof -
  from prefs_put_spec [OF assms, of it0 key] obtain s' where
    put: "prefs_put (snowy_plat nor_ideal) databases s heap_room it0 key data = Some (0, databases, s')" and
    view: "rdb_view (snowy_plat nor_ideal) prefs_db s' (n - (8 + length data)) (M(le32 key \<mapsto> data))" by blast
  show ?thesis
  proof (intro exI conjI allI impI)
    show "prefs_get (snowy_plat nor_ideal) databases s' heap_room it0 key bufsz
       = Some (if data = [] then (-1, [], databases) else (int (min (unat bufsz) (length data)), take (unat bufsz) data, databases))" for bufsz
      by (simp add: prefs_get_spec [OF view] read_result_def)
    show "prefs_get (snowy_plat nor_ideal) databases s' heap_room it0 key' bufsz
       = prefs_get (snowy_plat nor_ideal) databases s heap_room it0 key' bufsz"
      if "M \<noteq> Map.empty \<and> key' \<noteq> key" for key' bufsz
      using that by (simp add: prefs_get_spec [OF view] prefs_get_spec [OF assms(1)] read_result_def le32_inj)
  qed (rule put)
qed

theorem prefs_put_get_witness:
  "\<exists>s'. prefs_put (snowy_plat nor_ideal) databases (ex_dbfs ex_log) heap_room ex_it 3 [4, 5] = Some (0, databases, s') \<and>
    prefs_get (snowy_plat nor_ideal) databases s' heap_room ex_it 3 1 = Some (1, [4], databases)"
proof -
  have "prefs_db = ex_db" by (simp add: prefs_db_def ex_db_def)
  then have "rdb_view (snowy_plat nor_ideal) prefs_db (ex_dbfs ex_log) 115 [[1] \<mapsto> [7, 8], [2] \<mapsto> [9]]" using ex_log_view by simp
  from prefs_put_get [OF this, of "[4, 5]" ex_it 3] show ?thesis by auto
qed


definition ex_uuid :: bytes where
  "ex_uuid = replicate 16 0xAB"

lemma ex_persist_view: "rdb_view (snowy_plat nor_ideal) persist_db (ex_fsys (db_filename persist_db) ex_log) 115 [[1] \<mapsto> [7, 8], [2] \<mapsto> [9]]"
  by (rule ex_fsys_view) (simp_all add: ex_named_def persist_db_def ascii_def)

lemma ex_uuid_key: "length ex_uuid = 16" "create_composite_key ex_uuid key \<noteq> [a]"
  by (simp_all add: ex_uuid_def create_composite_key_def numeral_eq_Suc)


text \<open>C31: deletion and its error paths: \<open>persist_delete\<close> removes the key it finds and closes the database; in an empty database
  it fails and closes it; but when the database has records and the key is not one of them it returns \<open>E_DOES_NOT_EXIST\<close> with
  the database still locked, after which every call that opens it blocks.\<close>

theorem persist_delete_cases:
  assumes "rdb_view (snowy_plat nor_ideal) persist_db s n M" "length uuid = 16" "k = create_composite_key uuid key"
  shows "\<exists>rv dbs s'. persist_delete (snowy_plat nor_ideal) databases s heap_room it0 uuid key = Some (rv, dbs, s') \<and>
    rdb_view (snowy_plat nor_ideal) persist_db s' n (M(k := None)) \<and>
    (M = Map.empty \<longrightarrow> rv = E_ERROR \<and> dbs = databases) \<and>
    (M k \<noteq> None \<longrightarrow> rv = S_SUCCESS \<and> dbs = databases) \<and>
    (M \<noteq> Map.empty \<and> M k = None \<longrightarrow> rv = E_DOES_NOT_EXIST \<and>
      (\<forall>u key' sz. persist_read (snowy_plat nor_ideal) dbs s' heap_room it0 u key' sz = None))"
proof -
  from persist_delete_spec [OF assms, of it0] obtain s' where s':
    "persist_delete (snowy_plat nor_ideal) databases s heap_room it0 uuid key =
      Some (if M = Map.empty then (E_ERROR, databases, s') else if M k = None then (E_DOES_NOT_EXIST, locked 16, s') else (S_SUCCESS, databases, s'))"
    "rdb_view (snowy_plat nor_ideal) persist_db s' n (M(k := None))" by blast
  have "persist_read (snowy_plat nor_ideal) (locked 16) s' heap_room it0 u key' sz = None" for u key' sz
    by (simp add: persist_read_def rdb_open_locked)
  then show ?thesis using s' by (cases "M = Map.empty"; cases "M k = None") auto
qed

theorem persist_delete_cases_witness:
  "\<exists>dbs s'. persist_delete (snowy_plat nor_ideal) databases (ex_fsys (db_filename persist_db) ex_log) heap_room ex_it ex_uuid 3
      = Some (E_DOES_NOT_EXIST, dbs, s') \<and>
    persist_read (snowy_plat nor_ideal) dbs s' heap_room ex_it ex_uuid 3 9 = None"
  using persist_delete_cases [OF ex_persist_view ex_uuid_key(1) refl, where key = 3 and ?it0.0 = ex_it] by (auto simp: ex_uuid_key(2))

end
