(* ===== verification/Fmt.thy ===== *)
theory Fmt
  imports Prelude
begin

section \<open>Formatted output and input: lib/minilib/fmt.c, lib/minilib/unfmt.c\<close>

text \<open>
  The \<open>printf\<close> and \<open>scanf\<close> of the firmware. Formats and strings lie in a memory of bytes, the variable arguments are a list
  of 32-bit words, taken one by one (taking one too many is \<open>None\<close>). The characters given to \<open>ctx->out\<close> are collected
  in a list; \<open>vsfmt\<close> stores them afterwards, so a buffer that overlaps the format or an argument is not modelled. The input side
  keeps the one character that can be put back; what a conversion stores through its pointer argument is recorded
  as the width in bytes and the value cut to it. The lemmas show that output stays in its buffer, and that what is printed with
  decimal conversions is read back.
\<close>

unbundle bit_operations_syntax

type_synonym u64 = "64 word"

definition chr :: "char \<Rightarrow> u8" where
  "chr c = word_of_nat (of_char c)"

lemma chr_codes [simp]:
  "chr CHR ''%'' = 0x25" "chr CHR ''0'' = 0x30" "chr CHR ''9'' = 0x39" "chr CHR '' '' = 0x20" "chr CHR ''.'' = 0x2E"
  "chr CHR ''*'' = 0x2A" "chr CHR ''l'' = 0x6C" "chr CHR ''h'' = 0x68" "chr CHR ''-'' = 0x2D" "chr CHR ''s'' = 0x73" "chr CHR ''p'' = 0x70"
  "chr CHR ''d'' = 0x64" "chr CHR ''u'' = 0x75" "chr CHR ''o'' = 0x6F" "chr CHR ''x'' = 0x78" "chr CHR ''c'' = 0x63"
  "chr CHR ''a'' = 0x61" "chr CHR ''f'' = 0x66" "chr CHR ''A'' = 0x41" "chr CHR ''F'' = 0x46"
  by (simp_all add: chr_def)

subsection \<open>Output\<close>

record fmtctx =
  f_str :: nat
  f_state :: u32
  f_num :: nat
  f_out :: bytes

definition ST_ZEROPAD :: u32 where "ST_ZEROPAD = 1"
definition ST_LONG :: u32 where "ST_LONG = 2"
definition ST_LONGER :: u32 where "ST_LONGER = 4"
definition ST_WIDTH :: u32 where "ST_WIDTH = 8"
definition ST_NEGATIVE :: u32 where "ST_NEGATIVE = 0x10"
definition ST_PREC :: u32 where "ST_PREC = 0x20"
definition ST_SPACEPAD :: u32 where "ST_SPACEPAD = 0x40"

definition PACKWID :: "fmtctx \<Rightarrow> u32 \<Rightarrow> fmtctx" where
  "PACKWID c w = c\<lparr>f_state := f_state c OR push_bit 20 w\<rparr>"

definition WID :: "fmtctx \<Rightarrow> u32" where
  "WID c = drop_bit 20 (f_state c) AND 0xFFF"

definition PACKPREC :: "fmtctx \<Rightarrow> u32 \<Rightarrow> fmtctx" where
  "PACKPREC c w = c\<lparr>f_state := f_state c OR push_bit 12 w\<rparr>"

definition PREC :: "fmtctx \<Rightarrow> u32" where
  "PREC c = drop_bit 12 (f_state c) AND 0xFF"

definition set_state :: "u32 \<Rightarrow> fmtctx \<Rightarrow> fmtctx" where
  "set_state f c = c\<lparr>f_state := f_state c OR f\<rparr>"

definition next_str :: "fmtctx \<Rightarrow> fmtctx" where
  "next_str c = c\<lparr>f_str := f_str c + 1\<rparr>"

definition out_char :: "fmtctx \<Rightarrow> u8 \<Rightarrow> fmtctx" where
  "out_char ctx c = ctx\<lparr>f_num := f_num ctx + 1, f_out := f_out ctx @ [c]\<rparr>"

definition isdigit :: "u8 \<Rightarrow> bool" where
  "isdigit c \<longleftrightarrow> chr CHR ''0'' \<le> c \<and> c \<le> chr CHR ''9''"

partial_function (option) atou :: "mem \<Rightarrow> nat \<Rightarrow> u32 \<Rightarrow> (u32 \<times> nat) option" where
  "atou m p v = (if isdigit (m p) then atou m (p + 1) (v * 10 + (ucast (m p) - 0x30)) else Some (v, p))"

definition digits :: bytes where
  "digits = map chr ''0123456789abcdef''"

text \<open>The buffer of \<open>_utoa\<close> is filled from its end: the list is what is in it behind \<open>n\<close>.\<close>

function utoa_digits :: "nat \<Rightarrow> nat \<Rightarrow> bytes \<Rightarrow> bytes" where
  "utoa_digits base arg n = (if arg = 0 \<or> base < 2 then n else utoa_digits base (arg div base) (digits ! (arg mod base) # n))"
  by pat_completeness auto
termination by (relation "measure (\<lambda>(_, arg, _). arg)") auto

declare utoa_digits.simps [simp del]

function utoa_pad :: "nat \<Rightarrow> u8 \<Rightarrow> bytes \<Rightarrow> bytes" where
  "utoa_pad w c n = (if length n < w \<and> length n < 22 then utoa_pad w c (c # n) else n)"
  by pat_completeness auto
termination by (relation "measure (\<lambda>(_, _, n). 22 - length n)") auto

declare utoa_pad.simps [simp del]

definition utoa :: "fmtctx \<Rightarrow> nat \<Rightarrow> u64 \<Rightarrow> fmtctx" where
  "utoa ctx base arg =
    (let n = (if arg = 0 then [digits ! 0] else utoa_digits base (unat arg) []);
         n = (if f_state ctx AND (ST_ZEROPAD OR ST_SPACEPAD) \<noteq> 0
              then utoa_pad (unat (WID ctx)) (if f_state ctx AND ST_ZEROPAD \<noteq> 0 then chr CHR ''0'' else chr CHR '' '') n else n);
         n = (if f_state ctx AND ST_NEGATIVE \<noteq> 0 then chr CHR ''-'' # n else n)
     in foldl out_char ctx n)"

partial_function (option) fmts_loop :: "mem \<Rightarrow> fmtctx \<Rightarrow> nat \<Rightarrow> u32 \<Rightarrow> fmtctx option" where
  "fmts_loop m ctx s n =
    (if (f_state ctx AND ST_PREC = 0 \<or> n \<noteq> 0) \<and> m s \<noteq> 0 then fmts_loop m (out_char ctx (m s)) (s + 1) (n - 1) else Some ctx)"

definition va_arg :: "u32 list \<Rightarrow> (u32 \<times> u32 list) option" where
  "va_arg va = (case va of [] \<Rightarrow> None | a # va \<Rightarrow> Some (a, va))"

text \<open>The conversions. Negating the least integer wraps around.\<close>

definition fmts :: "mem \<Rightarrow> fmtctx \<Rightarrow> u32 list \<Rightarrow> (fmtctx \<times> u32 list) option" where
  "fmts m ctx va = do { (s, va) \<leftarrow> va_arg va; ctx \<leftarrow> fmts_loop m ctx (unat s) (PREC ctx); Some (ctx, va) }"

definition fmtp :: "fmtctx \<Rightarrow> u32 list \<Rightarrow> (fmtctx \<times> u32 list) option" where
  "fmtp ctx va = do { (p, va) \<leftarrow> va_arg va; Some (utoa (PACKWID (set_state ST_ZEROPAD ctx) 8) 16 (ucast p), va) }"

definition fmtd :: "fmtctx \<Rightarrow> u32 list \<Rightarrow> (fmtctx \<times> u32 list) option" where
  "fmtd ctx va = do {
     (n, va) \<leftarrow> va_arg va;
     Some (if sint n < 0 then utoa (set_state ST_NEGATIVE ctx) 10 (scast (- n)) else utoa ctx 10 (scast n), va) }"

definition fmtu :: "fmtctx \<Rightarrow> u8 \<Rightarrow> u32 list \<Rightarrow> (fmtctx \<times> u32 list) option" where
  "fmtu ctx c va = do {
     (n, va) \<leftarrow> va_arg va;
     Some (utoa ctx (if c = chr CHR ''u'' then 10 else if c = chr CHR ''o'' then 8 else 16) (ucast n), va) }"

definition fmtc :: "fmtctx \<Rightarrow> u32 list \<Rightarrow> (fmtctx \<times> u32 list) option" where
  "fmtc ctx va = do { (n, va) \<leftarrow> va_arg va; Some (out_char ctx (ucast n), va) }"

definition fmtpct :: "fmtctx \<Rightarrow> fmtctx" where
  "fmtpct ctx = out_char ctx (chr CHR ''%'')"

text \<open>The table of conversions; a character that is not in it prints nothing.\<close>

definition fmt_conv :: "mem \<Rightarrow> fmtctx \<Rightarrow> u8 \<Rightarrow> u32 list \<Rightarrow> (fmtctx \<times> u32 list) option" where
  "fmt_conv m ctx c va =
    (if c = chr CHR ''s'' then fmts m ctx va
     else if c = chr CHR ''p'' then fmtp ctx va
     else if c = chr CHR ''d'' then fmtd ctx va
     else if c = chr CHR ''u'' \<or> c = chr CHR ''o'' \<or> c = chr CHR ''x'' then fmtu ctx c va
     else if c = chr CHR ''c'' then fmtc ctx va
     else if c = chr CHR ''%'' then Some (fmtpct ctx, va)
     else Some (ctx, va))"

definition fmt_flags :: "mem \<Rightarrow> fmtctx \<Rightarrow> fmtctx" where
  "fmt_flags m ctx =
    (let ctx = (if m (f_str ctx) = chr CHR ''0'' then next_str (set_state ST_ZEROPAD ctx) else ctx)
     in if m (f_str ctx) = chr CHR '' '' then next_str (set_state ST_SPACEPAD ctx) else ctx)"

definition fmt_width :: "mem \<Rightarrow> fmtctx \<Rightarrow> fmtctx option" where
  "fmt_width m ctx = (if isdigit (m (f_str ctx))
     then do { (w, p) \<leftarrow> atou m (f_str ctx) 0; Some (set_state ST_WIDTH (PACKWID (ctx\<lparr>f_str := p\<rparr>) w)) } else Some ctx)"

definition fmt_prec :: "mem \<Rightarrow> fmtctx \<Rightarrow> u32 list \<Rightarrow> (fmtctx \<times> u32 list) option" where
  "fmt_prec m ctx va = (if m (f_str ctx) = chr CHR ''.''
     then let ctx = next_str ctx in do {
       (ctx, va) \<leftarrow>
         (if isdigit (m (f_str ctx)) then do { (w, p) \<leftarrow> atou m (f_str ctx) 0; Some (PACKPREC (ctx\<lparr>f_str := p\<rparr>) w, va) }
          else if m (f_str ctx) = chr CHR ''*'' then do { (w, va) \<leftarrow> va_arg va; Some (PACKPREC (next_str ctx) w, va) }
          else Some (ctx, va));
       Some (set_state ST_PREC ctx, va) }
     else Some (ctx, va))"

text \<open>After one \<open>l\<close> the next character is looked at, not passed.\<close>

definition fmt_long :: "mem \<Rightarrow> fmtctx \<Rightarrow> fmtctx" where
  "fmt_long m ctx = (if m (f_str ctx) = chr CHR ''l''
     then let ctx = next_str ctx in set_state (if m (f_str ctx) = chr CHR ''l'' then ST_LONGER else ST_LONG) ctx else ctx)"

partial_function (option) fmt_loop :: "mem \<Rightarrow> fmtctx \<Rightarrow> u32 list \<Rightarrow> fmtctx option" where
  "fmt_loop m ctx va =
    (if m (f_str ctx) = 0 then Some ctx
     else if m (f_str ctx) \<noteq> chr CHR ''%'' then fmt_loop m (next_str (out_char ctx (m (f_str ctx)))) va
     else do {
       ctx \<leftarrow> fmt_width m (fmt_flags m ((next_str ctx)\<lparr>f_state := 0\<rparr>));
       (ctx, va) \<leftarrow> fmt_prec m ctx va;
       (ctx, va) \<leftarrow> (let ctx = fmt_long m ctx in fmt_conv m ctx (m (f_str ctx)) va);
       fmt_loop m (next_str ctx) va })"

definition fmt :: "mem \<Rightarrow> nat \<Rightarrow> u32 list \<Rightarrow> fmtctx option" where
  "fmt m str va = fmt_loop m \<lparr> f_str = str, f_state = 0, f_num = 0, f_out = [] \<rparr> va"

text \<open>Output to a buffer of \<open>len\<close> bytes: the bytes stored so far.\<close>

definition sfmtout :: "u32 \<Rightarrow> bytes \<Rightarrow> u8 \<Rightarrow> bytes" where
  "sfmtout len buf c = (if length buf + 1 \<ge> unat len then buf else buf @ [c])"

definition vsfmt :: "mem \<Rightarrow> nat \<Rightarrow> u32 \<Rightarrow> nat \<Rightarrow> u32 list \<Rightarrow> (nat \<times> mem) option" where
  "vsfmt m buf len ifmt ap = do {
     ctx \<leftarrow> fmt m ifmt ap;
     Some (f_num ctx, mwrite m buf (foldl (sfmtout len) [] (f_out ctx) @ [0])) }"

definition sfmt where "sfmt = vsfmt"

subsection \<open>Input\<close>

record unfmtctx =
  u_str :: nat
  u_state :: u32
  u_ungetbuf :: u8
  u_idx :: nat

definition UST_CHAR :: u32 where "UST_CHAR = 1"
definition UST_SHORT :: u32 where "UST_SHORT = 2"
definition UST_LONG :: u32 where "UST_LONG = 4"
definition UST_LONGLONG :: u32 where "UST_LONGLONG = 8"
definition UST_WIDTH :: u32 where "UST_WIDTH = 0x10"
definition UST_UNGET :: u32 where "UST_UNGET = 0x20"

definition sunfmtin :: "mem \<Rightarrow> unfmtctx \<Rightarrow> (u8 \<times> unfmtctx) option" where
  "sunfmtin m ctx = (if m (u_idx ctx) = 0 then None else Some (m (u_idx ctx), ctx\<lparr>u_idx := u_idx ctx + 1\<rparr>))"

text \<open>The next character, \<open>None\<close> at the end of the input.\<close>

definition in_char :: "mem \<Rightarrow> unfmtctx \<Rightarrow> (u8 \<times> unfmtctx) option" where
  "in_char m ctx = (if u_state ctx AND UST_UNGET \<noteq> 0 then Some (u_ungetbuf ctx, ctx\<lparr>u_state := u_state ctx AND NOT UST_UNGET\<rparr>)
     else sunfmtin m ctx)"

definition unget :: "unfmtctx \<Rightarrow> u8 \<Rightarrow> unfmtctx" where
  "unget ctx c = ctx\<lparr>u_state := u_state ctx OR UST_UNGET, u_ungetbuf := c\<rparr>"

definition isspace :: "u8 \<Rightarrow> bool" where
  "isspace c \<longleftrightarrow> c = chr CHR '' '' \<or> c = 9 \<or> c = 0xD \<or> c = 0xA"

definition UWID :: "unfmtctx \<Rightarrow> u32" where
  "UWID c = drop_bit 20 (u_state c) AND 0xFFF"

text \<open>The value of a digit, \<open>None\<close> for a character that ends the number.\<close>

definition digit_value :: "bool \<Rightarrow> u8 \<Rightarrow> u64 option" where
  "digit_value ishex c =
    (if isdigit c then Some (ucast c - 0x30)
     else if ishex \<and> chr CHR ''a'' \<le> c \<and> c \<le> chr CHR ''f'' then Some (ucast c - 0x61 + 10)
     else if ishex \<and> chr CHR ''A'' \<le> c \<and> c \<le> chr CHR ''F'' then Some (ucast c - 0x41 + 10)
     else None)"

partial_function (option) unfmti_loop :: "mem \<Rightarrow> bool \<Rightarrow> unfmtctx \<Rightarrow> u32 \<Rightarrow> bool \<Rightarrow> u64 \<Rightarrow> bool \<Rightarrow> (unfmtctx \<times> bool \<times> u64 \<times> bool) option" where
  "unfmti_loop m ishex ctx n isneg val didconv =
    (if u_state ctx AND UST_WIDTH = 0 \<or> n \<noteq> 0
     then (case in_char m ctx of
         None \<Rightarrow> Some (ctx, isneg, val, didconv)
       | Some (inc, ctx) \<Rightarrow>
           if \<not> didconv \<and> inc = chr CHR ''-'' then unfmti_loop m ishex ctx n True val didconv
           else (case digit_value ishex inc of
               None \<Rightarrow> Some (unget ctx inc, isneg, val, didconv)
             | Some d \<Rightarrow> unfmti_loop m ishex ctx (n - 1) isneg (val * (if ishex then 16 else 10) + d) True))
     else Some (ctx, isneg, val, didconv))"

text \<open>What is stored through the pointer argument: its width in bytes and the value.\<close>

definition unfmt_width :: "u32 \<Rightarrow> nat" where
  "unfmt_width st = (if st AND UST_CHAR \<noteq> 0 then 1 else if st AND UST_SHORT \<noteq> 0 then 2 else if st AND UST_LONG \<noteq> 0 then 4
     else if st AND UST_LONGLONG \<noteq> 0 then 8 else 4)"

definition unfmti :: "mem \<Rightarrow> unfmtctx \<Rightarrow> u8 \<Rightarrow> (bool \<times> unfmtctx \<times> (nat \<times> u64) list) option" where
  "unfmti m ctx c = do {
     (ctx, isneg, val, didconv) \<leftarrow> unfmti_loop m (c = chr CHR ''x'') ctx (UWID ctx) False 0 False;
     Some (if didconv
       then (True, ctx, [(unfmt_width (u_state ctx), take_bit (8 * unfmt_width (u_state ctx)) (if isneg then - val else val))])
       else (False, ctx, [])) }"

definition unfmtpct :: "mem \<Rightarrow> unfmtctx \<Rightarrow> bool \<times> unfmtctx" where
  "unfmtpct m ctx = (case in_char m ctx of None \<Rightarrow> (False, ctx) | Some (inc, ctx) \<Rightarrow> (inc = chr CHR ''%'', ctx))"

definition unfmt_conv :: "mem \<Rightarrow> unfmtctx \<Rightarrow> u8 \<Rightarrow> (bool \<times> unfmtctx \<times> (nat \<times> u64) list) option" where
  "unfmt_conv m ctx c =
    (if c = chr CHR ''d'' \<or> c = chr CHR ''x'' then unfmti m ctx c
     else if c = chr CHR ''%'' then (case unfmtpct m ctx of (ok, ctx) \<Rightarrow> Some (ok, ctx, []))
     else Some (False, ctx, []))"

text \<open>Skipping white space of the input: \<open>None\<close> inside at its end, else with the next character put back.\<close>

partial_function (option) unfmt_space :: "mem \<Rightarrow> unfmtctx \<Rightarrow> unfmtctx option option" where
  "unfmt_space m ctx = (case in_char m ctx of
     None \<Rightarrow> Some None
   | Some (c, ctx) \<Rightarrow> if isspace c then unfmt_space m ctx else Some (Some (unget ctx c)))"

definition u_next :: "unfmtctx \<Rightarrow> unfmtctx" where
  "u_next c = c\<lparr>u_str := u_str c + 1\<rparr>"

definition u_set :: "u32 \<Rightarrow> unfmtctx \<Rightarrow> unfmtctx" where
  "u_set f c = c\<lparr>u_state := u_state c OR f\<rparr>"

definition unfmt_spec :: "mem \<Rightarrow> unfmtctx \<Rightarrow> unfmtctx option" where
  "unfmt_spec m ctx = do {
     ctx \<leftarrow> (if isdigit (m (u_str ctx))
       then do { (w, p) \<leftarrow> atou m (u_str ctx) 0; Some (u_set UST_WIDTH (u_set (push_bit 20 w) (ctx\<lparr>u_str := p\<rparr>))) } else Some ctx);
     ctx \<leftarrow> (if m (u_str ctx) = chr CHR ''l''
       then let ctx = u_next ctx in Some (u_set (if m (u_str ctx) = chr CHR ''l'' then UST_LONGLONG else UST_LONG) ctx) else Some ctx);
     Some (if m (u_str ctx) = chr CHR ''h''
       then let ctx = u_next ctx in u_set (if m (u_str ctx) = chr CHR ''h'' then UST_CHAR else UST_SHORT) ctx else ctx) }"

text \<open>The number of conversions and what they stored.\<close>

partial_function (option) unfmt_loop :: "mem \<Rightarrow> unfmtctx \<Rightarrow> nat \<Rightarrow> (nat \<times> u64) list \<Rightarrow> (nat \<times> (nat \<times> u64) list) option" where
  "unfmt_loop m ctx convs st =
    (if m (u_str ctx) = 0 then Some (convs, st)
     else if isspace (m (u_str ctx)) then do {
       r \<leftarrow> unfmt_space m ctx;
       case r of None \<Rightarrow> Some (convs, st) | Some ctx \<Rightarrow> unfmt_loop m (u_next ctx) convs st }
     else if m (u_str ctx) \<noteq> chr CHR ''%'' then
       (case in_char m ctx of
          None \<Rightarrow> Some (convs, st)
        | Some (c, ctx) \<Rightarrow> if c \<noteq> m (u_str ctx) then Some (convs, st) else unfmt_loop m (u_next ctx) convs st)
     else do {
       ctx \<leftarrow> unfmt_spec m ((u_next ctx)\<lparr>u_state := u_state ctx AND UST_UNGET\<rparr>);
       (didconv, ctx, s) \<leftarrow> unfmt_conv m ctx (m (u_str ctx));
       if \<not> didconv then Some (convs, st @ s) else unfmt_loop m (u_next ctx) (convs + 1) (st @ s) })"

definition unvsfmt :: "mem \<Rightarrow> nat \<Rightarrow> nat \<Rightarrow> (nat \<times> (nat \<times> u64) list) option" where
  "unvsfmt m buf ifmt = unfmt_loop m \<lparr> u_str = ifmt, u_state = 0, u_ungetbuf = 0, u_idx = buf \<rparr> 0 []"

definition unsfmt where "unsfmt = unvsfmt"

section \<open>Specification\<close>

subsection \<open>Decimal numbers\<close>

definition dec :: "nat \<Rightarrow> bytes" where
  "dec n = (if n = 0 then [digits ! 0] else utoa_digits 10 n [])"

definition sdec :: "u32 \<Rightarrow> bytes" where
  "sdec a = (if sint a < 0 then chr CHR ''-'' # dec (nat (- sint a)) else dec (nat (sint a)))"

definition dec_step :: "u64 \<Rightarrow> u8 \<Rightarrow> u64" where
  "dec_step v d = v * 10 + (ucast d - 0x30)"

lemma utoa_digits_append: "utoa_digits b n acc = utoa_digits b n [] @ acc"
proof (induction n arbitrary: acc rule: less_induct)
  case (less n)
  show ?case
  proof (cases "n = 0 \<or> b < 2")
    case True
    then show ?thesis by (simp add: utoa_digits.simps [of b n acc] utoa_digits.simps [of b n "[]"])
  next
    case False
    have step: "utoa_digits b n acc = utoa_digits b (n div b) (digits ! (n mod b) # acc)" for acc
      using False by (subst utoa_digits.simps) simp
    have "n div b < n" using False by simp
    note IH = less [OF this]
    show ?thesis unfolding step [of acc] step [of "[]"] IH [of "digits ! (n mod b) # acc"] IH [of "[digits ! (n mod b)]"] by simp
  qed
qed

lemma utoa_digits_10: "0 < n \<Longrightarrow> utoa_digits 10 n [] = utoa_digits 10 (n div 10) [] @ [digits ! (n mod 10)]"
  by (subst utoa_digits.simps, subst utoa_digits_append) simp

lemma digit_10: "d < 10 \<Longrightarrow> digits ! d = 0x30 + word_of_nat d"
proof -
  assume "d < 10"
  then have "d \<in> {0, 1, 2, 3, 4, 5, 6, 7, 8, 9}" by auto
  then show ?thesis by (auto simp: digits_def chr_def)
qed

lemma digit_10_range: "d < 10 \<Longrightarrow> isdigit (digits ! d) \<and> ucast (digits ! d) - 0x30 = (word_of_nat d :: u64)"
proof -
  assume "d < 10"
  then have "d \<in> {0, 1, 2, 3, 4, 5, 6, 7, 8, 9}" by auto
  then show ?thesis by (auto simp: digits_def isdigit_def chr_def)
qed

lemma dec_digits: "d \<in> set (dec n) \<Longrightarrow> isdigit d"
proof -
  have "\<forall>d \<in> set (utoa_digits 10 n []). isdigit d"
  proof (induction n rule: less_induct)
    case (less n)
    show ?case
    proof (cases "n = 0")
      case True
      then show ?thesis by (simp add: utoa_digits.simps)
    next
      case False
      then show ?thesis using less [of "n div 10"] digit_10_range [of "n mod 10"] by (auto simp: utoa_digits_10)
    qed
  qed
  then show "d \<in> set (dec n) \<Longrightarrow> isdigit d" using digit_10_range [of 0] by (auto simp: dec_def split: if_splits)
qed

lemma dec_nonempty [simp]: "dec n \<noteq> []"
  by (cases "n = 0") (simp_all add: dec_def utoa_digits_10)

lemma dec_value: "foldl dec_step 0 (dec n) = word_of_nat n"
proof -
  have "foldl dec_step 0 (utoa_digits 10 n []) = word_of_nat n"
  proof (induction n rule: less_induct)
    case (less n)
    show ?case
    proof (cases "n = 0")
      case True
      then show ?thesis by (simp add: utoa_digits.simps)
    next
      case False
      have "foldl dec_step 0 (utoa_digits 10 n []) = word_of_nat (n div 10) * 10 + word_of_nat (n mod 10)"
        using less [of "n div 10"] False digit_10_range [of "n mod 10"] by (simp add: utoa_digits_10) (simp add: dec_step_def)
      also have "\<dots> = word_of_nat (n div 10 * 10 + n mod 10)" by (simp only: of_nat_add of_nat_mult of_nat_numeral)
      finally show ?thesis by simp
    qed
  qed
  then show ?thesis using digit_10_range [of 0] by (auto simp: dec_def dec_step_def)
qed

lemma isdigit_facts: "isdigit d \<Longrightarrow> d \<noteq> 0 \<and> d \<noteq> 0x2D \<and> \<not> isspace d \<and> digit_value False d = Some (ucast d - 0x30)"
  by (auto simp: isdigit_def isspace_def digit_value_def)

lemma sint_neg: "(a :: u32) \<noteq> 0x80000000 \<Longrightarrow> sint (- a) = - sint a"
proof -
  assume a: "a \<noteq> 0x80000000"
  have r: "- (2 ^ 31) \<le> sint a" "sint a < 2 ^ 31" using sint_range_size [of a] by (simp_all add: word_size)
  have "sint a \<noteq> - (2 ^ 31)"
  proof
    assume "sint a = - (2 ^ 31)"
    then have "(word_of_int (sint a) :: u32) = word_of_int (- (2 ^ 31))" by (rule arg_cong)
    then show False using a by simp
  qed
  then have "sint (word_of_int (- sint a) :: u32) = - sint a"
    using r by (simp only: sint_sbintrunc') (simp add: signed_take_bit_int_eq_self_iff)
  then show ?thesis by simp
qed

lemma scast_val: "0 \<le> sint (a :: u32) \<Longrightarrow> unat (scast a :: u64) = nat (sint a)"
proof -
  assume a: "0 \<le> sint a"
  have "sint a < 2 ^ 31" using sint_range_size [of a] by (simp add: word_size)
  then have "take_bit 64 (sint a) = sint a" using a by (simp add: take_bit_int_eq_self_iff)
  then have "uint (word_of_int (sint a) :: u64) = sint a" by (simp only: uint_word_of_int_eq) simp
  then have "uint (scast a :: u64) = sint a" by simp
  then show ?thesis by (metis unat_eq_nat_uint)
qed

lemma stored_int: "take_bit 32 (scast (a :: u32) :: u64) = ucast a"
proof (rule bit_word_eqI)
  fix n assume n: "n < LENGTH(64)"
  show "bit (take_bit 32 (scast a :: u64)) n = bit (ucast a :: u64) n"
  proof (cases "n < 32")
    case True
    then show ?thesis using n by (simp add: bit_simps min_absorb2)
  next
    case False
    then have "\<not> bit a n" by (auto dest: bit_imp_le_length)
    then show ?thesis using n False by (simp add: bit_simps)
  qed
qed

subsection \<open>What is printed\<close>

text \<open>The format \<open>%d %d ... %d\<close> with \<open>n\<close> conversions and the text it prints.\<close>

fun dec_format :: "nat \<Rightarrow> bytes" where
  "dec_format 0 = []" |
  "dec_format (Suc 0) = [chr CHR ''%'', chr CHR ''d'']" |
  "dec_format (Suc (Suc n)) = [chr CHR ''%'', chr CHR ''d'', chr CHR '' ''] @ dec_format (Suc n)"

fun dec_text :: "u32 list \<Rightarrow> bytes" where
  "dec_text [] = []" |
  "dec_text [a] = sdec a" |
  "dec_text (a # b # as) = sdec a @ chr CHR '' '' # dec_text (b # as)"

definition str_mem :: "mem \<Rightarrow> nat \<Rightarrow> bytes \<Rightarrow> bool" where
  "str_mem m p bs \<longleftrightarrow> mread m p (length bs) = bs \<and> m (p + length bs) = 0"

lemma str_mem_Cons: "str_mem m p (b # bs) \<longleftrightarrow> m p = b \<and> str_mem m (p + 1) bs"
  by (auto simp: str_mem_def mread_Suc)

lemma str_mem_Nil: "str_mem m p [] \<longleftrightarrow> m p = 0"
  by (simp add: str_mem_def)

lemma foldl_out: "foldl out_char ctx bs = ctx\<lparr>f_num := f_num ctx + length bs, f_out := f_out ctx @ bs\<rparr>"
  by (induction bs arbitrary: ctx) (simp_all add: out_char_def)

lemma utoa_plain: "f_state ctx = 0 \<or> f_state ctx = ST_NEGATIVE \<Longrightarrow>
   utoa ctx 10 arg = foldl out_char ctx ((if f_state ctx = ST_NEGATIVE then [chr CHR ''-''] else []) @ dec (unat arg))"
  by (auto simp: utoa_def dec_def Let_def ST_ZEROPAD_def ST_SPACEPAD_def ST_NEGATIVE_def unat_eq_0)

lemma fmtd_plain:
  assumes "f_state ctx = 0" "a \<noteq> 0x80000000"
  shows "fmtd ctx (a # va) = Some (ctx\<lparr>f_state := if sint a < 0 then ST_NEGATIVE else 0, f_num := f_num ctx + length (sdec a),
     f_out := f_out ctx @ sdec a\<rparr>, va)"
proof (cases "sint a < 0")
  case True
  then have "unat (scast (- a) :: u64) = nat (- sint a)" using scast_val [of "- a"] sint_neg [OF assms(2)] by simp
  then show ?thesis
    using True assms(1) utoa_plain [of "set_state ST_NEGATIVE ctx" "scast (- a)"]
    by (cases ctx) (simp add: fmtd_def va_arg_def foldl_out sdec_def set_state_def out_char_def)
next
  case False
  then show ?thesis
    using assms(1) utoa_plain [of ctx "scast a"] scast_val [of a]
    by (simp add: fmtd_def va_arg_def foldl_out sdec_def ST_NEGATIVE_def)
qed

lemma fmt_loop_d:
  assumes "m (f_str ctx) = 0x25" "m (f_str ctx + 1) = 0x64" "a \<noteq> 0x80000000"
  shows "fmt_loop m ctx (a # va) = fmt_loop m (ctx\<lparr>f_str := f_str ctx + 2, f_state := if sint a < 0 then ST_NEGATIVE else 0,
     f_num := f_num ctx + length (sdec a), f_out := f_out ctx @ sdec a\<rparr>) va"
proof -
  have "fmt_flags m ((next_str ctx)\<lparr>f_state := 0\<rparr>) = (next_str ctx)\<lparr>f_state := 0\<rparr>"
    using assms by (simp add: fmt_flags_def next_str_def)
  moreover have "fmt_width m ((next_str ctx)\<lparr>f_state := 0\<rparr>) = Some ((next_str ctx)\<lparr>f_state := 0\<rparr>)"
    using assms by (simp add: fmt_width_def next_str_def isdigit_def)
  moreover have "fmt_prec m ((next_str ctx)\<lparr>f_state := 0\<rparr>) (a # va) = Some ((next_str ctx)\<lparr>f_state := 0\<rparr>, a # va)"
    using assms by (simp add: fmt_prec_def next_str_def)
  moreover have "fmt_long m ((next_str ctx)\<lparr>f_state := 0\<rparr>) = (next_str ctx)\<lparr>f_state := 0\<rparr>"
    using assms by (simp add: fmt_long_def next_str_def)
  ultimately show ?thesis
    using assms fmtd_plain [of "(next_str ctx)\<lparr>f_state := 0\<rparr>" a va]
    by (subst fmt_loop.simps) (cases ctx; simp add: fmt_conv_def next_str_def)
qed

lemma fmt_loop_char:
  "m (f_str ctx) = c \<Longrightarrow> c \<noteq> 0 \<Longrightarrow> c \<noteq> 0x25 \<Longrightarrow> fmt_loop m ctx va = fmt_loop m (next_str (out_char ctx c)) va"
  by (subst fmt_loop.simps) simp

lemma fmt_loop_end: "m (f_str ctx) = 0 \<Longrightarrow> fmt_loop m ctx va = Some ctx"
  by (subst fmt_loop.simps) simp

lemma fmt_loop_decs:
  assumes "str_mem m (f_str ctx) (dec_format (length xs))" "0x80000000 \<notin> set xs"
  shows "\<exists>ctx'. fmt_loop m ctx xs = Some ctx' \<and> f_out ctx' = f_out ctx @ dec_text xs \<and> f_num ctx' = f_num ctx + length (dec_text xs)"
  using assms
proof (induction xs arbitrary: ctx rule: dec_text.induct)
  case 1
  then show ?case by (simp add: str_mem_Nil fmt_loop_end)
next
  case (2 a)
  then have m: "m (f_str ctx) = 0x25" "m (f_str ctx + 1) = 0x64" "m (f_str ctx + 2) = 0" "a \<noteq> 0x80000000"
    by (simp_all add: str_mem_Cons str_mem_Nil)
  show ?case unfolding fmt_loop_d [OF m(1,2,4)] by (subst fmt_loop_end) (use m in simp_all)
next
  case (3 a b as)
  then have m: "m (f_str ctx) = 0x25" "m (f_str ctx + 1) = 0x64" "m (f_str ctx + 2) = 0x20" "a \<noteq> 0x80000000"
    and rest: "str_mem m (f_str ctx + 3) (dec_format (length (b # as)))" "0x80000000 \<notin> set (b # as)"
    by (simp_all add: str_mem_Cons numeral_eq_Suc)
  define c1 where "c1 = next_str (out_char (ctx\<lparr>f_str := f_str ctx + 2, f_state := if sint a < 0 then ST_NEGATIVE else 0,
     f_num := f_num ctx + length (sdec a), f_out := f_out ctx @ sdec a\<rparr>) 0x20)"
  have step: "fmt_loop m ctx (a # b # as) = fmt_loop m c1 (b # as)"
    unfolding fmt_loop_d [OF m(1,2,4)] c1_def by (rule fmt_loop_char) (use m in simp_all)
  have "f_str c1 = f_str ctx + 3" by (simp add: c1_def next_str_def out_char_def)
  with rest(1) have "str_mem m (f_str c1) (dec_format (length (b # as)))" by simp
  from 3 (1) [OF this rest(2)] show ?case unfolding step by (auto simp: c1_def next_str_def out_char_def)
qed

lemma foldl_sfmtout: "0 < unat len \<Longrightarrow> length buf + 1 \<le> unat len \<Longrightarrow>
   foldl (sfmtout len) buf bs = buf @ take (unat len - 1 - length buf) bs"
proof (induction bs arbitrary: buf)
  case (Cons b bs)
  show ?case
  proof (cases "length buf + 1 = unat len")
    case True
    then show ?thesis using Cons by (simp add: sfmtout_def)
  next
    case False
    then have "unat len - 1 - length buf = Suc (unat len - 1 - length (buf @ [b]))" using Cons.prems by simp
    then show ?thesis using Cons False by (simp add: sfmtout_def)
  qed
qed simp

text \<open>Output never leaves a buffer that is not empty: what is stored is the text, cut to the buffer, and a null byte.\<close>

lemma vsfmt_stores:
  assumes "0 < len" "vsfmt m buf len ifmt ap = Some (k, m')" "fmt m ifmt ap = Some ctx"
  shows "k = f_num ctx \<and> m' = mwrite m buf (take (unat len - 1) (f_out ctx) @ [0])"
proof -
  have "0 < unat len" using assms(1) by (simp add: unat_gt_0)
  then have "foldl (sfmtout len) [] (f_out ctx) = take (unat len - 1) (f_out ctx)" using foldl_sfmtout [of len "[]" "f_out ctx"] by simp
  then show ?thesis using assms by (simp add: vsfmt_def)
qed

subsection \<open>What is read\<close>

text \<open>The rest of the input: the character put back, if there is one, and a string in memory.\<close>

definition input_at :: "mem \<Rightarrow> unfmtctx \<Rightarrow> bytes \<Rightarrow> bool" where
  "input_at m ctx bs \<longleftrightarrow> 0 \<notin> set bs \<and>
     (u_state ctx = 0 \<and> str_mem m (u_idx ctx) bs \<or>
      u_state ctx = UST_UNGET \<and> bs \<noteq> [] \<and> hd bs = u_ungetbuf ctx \<and> str_mem m (u_idx ctx) (tl bs))"

lemma input_state: "input_at m ctx bs \<Longrightarrow> u_state ctx = 0 \<or> u_state ctx = UST_UNGET"
  by (auto simp: input_at_def)

lemma input_width: "input_at m ctx bs \<Longrightarrow> u_state ctx AND UST_WIDTH = 0"
  by (drule input_state) (auto simp: UST_WIDTH_def UST_UNGET_def)

lemma in_char_end: "input_at m ctx [] \<Longrightarrow> in_char m ctx = None"
  by (auto simp: input_at_def in_char_def sunfmtin_def str_mem_Nil)

lemma in_char_next:
  "input_at m ctx (b # bs) \<Longrightarrow> \<exists>ctx'. in_char m ctx = Some (b, ctx') \<and> input_at m ctx' bs \<and> u_str ctx' = u_str ctx \<and> u_state ctx' = 0"
  by (auto simp: input_at_def in_char_def sunfmtin_def str_mem_Cons UST_UNGET_def)

lemma unget_input: "input_at m ctx bs \<Longrightarrow> u_state ctx = 0 \<Longrightarrow> b \<noteq> 0 \<Longrightarrow> input_at m (unget ctx b) (b # bs)"
  by (auto simp: input_at_def unget_def UST_UNGET_def)

lemma unget_str [simp]: "u_str (unget ctx b) = u_str ctx"
  by (simp add: unget_def)

lemma read_digits:
  assumes "input_at m ctx (ds @ rest)" "\<forall>d \<in> set ds. isdigit d" "rest = [] \<or> \<not> isdigit (hd rest)" "dc \<or> ds \<noteq> []"
  shows "\<exists>ctx'. unfmti_loop m False ctx n neg v dc = Some (ctx', neg, foldl dec_step v ds, True) \<and> input_at m ctx' rest \<and> u_str ctx' = u_str ctx"
  using assms
proof (induction ds arbitrary: ctx n v dc)
  case Nil
  then have st: "u_state ctx AND UST_WIDTH = 0" using input_width by blast
  show ?case
  proof (cases rest)
    case Nil': Nil
    then show ?thesis using Nil st in_char_end [of m ctx] by (subst unfmti_loop.simps) simp
  next
    case (Cons b bs)
    then obtain ctx' where c: "in_char m ctx = Some (b, ctx')" "input_at m ctx' bs" "u_str ctx' = u_str ctx" "u_state ctx' = 0"
      using in_char_next [of m ctx b bs] Nil by auto
    have "digit_value False b = None" "b \<noteq> 0" using Nil Cons by (auto simp: digit_value_def input_at_def)
    then show ?thesis using Nil st c Cons unget_input [OF c(2,4), of b] by (subst unfmti_loop.simps) simp
  qed
next
  case (Cons d ds)
  then have st: "u_state ctx AND UST_WIDTH = 0" using input_width by blast
  obtain ctx' where c: "in_char m ctx = Some (d, ctx')" "input_at m ctx' (ds @ rest)" "u_str ctx' = u_str ctx"
    using in_char_next [of m ctx d "ds @ rest"] Cons.prems(1) by auto
  have "isdigit d" using Cons.prems(2) by simp
  note d = isdigit_facts [OF this]
  obtain ctx'' where "unfmti_loop m False ctx' (n - 1) neg (dec_step v d) True = Some (ctx'', neg, foldl dec_step v (d # ds), True)"
    "input_at m ctx'' rest" "u_str ctx'' = u_str ctx"
    using Cons.IH [OF c(2), of True "n - 1" "dec_step v d"] Cons.prems c(3) by auto
  then show ?case using st c d by (subst unfmti_loop.simps) (simp add: dec_step_def)
qed

lemma read_sdec:
  assumes "input_at m ctx (sdec a @ rest)" "rest = [] \<or> \<not> isdigit (hd rest)" "a \<noteq> 0x80000000"
  shows "\<exists>ctx'. unfmti m ctx 0x64 = Some (True, ctx', [(4, ucast a)]) \<and> input_at m ctx' rest \<and> u_str ctx' = u_str ctx"
proof -
  have w: "unfmt_width (u_state ctx') = 4" if "input_at m ctx' rest" for ctx'
    using input_state [OF that]
    by (auto simp: unfmt_width_def UST_CHAR_def UST_SHORT_def UST_LONG_def UST_LONGLONG_def UST_UNGET_def)
  show ?thesis
  proof (cases "sint a < 0")
    case True
    have st: "u_state ctx AND UST_WIDTH = 0" by (rule input_width [OF assms(1)])
    from True assms(1) obtain c1 where c1: "in_char m ctx = Some (0x2D, c1)" "input_at m c1 (dec (nat (- sint a)) @ rest)" "u_str c1 = u_str ctx"
      using in_char_next [of m ctx "0x2D" "dec (nat (- sint a)) @ rest"] by (auto simp: sdec_def)
    obtain c2 where c2: "unfmti_loop m False c1 (UWID ctx) True 0 False = Some (c2, True, word_of_nat (nat (- sint a)), True)"
      "input_at m c2 rest" "u_str c2 = u_str ctx"
      using read_digits [OF c1(2), of False "UWID ctx" True 0] dec_digits assms(2) c1(3) by (auto simp: dec_value)
    have "- word_of_nat (nat (- sint a)) = (word_of_int (sint a) :: u64)" using True by simp
    then have "take_bit 32 (- word_of_nat (nat (- sint a)) :: u64) = ucast a" using stored_int [of a] by simp
    then show ?thesis using st c1(1) c2 w [OF c2(2)] by (simp add: unfmti_def) (subst unfmti_loop.simps, simp)
  next
    case False
    then obtain c2 where c2: "unfmti_loop m False ctx (UWID ctx) False 0 False = Some (c2, False, word_of_nat (nat (sint a)), True)"
      "input_at m c2 rest" "u_str c2 = u_str ctx"
      using read_digits [of m ctx "dec (nat (sint a))" rest False "UWID ctx" False 0] dec_digits assms by (auto simp: dec_value sdec_def)
    have "word_of_nat (nat (sint a)) = (word_of_int (sint a) :: u64)" using False by simp
    then have "take_bit 32 (word_of_nat (nat (sint a)) :: u64) = ucast a" using stored_int [of a] by simp
    then show ?thesis using c2 w [OF c2(2)] by (simp add: unfmti_def)
  qed
qed

lemma sdec_head: "\<exists>b bs. sdec a = b # bs \<and> \<not> isspace b \<and> b \<noteq> 0"
proof (cases "sint a < 0")
  case True
  then show ?thesis by (simp add: sdec_def isspace_def)
next
  case False
  obtain b bs where b: "dec (nat (sint a)) = b # bs" using dec_nonempty by (meson list.exhaust)
  then have "isdigit b" using dec_digits [of b "nat (sint a)"] by simp
  then show ?thesis using False b isdigit_facts [of b] by (simp add: sdec_def)
qed

lemma sdec_no_null: "0 \<notin> set (sdec a)"
  using dec_digits [of 0] by (auto simp: sdec_def isdigit_def)

lemma dec_text_no_null: "0 \<notin> set (dec_text xs)"
  by (induction xs rule: dec_text.induct) (simp_all add: sdec_no_null)

lemma unfmt_loop_d:
  assumes "m (u_str ctx) = 0x25" "m (u_str ctx + 1) = 0x64" and inp: "input_at m ctx (sdec a @ rest)"
    and "rest = [] \<or> \<not> isdigit (hd rest)" "a \<noteq> 0x80000000"
  shows "\<exists>ctx'. unfmt_loop m ctx k st = unfmt_loop m ctx' (k + 1) (st @ [(4, ucast a)]) \<and> input_at m ctx' rest \<and> u_str ctx' = u_str ctx + 2"
proof -
  define c0 where "c0 = (u_next ctx)\<lparr>u_state := u_state ctx AND UST_UNGET\<rparr>"
  have "u_state c0 = u_state ctx" using input_state [OF inp] by (auto simp: c0_def)
  then have i0: "input_at m c0 (sdec a @ rest)" "u_str c0 = u_str ctx + 1"
    using inp by (simp_all add: input_at_def c0_def u_next_def)
  have spec: "unfmt_spec m c0 = Some c0" using assms(2) i0(2) by (simp add: unfmt_spec_def isdigit_def)
  obtain c1 where c1: "unfmti m c0 0x64 = Some (True, c1, [(4, ucast a)])" "input_at m c1 rest" "u_str c1 = u_str ctx + 1"
    using read_sdec [OF i0(1) assms(4,5)] i0(2) by auto
  have "input_at m (u_next c1) rest" "u_str (u_next c1) = u_str ctx + 2" using c1 by (simp_all add: u_next_def input_at_def)
  moreover have "unfmt_loop m ctx k st = unfmt_loop m (u_next c1) (k + 1) (st @ [(4, ucast a)])"
    using assms(1,2) i0(2) spec c1(1) by (subst unfmt_loop.simps) (simp add: unfmt_conv_def isspace_def flip: c0_def)
  ultimately show ?thesis by blast
qed

lemma unfmt_loop_space:
  assumes "m (u_str ctx) = 0x20" and inp: "input_at m ctx (0x20 # b # rest)" and b: "\<not> isspace b"
  shows "\<exists>ctx'. unfmt_loop m ctx k st = unfmt_loop m ctx' k st \<and> input_at m ctx' (b # rest) \<and> u_str ctx' = u_str ctx + 1"
proof -
  obtain c1 where c1: "in_char m ctx = Some (0x20, c1)" "input_at m c1 (b # rest)" "u_str c1 = u_str ctx"
    using in_char_next [OF inp] by blast
  obtain c2 where c2: "in_char m c1 = Some (b, c2)" "input_at m c2 rest" "u_str c2 = u_str ctx" "u_state c2 = 0"
    using in_char_next [OF c1(2)] c1(3) by auto
  have "b \<noteq> 0" using inp by (auto simp: input_at_def)
  note u = unget_input [OF c2(2,4) this]
  have "unfmt_space m c1 = Some (Some (unget c2 b))" using c2(1) b by (subst unfmt_space.simps) simp
  then have "unfmt_space m ctx = Some (Some (unget c2 b))" using c1(1) by (subst unfmt_space.simps) (simp add: isspace_def)
  then have "unfmt_loop m ctx k st = unfmt_loop m (u_next (unget c2 b)) k st"
    using assms(1) by (subst unfmt_loop.simps) (simp add: isspace_def)
  moreover have "input_at m (u_next (unget c2 b)) (b # rest)" using u by (simp add: input_at_def u_next_def)
  ultimately show ?thesis using c2(3) by (auto simp: u_next_def)
qed

lemma unfmt_loop_end: "m (u_str ctx) = 0 \<Longrightarrow> unfmt_loop m ctx k st = Some (k, st)"
  by (subst unfmt_loop.simps) simp

lemma unfmt_loop_decs:
  assumes "str_mem m (u_str ctx) (dec_format (length xs))" "input_at m ctx (dec_text xs)" "0x80000000 \<notin> set xs"
  shows "unfmt_loop m ctx k st = Some (k + length xs, st @ map (\<lambda>a. (4, ucast a)) xs)"
  using assms
proof (induction xs arbitrary: ctx k st rule: dec_text.induct)
  case 1
  then show ?case by (simp add: str_mem_Nil unfmt_loop_end)
next
  case (2 a)
  then have m: "m (u_str ctx) = 0x25" "m (u_str ctx + 1) = 0x64" "m (u_str ctx + 2) = 0" "a \<noteq> 0x80000000" "input_at m ctx (sdec a @ [])"
    by (simp_all add: str_mem_Cons str_mem_Nil)
  from unfmt_loop_d [OF m(1,2,5) _ m(4), of k st] obtain ctx' where
    "unfmt_loop m ctx k st = unfmt_loop m ctx' (k + 1) (st @ [(4, ucast a)])" "u_str ctx' = u_str ctx + 2" by auto
  then show ?case using m(3) by (simp add: unfmt_loop_end)
next
  case (3 a b as)
  then have m: "m (u_str ctx) = 0x25" "m (u_str ctx + 1) = 0x64" "m (u_str ctx + 2) = 0x20" "a \<noteq> 0x80000000"
    and inp: "input_at m ctx (sdec a @ 0x20 # dec_text (b # as))"
    and rest: "str_mem m (u_str ctx + 3) (dec_format (length (b # as)))" "0x80000000 \<notin> set (b # as)"
    by (simp_all add: str_mem_Cons numeral_eq_Suc)
  from unfmt_loop_d [OF m(1,2) inp _ m(4), of k st] obtain c1 where c1:
    "unfmt_loop m ctx k st = unfmt_loop m c1 (k + 1) (st @ [(4, ucast a)])" "u_str c1 = u_str ctx + 2"
    "input_at m c1 (0x20 # dec_text (b # as))" by (auto simp: isdigit_def)
  obtain h hs where h: "dec_text (b # as) = h # hs" "\<not> isspace h"
    using sdec_head [of b] by (cases as) auto
  have "m (u_str c1) = 0x20" using m(3) c1(2) by simp
  from unfmt_loop_space [OF this c1(3) [unfolded h(1)] h(2), of "k + 1" "st @ [(4, ucast a)]"] obtain c2 where c2:
    "unfmt_loop m c1 (k + 1) (st @ [(4, ucast a)]) = unfmt_loop m c2 (k + 1) (st @ [(4, ucast a)])"
    "input_at m c2 (dec_text (b # as))" "u_str c2 = u_str ctx + 3" using h(1) c1(2) by auto
  have "str_mem m (u_str c2) (dec_format (length (b # as)))" using rest(1) c2(3) by simp
  from 3 (1) [OF this c2(2) rest(2), of "k + 1" "st @ [(4, ucast a)]"] show ?case using c1(1) c2(1) by simp
qed

lemma str_mem_written: "str_mem (mwrite m a (bs @ [0])) a bs"
  using mread_mwrite_same [of m a "bs @ [0]"] mread_add [of "mwrite m a (bs @ [0])" a "length bs" 1]
    mwrite_in [of "length bs" "bs @ [0]" m a] by (simp add: str_mem_def)

lemma str_mem_frame:
  "str_mem m p bs \<Longrightarrow> (\<And>x. p \<le> x \<Longrightarrow> x \<le> p + length bs \<Longrightarrow> m' x = m x) \<Longrightarrow> str_mem m' p bs"
  using mread_cong [of "length bs" m' p m] by (simp add: str_mem_def)

subsection \<open>The properties\<close>

text \<open>C33: print and parse: \<open>sfmt\<close> of any 32-bit integers but the least with the format \<open>%d %d ... %d\<close> into a buffer that holds the text
  returns its length and touches nothing outside the buffer, and \<open>unsfmt\<close> of the buffer with the same format makes as many conversions and
  stores the same integers in the same order.\<close>

theorem sfmt_unsfmt:
  assumes "0x80000000 \<notin> set xs" "str_mem m ifmt (dec_format (length xs))" "length (dec_text xs) < unat len"
    and "buf + unat len \<le> ifmt \<or> ifmt + length (dec_format (length xs)) < buf"
  shows "\<exists>m'. sfmt m buf len ifmt xs = Some (length (dec_text xs), m') \<and>
    unsfmt m' buf ifmt = Some (length xs, map (\<lambda>a. (4, ucast a)) xs) \<and>
    (\<forall>x. x < buf \<or> buf + unat len \<le> x \<longrightarrow> m' x = m x)"
proof -
  let ?m = "mwrite m buf (dec_text xs @ [0])"
  have len: "0 < unat len" using assms(3) by simp
  from fmt_loop_decs [of m "\<lparr> f_str = ifmt, f_state = 0, f_num = 0, f_out = [] \<rparr>" xs] assms(1,2) obtain ctx where
    ctx: "fmt m ifmt xs = Some ctx" "f_out ctx = dec_text xs" "f_num ctx = length (dec_text xs)" by (auto simp: fmt_def)
  have "foldl (sfmtout len) [] (dec_text xs) = dec_text xs" using foldl_sfmtout [OF len, of "[]" "dec_text xs"] assms(3) by simp
  then have s: "sfmt m buf len ifmt xs = Some (length (dec_text xs), ?m)" by (simp add: sfmt_def vsfmt_def ctx)
  have out: "?m x = m x" if "x < buf \<or> buf + unat len \<le> x" for x
    by (rule mwrite_out) (use that assms(3) in auto)
  have "str_mem ?m ifmt (dec_format (length xs))"
    by (rule str_mem_frame [OF assms(2)], rule out) (use assms(4) in auto)
  moreover have "input_at ?m \<lparr> u_str = ifmt, u_state = 0, u_ungetbuf = 0, u_idx = buf \<rparr> (dec_text xs)"
    using str_mem_written by (simp add: input_at_def dec_text_no_null)
  ultimately have "unsfmt ?m buf ifmt = Some (length xs, map (\<lambda>a. (4, ucast a)) xs)"
    using unfmt_loop_decs [of ?m "\<lparr> u_str = ifmt, u_state = 0, u_ungetbuf = 0, u_idx = buf \<rparr>" xs 0 "[]"] assms(1)
    by (simp add: unsfmt_def unvsfmt_def)
  then show ?thesis using s out by blast
qed

definition ex_fmt_mem :: mem where
  "ex_fmt_mem = mwrite (\<lambda>_. 0) 100 [0x25, 0x64, 0x20, 0x25, 0x64]"

theorem sfmt_unsfmt_witness:
  "\<exists>m'. sfmt ex_fmt_mem 0 64 100 [-5, 1234] = Some (7, m') \<and> unsfmt m' 0 100 = Some (2, [(4, 0xFFFFFFFB), (4, 1234)])"
proof -
  have "str_mem ex_fmt_mem 100 (dec_format (length [-5, 1234 :: u32]))"
    by (simp add: ex_fmt_mem_def str_mem_def mread_Suc mwrite_def)
  moreover have "length (dec_text [-5, 1234]) = 7"
    by (simp add: sdec_def dec_def utoa_digits.simps)
  ultimately show ?thesis
    using sfmt_unsfmt [of "[-5, 1234]" ex_fmt_mem 100 64 0] by (auto simp del: dec_text.simps dec_format.simps)
qed

text \<open>The least integer prints as a number of twenty digits.\<close>

lemma fmt_least_int: "\<exists>ctx'. fmtd \<lparr> f_str = p, f_state = 0, f_num = 0, f_out = [] \<rparr> [0x80000000] = Some (ctx', []) \<and>
   f_out ctx' = 0x2D # dec 18446744071562067968"
proof -
  have "unat (scast (- 0x80000000 :: u32) :: u64) = 18446744071562067968" by simp
  then show ?thesis
    using utoa_plain [of "\<lparr> f_str = p, f_state = ST_NEGATIVE, f_num = 0, f_out = [] \<rparr>" "scast (- 0x80000000 :: u32)"]
    by (simp add: fmtd_def va_arg_def set_state_def foldl_out out_char_def)
qed

text \<open>With an empty buffer the null byte is stored behind it.\<close>

lemma vsfmt_empty_buffer: "m ifmt = 0 \<Longrightarrow> vsfmt m buf 0 ifmt [] = Some (0, m(buf := 0))"
  by (auto simp: vsfmt_def fmt_def fmt_loop_end mwrite_def fun_eq_iff)

text \<open>The conversion \<open>%lld\<close> prints the letter d and takes no argument.\<close>

lemma fmt_long_long: "str_mem m p [0x25, 0x6C, 0x6C, 0x64] \<Longrightarrow> \<exists>ctx'. fmt m p va = Some ctx' \<and> f_out ctx' = [0x64]"
  unfolding fmt_def
  by (subst fmt_loop.simps, simp add: str_mem_Cons str_mem_Nil fmt_flags_def next_str_def fmt_width_def isdigit_def fmt_prec_def
      fmt_long_def fmt_conv_def set_state_def, subst fmt_loop.simps, simp, subst fmt_loop.simps, simp add: out_char_def next_str_def)

end
