(* ===== verification/TimeZone.thy ===== *)
theory TimeZone
  imports CivilTime Persist Fmt
begin

section \<open>Time zones and the clock: rcore/tz.c, rcore/rebble_time.c\<close>

text \<open>
  The current time zone, its database and the wall clock.

  \<^item> \<open>union tzrec\<close> is packed and read at fixed offsets through either of its structs, so the model keeps its 31
    bytes and reads the fields out of them. \<open>tzinfo\<close> is the static \<open>_tzinfo\<close>: the record and a name of 64 bytes.
  \<^item> The database is a resource file, read with the operations of \<open>FsFile\<close> (the descriptor \<open>tz_db_open\<close> opens is
    an argument). \<open>None\<close> stands for a read that faults, and for a \<open>strcmp\<close> that leaves its buffer.
  \<^item> A transition rule is computed by \<open>transtime\<close> in \<open>int\<close> arithmetic; \<open>None\<close> is an overflow, an index outside the
    table of month lengths, or the uninitialised \<open>value\<close> of an unknown mode.
  \<^item> \<open>time_t\<close> is an integer; the tick counter of the clock is a 32-bit word and wraps.

  The lemmas show that a rule names the weekday of the calendar it is meant to name, when daylight saving time is on, that
  conversion to local time and back is the identity in a zone with a rule, that loading finds the zone in
  the database, and that the saved zone is restored.
\<close>

unbundle bit_operations_syntax

subsection \<open>The record\<close>

type_synonym tzrec = bytes

definition tz_i32 :: "tzrec \<Rightarrow> nat \<Rightarrow> int" where "tz_i32 r k = sint (get32 r k)"
definition tz_u32 :: "tzrec \<Rightarrow> nat \<Rightarrow> int" where "tz_u32 r k = uint (get32 r k)"
definition tz_params :: "tzrec \<Rightarrow> nat \<Rightarrow> int \<times> int \<times> int" where
  "tz_params r k = (uint (get16 r k), uint (get16 r (k + 2)), uint (get16 r (k + 4)))"

definition hasdst :: "tzrec \<Rightarrow> bool" where "hasdst r = (r ! 0 \<noteq> 0)"
definition tz_offset :: "tzrec \<Rightarrow> int" where "tz_offset r = tz_i32 r 1"
definition dstoffset :: "tzrec \<Rightarrow> int" where "dstoffset r = tz_i32 r 5"
definition dst_start_mode :: "tzrec \<Rightarrow> nat" where "dst_start_mode r = unat (r ! 9)"
definition dst_start_param :: "tzrec \<Rightarrow> int \<times> int \<times> int" where "dst_start_param r = tz_params r 10"
definition dst_start_time :: "tzrec \<Rightarrow> int" where "dst_start_time r = tz_u32 r 16"
definition dst_end_mode :: "tzrec \<Rightarrow> nat" where "dst_end_mode r = unat (r ! 20)"
definition dst_end_param :: "tzrec \<Rightarrow> int \<times> int \<times> int" where "dst_end_param r = tz_params r 21"
definition dst_end_time :: "tzrec \<Rightarrow> int" where "dst_end_time r = tz_u32 r 27"

definition SIZEOF_DST :: nat where "SIZEOF_DST = 31"
definition SIZEOF_NODST :: nat where "SIZEOF_NODST = 5"

record tzinfo =
  tz :: tzrec
  tz_nm :: bytes

definition mem_set :: "bytes \<Rightarrow> nat \<Rightarrow> bytes \<Rightarrow> bytes" where
  "mem_set buf k bs = take k buf @ bs @ drop (k + length bs) buf"

definition tz_init :: "tzinfo \<Rightarrow> tzinfo" where
  "tz_init i = i\<lparr>tz := mem_set (mem_set (tz i) 0 [0]) 1 (le32 0), tz_nm := mem_set (tz_nm i) 0 (map chr ''GMT'' @ [0])\<rparr>"

definition tz_override :: "tzinfo \<Rightarrow> u32 \<Rightarrow> tzinfo" where
  "tz_override i utcofs = i\<lparr>tz := mem_set (mem_set (tz i) 0 [0]) 1 (le32 utcofs)\<rparr>"

subsection \<open>The database\<close>

partial_function (option) tz_db_nextdir :: "plat \<Rightarrow> mem \<Rightarrow> fd \<Rightarrow> bytes \<Rightarrow> nat \<Rightarrow> (int \<times> fd \<times> bytes) option" where
  "tz_db_nextdir p m fd name nlen = do {
     (n, fd, ty) \<leftarrow> fs_read p m fd (p_local p) 1;
     if n < 1 then Some (-1, fd, name)
     else if ty ! 0 = 1 then do {
       (n, fd, len) \<leftarrow> fs_read p m fd (p_local p) 1;
       if n < 1 then Some (-1, fd, name)
       else if unat (len ! 0) > nlen then do {
         (_, fd) \<leftarrow> fs_seek p m fd (ucast (len ! 0)) FS_SEEK_CUR;
         tz_db_nextdir p m fd name nlen }
       else do {
         (n, fd, bs) \<leftarrow> fs_read p m fd (p_local p) (ucast (len ! 0));
         Some (if n < ucast (len ! 0) then -1 else 0, fd, mem_set name 0 bs) } }
     else if ty ! 0 = 2 then do {
       (n, fd, len) \<leftarrow> fs_read p m fd (p_local p) 1;
       if n < 1 then Some (-1, fd, name)
       else do {
         (_, fd) \<leftarrow> fs_seek p m fd (ucast (len ! 0)) FS_SEEK_CUR;
         (n, fd, r) \<leftarrow> fs_read p m fd (p_local p) 1;
         if n < 1 then Some (-1, fd, name)
         else do {
           (_, fd) \<leftarrow> fs_seek p m fd (if r ! 0 \<noteq> 0 then word_of_nat (SIZEOF_DST - 1) else word_of_nat (SIZEOF_NODST - 1)) FS_SEEK_CUR;
           tz_db_nextdir p m fd name nlen } } }
     else Some (-1, fd, name) }"

partial_function (option) tz_db_nexttz :: "plat \<Rightarrow> mem \<Rightarrow> fd \<Rightarrow> bytes \<Rightarrow> nat \<Rightarrow> tzrec \<Rightarrow> (int \<times> fd \<times> bytes \<times> tzrec) option" where
  "tz_db_nexttz p m fd name nlen r = do {
     (n, fd, ty) \<leftarrow> fs_read p m fd (p_local p) 1;
     if n < 1 then Some (-1, fd, name, r)
     else if ty ! 0 = 1 then do {
       (_, fd) \<leftarrow> fs_seek p m fd (-1) FS_SEEK_CUR;
       Some (-1, fd, name, r) }
     else if ty ! 0 = 2 then do {
       (n, fd, len) \<leftarrow> fs_read p m fd (p_local p) 1;
       if n < 1 then Some (-1, fd, name, r)
       else do {
         (short, toobig, fd, name) \<leftarrow>
           (if unat (len ! 0) > nlen
            then do { (_, fd) \<leftarrow> fs_seek p m fd (ucast (len ! 0)) FS_SEEK_CUR; Some (False, True, fd, name) }
            else do { (n, fd, bs) \<leftarrow> fs_read p m fd (p_local p) (ucast (len ! 0));
                      Some (n < ucast (len ! 0), False, fd, mem_set name 0 bs) });
         if short then Some (-1, fd, name, r)
         else do {
           (n, fd, bs) \<leftarrow> fs_read p m fd (p_local p) 1;
           let r = mem_set r 0 bs;
           if n < 1 then Some (1, fd, name, r)
           else let rest = (if hasdst r then word_of_nat (SIZEOF_DST - 1) else word_of_nat (SIZEOF_NODST - 1)) in do {
             (n, fd, bs) \<leftarrow> fs_read p m fd (p_local p) rest;
             let r = mem_set r 1 bs;
             if n < rest then Some (-1, fd, name, r)
             else if \<not> toobig then Some (0, fd, name, r)
             else tz_db_nexttz p m fd name nlen r } } } }
     else Some (-1, fd, name, r) }"

text \<open>\<open>strcmp (buf, s) == 0\<close> for a buffer that may lack its terminator and a string \<open>s\<close> of bytes other than 0.\<close>

fun str_equal :: "bytes \<Rightarrow> bytes \<Rightarrow> bool option" where
  "str_equal [] s = None"
| "str_equal (b # bs) [] = Some (b = 0)"
| "str_equal (b # bs) (c # s) = (if b = c then str_equal bs s else Some False)"

partial_function (option) find_dir :: "plat \<Rightarrow> mem \<Rightarrow> fd \<Rightarrow> bytes \<Rightarrow> bytes \<Rightarrow> (int \<times> fd \<times> bytes) option" where
  "find_dir p m fd nambuf dir = do {
     (rv, fd, nambuf) \<leftarrow> tz_db_nextdir p m fd nambuf 64;
     if rv \<noteq> 0 then Some (rv, fd, nambuf)
     else do { e \<leftarrow> str_equal nambuf dir; if e then Some (rv, fd, nambuf) else find_dir p m fd nambuf dir } }"

partial_function (option) find_tz :: "plat \<Rightarrow> mem \<Rightarrow> fd \<Rightarrow> bytes \<Rightarrow> tzrec \<Rightarrow> bytes \<Rightarrow> (int \<times> fd \<times> bytes \<times> tzrec) option" where
  "find_tz p m fd nambuf r nm = do {
     (rv, fd, nambuf, r) \<leftarrow> tz_db_nexttz p m fd nambuf 64 r;
     if rv \<noteq> 0 then Some (rv, fd, nambuf, r)
     else do { e \<leftarrow> str_equal nambuf nm; if e then Some (rv, fd, nambuf, r) else find_tz p m fd nambuf r nm } }"

definition zone_text :: "bytes \<Rightarrow> bytes \<Rightarrow> bytes" where
  "zone_text dir nm = foldl (sfmtout 64) [] (dir @ chr CHR ''/'' # nm) @ [0]"

definition tz_load :: "plat \<Rightarrow> mem \<Rightarrow> fd \<Rightarrow> tzrec \<Rightarrow> tzinfo \<Rightarrow> bytes \<Rightarrow> bytes \<Rightarrow> (int \<times> tzinfo) option" where
  "tz_load p m fd r0 i dir nm = do {
     (rv, fd, nambuf) \<leftarrow> find_dir p m fd (replicate 64 0) dir;
     if rv \<noteq> 0 then Some (-1, i)
     else do {
       (rv, fd, nambuf, r) \<leftarrow> find_tz p m fd nambuf r0 nm;
       if rv \<noteq> 0 then Some (-1, i)
       else Some (0, i\<lparr>tz := r, tz_nm := mem_set (tz_nm i) 0 (zone_text dir nm)\<rparr>) } }"

subsection \<open>Transition rules\<close>

definition isleap :: "int \<Rightarrow> bool" where
  "isleap y = (y smod 4 = 0 \<and> (y smod 100 \<noteq> 0 \<or> y smod 400 = 0))"

definition mon_lengths :: "bool \<Rightarrow> int list" where
  "mon_lengths lp = (if lp then [31, 29, 31, 30, 31, 30, 31, 31, 30, 31, 30, 31] else [31, 28, 31, 30, 31, 30, 31, 31, 30, 31, 30, 31])"

definition mon_length :: "bool \<Rightarrow> int \<Rightarrow> int option" where
  "mon_length lp i = (if 0 \<le> i \<and> i < 12 then Some (mon_lengths lp ! nat i) else None)"

definition SECSPERDAY :: int where "SECSPERDAY = 86400"

definition c_int :: "int \<Rightarrow> int option" where
  "c_int x = (if INT_MIN \<le> x \<and> x \<le> INT_MAX then Some x else None)"

primrec nth_week :: "nat \<Rightarrow> bool \<Rightarrow> int \<Rightarrow> int \<Rightarrow> int option" where
  "nth_week 0 lp mon d = Some d"
| "nth_week (Suc n) lp mon d = do {
     len \<leftarrow> mon_length lp (mon - 1);
     if d + 7 \<ge> len then Some d else nth_week n lp mon (d + 7) }"

primrec add_months :: "nat \<Rightarrow> bool \<Rightarrow> int \<Rightarrow> int \<Rightarrow> int option" where
  "add_months 0 lp i value = Some value"
| "add_months (Suc n) lp i value = do {
     len \<leftarrow> mon_length lp i;
     value \<leftarrow> c_int (value + len * SECSPERDAY);
     add_months n lp (i + 1) value }"

definition transtime :: "int \<Rightarrow> nat \<Rightarrow> int \<times> int \<times> int \<Rightarrow> int option" where
  "transtime year mode params =
     (let leapyear = isleap year; (p0, p1, p2) = params in
      if mode = 0 then do {
        value \<leftarrow> c_int ((p0 - 1) * SECSPERDAY);
        if leapyear \<and> p0 \<ge> 60 then c_int (value + SECSPERDAY) else Some value }
      else if mode = 1 then c_int (p0 * SECSPERDAY)
      else if mode = 2 then
        let m1 = (p0 + 9) smod 12 + 1;
            yy0 = (if p0 \<le> 2 then year - 1 else year);
            yy1 = yy0 sdiv 100;
            yy2 = yy0 smod 100;
            dow = ((26 * m1 - 2) sdiv 10 + 1 + yy2 + yy2 sdiv 4 + yy1 sdiv 4 - 2 * yy1) smod 7;
            dow = (if dow < 0 then dow + 7 else dow);
            d = p2 - dow;
            d = (if d < 0 then d + 7 else d)
        in do {
          d \<leftarrow> nth_week (nat (p1 - 1)) leapyear p0 d;
          value \<leftarrow> c_int (d * SECSPERDAY);
          add_months (nat (p0 - 1)) leapyear 0 value }
      else None)"

subsection \<open>Conversion\<close>

definition tz_utc_to_local :: "tzrec \<Rightarrow> tm \<Rightarrow> int \<Rightarrow> (int \<times> bool) option" where
  "tz_utc_to_local r tm0 utc =
     (if \<not> hasdst r then Some (utc + tz_offset r, False)
      else do {
        (ok, tm) \<leftarrow> gmtime_r utc tm0;
        c_assert ok;
        let year = tm_year tm + 1900;
        let tt_yearstart = timegm (tm\<lparr>tm_sec := 0, tm_min := 0, tm_hour := 0, tm_mday := 1, tm_mon := 0\<rparr>);
        vs \<leftarrow> transtime year (dst_start_mode r) (dst_start_param r);
        ve \<leftarrow> transtime year (dst_end_mode r) (dst_end_param r);
        let tt_dststart = tt_yearstart + vs + dst_start_time r + tz_offset r;
        let tt_dstend = tt_yearstart + ve + dst_end_time r + dstoffset r;
        let dst = (utc \<ge> tt_dststart \<and> utc < tt_dstend);
        Some (if dst then utc - dstoffset r else utc - tz_offset r, dst) })"

definition tz_local_to_utc :: "tzrec \<Rightarrow> int \<Rightarrow> bool \<Rightarrow> int" where
  "tz_local_to_utc r local dst =
     (if \<not> hasdst r then local + tz_offset r
      else if dst then local + dstoffset r else local + tz_offset r)"

definition localtime_r :: "tzrec \<Rightarrow> tm \<Rightarrow> int \<Rightarrow> tm \<Rightarrow> (bool \<times> tm) option" where
  "localtime_r r tm0 t tm =
     (if time_rejected t then Some (False, tm)
      else do {
        (tlocal, dst) \<leftarrow> tz_utc_to_local r tm0 t;
        (rc, tm) \<leftarrow> secs_to_tm tlocal (tm\<lparr>tm_isdst := (if dst then 1 else 0)\<rparr>);
        Some (\<not> rc < 0, tm) })"

definition mktime :: "tzrec \<Rightarrow> tm \<Rightarrow> int" where
  "mktime r tm = tz_local_to_utc r (tm_to_secs tm) (tm_isdst tm \<noteq> 0)"

subsection \<open>A rule names a day of the calendar\<close>

text \<open>Months count from 0 and days from 1: day \<open>d\<close> of month \<open>m\<close> is the \<open>w\<close>-th weekday \<open>wd\<close> of the month, or the last one if
  there is no \<open>w\<close>-th.\<close>

definition weekday :: "int \<Rightarrow> int" where
  "weekday day = (day + 4) mod 7"

definition nth_weekday :: "int \<Rightarrow> int \<Rightarrow> int \<Rightarrow> int \<Rightarrow> int \<Rightarrow> bool" where
  "nth_weekday y m w wd d \<longleftrightarrow> 1 \<le> d \<and> d \<le> month_days y m \<and> weekday (civil_day y m d) = wd \<and>
     ((d - 1) div 7 = w - 1 \<or> (d - 1) div 7 < w - 1 \<and> month_days y m < d + 7)"

lemma isleap_ok: "0 \<le> y \<Longrightarrow> isleap y = leap_year (y - 1900)"
  by (simp add: isleap_def leap_year_def smod_nonneg)

lemma mon_length_ok: "0 \<le> m \<Longrightarrow> m < 12 \<Longrightarrow> mon_length (leap_year y) m = Some (month_days y m)"
  by (drule (1) int_upto_12, elim disjE) (simp_all add: mon_length_def mon_lengths_def month_days_def)

lemma nth_week_ok:
  assumes "0 \<le> mon - 1" "mon - 1 < 12" "d < month_days y (mon - 1)"
  shows "\<exists>k \<le> n. nth_week n (leap_year y) mon d = Some (d + 7 * int k) \<and> d + 7 * int k < month_days y (mon - 1) \<and>
    (k < n \<longrightarrow> month_days y (mon - 1) \<le> d + 7 * int k + 7)"
  using assms(3)
proof (induction n arbitrary: d)
  case (Suc n)
  show ?case
  proof (cases "d + 7 \<ge> month_days y (mon - 1)")
    case True
    then show ?thesis using Suc.prems by (intro exI [of _ 0]) (simp add: mon_length_ok [OF assms(1,2)])
  next
    case False
    then obtain k where "k \<le> n" "nth_week n (leap_year y) mon (d + 7) = Some (d + 7 + 7 * int k)"
      "d + 7 + 7 * int k < month_days y (mon - 1)" "k < n \<longrightarrow> month_days y (mon - 1) \<le> d + 7 + 7 * int k + 7"
      using Suc.IH [of "d + 7"] by auto
    with False show ?thesis by (intro exI [of _ "Suc k"]) (simp add: mon_length_ok [OF assms(1,2)] algebra_simps)
  qed
qed simp

lemma add_months_ok:
  assumes "0 \<le> i" "i + int n \<le> 12" "0 \<le> v" "v + 86400 * (days_before_month y (i + int n) - days_before_month y i) \<le> INT_MAX"
  shows "add_months n (leap_year y) i v = Some (v + 86400 * (days_before_month y (i + int n) - days_before_month y i))"
  using assms
proof (induction n arbitrary: i v)
  case (Suc n)
  have s: "days_before_month y (i + 1) = days_before_month y i + month_days y i" using Suc.prems by (simp add: days_before_month_Suc)
  have m: "days_before_month y (i + 1) \<le> days_before_month y (i + 1 + int n)" using Suc.prems by (intro days_before_month_mono) simp_all
  have p: "28 \<le> month_days y i" by (rule month_days_pos)
  have c: "c_int (v + month_days y i * SECSPERDAY) = Some (v + month_days y i * 86400)"
    using Suc.prems s m p by (simp add: c_int_def SECSPERDAY_def INT_MIN_def add.assoc)
  have "add_months n (leap_year y) (i + 1) (v + month_days y i * 86400) =
      Some (v + month_days y i * 86400 + 86400 * (days_before_month y (i + 1 + int n) - days_before_month y (i + 1)))"
    using Suc.prems s p by (intro Suc.IH) (simp_all add: algebra_simps)
  moreover have "add_months (Suc n) (leap_year y) i v = add_months n (leap_year y) (i + 1) (v + month_days y i * 86400)"
    using mon_length_ok [of i y] Suc.prems(1,2) c by simp
  moreover have e: "i + int (Suc n) = i + 1 + int n" by simp
  ultimately show ?case unfolding s e by (simp add: right_diff_distrib distrib_left)
qed simp

lemma zeller:
  assumes "1 \<le> mon" "mon \<le> 12" "z = 100 * a + b" "a = z div 100" "b = z mod 100"
    and y: "z = (if mon \<le> 2 then y + 1899 else y + 1900)"
  shows "((26 * ((mon + 9) mod 12 + 1) - 2) div 10 + 1 + b + b div 4 + a div 4 - 2 * a) mod 7 = weekday (civil_day y (mon - 1) 1)"
proof -
  define f e where "f = b div 4" and "e = a div 4"
  have d4: "z div 4 = 25 * a + f" unfolding f_def assms(3) by simp
  have d400: "z div 400 = e" unfolding e_def assms(4) by (simp flip: zdiv_zmult2_eq)
  define yz where "yz = z - 1899"
  have dz: "days_before_year yz = 365 * (z - 1969) + (25 * a + f - a + e) - 477"
    unfolding days_before_year_def yz_def using d4 d400 assms(4) by simp
  have cd: "civil_day y (mon - 1) 1 = 365 * (100 * a + b - 1969) + (24 * a + f + e) - 477 +
      (if mon \<le> 2 then days_before_month y (mon - 1) else days_before_month y (mon - 1) - year_days y)"
  proof (cases "mon \<le> 2")
    case True
    then have "yz = y" using y by (simp add: yz_def)
    then show ?thesis using dz True by (simp add: civil_day_def assms(3))
  next
    case False
    then have "yz = y + 1" using y by (simp add: yz_def)
    then show ?thesis using dz False by (simp add: civil_day_def assms(3) days_before_year_Suc)
  qed
  have "7 dvd ((26 * ((mon + 9) mod 12 + 1) - 2) div 10 + 1 + b + f + e - 2 * a) - (civil_day y (mon - 1) 1 + 4)"
    (is "7 dvd ?raw - _")
  proof -
    define c where "c = (26 * ((mon + 9) mod 12 + 1) - 2) div 10"
    define g where "g = (if mon \<le> 2 then days_before_month y (mon - 1) else days_before_month y (mon - 1) - year_days y)"
    have "mon - 1 = 0 \<or> mon - 1 = 1 \<or> mon - 1 = 2 \<or> mon - 1 = 3 \<or> mon - 1 = 4 \<or> mon - 1 = 5 \<or> mon - 1 = 6 \<or>
      mon - 1 = 7 \<or> mon - 1 = 8 \<or> mon - 1 = 9 \<or> mon - 1 = 10 \<or> mon - 1 = 11"
      using assms(1,2) by arith
    then have "7 dvd c - g + 719159"
    proof (elim disjE)
    qed (simp_all add: c_def g_def year_days_def algebra_simps)
    moreover have "?raw - (civil_day y (mon - 1) 1 + 4) = (c - g + 719159) - 7 * (5218 * a + 52 * b)"
      unfolding cd c_def g_def by simp
    ultimately show ?thesis by (simp only: dvd_diff dvd_triv_left)
  qed
  then show ?thesis unfolding weekday_def f_def e_def by (simp add: mod_eq_dvd_iff)
qed

lemma transtime_nth_weekday:
  assumes "1 \<le> year" "1 \<le> mon" "mon \<le> 12" "1 \<le> week" "0 \<le> wd" "wd < 7"
  shows "\<exists>d. transtime year 2 (mon, week, wd) = Some (86400 * (days_before_month (year - 1900) (mon - 1) + (d - 1))) \<and>
    nth_weekday (year - 1900) (mon - 1) week wd d"
proof -
  define y m where "y = year - 1900" and "m = mon - 1"
  define z where "z = (if mon \<le> 2 then year - 1 else year)"
  define dow where "dow = weekday (civil_day y m 1)"
  have z0: "0 \<le> z" "0 \<le> z div 100" "0 \<le> z mod 100" using assms(1) by (auto simp: z_def)
  have dow: "(26 * ((mon + 9) smod 12 + 1) - 2) sdiv 10 + 1 + z smod 100 + z smod 100 sdiv 4 + z sdiv 100 sdiv 4 - 2 * (z sdiv 100)
      = (26 * ((mon + 9) mod 12 + 1) - 2) div 10 + 1 + z mod 100 + z mod 100 div 4 + z div 100 div 4 - 2 * (z div 100)"
    using z0 assms(2) by (simp add: sdiv_nonneg smod_nonneg)
  have dm: "(((26 * ((mon + 9) mod 12 + 1) - 2) div 10 + 1 + z mod 100 + z mod 100 div 4 + z div 100 div 4 - 2 * (z div 100))) mod 7 = dow"
    unfolding dow_def m_def by (rule zeller) (use assms(2,3) in \<open>simp_all add: z_def y_def\<close>)
  define d0 where "d0 = (if wd - dow < 0 then wd - dow + 7 else wd - dow)"
  have dw: "0 \<le> dow" "dow < 7" by (simp_all add: dow_def weekday_def)
  have d0: "0 \<le> d0" "d0 < 7" "(dow + d0) mod 7 = wd"
    using dw assms(5,6) by (auto simp: d0_def)
  have lp: "isleap year = leap_year y" using assms(1) by (simp add: isleap_ok y_def)
  obtain k where k: "k \<le> nat (week - 1)" "nth_week (nat (week - 1)) (leap_year y) mon d0 = Some (d0 + 7 * int k)"
    "d0 + 7 * int k < month_days y m" "k < nat (week - 1) \<longrightarrow> month_days y m \<le> d0 + 7 * int k + 7"
    using nth_week_ok [of mon d0 y "nat (week - 1)"] assms(2,3) d0 month_days_pos [of y "mon - 1"] unfolding m_def by auto
  define d where "d = d0 + 7 * int k"
  have md: "month_days y m \<le> 31" by (simp add: month_days_def)
  have dbm: "days_before_month y m \<le> 366" "days_before_month y 0 = 0"
    using days_before_month_mono [of m 12 y] assms(2,3) days_before_month_12 [of y] year_days_pos(2) [of y] by (simp_all add: m_def)
  have "0 \<le> d" "d < 31" using d0 k(3) md by (simp_all add: d_def)
  then have ci: "c_int (d * SECSPERDAY) = Some (86400 * d)" by (simp add: c_int_def SECSPERDAY_def INT_MIN_def INT_MAX_def)
  have am: "add_months (nat (mon - 1)) (leap_year y) 0 (86400 * d) = Some (86400 * d + 86400 * (days_before_month y (0 + int (nat (mon - 1))) - days_before_month y 0))"
    by (rule add_months_ok) (use assms(2,3) dbm \<open>0 \<le> d\<close> \<open>d < 31\<close> in \<open>simp_all add: m_def INT_MAX_def\<close>)
  have tt: "transtime year 2 (mon, week, wd) = Some (86400 * (days_before_month y m + (d + 1 - 1)))"
  proof -
    have "transtime year 2 (mon, week, wd) = do {
        d \<leftarrow> nth_week (nat (week - 1)) (leap_year y) mon d0;
        value \<leftarrow> c_int (d * SECSPERDAY);
        add_months (nat (mon - 1)) (leap_year y) 0 value }"
      unfolding transtime_def Let_def prod.case z_def [symmetric] dow
      by (simp only: smod_fix zero_less_numeral dm d0_def [symmetric] lp zero_neq_numeral [symmetric]
          one_eq_numeral_iff numeral_eq_one_iff num.distinct num.inject if_True if_False simp_thms numeral_eq_iff)
    then show ?thesis using k(2) am ci assms(2) dbm(2) by (simp add: d_def [symmetric] m_def)
  qed
  have "weekday (civil_day y m (d + 1)) = wd"
  proof -
    have "civil_day y m (d + 1) + 4 = (civil_day y m 1 + 4) + d0 + int k * 7" by (simp add: civil_day_def d_def)
    then have "weekday (civil_day y m (d + 1)) = (civil_day y m 1 + 4 + d0) mod 7" unfolding weekday_def by (simp only: mod_mult_self1)
    also have "\<dots> = (dow + d0) mod 7" unfolding dow_def weekday_def by (rule mod_add_left_eq [symmetric])
    finally show ?thesis using d0(3) by simp
  qed
  moreover have "d div 7 = int k" using d0 by (simp add: d_def)
  ultimately have "nth_weekday y m week wd (d + 1)"
    using k \<open>0 \<le> d\<close> assms(4) unfolding nth_weekday_def by (auto simp: d_def)
  with tt show ?thesis unfolding y_def m_def by blast
qed

subsection \<open>Local time\<close>

lemma year_start:
  assumes "\<bar>tm_year tm\<bar> < 2 ^ 59"
  shows "timegm (tm\<lparr>tm_sec := 0, tm_min := 0, tm_hour := 0, tm_mday := 1, tm_mon := 0\<rparr>) = 86400 * days_before_year (tm_year tm)"
  using assms by (simp add: timegm_def tm_to_secs_civil civil_secs_def civil_day_def)

lemma gmtime_year:
  assumes y: "days_before_year y \<le> utc div 86400" "utc div 86400 < days_before_year (y + 1)" "INT_MIN \<le> y" "y \<le> INT_MAX"
  obtains tm where "gmtime_r utc tm0 = Some (True, tm)" "tm_year tm = y"
proof -
  define D where "D = utc div 86400"
  note y = y [folded D_def]
  have k: "D = days_before_year y + (D - days_before_year y)" "0 \<le> D - days_before_year y" "D - days_before_year y < year_days y"
    using y(1,2) by (simp_all add: days_before_year_Suc)
  note r = secs_year_range [OF k [unfolded D_def]]
  then have nr: "\<not> time_rejected utc" using y(3,4) in_years_not_rejected [of utc] by blast
  obtain tm' where c: "secs_to_tm utc (tm0\<lparr>tm_isdst := 0\<rparr>) =
      (if tm_year tm' > INT_MAX \<or> tm_year tm' < INT_MIN then Some (- 1, tm0\<lparr>tm_isdst := 0\<rparr>) else Some (0, tm'))"
    "0 \<le> tm_yday tm'" "tm_yday tm' < year_days (tm_year tm')" "utc div 86400 = days_before_year (tm_year tm') + tm_yday tm'"
    using secs_to_tm_civil [OF nr] by metis
  have "tm_year tm' = y"
    using year_unique [OF c(2,3) k(2,3)] c(4) k(1) unfolding D_def by simp
  with c(1) y(3,4) nr have "gmtime_r utc tm0 = Some (True, tm')" by (simp add: gmtime_r_def)
  with \<open>tm_year tm' = y\<close> that show thesis by blast
qed

fun rule_ok :: "int \<times> int \<times> int \<Rightarrow> bool" where
  "rule_ok (mon, week, wd) \<longleftrightarrow> 1 \<le> mon \<and> mon \<le> 12 \<and> 1 \<le> week \<and> 0 \<le> wd \<and> wd < 7"

text \<open>The instant at which a rule takes effect in year \<open>y\<close>: \<open>secs\<close> after midnight of the day the rule names, in the local time that
  is \<open>ofs\<close> behind UTC.\<close>

definition rule_instant :: "int \<Rightarrow> int \<times> int \<times> int \<Rightarrow> int \<Rightarrow> int \<Rightarrow> int \<Rightarrow> bool" where
  "rule_instant y rule secs ofs t = (case rule of (mon, week, wd) \<Rightarrow>
     \<exists>d. nth_weekday y (mon - 1) week wd d \<and> t = 86400 * civil_day y (mon - 1) d + secs + ofs)"

lemma transtime_rule:
  assumes "rule_ok rule" "- 1899 \<le> y"
  shows "\<exists>v. transtime (y + 1900) 2 rule = Some v \<and> (\<forall>secs ofs. rule_instant y rule secs ofs (86400 * days_before_year y + v + secs + ofs))"
proof -
  obtain mon week wd where r: "rule = (mon, week, wd)" by (cases rule)
  from assms have "\<exists>d. transtime (y + 1900) 2 rule = Some (86400 * (days_before_month y (mon - 1) + (d - 1))) \<and>
      nth_weekday y (mon - 1) week wd d"
    using transtime_nth_weekday [of "y + 1900" mon week wd] by (simp add: r)
  then show ?thesis by (force simp: r rule_instant_def civil_day_def)
qed

text \<open>C10: In a zone with month-week-day rules the local time of every instant of a year is the standard or the
  daylight saving offset from it, daylight saving time being on exactly from the instant its start rule names (the given weekday of the
  calendar, at the given standard time) to the instant its end rule names (at the given daylight saving time), and converting the
  local time back with that flag gives the instant again.\<close>

theorem tz_dst_rule:
  assumes "hasdst r" "dst_start_mode r = 2" "dst_end_mode r = 2" "rule_ok (dst_start_param r)" "rule_ok (dst_end_param r)"
    and "86400 * days_before_year y \<le> utc" "utc < 86400 * days_before_year (y + 1)" "- 1899 \<le> y" "y + 1900 \<le> INT_MAX"
  shows "\<exists>start end. rule_instant y (dst_start_param r) (dst_start_time r) (tz_offset r) start \<and>
      rule_instant y (dst_end_param r) (dst_end_time r) (dstoffset r) end \<and>
      (let dst = (start \<le> utc \<and> utc < end); local = utc - (if dst then dstoffset r else tz_offset r)
       in tz_utc_to_local r tm0 utc = Some (local, dst) \<and> tz_local_to_utc r local dst = utc)"
proof -
  from assms(6,7) have d: "days_before_year y \<le> utc div 86400" "utc div 86400 < days_before_year (y + 1)" by linarith+
  obtain tm where tm: "gmtime_r utc tm0 = Some (True, tm)" "tm_year tm = y"
    using gmtime_year [OF d, of tm0] assms(8,9) by (auto simp: INT_MIN_def)
  have ys: "timegm (tm\<lparr>tm_sec := 0, tm_min := 0, tm_hour := 0, tm_mday := 1, tm_mon := 0\<rparr>) = 86400 * days_before_year y"
    using year_start [of tm] assms(8,9) by (simp add: tm(2) INT_MAX_def abs_less_iff)
  obtain vs where vs: "transtime (y + 1900) 2 (dst_start_param r) = Some vs"
    "\<And>secs ofs. rule_instant y (dst_start_param r) secs ofs (86400 * days_before_year y + vs + secs + ofs)"
    using transtime_rule [OF assms(4,8)] by blast
  obtain ve where ve: "transtime (y + 1900) 2 (dst_end_param r) = Some ve"
    "\<And>secs ofs. rule_instant y (dst_end_param r) secs ofs (86400 * days_before_year y + ve + secs + ofs)"
    using transtime_rule [OF assms(5,8)] by blast
  show ?thesis
    using vs(2) ve(2) by (intro exI conjI) (auto simp: tz_utc_to_local_def tz_local_to_utc_def tm ys vs(1) ve(1) assms(1-3) Let_def)
qed

lemma utc_local_utc:
  assumes "hasdst r" "tz_utc_to_local r tm0 t = Some (l, dst)"
  shows "tz_local_to_utc r l dst = t"
  using assms by (auto simp: tz_utc_to_local_def tz_local_to_utc_def Let_def split: Option.bind_splits if_splits)

lemma localtime_Some:
  assumes "localtime_r r tm0 t tm = Some (True, tm')"
  obtains l dst where "tz_utc_to_local r tm0 t = Some (l, dst)" "civil_ok tm'" "civil_secs tm' = l" "tm_isdst tm' = (if dst then 1 else 0)"
proof -
  from assms obtain l dst rc where c: "tz_utc_to_local r tm0 t = Some (l, dst)"
    "secs_to_tm l (tm\<lparr>tm_isdst := (if dst then 1 else 0)\<rparr>) = Some (rc, tm')" "\<not> rc < 0"
    by (auto simp: localtime_r_def bind_eq_Some_conv split: if_splits)
  then have nr: "\<not> time_rejected l" by (auto simp: secs_to_tm_def)
  obtain tm1 where t1: "secs_to_tm l (tm\<lparr>tm_isdst := (if dst then 1 else 0)\<rparr>) =
      (if tm_year tm1 > INT_MAX \<or> tm_year tm1 < INT_MIN then Some (- 1, tm\<lparr>tm_isdst := (if dst then 1 else 0)\<rparr>) else Some (0, tm1))"
    "INT_MIN \<le> tm_year tm1 \<Longrightarrow> tm_year tm1 \<le> INT_MAX \<Longrightarrow> civil_ok tm1" "civil_secs tm1 = l"
    "tm_isdst tm1 = tm_isdst (tm\<lparr>tm_isdst := (if dst then 1 else 0)\<rparr>)"
    using secs_to_tm_civil [OF nr, of "tm\<lparr>tm_isdst := (if dst then 1 else 0)\<rparr>"] by metis
  with c show thesis by (intro that [of l dst]) (auto split: if_splits)
qed

text \<open>C14: In a zone with daylight saving time \<open>mktime\<close> undoes \<open>localtime_r\<close>: the broken-down local time is well formed and
  converts back to the instant it was made from.\<close>

theorem localtime_mktime:
  assumes "hasdst r" "localtime_r r tm0 t tm = Some (True, tm')"
  shows "civil_ok tm' \<and> mktime r tm' = t"
proof -
  obtain l dst where l: "tz_utc_to_local r tm0 t = Some (l, dst)" "civil_ok tm'" "civil_secs tm' = l" "tm_isdst tm' = (if dst then 1 else 0)"
    by (rule localtime_Some [OF assms(2)])
  then show ?thesis using utc_local_utc [OF assms(1) l(1)] tm_to_secs_ok [OF l(2)] by (cases dst) (simp_all add: mktime_def)
qed

definition tz_new_york :: tzrec where
  "tz_new_york = [1] @ le32 18000 @ le32 14400 @ [2] @ le16 3 @ le16 2 @ le16 0 @ le32 7200 @ [2] @ le16 11 @ le16 1 @ le16 0 @ le32 7200"

definition tz_sydney :: tzrec where
  "tz_sydney = [1] @ le32 (- 36000) @ le32 (- 39600) @ [2] @ le16 10 @ le16 1 @ le16 0 @ le32 7200 @ [2] @ le16 4 @ le16 1 @ le16 0 @ le32 10800"

definition tz_tokyo :: tzrec where
  "tz_tokyo = [0] @ le32 (- 32400) @ replicate 26 0"

lemma new_york_fields [simp]:
  "hasdst tz_new_york" "dst_start_mode tz_new_york = 2" "dst_end_mode tz_new_york = 2" "dst_start_param tz_new_york = (3, 2, 0)"
  "dst_end_param tz_new_york = (11, 1, 0)" "dst_start_time tz_new_york = 7200" "dst_end_time tz_new_york = 7200"
  "tz_offset tz_new_york = 18000" "dstoffset tz_new_york = 14400"
  by code_simp+

lemma tz_dst_rule_witness:
  "\<exists>start end. rule_instant 120 (3, 2, 0) 7200 18000 start \<and> rule_instant 120 (11, 1, 0) 7200 14400 end \<and>
     tz_utc_to_local tz_new_york tm_zero 1583020799 = Some (1583020799 - (if start \<le> 1583020799 \<and> 1583020799 < end then 14400 else 18000),
       start \<le> 1583020799 \<and> 1583020799 < end)"
proof -
  have "86400 * days_before_year 120 \<le> 1583020799" "1583020799 < 86400 * days_before_year (120 + 1)"
    "- 1899 \<le> (120 :: int)" "120 + 1900 \<le> INT_MAX"
    by (simp_all add: days_before_year_def INT_MAX_def)
  moreover have "rule_ok (dst_start_param tz_new_york)" "rule_ok (dst_end_param tz_new_york)" by simp_all
  ultimately show ?thesis
    using tz_dst_rule [OF new_york_fields(1-3), of 120 1583020799 tm_zero] unfolding Let_def new_york_fields by blast
qed

lemma localtime_mktime_witness:
  "\<exists>tm. localtime_r tz_new_york tm_zero 1593561600 tm_zero = Some (True, tm) \<and> tm_isdst tm = 1 \<and> tm_hour tm = 20 \<and> mktime tz_new_york tm = 1593561600"
proof -
  have l: "localtime_r tz_new_york tm_zero 1593561600 tm_zero = Some (True, tm_zero\<lparr>tm_mday := 30, tm_mon := 5, tm_year := 120,
      tm_hour := 20, tm_wday := 2, tm_yday := 181, tm_isdst := 1\<rparr>)" by code_simp
  show ?thesis using localtime_mktime [OF new_york_fields(1) l] l by simp
qed

text \<open>What the rules do not cover. In a zone without daylight saving time both conversions add the offset, so that going to local time
  and back shifts the clock by twice the offset; the database stores every offset in the POSIX sense (west of Greenwich positive), which
  only the zones with a rule subtract, so that Tokyo is nine hours behind UTC; and where the rule starts later in the year than it ends
  (Sydney), daylight saving time is never on.\<close>

lemma plain_zone_round_trip:
  "\<not> hasdst r \<Longrightarrow> tz_utc_to_local r tm0 t = Some (l, dst) \<Longrightarrow> tz_local_to_utc r l dst = t + 2 * tz_offset r"
  by (auto simp: tz_utc_to_local_def tz_local_to_utc_def)

lemma tokyo_behind: "tz_utc_to_local tz_tokyo tm_zero 1593561600 = Some (1593561600 - 9 * 3600, False)"
  by code_simp

lemma sydney_never_dst: "tz_utc_to_local tz_sydney tm_zero 1579046400 = Some (1579046400 + 10 * 3600, False)"
  by code_simp

subsection \<open>Reading the database\<close>

text \<open>The database as \<^verbatim>\<open>Utilities/tzcomp.py\<close> writes it: for each folder its name, then the zones in it with their names and
  records.\<close>

type_synonym zones = "(bytes \<times> tzrec) list"
type_synonym tzdb = "(bytes \<times> zones) list"

definition enc_name :: "bytes \<Rightarrow> bytes" where
  "enc_name n = word_of_nat (length n + 1) # n @ [0]"

definition enc_zone :: "bytes \<times> tzrec \<Rightarrow> bytes" where
  "enc_zone z = 2 # enc_name (fst z) @ snd z"

definition enc_zones :: "zones \<Rightarrow> bytes" where
  "enc_zones zs = concat (map enc_zone zs)"

definition enc_folder :: "bytes \<times> zones \<Rightarrow> bytes" where
  "enc_folder d = 1 # enc_name (fst d) @ enc_zones (snd d)"

definition enc_db :: "tzdb \<Rightarrow> bytes" where
  "enc_db db = concat (map enc_folder db)"

definition name_ok :: "bytes \<Rightarrow> bool" where
  "name_ok n \<longleftrightarrow> 0 \<notin> set n \<and> length n \<le> 63"

definition zone_ok :: "bytes \<times> tzrec \<Rightarrow> bool" where
  "zone_ok z \<longleftrightarrow> name_ok (fst z) \<and> length (snd z) = (if hasdst (snd z) then SIZEOF_DST else SIZEOF_NODST)"

definition folder_ok :: "bytes \<times> zones \<Rightarrow> bool" where
  "folder_ok d \<longleftrightarrow> name_ok (fst d) \<and> (\<forall>z \<in> set (snd d). zone_ok z)"

lemma mem_set_length [simp]: "k + length bs \<le> length buf \<Longrightarrow> length (mem_set buf k bs) = length buf"
  by (simp add: mem_set_def)

lemma mem_set_take: "length bs \<le> length buf \<Longrightarrow> take (length bs) (mem_set buf 0 bs) = bs"
  by (simp add: mem_set_def)

lemma mem_set_cons: "length bs < length buf \<Longrightarrow> mem_set (mem_set buf 0 [b]) 1 bs = mem_set buf 0 (b # bs)"
  by (simp add: mem_set_def)

lemma mem_set_hasdst: "0 < length buf \<Longrightarrow> hasdst (mem_set buf 0 (b # bs)) = (b \<noteq> 0)"
  by (simp add: mem_set_def hasdst_def)

lemma str_equal_name: "0 \<notin> set n \<Longrightarrow> 0 \<notin> set s \<Longrightarrow> str_equal (n @ 0 # rest) s = Some (n = s)"
proof (induction n arbitrary: s)
  case Nil
  then show ?case by (cases s) auto
next
  case (Cons b n)
  then show ?case by (cases s) auto
qed

lemma str_equal_set: "name_ok n \<Longrightarrow> 0 \<notin> set s \<Longrightarrow> length nb = 64 \<Longrightarrow> str_equal (mem_set nb 0 (n @ [0])) s = Some (n = s)"
  by (simp add: mem_set_def name_ok_def str_equal_name)

lemma name_len: "name_ok n \<Longrightarrow> unat (word_of_nat (Suc (length n)) :: u8) = length n + 1"
  by (simp add: name_ok_def unat_of_nat del: of_nat_Suc)

lemma name_len_word: "name_ok n \<Longrightarrow> (ucast (word_of_nat (Suc (length n)) :: u8) :: u32) = word_of_nat (Suc (length n))"
  using name_len [of n] by (intro word_unat_eq_iff [THEN iffD2]) (simp add: unat_ucast_u8 name_ok_def unat_of_nat del: of_nat_Suc)

text \<open>A descriptor of a file with contents \<open>C\<close>; the lemmas say what reading and seeking do at position \<open>pos\<close>.\<close>

definition contents :: "plat \<Rightarrow> mem \<Rightarrow> fd \<Rightarrow> bytes \<Rightarrow> bool" where
  "contents p m fd0 C \<longleftrightarrow> fd_ok p m fd0 \<and> C = map m (fs_addrs p m (fd_file fd0) 0 (unat (fsize (fd_file fd0))))"

lemma contents_length: "contents p m fd0 C \<Longrightarrow> length C = unat (fsize (fd_file fd0))"
  by (simp add: contents_def fs_addrs_def)

lemma drop_split: "drop pos C = bs @ rest \<Longrightarrow> bs \<noteq> [] \<Longrightarrow> pos + length bs \<le> length C \<and> drop (pos + length bs) C = rest"
  by (metis append_eq_conv_conj drop_drop add.commute drop_all drop_append length_append length_drop le_add1 Nil_is_append_conv
      add_le_imp_le_diff diff_is_0_eq le_diff_conv2 length_0_conv nat_le_linear)

context fs_platform begin

lemma read_at:
  assumes c: "contents p m fd0 C" and d: "drop pos C = bs @ rest" "bs \<noteq> []" and n: "length bs = n"
  shows "fs_read p m (fs_goto p m fd0 pos) dst (word_of_nat n) = Some (word_of_nat n, fs_goto p m fd0 (pos + n), bs)"
proof -
  let ?sz = "unat (fsize (fd_file fd0))"
  have C: "length C = ?sz" by (rule contents_length [OF c])
  have le: "pos + n \<le> length C" using drop_split [OF d] n by simp
  have s: "?sz < 2 ^ 32" using unat_u32_less by simp
  have nw: "unat (word_of_nat n :: u32) = n" and ps: "unat (word_of_nat pos :: u32) = pos"
    using le C s by (simp_all add: unat_of_nat)
  have ok: "fd_ok p m (fs_goto p m fd0 pos)" using c le C by (intro fs_goto_ok) (simp_all add: contents_def)
  obtain k where sz: "?sz = pos + n + k" using le C le_Suc_ex by metis
  have "C = map m (fs_addrs p m (fd_file fd0) 0 (pos + n + k))" using c by (simp add: contents_def sz)
  also have "\<dots> = map m (fs_addrs p m (fd_file fd0) 0 pos) @ map m (fs_addrs p m (fd_file fd0) pos n) @
      map m (fs_addrs p m (fd_file fd0) (pos + n) k)"
    by (simp add: fs_addrs_split)
  finally have "drop pos C = map m (fs_addrs p m (fd_file fd0) pos n) @ map m (fs_addrs p m (fd_file fd0) (pos + n) k)"
    by (simp add: fs_addrs_def)
  then have "bs = map m (fs_addrs p m (fd_file fd0) pos n)" using d(1) n by (simp add: fs_addrs_def append_eq_append_conv)
  then show ?thesis using read_ok [OF ok, of n "word_of_nat n" dst] le C by (simp add: nw ps)
qed

lemma read_byte:
  assumes "contents p m fd0 C" "drop pos C = b # rest"
  shows "fs_read p m (fs_goto p m fd0 pos) dst 1 = Some (1, fs_goto p m fd0 (Suc pos), [b])"
  using read_at [OF assms(1), of pos "[b]" rest 1 dst] assms(2) by simp

lemma read_none:
  assumes "contents p m fd0 C" "pos = length C"
  shows "fs_read p m (fs_goto p m fd0 pos) dst 1 = Some (0, fs_goto p m fd0 pos, [])"
proof -
  have ok: "fd_ok p m (fs_goto p m fd0 pos)" using assms by (intro fs_goto_ok) (simp_all add: contents_length [OF assms(1)] contents_def)
  show ?thesis using read_ok [OF ok, of 0 1 dst] assms(2) contents_length [OF assms(1)] by (simp add: fs_addrs_def fs_run_def)
qed

lemma seek_at:
  assumes c: "contents p m fd0 C" and d: "drop pos C = bs @ rest" "bs \<noteq> []" and n: "length bs = n"
  shows "\<exists>r. fs_seek p m (fs_goto p m fd0 pos) (word_of_nat n) FS_SEEK_CUR = Some (r, fs_goto p m fd0 (pos + n))"
proof -
  have le: "pos + n \<le> unat (fsize (fd_file fd0))" using drop_split [OF d] n contents_length [OF c] by simp
  have ok: "fd_ok p m (fs_goto p m fd0 pos)" using c le by (intro fs_goto_ok) (simp_all add: contents_def)
  have u: "unat (word_of_nat pos + word_of_nat n :: u32) = pos + n"
    using le unat_u32_less [of "fsize (fd_file fd0)"] by (simp add: unat_of_nat flip: of_nat_add)
  then have "unat (fs_newoffset (fs_goto p m fd0 pos) (word_of_nat n) FS_SEEK_CUR) = pos + n"
    using le by (simp add: fs_newoffset_def Let_def word_less_nat_alt)
  then show ?thesis using seek_ok [OF ok, of "word_of_nat n" FS_SEEK_CUR] by simp
qed

lemma seek_back:
  assumes "contents p m fd0 C" "Suc pos \<le> length C"
  shows "\<exists>r. fs_seek p m (fs_goto p m fd0 (Suc pos)) (- 1) FS_SEEK_CUR = Some (r, fs_goto p m fd0 pos)"
proof -
  have le: "Suc pos \<le> unat (fsize (fd_file fd0))" using assms(2) contents_length [OF assms(1)] by simp
  have ok: "fd_ok p m (fs_goto p m fd0 (Suc pos))" using assms(1) le by (intro fs_goto_ok) (simp_all add: contents_def)
  have "word_of_nat (Suc pos) + - 1 = (word_of_nat pos :: u32)" by simp
  moreover have "unat (word_of_nat pos :: u32) = pos" using le unat_u32_less [of "fsize (fd_file fd0)"] by (simp add: unat_of_nat)
  ultimately have "unat (fs_newoffset (fs_goto p m fd0 (Suc pos)) (- 1) FS_SEEK_CUR) = pos"
    using le by (simp add: fs_newoffset_def Let_def word_less_nat_alt)
  then show ?thesis using seek_ok [OF ok, of "- 1" FS_SEEK_CUR] by simp
qed

lemma read_name:
  assumes c: "contents p m fd0 C" and d: "drop pos C = enc_name n @ rest" and n: "name_ok n"
  shows "fs_read p m (fs_goto p m fd0 pos) dst 1 = Some (1, fs_goto p m fd0 (Suc pos), [word_of_nat (Suc (length n))])"
    "fs_read p m (fs_goto p m fd0 (Suc pos)) dst (word_of_nat (Suc (length n))) =
       Some (word_of_nat (Suc (length n)), fs_goto p m fd0 (pos + length (enc_name n)), n @ [0])"
    "\<exists>r. fs_seek p m (fs_goto p m fd0 (Suc pos)) (word_of_nat (Suc (length n))) FS_SEEK_CUR =
       Some (r, fs_goto p m fd0 (pos + length (enc_name n)))"
    "drop (pos + length (enc_name n)) C = rest"
proof -
  have d1: "drop (Suc pos) C = (n @ [0]) @ rest"
    using d by (metis enc_name_def append_Cons drop_Suc tl_drop list.sel(3))
  have l: "Suc pos + Suc (length n) = pos + length (enc_name n)" by (simp add: enc_name_def)
  show "fs_read p m (fs_goto p m fd0 pos) dst 1 = Some (1, fs_goto p m fd0 (Suc pos), [word_of_nat (Suc (length n))])"
    using d by (intro read_byte [OF c]) (simp add: enc_name_def)
  show "fs_read p m (fs_goto p m fd0 (Suc pos)) dst (word_of_nat (Suc (length n))) =
       Some (word_of_nat (Suc (length n)), fs_goto p m fd0 (pos + length (enc_name n)), n @ [0])"
    unfolding l [symmetric] by (rule read_at [OF c d1]) simp_all
  show "\<exists>r. fs_seek p m (fs_goto p m fd0 (Suc pos)) (word_of_nat (Suc (length n))) FS_SEEK_CUR =
       Some (r, fs_goto p m fd0 (pos + length (enc_name n)))"
    unfolding l [symmetric] by (rule seek_at [OF c d1]) simp_all
  show "drop (pos + length (enc_name n)) C = rest"
    using drop_split [OF d1] unfolding l [symmetric] by simp
qed

lemma rest_len: "zone_ok z \<Longrightarrow> 0 < length (snd z) \<and> length (snd z) - 1 = (if hasdst (snd z) then SIZEOF_DST - 1 else SIZEOF_NODST - 1)"
  by (simp add: zone_ok_def SIZEOF_DST_def SIZEOF_NODST_def)

lemma zone_cons:
  assumes "zone_ok z"
  obtains b bs where "snd z = b # bs" "bs \<noteq> []" "hasdst (snd z) = (b \<noteq> 0)"
    "length bs = (if b \<noteq> 0 then SIZEOF_DST - 1 else SIZEOF_NODST - 1)" "length bs \<le> 30"
proof (cases "snd z")
  case (Cons b bs)
  have l: "length bs = (if b \<noteq> 0 then SIZEOF_DST - 1 else SIZEOF_NODST - 1)"
    using assms Cons by (auto simp: zone_ok_def hasdst_def SIZEOF_DST_def SIZEOF_NODST_def split: if_splits)
  then have "bs \<noteq> []" "length bs \<le> 30" by (auto simp: SIZEOF_DST_def SIZEOF_NODST_def split: if_splits)
  with l Cons show thesis by (intro that [of b bs]) (simp_all add: hasdst_def)
qed (use assms in \<open>auto simp: zone_ok_def SIZEOF_DST_def SIZEOF_NODST_def split: if_splits\<close>)

lemma nexttz_zone:
  assumes c: "contents p m fd0 C" and d: "drop pos C = enc_zone z @ rest" and z: "zone_ok z" and r: "length r = SIZEOF_DST"
  shows "tz_db_nexttz p m (fs_goto p m fd0 pos) nb 64 r =
      Some (0, fs_goto p m fd0 (pos + length (enc_zone z)), mem_set nb 0 (fst z @ [0]), mem_set r 0 (snd z))"
    "drop (pos + length (enc_zone z)) C = rest"
proof -
  obtain b bs where s: "snd z = b # bs" "bs \<noteq> []" "hasdst (snd z) = (b \<noteq> 0)"
    "length bs = (if b \<noteq> 0 then SIZEOF_DST - 1 else SIZEOF_NODST - 1)" "length bs \<le> 30" by (rule zone_cons [OF z])
  have n: "name_ok (fst z)" using z by (simp add: zone_ok_def)
  define p1 where "p1 = Suc pos"
  define p2 where "p2 = p1 + length (enc_name (fst z))"
  have d0: "drop pos C = 2 # enc_name (fst z) @ b # bs @ rest" using d s(1) by (simp add: enc_zone_def)
  then have d1: "drop p1 C = enc_name (fst z) @ b # bs @ rest" unfolding p1_def by (metis drop_Suc tl_drop list.sel(3))
  note nm = read_name [OF c d1 n, folded p2_def]
  have d2: "drop (Suc p2) C = bs @ rest" using nm(4) by (metis drop_Suc tl_drop list.sel(3))
  have l: "Suc p2 + length bs = pos + length (enc_zone z)" by (simp add: p2_def p1_def enc_zone_def s(1))
  have rb: "fs_read p m (fs_goto p m fd0 pos) dst 1 = Some (1, fs_goto p m fd0 p1, [2])" for dst
    unfolding p1_def by (rule read_byte [OF c d0])
  have rr: "fs_read p m (fs_goto p m fd0 p2) dst 1 = Some (1, fs_goto p m fd0 (Suc p2), [b])" for dst
    by (rule read_byte [OF c nm(4)])
  have rd: "fs_read p m (fs_goto p m fd0 (Suc p2)) dst (word_of_nat (length bs)) =
      Some (word_of_nat (length bs), fs_goto p m fd0 (pos + length (enc_zone z)), bs)" for dst
    unfolding l [symmetric] by (rule read_at [OF c d2 s(2)]) simp
  have h: "hasdst (mem_set r 0 [b]) = (b \<noteq> 0)" using r by (simp add: mem_set_hasdst SIZEOF_DST_def)
  have rest: "(if hasdst (mem_set r 0 [b]) then word_of_nat (SIZEOF_DST - 1) else word_of_nat (SIZEOF_NODST - 1)) =
      (word_of_nat (length bs) :: u32)" unfolding h s(4) by simp
  have mm: "mem_set (mem_set r 0 [b]) (Suc 0) bs = mem_set r 0 (snd z)" unfolding s(1) by (rule mem_set_cons [unfolded One_nat_def]) (use s(5) r in \<open>simp add: SIZEOF_DST_def\<close>)
  have nl: "\<not> 64 < unat (word_of_nat (Suc (length (fst z))) :: u8)" using name_len [OF n] n by (simp add: name_ok_def)
  show "tz_db_nexttz p m (fs_goto p m fd0 pos) nb 64 r =
      Some (0, fs_goto p m fd0 (pos + length (enc_zone z)), mem_set nb 0 (fst z @ [0]), mem_set r 0 (snd z))"
    by (subst tz_db_nexttz.simps)
      (simp add: rb nm(1,2) name_len_word [OF n] nl rr Let_def rest rd mm del: of_nat_Suc)
  show "drop (pos + length (enc_zone z)) C = rest"
    using drop_split [OF d2 s(2)] unfolding l by simp
qed

lemma nexttz_folder:
  assumes c: "contents p m fd0 C" and d: "drop pos C = 1 # rest"
  shows "tz_db_nexttz p m (fs_goto p m fd0 pos) nb 64 r = Some (-1, fs_goto p m fd0 pos, nb, r)"
proof -
  have "Suc pos \<le> length C" using drop_split [of pos C "[1]" rest] d by simp
  from seek_back [OF c this] obtain k where "fs_seek p m (fs_goto p m fd0 (Suc pos)) (- 1) FS_SEEK_CUR = Some (k, fs_goto p m fd0 pos)" by blast
  then show ?thesis using read_byte [OF c d] by (subst tz_db_nexttz.simps) simp
qed

lemma nexttz_end:
  assumes c: "contents p m fd0 C" and d: "pos = length C"
  shows "tz_db_nexttz p m (fs_goto p m fd0 pos) nb 64 r = Some (-1, fs_goto p m fd0 pos, nb, r)"
  using read_none [OF c d] by (subst tz_db_nexttz.simps) simp

lemma nextdir_folder:
  assumes c: "contents p m fd0 C" and d: "drop pos C = 1 # enc_name n @ rest" and n: "name_ok n"
  shows "tz_db_nextdir p m (fs_goto p m fd0 pos) nb 64 = Some (0, fs_goto p m fd0 (Suc pos + length (enc_name n)), mem_set nb 0 (n @ [0]))"
    "drop (Suc pos + length (enc_name n)) C = rest"
proof -
  have d1: "drop (Suc pos) C = enc_name n @ rest" using d by (metis drop_Suc tl_drop list.sel(3))
  note nm = read_name [OF c d1 n]
  have nl: "\<not> 64 < unat (word_of_nat (Suc (length n)) :: u8)" using name_len [OF n] n by (simp add: name_ok_def)
  show "tz_db_nextdir p m (fs_goto p m fd0 pos) nb 64 = Some (0, fs_goto p m fd0 (Suc pos + length (enc_name n)), mem_set nb 0 (n @ [0]))"
    by (subst tz_db_nextdir.simps) (simp add: read_byte [OF c d] nm(1,2) name_len_word [OF n] nl del: of_nat_Suc)
  show "drop (Suc pos + length (enc_name n)) C = rest" by (rule nm(4))
qed

lemma nextdir_zone:
  assumes c: "contents p m fd0 C" and d: "drop pos C = enc_zone z @ rest" and z: "zone_ok z"
  shows "tz_db_nextdir p m (fs_goto p m fd0 pos) nb 64 = tz_db_nextdir p m (fs_goto p m fd0 (pos + length (enc_zone z))) nb 64"
    "drop (pos + length (enc_zone z)) C = rest"
proof -
  obtain b bs where s: "snd z = b # bs" "bs \<noteq> []" "hasdst (snd z) = (b \<noteq> 0)"
    "length bs = (if b \<noteq> 0 then SIZEOF_DST - 1 else SIZEOF_NODST - 1)" "length bs \<le> 30" by (rule zone_cons [OF z])
  have n: "name_ok (fst z)" using z by (simp add: zone_ok_def)
  define p1 where "p1 = Suc pos"
  define p2 where "p2 = p1 + length (enc_name (fst z))"
  have d0: "drop pos C = 2 # enc_name (fst z) @ b # bs @ rest" using d s(1) by (simp add: enc_zone_def)
  then have d1: "drop p1 C = enc_name (fst z) @ b # bs @ rest" unfolding p1_def by (metis drop_Suc tl_drop list.sel(3))
  note nm = read_name [OF c d1 n, folded p2_def]
  have d2: "drop (Suc p2) C = bs @ rest" using nm(4) by (metis drop_Suc tl_drop list.sel(3))
  have l: "Suc p2 + length bs = pos + length (enc_zone z)" by (simp add: p2_def p1_def enc_zone_def s(1))
  have rb: "fs_read p m (fs_goto p m fd0 pos) dst 1 = Some (1, fs_goto p m fd0 p1, [2])" for dst
    unfolding p1_def by (rule read_byte [OF c d0])
  obtain r1 where sk: "fs_seek p m (fs_goto p m fd0 (Suc p1)) (word_of_nat (Suc (length (fst z)))) FS_SEEK_CUR = Some (r1, fs_goto p m fd0 p2)"
    using nm(3) by blast
  have rr: "fs_read p m (fs_goto p m fd0 p2) dst 1 = Some (1, fs_goto p m fd0 (Suc p2), [b])" for dst
    by (rule read_byte [OF c nm(4)])
  obtain r2 where sr: "fs_seek p m (fs_goto p m fd0 (Suc p2)) (word_of_nat (length bs)) FS_SEEK_CUR = Some (r2, fs_goto p m fd0 (pos + length (enc_zone z)))"
    using seek_at [OF c d2 s(2) refl] unfolding l by blast
  have rest: "(if b \<noteq> 0 then word_of_nat (SIZEOF_DST - 1) else word_of_nat (SIZEOF_NODST - 1)) = (word_of_nat (length bs) :: u32)"
    unfolding s(4) by simp
  show "tz_db_nextdir p m (fs_goto p m fd0 pos) nb 64 = tz_db_nextdir p m (fs_goto p m fd0 (pos + length (enc_zone z))) nb 64"
    by (subst tz_db_nextdir.simps)
      (simp only: rb nm(1) name_len_word [OF n] rr Let_def rest sk sr bind.bind_lunit prod.case Option.bind.simps nth_Cons_0 if_False if_True
        word_less_1 simp_thms; simp)
  show "drop (pos + length (enc_zone z)) C = rest"
    using drop_split [OF d2 s(2)] unfolding l by simp
qed

lemma nextdir_end:
  assumes c: "contents p m fd0 C" and d: "pos = length C"
  shows "tz_db_nextdir p m (fs_goto p m fd0 pos) nb 64 = Some (-1, fs_goto p m fd0 pos, nb)"
  using read_none [OF c d] by (subst tz_db_nextdir.simps) simp

end

context fs_platform begin

lemma find_tz_zones:
  assumes c: "contents p m fd0 C" and rest: "rest = [] \<or> (\<exists>xs. rest = 1 # xs)" and s: "0 \<notin> set nm"
  shows "\<lbrakk>drop pos C = enc_zones zs @ rest; pos \<le> length C; \<forall>z \<in> set zs. zone_ok z; length r = SIZEOF_DST; length nb = 64\<rbrakk> \<Longrightarrow>
    \<exists>fd nb' r'. find_tz p m (fs_goto p m fd0 pos) nb r nm = Some (if map_of zs nm = None then -1 else 0, fd, nb', r') \<and>
      length r' = SIZEOF_DST \<and> (\<forall>x. map_of zs nm = Some x \<longrightarrow> take (length x) r' = x)"
proof (induction zs arbitrary: pos nb r)
  case Nil
  from rest show ?case
  proof
    assume "rest = []"
    then have "pos = length C" using Nil by (simp add: enc_zones_def)
    then show ?thesis using nexttz_end [OF c] Nil(4) by (subst find_tz.simps) simp
  next
    assume "\<exists>xs. rest = 1 # xs"
    then obtain xs where "drop pos C = 1 # xs" using Nil by (auto simp: enc_zones_def)
    then show ?thesis using nexttz_folder [OF c] Nil(4) by (subst find_tz.simps) simp
  qed
next
  case (Cons z zs)
  have d: "drop pos C = enc_zone z @ (enc_zones zs @ rest)" using Cons.prems(1) by (simp add: enc_zones_def)
  have z: "zone_ok z" using Cons.prems(3) by simp
  note nx = nexttz_zone(1) [OF c d z Cons.prems(4), of nb] nexttz_zone(2) [OF c d z Cons.prems(4)]
  have len: "length (snd z) \<le> length r" "length (fst z @ [0]) \<le> length nb"
    using z Cons.prems(4,5) by (auto simp: zone_ok_def name_ok_def SIZEOF_DST_def SIZEOF_NODST_def)
  have eq: "str_equal (mem_set nb 0 (fst z @ [0])) nm = Some (fst z = nm)"
    using z s Cons.prems(5) by (intro str_equal_set) (simp_all add: zone_ok_def)
  show ?case
  proof (cases "fst z = nm")
    case True
    then show ?thesis using nx(1) eq len Cons.prems(4) by (subst find_tz.simps) (cases z, simp add: mem_set_take)
  next
    case False
    have "pos + length (enc_zone z) \<le> length C" using drop_split [OF d] by (simp add: enc_zone_def)
    then obtain fd nb' r' where ih:
      "find_tz p m (fs_goto p m fd0 (pos + length (enc_zone z))) (mem_set nb 0 (fst z @ [0])) (mem_set r 0 (snd z)) nm =
         Some (if map_of zs nm = None then -1 else 0, fd, nb', r')"
      "length r' = SIZEOF_DST" "\<forall>x. map_of zs nm = Some x \<longrightarrow> take (length x) r' = x"
      using Cons.IH [OF nx(2), of "mem_set r 0 (snd z)" "mem_set nb 0 (fst z @ [0])"] Cons.prems len by auto
    have "map_of (z # zs) nm = map_of zs nm" using False by (cases z) simp
    moreover have "find_tz p m (fs_goto p m fd0 pos) nb r nm =
        find_tz p m (fs_goto p m fd0 (pos + length (enc_zone z))) (mem_set nb 0 (fst z @ [0])) (mem_set r 0 (snd z)) nm"
      using nx(1) eq False by (subst find_tz.simps) simp
    ultimately show ?thesis using ih by simp
  qed
qed

lemma nextdir_zones:
  assumes c: "contents p m fd0 C"
  shows "\<lbrakk>drop pos C = enc_zones zs @ rest; pos \<le> length C; \<forall>z \<in> set zs. zone_ok z\<rbrakk> \<Longrightarrow>
    \<exists>pos'. pos' \<le> length C \<and> drop pos' C = rest \<and>
      (\<forall>nb. tz_db_nextdir p m (fs_goto p m fd0 pos) nb 64 = tz_db_nextdir p m (fs_goto p m fd0 pos') nb 64)"
proof (induction zs arbitrary: pos)
  case (Cons z zs)
  have d: "drop pos C = enc_zone z @ (enc_zones zs @ rest)" using Cons.prems(1) by (simp add: enc_zones_def)
  have z: "zone_ok z" using Cons.prems(3) by simp
  have le: "pos + length (enc_zone z) \<le> length C" using drop_split [OF d] by (simp add: enc_zone_def)
  show ?case using Cons.IH [OF nextdir_zone(2) [OF c d z] le] Cons.prems(3) nextdir_zone(1) [OF c d z] by auto
qed (auto simp: enc_zones_def)

lemma find_dir_folders:
  assumes c: "contents p m fd0 C" and s: "0 \<notin> set dir"
  shows "\<lbrakk>drop pos C = enc_zones zs @ enc_db db; pos \<le> length C; \<forall>z \<in> set zs. zone_ok z; \<forall>d \<in> set db. folder_ok d; length nb = 64\<rbrakk> \<Longrightarrow>
    (case map_of db dir of
       None \<Rightarrow> \<exists>fd nb'. find_dir p m (fs_goto p m fd0 pos) nb dir = Some (-1, fd, nb')
     | Some zs' \<Rightarrow> \<exists>pos' nb' db'. find_dir p m (fs_goto p m fd0 pos) nb dir = Some (0, fs_goto p m fd0 pos', nb') \<and>
         pos' \<le> length C \<and> drop pos' C = enc_zones zs' @ enc_db db' \<and> length nb' = 64 \<and> (\<forall>z \<in> set zs'. zone_ok z))"
proof (induction db arbitrary: pos zs nb)
  case Nil
  obtain pos' where "pos' \<le> length C" "drop pos' C = []"
    "\<forall>nb. tz_db_nextdir p m (fs_goto p m fd0 pos) nb 64 = tz_db_nextdir p m (fs_goto p m fd0 pos') nb 64"
    using nextdir_zones [OF c Nil(1-3)] by (auto simp: enc_db_def)
  moreover from this have "pos' = length C" by simp
  ultimately show ?case using nextdir_end [OF c] by (subst find_dir.simps) simp
next
  case (Cons d db)
  obtain pos' where p': "pos' \<le> length C" "drop pos' C = enc_db (d # db)"
    "\<forall>nb. tz_db_nextdir p m (fs_goto p m fd0 pos) nb 64 = tz_db_nextdir p m (fs_goto p m fd0 pos') nb 64"
    using nextdir_zones [OF c Cons.prems(1-3)] by blast
  have ok: "name_ok (fst d)" "\<forall>z \<in> set (snd d). zone_ok z" using Cons.prems(4) by (simp_all add: folder_ok_def)
  have d: "drop pos' C = 1 # enc_name (fst d) @ (enc_zones (snd d) @ enc_db db)"
    using p'(2) by (simp add: enc_db_def enc_folder_def)
  note nx = nextdir_folder(1) [OF c d ok(1), of nb] nextdir_folder(2) [OF c d ok(1)]
  let ?pos = "Suc pos' + length (enc_name (fst d))" and ?nb = "mem_set nb 0 (fst d @ [0])"
  have nb: "length ?nb = 64" using ok(1) Cons.prems(5) by (simp add: name_ok_def)
  have le: "?pos \<le> length C"
    using drop_split [of pos' C "1 # enc_name (fst d)" "enc_zones (snd d) @ enc_db db"] d by simp
  have eq: "str_equal ?nb dir = Some (fst d = dir)" using ok(1) s Cons.prems(5) by (rule str_equal_set)
  show ?case
  proof (cases "fst d = dir")
    case True
    then have "find_dir p m (fs_goto p m fd0 pos) nb dir = Some (0, fs_goto p m fd0 ?pos, ?nb)"
      using p'(3) nx(1) eq by (subst find_dir.simps) simp
    then show ?thesis using True nx(2) le nb ok(2) by (cases d) (auto simp: option.case_eq_if)
  next
    case False
    have e: "find_dir p m (fs_goto p m fd0 pos) nb dir = find_dir p m (fs_goto p m fd0 ?pos) ?nb dir"
      using p'(3) nx(1) eq False by (subst find_dir.simps) simp
    have "map_of (d # db) dir = map_of db dir" using False by (cases d) simp
    moreover have "\<forall>d \<in> set db. folder_ok d" using Cons.prems(4) by simp
    ultimately show ?thesis using Cons.IH [OF nx(2) le ok(2) _ nb] unfolding e by simp
  qed
qed

lemma enc_db_head: "enc_db db = [] \<or> (\<exists>xs. enc_db db = 1 # xs)"
  by (cases db) (simp_all add: enc_db_def enc_folder_def)

lemma fs_goto_0: "fd_ok p m fd \<Longrightarrow> fd_offset fd = 0 \<Longrightarrow> fs_goto p m fd 0 = fd"
  by (simp add: fs_goto_def fd_ok_def fs_cur_def fs_start_def)

theorem tz_load_spec:
  assumes c: "contents p m fd (enc_db db)" "fd_offset fd = 0" and ok: "\<forall>d \<in> set db. folder_ok d"
    and s: "0 \<notin> set dir" "0 \<notin> set nm" and r: "length r = SIZEOF_DST"
  shows "case map_of db dir of None \<Rightarrow> tz_load p m fd r i dir nm = Some (-1, i)
    | Some zs \<Rightarrow> (case map_of zs nm of None \<Rightarrow> tz_load p m fd r i dir nm = Some (-1, i)
        | Some x \<Rightarrow> \<exists>r'. tz_load p m fd r i dir nm = Some (0, i\<lparr>tz := r', tz_nm := mem_set (tz_nm i) 0 (zone_text dir nm)\<rparr>) \<and>
            length r' = SIZEOF_DST \<and> take (length x) r' = x)"
proof -
  have g: "fs_goto p m fd 0 = fd" using c by (simp add: contents_def fs_goto_0)
  note fd = find_dir_folders [OF c(1) s(1), of 0 "[]" db "replicate 64 0", unfolded g]
  show ?thesis
  proof (cases "map_of db dir")
    case None
    then show ?thesis using fd ok by (auto simp: enc_zones_def tz_load_def)
  next
    case (Some zs)
    with fd ok obtain pos nb db' where f: "find_dir p m fd (replicate 64 0) dir = Some (0, fs_goto p m fd pos, nb)"
      "pos \<le> length (enc_db db)" "drop pos (enc_db db) = enc_zones zs @ enc_db db'" "length nb = 64" "\<forall>z \<in> set zs. zone_ok z"
      by (auto simp: enc_zones_def)
    obtain fd' nb' r' where t: "find_tz p m (fs_goto p m fd pos) nb r nm = Some (if map_of zs nm = None then -1 else 0, fd', nb', r')"
      "length r' = SIZEOF_DST" "\<forall>x. map_of zs nm = Some x \<longrightarrow> take (length x) r' = x"
      using find_tz_zones [OF c(1) enc_db_head s(2) f(3,2,5) r f(4)] by blast
    show ?thesis
    proof (cases "map_of zs nm")
      case None
      then show ?thesis using Some f(1) t(1) by (simp add: tz_load_def)
    next
      case (Some x)
      then have "tz_load p m fd r i dir nm = Some (0, i\<lparr>tz := r', tz_nm := mem_set (tz_nm i) 0 (zone_text dir nm)\<rparr>)"
        using f(1) t(1) by (simp add: tz_load_def)
      then show ?thesis using Some \<open>map_of db dir = Some zs\<close> t(2,3) by auto
    qed
  qed
qed

end

text \<open>C13: loading a zone from the database. If the resource holds a database as the compiler writes it, \<open>tz_load\<close> ends
  without a fault; when the folder and, in the first folder of that name, the zone exist, it installs the bytes of the first such zone's
  record and its name and returns 0, and otherwise it returns -1 and keeps the time zone as it was.\<close>

theorem tz_load_finds:
  assumes "contents (snowy_plat nor_ideal) m fd (enc_db db)" "fd_offset fd = 0" "\<forall>d \<in> set db. folder_ok d"
    and "0 \<notin> set dir" "0 \<notin> set nm" "length r = SIZEOF_DST"
  shows "case map_of db dir of None \<Rightarrow> tz_load (snowy_plat nor_ideal) m fd r i dir nm = Some (-1, i)
    | Some zs \<Rightarrow> (case map_of zs nm of None \<Rightarrow> tz_load (snowy_plat nor_ideal) m fd r i dir nm = Some (-1, i)
        | Some x \<Rightarrow> \<exists>r'. tz_load (snowy_plat nor_ideal) m fd r i dir nm =
              Some (0, i\<lparr>tz := r', tz_nm := mem_set (tz_nm i) 0 (zone_text dir nm)\<rparr>) \<and>
            length r' = SIZEOF_DST \<and> take (length x) r' = x)"
  using assms by (rule snowy_fs.tz_load_spec)

lemma map_mread: "map m [a..<a + n] = mread m a n"
  by (rule nth_equalityI) simp_all

definition ex_db_zones :: tzdb where
  "ex_db_zones = [([65], [([76], take 5 tz_tokyo), ([78], tz_new_york)])]"

definition ex_tz_flash :: mem where
  "ex_tz_flash = mwrite (\<lambda>_. 0xFF) 0x4003E8 (enc_db ex_db_zones)"

definition ex_tz_file :: fs_file where
  "ex_tz_file = \<lparr> flags = FILE_HAS_DIRENT, startpage = 0, startpofs = 1000, fsize = word_of_nat (length (enc_db ex_db_zones)) \<rparr>"

lemma ex_db_bytes: "enc_db ex_db_zones = [1, 2, 65, 0, 2, 2, 76, 0, 0, 0x70, 0x81, 0xFF, 0xFF, 2, 2, 78, 0] @ tz_new_york"
  by code_simp

lemma ex_tzdb_ok: "\<forall>d \<in> set ex_db_zones. folder_ok d" "length (enc_db ex_db_zones) = 48"
  by code_simp+

lemma ex_tz_contents: "contents (snowy_plat nor_ideal) ex_tz_flash (fs_open ex_tz_file) (enc_db ex_db_zones)"
proof -
  let ?p = "snowy_plat nor_ideal"
  have st: "fs_start ex_tz_file = (0, 1000)" "unat (fsize ex_tz_file) = 48" by (simp_all add: fs_start_def ex_tz_file_def ex_tzdb_ok(2))
  have w: "fst (fs_walk ?p ex_tz_flash (0, 1000) k) = 0" if "k < 48" for k
    using that snowy_fs.walk_in_page [of 1000 k ex_tz_flash 0] by (cases "k = 0") simp_all
  have "file_ok ?p ex_tz_flash ex_tz_file"
    using w by (auto simp: file_ok_def st fs_pages_ok_def fs_inpage_def SIZEOF_PAGE_HDR_def)
      (simp add: ex_tz_file_def FILE_HAS_DIRENT_def FILE_IS_RAW_FLASH_def)
  then have ok: "fd_ok ?p ex_tz_flash (fs_open ex_tz_file)" by (rule fs_open_ok)
  have "fs_addrs ?p ex_tz_flash ex_tz_file 0 48 = [0x4003E8..<0x4003E8 + 48]"
    using snowy_fs.run_in_page [of 1000 48 ex_tz_flash 0] by (simp add: fs_addrs_def st fs_addr_def)
  then have "map ex_tz_flash (fs_addrs ?p ex_tz_flash ex_tz_file 0 48) = mread ex_tz_flash 0x4003E8 48"
    by (simp only: map_mread)
  also have "\<dots> = enc_db ex_db_zones"
    unfolding ex_tz_flash_def using mread_mwrite_same [where a = "0x4003E8" and bs = "enc_db ex_db_zones"] by (simp add: ex_tzdb_ok(2))
  finally show ?thesis using ok by (simp add: contents_def st)
qed

lemma tz_load_finds_witness:
  "\<exists>r. tz_load (snowy_plat nor_ideal) ex_tz_flash (fs_open ex_tz_file) (replicate 31 0) \<lparr>tz = [], tz_nm = replicate 64 0\<rparr> [65] [78] =
      Some (0, \<lparr>tz = r, tz_nm = mem_set (replicate 64 0) 0 (zone_text [65] [78])\<rparr>) \<and> r = tz_new_york"
proof -
  have "tz_new_york = take 31 tz_new_york" "length tz_new_york = 31" by code_simp+
  then show ?thesis
    using tz_load_finds [OF ex_tz_contents _ ex_tzdb_ok(1), of "[65]" "[78]" "replicate 31 0" "\<lparr>tz = [], tz_nm = replicate 64 0\<rparr>"]
    by (auto simp: ex_db_zones_def SIZEOF_DST_def)
qed

subsection \<open>Setting and keeping the zone\<close>

text \<open>\<open>rcore_set_tz_name\<close> copies the name with \<open>strncpy\<close>, which moves one byte more than its bound: a name of 64 or more bytes
  is written beyond \<open>_tzinfo.name\<close> (\<open>None\<close>). The folder is what stands before the first slash.\<close>

definition SLASH :: u8 where "SLASH = chr CHR ''/''"

definition rcore_set_tz_name :: "plat \<Rightarrow> mem \<Rightarrow> fd \<Rightarrow> tzrec \<Rightarrow> tzinfo \<Rightarrow> bytes \<Rightarrow> tzinfo option" where
  "rcore_set_tz_name p m fd r0 i tz_name_const =
     (let nm = takeWhile (\<lambda>b. b \<noteq> 0) tz_name_const;
          tzdir = takeWhile (\<lambda>b. b \<noteq> SLASH) nm;
          tznam = drop (Suc (length tzdir)) nm
      in do {
        c_assert (length nm < 64);
        (_, i) \<leftarrow> tz_load p m fd r0 (i\<lparr>tz_nm := mem_set (tz_nm i) 0 (nm @ [0])\<rparr>) tzdir tznam;
        Some i })"

definition rcore_set_utc_offset :: "tzinfo \<Rightarrow> u32 \<Rightarrow> tzinfo" where
  "rcore_set_utc_offset i offset = tz_override i offset"

definition PREFS_KEY_TZ :: u32 where "PREFS_KEY_TZ = 0"
definition SIZEOF_TZINFO :: nat where "SIZEOF_TZINFO = SIZEOF_DST + 64"

definition rcore_tz_prefs_save :: "plat \<Rightarrow> rdb_database list \<Rightarrow> fs \<Rightarrow> (nat \<Rightarrow> bool) \<Rightarrow> rdb_iter \<Rightarrow> tzinfo \<Rightarrow> (rdb_database list \<times> fs) option" where
  "rcore_tz_prefs_save p dbs s calloc it0 i = do {
     (_, dbs, s) \<leftarrow> prefs_put p dbs s calloc it0 PREFS_KEY_TZ (tz i @ tz_nm i);
     Some (dbs, s) }"

definition rcore_tz_prefs_load :: "plat \<Rightarrow> rdb_database list \<Rightarrow> fs \<Rightarrow> (nat \<Rightarrow> bool) \<Rightarrow> rdb_iter \<Rightarrow> tzinfo \<Rightarrow> (rdb_database list \<times> tzinfo) option" where
  "rcore_tz_prefs_load p dbs s calloc it0 i = do {
     (_, bs, dbs) \<leftarrow> prefs_get p dbs s calloc it0 PREFS_KEY_TZ (word_of_nat SIZEOF_TZINFO);
     let img = mem_set (tz i @ tz_nm i) 0 bs;
     Some (dbs, \<lparr>tz = take SIZEOF_DST img, tz_nm = drop SIZEOF_DST img\<rparr>) }"

text \<open>Saving the time zone to the preferences and loading it into any other \<open>_tzinfo\<close> restores it, record and name, when the heap has room, and
  leaves the preferences unlocked.\<close>

theorem tz_saved_restored:
  assumes "rdb_view (snowy_plat nor_ideal) prefs_db s n M" "8 + SIZEOF_TZINFO \<le> n"
    and "length (tz i) = SIZEOF_DST" "length (tz_nm i) = 64" "length (tz j) = SIZEOF_DST" "length (tz_nm j) = 64"
  shows "\<exists>s'. rcore_tz_prefs_save (snowy_plat nor_ideal) databases s heap_room it0 i = Some (databases, s') \<and>
    rcore_tz_prefs_load (snowy_plat nor_ideal) databases s' heap_room it1 j = Some (databases, i)"
proof -
  let ?d = "tz i @ tz_nm i"
  have l: "length ?d = 95" "?d \<noteq> []" "8 + length ?d \<le> n" "length ?d < 0x10000" using assms(2-4) by (auto simp: SIZEOF_TZINFO_def SIZEOF_DST_def)
  obtain s' where put: "prefs_put (snowy_plat nor_ideal) databases s heap_room it0 PREFS_KEY_TZ ?d = Some (0, databases, s')"
    and view: "rdb_view (snowy_plat nor_ideal) prefs_db s' (n - (8 + length ?d)) (M(le32 PREFS_KEY_TZ \<mapsto> ?d))"
    using prefs_put_spec [OF assms(1) l(3,4)] by blast
  have "prefs_get (snowy_plat nor_ideal) databases s' heap_room it1 PREFS_KEY_TZ (word_of_nat SIZEOF_TZINFO) = Some (95, ?d, databases)"
    using l(1,2) by (simp add: prefs_get_spec [OF view] read_result_def SIZEOF_TZINFO_def SIZEOF_DST_def)
  moreover have "mem_set (tz j @ tz_nm j) 0 ?d = ?d" using assms(3-6) by (simp add: mem_set_def)
  ultimately have "rcore_tz_prefs_load (snowy_plat nor_ideal) databases s' heap_room it1 j = Some (databases, i)"
    using assms(3) by (simp add: rcore_tz_prefs_load_def Let_def)
  then show ?thesis using put by (auto simp: rcore_tz_prefs_save_def)
qed

definition ex_tzinfo :: tzinfo where
  "ex_tzinfo = \<lparr> tz = tz_new_york, tz_nm = ascii ''America/New_York'' @ replicate 48 0 \<rparr>"

theorem tz_saved_restored_witness:
  "\<exists>s'. rcore_tz_prefs_save (snowy_plat nor_ideal) databases (ex_dbfs ex_log) heap_room ex_it ex_tzinfo = Some (databases, s') \<and>
    rcore_tz_prefs_load (snowy_plat nor_ideal) databases s' heap_room ex_it \<lparr> tz = replicate 31 0, tz_nm = replicate 64 0 \<rparr> =
      Some (databases, ex_tzinfo)"
proof -
  have "prefs_db = ex_db" by (simp add: prefs_db_def ex_db_def)
  then have v: "rdb_view (snowy_plat nor_ideal) prefs_db (ex_dbfs ex_log) 115 [[1] \<mapsto> [7, 8], [2] \<mapsto> [9]]" using ex_log_view by simp
  have "length (tz ex_tzinfo) = SIZEOF_DST" "length (tz_nm ex_tzinfo) = 64"
    by (simp_all add: ex_tzinfo_def tz_new_york_def SIZEOF_DST_def ascii_def le32_def le16_def)
  from tz_saved_restored [OF v _ this, of "\<lparr> tz = replicate 31 0, tz_nm = replicate 64 0 \<rparr>" ex_it ex_it]
  show ?thesis by (simp add: SIZEOF_TZINFO_def SIZEOF_DST_def)
qed

subsection \<open>The clock\<close>

text \<open>The wall clock counts ticks of \<open>hz = configTICK_RATE_HZ\<close> a second from the instant of the boot. The tick counter of
  FreeRTOS and the RTC registers are inputs.\<close>

record clock =
  boot_ticks :: u32
  boot_time :: int

definition rcore_time_ms :: "u32 \<Rightarrow> clock \<Rightarrow> u32 \<Rightarrow> int \<times> u16" where
  "rcore_time_ms hz c ticks =
     (let ticks_since_boot = ticks - boot_ticks c
      in (boot_time c + uint (ticks_since_boot div hz), ucast ((ticks_since_boot mod hz) * 1000 div hz)))"

definition pdMS_TO_TICKS_hz :: "u32 \<Rightarrow> u16 \<Rightarrow> u32" where
  "pdMS_TO_TICKS_hz hz ms = ucast ms * hz div 1000"

definition rcore_time_to_ticks :: "u32 \<Rightarrow> clock \<Rightarrow> int \<Rightarrow> u16 \<Rightarrow> u32" where
  "rcore_time_to_ticks hz c t ms =
     (if t < boot_time c then 0 else word_of_int (t - boot_time c) * hz + pdMS_TO_TICKS_hz hz ms)"

definition rcore_set_time :: "u32 \<Rightarrow> tzrec \<Rightarrow> tm \<Rightarrow> clock \<Rightarrow> u32 \<Rightarrow> int \<Rightarrow> (clock \<times> tm) option" where
  "rcore_set_time hz r tm0 c ticks time = do {
     let now = fst (rcore_time_ms hz c ticks);
     (_, hw) \<leftarrow> localtime_r r tm0 time tm0;
     Some (c\<lparr>boot_time := boot_time c - (now - time)\<rparr>, hw) }"

definition PREFS_KEY_IS24H :: u32 where "PREFS_KEY_IS24H = 1"

definition rcore_set_is_24h_style :: "plat \<Rightarrow> rdb_database list \<Rightarrow> fs \<Rightarrow> (nat \<Rightarrow> bool) \<Rightarrow> rdb_iter \<Rightarrow> u32 \<Rightarrow> (u32 \<times> rdb_database list \<times> fs) option" where
  "rcore_set_is_24h_style p dbs s calloc it0 style_24h = do {
     let h24 = (if style_24h \<noteq> 0 then 1 else 0);
     (_, dbs, s) \<leftarrow> prefs_put p dbs s calloc it0 PREFS_KEY_IS24H (le32 h24);
     Some (h24, dbs, s) }"

text \<open>The current time and the shared \<open>_global_tm\<close> it is broken down into.\<close>

definition rebble_time_get_tm :: "u32 \<Rightarrow> tzrec \<Rightarrow> tm \<Rightarrow> clock \<Rightarrow> u32 \<Rightarrow> tm \<Rightarrow> tm option" where
  "rebble_time_get_tm hz r tm0 c ticks global_tm = do {
     (_, tm) \<leftarrow> localtime_r r tm0 (fst (rcore_time_ms hz c ticks)) global_tm;
     Some tm }"

definition pbl_time_t_deprecated :: "u32 \<Rightarrow> tzrec \<Rightarrow> tm \<Rightarrow> clock \<Rightarrow> u32 \<Rightarrow> tm \<Rightarrow> (int \<times> tm) option" where
  "pbl_time_t_deprecated hz r tm0 c ticks global_tm = do {
     (_, tm) \<leftarrow> localtime_r r tm0 (fst (rcore_time_ms hz c ticks)) global_tm;
     Some (fst (rcore_time_ms hz c ticks), tm) }"

definition rcore_get_time :: "u32 \<Rightarrow> tzrec \<Rightarrow> tm \<Rightarrow> clock \<Rightarrow> u32 \<Rightarrow> tm \<Rightarrow> (int \<times> tm) option" where
  "rcore_get_time = pbl_time_t_deprecated"

text \<open>\<open>i\<close> is the static \<open>_tzinfo\<close> before it is set up, \<open>h24\<close> the initial \<open>_time_is_24h\<close>.\<close>

definition rcore_time_init :: "u32 \<Rightarrow> plat \<Rightarrow> rdb_database list \<Rightarrow> fs \<Rightarrow> (nat \<Rightarrow> bool) \<Rightarrow> rdb_iter \<Rightarrow> tm \<Rightarrow> clock \<Rightarrow> tzinfo \<Rightarrow> u32 \<Rightarrow>
    (rdb_database list \<times> clock \<times> tzinfo \<times> u32) option" where
  "rcore_time_init hz p dbs s calloc it0 hw c i h24 = do {
     let c = c\<lparr>boot_time := mktime (tz i) hw\<rparr>;
     let c = c\<lparr>boot_ticks := rcore_time_to_ticks hz c (boot_time c) 0\<rparr>;
     (_, bs, dbs) \<leftarrow> prefs_get p dbs s calloc it0 PREFS_KEY_IS24H 4;
     let h24 = get32 (mem_set (le32 h24) 0 bs) 0;
     (dbs, i) \<leftarrow> rcore_tz_prefs_load p dbs s calloc it0 (tz_init i);
     Some (dbs, c, i, h24) }"

definition clock_to_timestamp :: "tzrec \<Rightarrow> tm \<Rightarrow> int \<Rightarrow> int \<Rightarrow> int \<Rightarrow> int" where
  "clock_to_timestamp r time_now day hour minute =
     (let wday = word_of_int (tm_wday time_now) :: u8;
          dd = word_of_int (day - 1) - wday;
          dd = (if uint dd < 0 then 7 - dd else dd);
          dd = (if (day = 0 \<and> hour < tm_hour time_now) \<or> (dd = 0 \<and> hour < tm_hour time_now) then dd + 7 else dd);
          secs = word_of_int (minute * 60 + hour * 360 + uint dd * 86400) :: u32
      in mktime r (time_now\<lparr>tm_sec := sint (word_of_int (tm_sec time_now) + secs)\<rparr>))"

text \<open>Setting the clock. After \<open>rcore_set_time\<close> the clock reads the given time, and from then on it advances one second every
  \<open>hz\<close> ticks until the 32-bit tick counter wraps.\<close>

theorem clock_set_then_runs:
  assumes "rcore_set_time hz r tm0 c ticks t = Some (c', hw)" "0 < hz"
    and "unat (ticks - boot_ticks c) + unat hz * k < 2 ^ 32"
  shows "fst (rcore_time_ms hz c' (ticks + hz * word_of_nat k)) = t + int k"
proof -
  let ?e = "ticks - boot_ticks c"
  from assms(1) have c': "c' = c\<lparr>boot_time := boot_time c - (boot_time c + uint (?e div hz) - t)\<rparr>"
    by (auto simp: rcore_set_time_def rcore_time_ms_def Let_def split: Option.bind_splits)
  have hz: "0 < unat hz" using assms(2) by (simp add: word_less_nat_alt)
  have "k \<le> unat hz * k" using hz by simp
  then have k: "k < 2 ^ 32" using assms(3) by linarith
  have "unat (hz * word_of_nat k) = unat hz * k"
    using assms(3) k by (simp add: unat_mult_lem [THEN iffD1] unat_of_nat unat_word_ariths)
  then have "unat (?e + hz * word_of_nat k) = unat ?e + unat hz * k"
    using assms(3) by (subst unat_add_small) simp_all
  then have "unat ((?e + hz * word_of_nat k) div hz) = unat (?e div hz) + k"
    using hz by (simp add: unat_div)
  then have "uint ((?e + hz * word_of_nat k) div hz) = uint (?e div hz) + int k"
    unfolding uint_nat by linarith
  moreover have e: "ticks + hz * word_of_nat k - boot_ticks c = ?e + hz * word_of_nat k" by simp
  moreover have "fst (rcore_time_ms hz c' (ticks + hz * word_of_nat k)) =
      t - uint (?e div hz) + uint ((?e + hz * word_of_nat k) div hz)"
    unfolding rcore_time_ms_def Let_def c' e [symmetric] by simp
  ultimately show ?thesis by linarith
qed

lemma clock_set_then_runs_witness:
  "\<exists>c hw. rcore_set_time 1000 tz_new_york tm_zero \<lparr>boot_ticks = 0, boot_time = 5\<rparr> 12345 1593561600 = Some (c, hw) \<and>
     fst (rcore_time_ms 1000 c (12345 + 1000 * word_of_nat 7)) = 1593561600 + int 7"
proof -
  have "localtime_r tz_new_york tm_zero 1593561600 tm_zero = Some (True, tm_zero\<lparr>tm_mday := 30, tm_mon := 5, tm_year := 120,
      tm_hour := 20, tm_wday := 2, tm_yday := 181, tm_isdst := 1\<rparr>)" by code_simp
  then obtain c hw where s: "rcore_set_time 1000 tz_new_york tm_zero \<lparr>boot_ticks = 0, boot_time = 5\<rparr> 12345 1593561600 = Some (c, hw)"
    by (simp add: rcore_set_time_def)
  show ?thesis using s clock_set_then_runs [OF s, of 7] by auto
qed

text \<open>The RTC is set to local time, but at boot its registers are converted before the zone is loaded, when \<open>_tzinfo\<close> is still zero:
  after a reboot the clock is off by the zone's offset.\<close>

lemma reboot_shifts_clock:
  assumes "rcore_time_init hz p dbs s calloc it0 hw c \<lparr>tz = replicate 31 0, tz_nm = nm\<rparr> h24 = Some (dbs', c', i', h24')"
  shows "boot_time c' = tm_to_secs hw"
proof -
  have "\<not> hasdst (replicate 31 0)" "tz_offset (replicate 31 0) = 0" by code_simp+
  then show ?thesis using assms by (auto simp: rcore_time_init_def mktime_def tz_local_to_utc_def Let_def split: Option.bind_splits)
qed

lemma tm_to_secs_add: "tm_to_secs (tm\<lparr>tm_sec := tm_sec tm + k\<rparr>) = tm_to_secs tm + k"
  by (simp add: tm_to_secs_def Let_def split: prod.splits)

text \<open>\<open>clock_to_timestamp\<close> keeps the days ahead in an unsigned byte, so a day that has passed this week is taken to be up to 255 days
  ahead, and an hour counts 360 seconds.\<close>

lemma clock_to_timestamp_far:
  "clock_to_timestamp tz_tokyo (tm_zero\<lparr>tm_wday := 3\<rparr>) 1 8 0 =
   mktime tz_tokyo (tm_zero\<lparr>tm_wday := 3\<rparr>) + 253 * 86400 + 8 * 360"
  using tm_to_secs_add [of "tm_zero\<lparr>tm_wday := 3\<rparr>" "253 * 86400 + 8 * 360"]
  by (simp add: clock_to_timestamp_def Let_def mktime_def tz_local_to_utc_def tm_zero_def)

end
