(* ===== verification/NodeList.thy ===== *)
theory NodeList
  imports Prelude
begin

section \<open>Doubly linked lists: rcore/node_list.h\<close>

text \<open>
  The intrusive circular list that windows, event subscriptions, animations, packets and database
  results hang on. A node is an address; the heap maps an address to its two pointer fields, and each
  operation is the sequence of field writes of the C. Address 0 is \<open>NULL\<close>, and following it is a
  fault (\<open>None\<close>). \<open>dll h head xs\<close> says that the list at \<open>head\<close> holds the nodes \<open>xs\<close> in
  this order, linked in both directions; the lemmas show that every operation does to \<open>xs\<close>
  what its name says. The locale \<open>linked_seq\<close> is the interface the clients of such a list
  rely on, here for the loop of rcore/rdb.c that frees a list of results.
\<close>

type_synonym ptr = nat

abbreviation (input) NULL :: ptr where "NULL \<equiv> 0"

record list_node =
  nxt :: ptr
  prv :: ptr

type_synonym nheap = "ptr \<Rightarrow> list_node"

definition set_nxt :: "nheap \<Rightarrow> ptr \<Rightarrow> ptr \<Rightarrow> nheap" where
  "set_nxt h n p = h(n := (h n)\<lparr>nxt := p\<rparr>)"

definition set_prv :: "nheap \<Rightarrow> ptr \<Rightarrow> ptr \<Rightarrow> nheap" where
  "set_prv h n p = h(n := (h n)\<lparr>prv := p\<rparr>)"

subsection \<open>The operations\<close>

definition list_init_head :: "nheap \<Rightarrow> ptr \<Rightarrow> nheap" where
  "list_init_head h head = set_nxt (set_prv h head head) head head"

definition list_init_node :: "nheap \<Rightarrow> ptr \<Rightarrow> nheap" where
  "list_init_node h node = set_nxt (set_prv h node NULL) node NULL"

definition list_get_next :: "nheap \<Rightarrow> ptr \<Rightarrow> ptr \<Rightarrow> ptr" where
  "list_get_next h head node = (if nxt (h node) = head then NULL else nxt (h node))"

definition list_get_prev :: "nheap \<Rightarrow> ptr \<Rightarrow> ptr \<Rightarrow> ptr" where
  "list_get_prev h head node = (if prv (h node) = head then NULL else prv (h node))"

definition list_get_head :: "nheap \<Rightarrow> ptr \<Rightarrow> ptr" where
  "list_get_head h head = list_get_next h head head"

definition list_get_tail :: "nheap \<Rightarrow> ptr \<Rightarrow> ptr" where
  "list_get_tail h head = list_get_prev h head head"

definition list_insert_between :: "nheap \<Rightarrow> ptr \<Rightarrow> ptr \<Rightarrow> ptr \<Rightarrow> nheap option" where
  "list_insert_between h n n1 n2 = do {
     c_assert (n \<noteq> NULL \<and> n1 \<noteq> NULL \<and> n2 \<noteq> NULL);
     let h = set_prv h n n1;
     let h = set_prv h n2 n;
     let h = set_nxt h n n2;
     Some (set_nxt h n1 n) }"

definition list_insert_before :: "nheap \<Rightarrow> ptr \<Rightarrow> ptr \<Rightarrow> nheap option" where
  "list_insert_before h inq node = list_insert_between h node (prv (h inq)) inq"

definition list_insert_after :: "nheap \<Rightarrow> ptr \<Rightarrow> ptr \<Rightarrow> nheap option" where
  "list_insert_after h inq node = list_insert_between h node inq (nxt (h inq))"

definition list_insert_head :: "nheap \<Rightarrow> ptr \<Rightarrow> ptr \<Rightarrow> nheap option" where
  "list_insert_head h head node = list_insert_after h head node"

definition list_insert_tail :: "nheap \<Rightarrow> ptr \<Rightarrow> ptr \<Rightarrow> nheap option" where
  "list_insert_tail h head node = list_insert_before h head node"

definition list_remove :: "nheap \<Rightarrow> ptr \<Rightarrow> nheap option" where
  "list_remove h node = do {
     c_assert (node \<noteq> NULL \<and> nxt (h node) \<noteq> NULL \<and> prv (h node) \<noteq> NULL);
     let h = set_prv h (nxt (h node)) (prv (h node));
     let h = set_nxt h (prv (h node)) (nxt (h node));
     Some (set_nxt (set_prv h node NULL) node NULL) }"

text \<open>The nodes a \<open>list_foreach\<close> visits when its body leaves the list alone.\<close>

partial_function (option) list_foreach_from :: "nheap \<Rightarrow> ptr \<Rightarrow> ptr \<Rightarrow> ptr list option" where
  "list_foreach_from h head pos =
    (if pos = head then Some []
     else do { c_assert (pos \<noteq> NULL);
               rest \<leftarrow> list_foreach_from h head (nxt (h pos));
               Some (pos # rest) })"

definition list_foreach :: "nheap \<Rightarrow> ptr \<Rightarrow> ptr list option" where
  "list_foreach h head = list_foreach_from h head (nxt (h head))"

subsection \<open>Linked segments\<close>

fun seg :: "nheap \<Rightarrow> ptr \<Rightarrow> ptr list \<Rightarrow> ptr \<Rightarrow> bool" where
  "seg h a [] b = (nxt (h a) = b \<and> prv (h b) = a)" |
  "seg h a (x # xs) b = (nxt (h a) = x \<and> prv (h x) = a \<and> seg h x xs b)"

definition dll :: "nheap \<Rightarrow> ptr \<Rightarrow> ptr list \<Rightarrow> bool" where
  "dll h head xs \<longleftrightarrow> seg h head xs head \<and> distinct (head # xs) \<and> NULL \<notin> set (head # xs)"

lemma seg_append: "seg h a (xs @ x # ys) b = (seg h a xs x \<and> seg h x ys b)"
  by (induction xs arbitrary: a) auto

lemma seg_last: "seg h a xs b \<Longrightarrow> prv (h b) = last (a # xs)"
  by (induction xs arbitrary: a) auto

lemma seg_hd: "seg h a xs b \<Longrightarrow> nxt (h a) = hd (xs @ [b])"
  by (cases xs) auto

lemma seg_cong:
  "(\<And>x. x \<in> set (a # xs) \<Longrightarrow> nxt (h' x) = nxt (h x)) \<Longrightarrow> (\<And>x. x \<in> set (b # xs) \<Longrightarrow> prv (h' x) = prv (h x)) \<Longrightarrow>
   seg h' a xs b = seg h a xs b"
  by (induction xs arbitrary: a) auto

lemma seg_insert:
  assumes "seg h a (xs @ ys) b" "distinct (xs @ ys)" "a \<notin> set (xs @ ys)" "b \<notin> set (xs @ ys)" "n \<notin> set (a # b # xs @ ys)"
    and n1: "n1 = last (a # xs)" and n2: "n2 = hd (ys @ [b])"
    and h': "\<And>x. nxt (h' x) = (if x = n1 then n else if x = n then n2 else nxt (h x))"
      "\<And>x. prv (h' x) = (if x = n2 then n else if x = n then n1 else prv (h x))"
  shows "seg h' a (xs @ n # ys) b"
  using assms(1-5) n1
proof (induction xs arbitrary: a)
  case Nil
  show ?case
  proof (cases ys)
    case Nil
    then show ?thesis using Nil.prems n2 h' by auto
  next
    case (Cons y zs)
    have "seg h' y zs b = seg h y zs b"
      by (rule seg_cong) (use Nil.prems n2 h' Cons in auto)
    then show ?thesis using Nil.prems n2 h' Cons by auto
  qed
next
  case (Cons x xs)
  have n1': "n1 = last (x # xs)" using Cons.prems(6) by simp
  have "n1 \<in> set (x # xs)" unfolding n1' by (rule last_in_set) simp
  moreover have "n2 \<in> set ys \<or> n2 = b" unfolding n2 by (cases ys) auto
  ultimately have "a \<noteq> n1" "x \<noteq> n2" using Cons.prems by auto
  then show ?case using Cons.IH [of x] Cons.prems n1' h' by auto
qed

lemma seg_remove:
  assumes "seg h a (xs @ n # ys) b" "distinct (xs @ n # ys)" "a \<notin> set (xs @ n # ys)" "b \<notin> set (xs @ n # ys)"
    and n1: "n1 = last (a # xs)" and n2: "n2 = hd (ys @ [b])"
    and h': "\<And>x. x \<noteq> n \<Longrightarrow> nxt (h' x) = (if x = n1 then n2 else nxt (h x))"
      "\<And>x. x \<noteq> n \<Longrightarrow> prv (h' x) = (if x = n2 then n1 else prv (h x))"
  shows "seg h' a (xs @ ys) b"
  using assms(1-4) n1
proof (induction xs arbitrary: a)
  case Nil
  show ?case
  proof (cases ys)
    case Nil
    then show ?thesis using Nil.prems n2 h' by auto
  next
    case (Cons y zs)
    have "n \<notin> set (b # y # zs)" "n1 \<notin> set (y # zs)" "n2 \<notin> set (b # zs)" using Nil.prems n2 Cons by auto
    then have "seg h' y zs b = seg h y zs b"
      by (intro seg_cong) (metis h'(1) list.set_intros(2), metis h'(2) insert_iff list.set(2))
    then show ?thesis using Nil.prems n2 h' Cons by auto
  qed
next
  case (Cons x xs)
  have n1': "n1 = last (x # xs)" using Cons.prems(5) by simp
  have "n1 \<in> set (x # xs)" unfolding n1' by (rule last_in_set) simp
  moreover have "n2 \<in> set ys \<or> n2 = b" unfolding n2 by (cases ys) auto
  ultimately have "a \<noteq> n1" "x \<noteq> n2" using Cons.prems by auto
  then show ?case using Cons.IH [of x] Cons.prems n1' h' by auto
qed

subsection \<open>What the operations do to the sequence\<close>

lemma dll_init: "head \<noteq> NULL \<Longrightarrow> dll (list_init_head h head) head []"
  by (simp add: dll_def list_init_head_def set_nxt_def set_prv_def)

lemma dll_insert_between:
  assumes d: "dll h head (xs @ ys)" and n: "n \<notin> set (head # xs @ ys)" "n \<noteq> NULL"
    and n12: "n1 = last (head # xs)" "n2 = hd (ys @ [head])"
  shows "\<exists>h'. list_insert_between h n n1 n2 = Some h' \<and> dll h' head (xs @ n # ys) \<and> (\<forall>x. x \<notin> set (n # head # xs @ ys) \<longrightarrow> h' x = h x)"
proof -
  have in1: "n1 \<in> set (head # xs)" unfolding n12 by (rule last_in_set) simp
  have in2: "n2 \<in> set (head # ys)" unfolding n12 by (cases ys) auto
  have nz: "n1 \<noteq> NULL" "n2 \<noteq> NULL" using in1 in2 d by (auto simp: dll_def)
  have ne: "n1 \<noteq> n" "n2 \<noteq> n" using in1 in2 n by auto
  obtain h' where h': "list_insert_between h n n1 n2 = Some h'" by (simp add: list_insert_between_def n nz)
  have f: "nxt (h' x) = (if x = n1 then n else if x = n then n2 else nxt (h x))"
    "prv (h' x) = (if x = n2 then n else if x = n then n1 else prv (h x))" for x
    using h' ne by (auto simp: list_insert_between_def set_nxt_def set_prv_def n nz Let_def)
  have "seg h' head (xs @ n # ys) head"
    by (rule seg_insert [OF _ _ _ _ _ n12 f]) (use d n in \<open>auto simp: dll_def\<close>)
  moreover have "h' x = h x" if "x \<notin> set (n # head # xs @ ys)" for x
  proof -
    have "x \<noteq> n" "x \<noteq> n1" "x \<noteq> n2" using that in1 in2 by auto
    then show ?thesis using h' by (auto simp: list_insert_between_def set_nxt_def set_prv_def n nz Let_def)
  qed
  ultimately show ?thesis using h' d n by (auto simp: dll_def)
qed

lemma dll_ends: "dll h head (xs @ ys) \<Longrightarrow> prv (h (hd (ys @ [head]))) = last (head # xs) \<and> nxt (h (last (head # xs))) = hd (ys @ [head])"
  unfolding dll_def
  by (cases xs rule: rev_cases; cases ys) (auto simp: seg_append dest: seg_last seg_hd)

lemma dll_insert_before:
  assumes "dll h head (xs @ ys)" "n \<notin> set (head # xs @ ys)" "n \<noteq> NULL" "inq = hd (ys @ [head])"
  shows "\<exists>h'. list_insert_before h inq n = Some h' \<and> dll h' head (xs @ n # ys) \<and> (\<forall>x. x \<notin> set (n # head # xs @ ys) \<longrightarrow> h' x = h x)"
  using dll_insert_between [OF assms(1-3) refl refl] dll_ends [OF assms(1)] assms(4) by (simp add: list_insert_before_def)

lemma dll_insert_after:
  assumes "dll h head (xs @ ys)" "n \<notin> set (head # xs @ ys)" "n \<noteq> NULL" "inq = last (head # xs)"
  shows "\<exists>h'. list_insert_after h inq n = Some h' \<and> dll h' head (xs @ n # ys) \<and> (\<forall>x. x \<notin> set (n # head # xs @ ys) \<longrightarrow> h' x = h x)"
  using dll_insert_between [OF assms(1-3) refl refl] dll_ends [OF assms(1)] assms(4) by (simp add: list_insert_after_def)

lemma dll_insert_tail:
  assumes "dll h head xs" "n \<notin> set (head # xs)" "n \<noteq> NULL"
  shows "\<exists>h'. list_insert_tail h head n = Some h' \<and> dll h' head (xs @ [n]) \<and> (\<forall>x. x \<notin> set (n # head # xs) \<longrightarrow> h' x = h x)"
  using dll_insert_before [of h head xs "[]" n head] assms by (simp add: list_insert_tail_def)

lemma dll_insert_head:
  assumes "dll h head xs" "n \<notin> set (head # xs)" "n \<noteq> NULL"
  shows "\<exists>h'. list_insert_head h head n = Some h' \<and> dll h' head (n # xs) \<and> (\<forall>x. x \<notin> set (n # head # xs) \<longrightarrow> h' x = h x)"
  using dll_insert_after [of h head "[]" xs n head] assms by (simp add: list_insert_head_def)

lemma dll_remove:
  assumes d: "dll h head (xs @ n # ys)"
  shows "\<exists>h'. list_remove h n = Some h' \<and> dll h' head (xs @ ys) \<and> nxt (h' n) = NULL \<and> prv (h' n) = NULL \<and>
    (\<forall>x. x \<notin> set (n # head # xs @ ys) \<longrightarrow> h' x = h x)"
proof -
  define n1 n2 where "n1 = last (head # xs)" and "n2 = hd (ys @ [head])"
  have in1: "n1 \<in> set (head # xs)" unfolding n1_def by (rule last_in_set) simp
  have in2: "n2 \<in> set (head # ys)" unfolding n2_def by (cases ys) auto
  have l: "prv (h n) = n1" "nxt (h n) = n2"
    using dll_ends [OF d] dll_ends [of h head "xs @ [n]" ys] d by (simp_all add: n1_def n2_def)
  have nz: "n1 \<noteq> NULL" "n2 \<noteq> NULL" "n \<noteq> NULL" "n1 \<noteq> n" "n2 \<noteq> n" using in1 in2 d by (auto simp: dll_def)
  obtain h' where h': "list_remove h n = Some h'" by (simp add: list_remove_def l nz Let_def)
  have f: "x \<noteq> n \<Longrightarrow> nxt (h' x) = (if x = n1 then n2 else nxt (h x))"
    "x \<noteq> n \<Longrightarrow> prv (h' x) = (if x = n2 then n1 else prv (h x))" for x
    using h' nz l by (auto simp: list_remove_def set_nxt_def set_prv_def Let_def)
  have z: "nxt (h' n) = NULL" "prv (h' n) = NULL"
    using h' nz l by (auto simp: list_remove_def set_nxt_def set_prv_def Let_def)
  have "seg h' head (xs @ ys) head"
    by (rule seg_remove [OF _ _ _ _ n1_def n2_def f]) (use d in \<open>auto simp: dll_def\<close>)
  moreover have "h' x = h x" if "x \<notin> set (n # head # xs @ ys)" for x
  proof -
    have "x \<noteq> n" "x \<noteq> n1" "x \<noteq> n2" using that in1 in2 by auto
    then show ?thesis using h' l nz by (auto simp: list_remove_def set_nxt_def set_prv_def Let_def)
  qed
  ultimately show ?thesis using h' d z by (auto simp: dll_def)
qed

lemma dll_get_head: "dll h head xs \<Longrightarrow> list_get_head h head = (case xs of [] \<Rightarrow> NULL | x # _ \<Rightarrow> x)"
  by (cases xs) (auto simp: dll_def list_get_head_def list_get_next_def)

lemma dll_get_tail: "dll h head xs \<Longrightarrow> list_get_tail h head = (if xs = [] then NULL else last xs)"
  using dll_ends [of h head xs "[]"] by (cases xs rule: rev_cases) (auto simp: dll_def list_get_tail_def list_get_prev_def)

lemma dll_get_next: "dll h head (xs @ x # ys) \<Longrightarrow> list_get_next h head x = (case ys of [] \<Rightarrow> NULL | y # _ \<Rightarrow> y)"
  by (cases ys) (auto simp: dll_def seg_append list_get_next_def)

lemma dll_get_prev: "dll h head (xs @ x # ys) \<Longrightarrow> list_get_prev h head x = (if xs = [] then NULL else last xs)"
  using dll_ends [of h head xs "x # ys"] by (cases xs rule: rev_cases) (auto simp: dll_def list_get_prev_def)

lemma seg_foreach: "seg h a xs b \<Longrightarrow> NULL \<notin> set xs \<Longrightarrow> b \<notin> set xs \<Longrightarrow> list_foreach_from h b (nxt (h a)) = Some xs"
proof (induction xs arbitrary: a)
  case Nil
  then show ?case by (subst list_foreach_from.simps) simp
next
  case (Cons x xs)
  then show ?case by (subst list_foreach_from.simps) auto
qed

lemma dll_foreach: "dll h head xs \<Longrightarrow> list_foreach h head = Some xs"
  unfolding list_foreach_def dll_def by (rule seg_foreach) auto


subsection \<open>The interface of a linked sequence\<close>

text \<open>What a client of the list sees: a state \<open>'h\<close> that stands for a sequence of nodes.\<close>

locale linked_seq =
  fixes rep :: "'h \<Rightarrow> ptr list \<Rightarrow> bool" and get_head :: "'h \<Rightarrow> ptr" and unlink :: "'h \<Rightarrow> ptr \<Rightarrow> 'h option"
    and push_tail :: "'h \<Rightarrow> ptr \<Rightarrow> 'h option" and visit :: "'h \<Rightarrow> ptr list option" and ok :: "ptr \<Rightarrow> bool"
  assumes get_head_law: "rep h xs \<Longrightarrow> get_head h = (case xs of [] \<Rightarrow> NULL | x # _ \<Rightarrow> x)"
    and unlink_law: "rep h (xs @ n # ys) \<Longrightarrow> \<exists>h'. unlink h n = Some h' \<and> rep h' (xs @ ys)"
    and push_tail_law: "rep h xs \<Longrightarrow> n \<notin> set xs \<Longrightarrow> ok n \<Longrightarrow> \<exists>h'. push_tail h n = Some h' \<and> rep h' (xs @ [n])"
    and visit_law: "rep h xs \<Longrightarrow> visit h = Some xs"
    and nodes_law: "rep h xs \<Longrightarrow> distinct xs \<and> NULL \<notin> set xs"
begin

lemma rep_unique: "rep h xs \<Longrightarrow> rep h ys \<Longrightarrow> xs = ys"
  using visit_law [of h xs] visit_law [of h ys] by simp

lemma push_all:
  assumes "rep h xs" "distinct (xs @ ns)" "\<forall>n \<in> set ns. ok n"
  shows "\<exists>h'. foldl (\<lambda>h n. Option.bind h (\<lambda>h. push_tail h n)) (Some h) ns = Some h' \<and> visit h' = Some (xs @ ns)"
  using assms
proof (induction ns arbitrary: h xs)
  case Nil
  then show ?case by (simp add: visit_law)
next
  case (Cons n ns)
  obtain h1 where h1: "push_tail h n = Some h1" "rep h1 (xs @ [n])" using push_tail_law [of h xs n] Cons.prems by auto
  show ?case using Cons.IH [OF h1(2)] Cons.prems h1(1) by simp
qed

end

text \<open>The loop of \<open>rdb_select_free_all\<close>: take the head, unlink it, free it, until the list is empty.
  The result is the nodes freed, in order.\<close>

partial_function (option) list_free_all :: "nheap \<Rightarrow> ptr \<Rightarrow> (ptr list \<times> nheap) option" where
  "list_free_all h head =
    (let n = list_get_head h head in
     if n = NULL then Some ([], h)
     else do { h \<leftarrow> list_remove h n;
               (freed, h) \<leftarrow> list_free_all h head;
               Some (n # freed, h) })"

interpretation heap_list: linked_seq "\<lambda>h xs. dll h head xs" "\<lambda>h. list_get_head h head" list_remove
  "\<lambda>h n. list_insert_tail h head n" "\<lambda>h. list_foreach h head" "\<lambda>n. n \<noteq> NULL \<and> n \<noteq> head" for head
proof unfold_locales
  show "dll h head xs \<Longrightarrow> list_get_head h head = (case xs of [] \<Rightarrow> NULL | x # _ \<Rightarrow> x)" for h xs by (rule dll_get_head)
  show "dll h head (xs @ n # ys) \<Longrightarrow> \<exists>h'. list_remove h n = Some h' \<and> dll h' head (xs @ ys)" for h xs n ys
    using dll_remove by blast
  show "dll h head xs \<Longrightarrow> n \<notin> set xs \<Longrightarrow> n \<noteq> NULL \<and> n \<noteq> head \<Longrightarrow> \<exists>h'. list_insert_tail h head n = Some h' \<and> dll h' head (xs @ [n])" for h xs n
    using dll_insert_tail [of h head xs n] by auto
  show "dll h head xs \<Longrightarrow> list_foreach h head = Some xs" for h xs by (rule dll_foreach)
  show "dll h head xs \<Longrightarrow> distinct xs \<and> NULL \<notin> set xs" for h xs by (simp add: dll_def)
qed

subsection \<open>Properties\<close>

text \<open>Insertion in a list refines insertion in a sequence: putting a node before any node of a well-linked
  list, or before the head, puts it at that place of the sequence, keeps the list well linked both
  ways, and changes no other node.\<close>

theorem list_insert_before_refines:
  assumes "dll h head (xs @ ys)" "n \<notin> set (head # xs @ ys)" "n \<noteq> NULL" "inq = hd (ys @ [head])"
  shows "\<exists>h'. list_insert_before h inq n = Some h' \<and> dll h' head (xs @ n # ys) \<and> list_foreach h' head = Some (xs @ n # ys) \<and>
    (\<forall>x. x \<notin> set (n # head # xs @ ys) \<longrightarrow> h' x = h x)"
  using dll_insert_before [OF assms] dll_foreach by blast

definition ex_heap :: nheap where
  "ex_heap p = (if p = 10 then \<lparr> nxt = 20, prv = 20 \<rparr> else if p = 20 then \<lparr> nxt = 10, prv = 10 \<rparr> else \<lparr> nxt = 0, prv = 0 \<rparr>)"

lemma ex_heap_dll: "dll ex_heap 10 [20]"
  by (simp add: dll_def ex_heap_def)

theorem list_insert_before_refines_witness:
  "\<exists>h'. list_insert_before ex_heap 20 30 = Some h' \<and> list_foreach h' 10 = Some [30, 20]"
  using list_insert_before_refines [of ex_heap 10 "[]" "[20]" 30 20] ex_heap_dll by auto

text \<open>C23: \<open>list_remove\<close> takes exactly its node out of the sequence, keeps the rest in order and well linked, and
  leaves the node's pointers \<open>NULL\<close>, so that removing it once more is a fault.\<close>

theorem list_remove_refines:
  assumes "dll h head (xs @ n # ys)"
  shows "\<exists>h'. list_remove h n = Some h' \<and> dll h' head (xs @ ys) \<and> list_foreach h' head = Some (xs @ ys) \<and>
    list_remove h' n = None"
  using dll_remove [OF assms] dll_foreach by (fastforce simp: list_remove_def)

theorem list_remove_refines_witness:
  "\<exists>h'. list_remove ex_heap 20 = Some h' \<and> list_foreach h' 10 = Some []"
  using list_remove_refines [of ex_heap 10 "[]" 20 "[]"] ex_heap_dll by auto

text \<open>Freeing a list ends: from any well-linked list the loop of \<open>rdb_select_free_all\<close> returns, having freed every
  node once, in order, and leaves the list empty.\<close>

theorem list_free_all_terminates:
  assumes "dll h head xs"
  shows "\<exists>h'. list_free_all h head = Some (xs, h') \<and> dll h' head []"
  using assms
proof (induction xs arbitrary: h)
  case Nil
  then show ?case by (subst list_free_all.simps) (simp add: heap_list.get_head_law)
next
  case (Cons x xs)
  obtain h1 where h1: "list_remove h x = Some h1" "dll h1 head xs"
    using heap_list.unlink_law [of h head "[]" x xs] Cons.prems by auto
  moreover have "x \<noteq> NULL" using heap_list.nodes_law [OF Cons.prems] by auto
  ultimately show ?case using Cons.IH [OF h1(2)] heap_list.get_head_law [OF Cons.prems]
    by (subst list_free_all.simps) auto
qed

theorem list_free_all_terminates_witness:
  "\<exists>h'. list_free_all ex_heap 10 = Some ([20], h') \<and> dll h' 10 []"
  by (rule list_free_all_terminates [OF ex_heap_dll])

end
