(* ===== verification/EventService.thy ===== *)
theory EventService
  imports NodeList
begin

section \<open>The event bus: rwatch/event/event_service.c, connection_service.c, battery_state_service.c\<close>

text \<open>
  Subscribers hang on one doubly linked list (theory \<open>NodeList\<close>); a subscriber is identified with its list node.
  \<open>bus\<close> is the list, the subscribers by address, the addresses that are allocated, the handlers of the connection service, and
  the queue of the overlay thread with its capacity of one message. A trigger visits the list; what it does is recorded as a
  list of effects. The subscribers' callbacks are a parameter \<open>run\<close> that may change the bus. \<open>bus_step\<close> cuts the triggers of an
  event on the app thread and on the overlay thread into visits of a subscriber, which may come in any order. \<open>None\<close> is a null dereference, a call
  through a null pointer or the freeing of what is not allocated.

  The lemmas show that the operations refine those of a list of subscriptions, most recent first, and what becomes of the data of
  an event: each message the overlay thread takes destroys it once for each subscriber.
\<close>

datatype thread_type = AppThreadMainApp | AppThreadWorker | AppThreadOverlay

record subscriber =
  sb_command :: nat
  sb_callback :: ptr
  sb_context :: ptr
  sb_thread :: ptr

record bus =
  bus_head :: ptr
  bus_nodes :: nheap
  bus_subs :: "ptr \<Rightarrow> subscriber"
  bus_handlers :: "ptr \<Rightarrow> ptr \<times> ptr"
  bus_live :: "ptr set"
  bus_overlay :: "(nat \<times> ptr \<times> ptr) list"

datatype effect = Callback ptr nat ptr ptr | Destroy ptr ptr | Redraw

definition EventServiceCommandConnectionService :: nat where "EventServiceCommandConnectionService = 1"

definition MK_THUMB_CB :: "ptr \<Rightarrow> ptr" where
  "MK_THUMB_CB f = (if even f then f + 1 else f)"

subsection \<open>Subscriptions\<close>

text \<open>\<open>conn\<close> is the address \<open>app_calloc\<close> returns; it is used unchecked.\<close>

definition event_service_subscribe_with_context :: "ptr \<Rightarrow> ptr \<Rightarrow> nat \<Rightarrow> ptr \<Rightarrow> ptr \<Rightarrow> bus \<Rightarrow> bus option" where
  "event_service_subscribe_with_context this_thread conn command callback context b = do {
     c_assert (conn \<noteq> NULL);
     let b = b\<lparr>bus_live := insert conn (bus_live b)\<rparr>;
     let b = b\<lparr>bus_subs := (bus_subs b)(conn := \<lparr> sb_command = command, sb_callback = MK_THUMB_CB callback,
               sb_context = context, sb_thread = this_thread \<rparr>)\<rparr>;
     h \<leftarrow> list_insert_head (list_init_node (bus_nodes b) conn) (bus_head b) conn;
     Some (b\<lparr>bus_nodes := h\<rparr>) }"

definition event_service_subscribe :: "ptr \<Rightarrow> ptr \<Rightarrow> nat \<Rightarrow> ptr \<Rightarrow> bus \<Rightarrow> bus option" where
  "event_service_subscribe this_thread conn command callback b =
     event_service_subscribe_with_context this_thread conn command callback NULL b"

text \<open>The first subscriber from \<open>pos\<close> on that the body of the loop stops at, or \<open>NULL\<close>.\<close>

partial_function (option) find_subscriber :: "bus \<Rightarrow> (subscriber \<Rightarrow> bool) \<Rightarrow> ptr \<Rightarrow> ptr option" where
  "find_subscriber b P pos =
    (if pos = bus_head b then Some NULL
     else do {
       c_assert (pos \<noteq> NULL);
       if P (bus_subs b pos) then Some pos else find_subscriber b P (nxt (bus_nodes b pos)) })"

definition first_subscriber :: "bus \<Rightarrow> (subscriber \<Rightarrow> bool) \<Rightarrow> ptr option" where
  "first_subscriber b P = find_subscriber b P (nxt (bus_nodes b (bus_head b)))"

definition sub_free :: "ptr \<Rightarrow> bus \<Rightarrow> bus option" where
  "sub_free p b = do { c_assert (p \<in> bus_live b); Some (b\<lparr>bus_live := bus_live b - {p}\<rparr>) }"

definition event_service_unsubscribe_thread :: "nat \<Rightarrow> ptr \<Rightarrow> bus \<Rightarrow> bus option" where
  "event_service_unsubscribe_thread command thread b = do {
     conn \<leftarrow> first_subscriber b (\<lambda>s. sb_thread s = thread);
     if conn = NULL then Some b
     else do {
       h \<leftarrow> list_remove (bus_nodes b) conn;
       sub_free conn (b\<lparr>bus_nodes := h\<rparr>) } }"

definition event_service_unsubscribe_thread_all :: "ptr \<Rightarrow> bus \<Rightarrow> bus option" where
  "event_service_unsubscribe_thread_all thread b = do {
     conn \<leftarrow> first_subscriber b (\<lambda>s. sb_thread s = thread);
     if conn = NULL then Some b
     else do {
       h \<leftarrow> list_remove (bus_nodes b) conn;
       sub_free conn (b\<lparr>bus_nodes := h\<rparr>) } }"

definition event_service_unsubscribe :: "ptr \<Rightarrow> nat \<Rightarrow> bus \<Rightarrow> bus option" where
  "event_service_unsubscribe this_thread command b = event_service_unsubscribe_thread command this_thread b"

definition event_service_get_context :: "ptr \<Rightarrow> nat \<Rightarrow> bus \<Rightarrow> ptr option" where
  "event_service_get_context this_thread command b = do {
     conn \<leftarrow> first_subscriber b (\<lambda>s. sb_thread s = this_thread \<and> sb_command s = command);
     Some (if conn = NULL then NULL else sb_context (bus_subs b conn)) }"

definition event_service_set_context :: "ptr \<Rightarrow> nat \<Rightarrow> ptr \<Rightarrow> bus \<Rightarrow> bus option" where
  "event_service_set_context this_thread command context b = do {
     conn \<leftarrow> first_subscriber b (\<lambda>s. sb_thread s = this_thread \<and> sb_command s = command);
     Some (if conn = NULL then b
           else b\<lparr>bus_subs := (bus_subs b)(conn := (bus_subs b conn)\<lparr>sb_context := context\<rparr>)\<rparr>) }"

subsection \<open>Events\<close>

definition overlay_window_post_event :: "nat \<Rightarrow> ptr \<Rightarrow> ptr \<Rightarrow> bus \<Rightarrow> bus" where
  "overlay_window_post_event command data destroy_callback b =
     (if length (bus_overlay b) < 1 then b\<lparr>bus_overlay := bus_overlay b @ [(command, data, destroy_callback)]\<rparr> else b)"

text \<open>\<open>runloop\<close> says that the app has entered its loop, \<open>room\<close> that its queue takes the message within the wait; the result is the
  message queued for the app, if any.\<close>

definition appmanager_post_event_message :: "bool \<Rightarrow> bool \<Rightarrow> nat \<Rightarrow> ptr \<Rightarrow> ptr \<Rightarrow> bus \<Rightarrow> bool \<times> (nat \<times> ptr \<times> ptr) list \<times> bus" where
  "appmanager_post_event_message runloop room protocol_id message destroy_callback b =
     (if \<not> runloop then (True, [], overlay_window_post_event protocol_id message destroy_callback b)
      else if room then (True, [(protocol_id, message, destroy_callback)], b) else (False, [], b))"

definition event_service_post :: "bool \<Rightarrow> bool \<Rightarrow> nat \<Rightarrow> ptr \<Rightarrow> ptr \<Rightarrow> bus \<Rightarrow>
    (bool \<times> (nat \<times> ptr \<times> ptr) list \<times> effect list \<times> bus) option" where
  "event_service_post runloop room command data destroy_callback b =
     (case appmanager_post_event_message runloop room command data destroy_callback b of
        (ok, app, b) \<Rightarrow>
          if \<not> ok then do {
            c_assert (destroy_callback \<noteq> NULL);
            Some (False, app, [Destroy destroy_callback data], b) }
          else Some (True, app, [], b))"

text \<open>The body of the loop of a trigger, at the subscriber \<open>pos\<close>.\<close>

definition trigger_visit :: "(ptr \<Rightarrow> nat \<Rightarrow> ptr \<Rightarrow> ptr \<Rightarrow> bus \<Rightarrow> bus option) \<Rightarrow> ptr \<Rightarrow> thread_type \<Rightarrow> nat \<Rightarrow> ptr \<Rightarrow> ptr \<Rightarrow>
    ptr \<Rightarrow> bus \<Rightarrow> (effect list \<times> bus) option" where
  "trigger_visit run this_thread ty command data destroy pos b = do {
     c_assert (pos \<noteq> NULL);
     let conn = bus_subs b pos;
     if sb_command conn = command then do {
       (es, b) \<leftarrow>
         (if sb_thread conn = this_thread \<and> sb_callback conn \<noteq> NULL
          then do { b \<leftarrow> run (sb_callback conn) command data (sb_context conn) b;
                    Some ([Callback (sb_callback conn) command data (sb_context conn)], b) }
          else Some ([], b));
       let (es', b) =
         (case ty of
            AppThreadMainApp \<Rightarrow> ([], overlay_window_post_event command data destroy b)
          | AppThreadOverlay \<Rightarrow> ((if destroy \<noteq> NULL then [Destroy destroy data] else []) @ [Redraw], b)
          | AppThreadWorker \<Rightarrow> ([], b));
       Some (es @ es', b) }
     else Some ([], b) }"

partial_function (option) trigger_loop :: "(ptr \<Rightarrow> nat \<Rightarrow> ptr \<Rightarrow> ptr \<Rightarrow> bus \<Rightarrow> bus option) \<Rightarrow> ptr \<Rightarrow> thread_type \<Rightarrow> nat \<Rightarrow> ptr \<Rightarrow> ptr \<Rightarrow>
    bus \<Rightarrow> ptr \<Rightarrow> (effect list \<times> bus) option" where
  "trigger_loop run this_thread ty command data destroy b pos =
    (if pos = bus_head b then Some ([], b)
     else do {
       (es, b) \<leftarrow> trigger_visit run this_thread ty command data destroy pos b;
       (rest, b) \<leftarrow> trigger_loop run this_thread ty command data destroy b (nxt (bus_nodes b pos));
       Some (es @ rest, b) })"

text \<open>What a trigger starts with: the destructor as a Thumb address, and the first subscriber.\<close>

definition trigger_start :: "nat \<Rightarrow> ptr \<Rightarrow> ptr \<Rightarrow> bus \<Rightarrow> nat \<times> ptr \<times> ptr \<times> ptr" where
  "trigger_start command data destroy_callback b =
     (command, data, if destroy_callback \<noteq> NULL then MK_THUMB_CB destroy_callback else destroy_callback, nxt (bus_nodes b (bus_head b)))"

definition event_service_event_trigger :: "(ptr \<Rightarrow> nat \<Rightarrow> ptr \<Rightarrow> ptr \<Rightarrow> bus \<Rightarrow> bus option) \<Rightarrow> ptr \<Rightarrow> thread_type \<Rightarrow> nat \<Rightarrow> ptr \<Rightarrow> ptr \<Rightarrow>
    bus \<Rightarrow> (effect list \<times> bus) option" where
  "event_service_event_trigger run this_thread ty command data destroy_callback b =
     (case trigger_start command data destroy_callback b of (command, data, destroy, pos) \<Rightarrow>
        trigger_loop run this_thread ty command data destroy b pos)"

text \<open>The overlay thread takes the message from its queue and triggers the event.\<close>

definition overlay_event_round :: "(ptr \<Rightarrow> nat \<Rightarrow> ptr \<Rightarrow> ptr \<Rightarrow> bus \<Rightarrow> bus option) \<Rightarrow> ptr \<Rightarrow> bus \<Rightarrow> (effect list \<times> bus) option" where
  "overlay_event_round run overlay_thread b =
     (case bus_overlay b of
        [] \<Rightarrow> Some ([], b)
      | (command, data, destroy) # q \<Rightarrow>
          event_service_event_trigger run overlay_thread AppThreadOverlay command data destroy (b\<lparr>bus_overlay := q\<rparr>))"

text \<open>The two threads at once. The app thread triggers an event, one subscriber after the other; between two of them the overlay thread
  may run, as far as it likes: it takes a message from its queue, and visits the subscribers for it one by one. \<open>br_app\<close> is the event of the
  app thread and where it is in the list, the head of the list when it is through; \<open>br_ovl\<close> the same of the overlay thread, when it has
  taken a message. A visit, a callback and a post or a destruction, is one step.\<close>

record bus_run =
  br_bus :: bus
  br_app :: "nat \<times> ptr \<times> ptr \<times> ptr"
  br_ovl :: "(nat \<times> ptr \<times> ptr \<times> ptr) option"
  br_app_effects :: "effect list"
  br_ovl_effects :: "effect list"

definition bus_begin :: "nat \<Rightarrow> ptr \<Rightarrow> ptr \<Rightarrow> bus \<Rightarrow> bus_run" where
  "bus_begin command data destroy_callback b = \<lparr> br_bus = b, br_app = trigger_start command data destroy_callback b, br_ovl = None,
     br_app_effects = [], br_ovl_effects = [] \<rparr>"

inductive bus_step :: "(ptr \<Rightarrow> nat \<Rightarrow> ptr \<Rightarrow> ptr \<Rightarrow> bus \<Rightarrow> bus option) \<Rightarrow> ptr \<Rightarrow> ptr \<Rightarrow> bus_run \<Rightarrow> bus_run \<Rightarrow> bool"
  for run app overlay where
  app_visit: "br_app r = (c, d, f, pos) \<Longrightarrow> pos \<noteq> bus_head (br_bus r) \<Longrightarrow>
     trigger_visit run app AppThreadMainApp c d f pos (br_bus r) = Some (es, b) \<Longrightarrow>
     bus_step run app overlay r (r\<lparr>br_bus := b, br_app := (c, d, f, nxt (bus_nodes b pos)), br_app_effects := br_app_effects r @ es\<rparr>)"
| ovl_take: "br_ovl r = None \<Longrightarrow> bus_overlay (br_bus r) = (c, d, f) # q \<Longrightarrow>
     bus_step run app overlay r (r\<lparr>br_bus := (br_bus r)\<lparr>bus_overlay := q\<rparr>, br_ovl := Some (trigger_start c d f (br_bus r))\<rparr>)"
| ovl_visit: "br_ovl r = Some (c, d, f, pos) \<Longrightarrow> pos \<noteq> bus_head (br_bus r) \<Longrightarrow>
     trigger_visit run overlay AppThreadOverlay c d f pos (br_bus r) = Some (es, b) \<Longrightarrow>
     bus_step run app overlay r (r\<lparr>br_bus := b, br_ovl := Some (c, d, f, nxt (bus_nodes b pos)), br_ovl_effects := br_ovl_effects r @ es\<rparr>)"
| ovl_done: "br_ovl r = Some (c, d, f, pos) \<Longrightarrow> pos = bus_head (br_bus r) \<Longrightarrow> bus_step run app overlay r (r\<lparr>br_ovl := None\<rparr>)"

subsection \<open>Clients\<close>

text \<open>The connection service keeps its two handlers in a block of their own, the context of its subscription; \<open>cb\<close> is the address of
  \<open>_connection_service_cb\<close>.\<close>

definition connection_service_cb :: "ptr \<Rightarrow> ptr \<Rightarrow> bus \<Rightarrow> (ptr \<times> ptr) list option" where
  "connection_service_cb data context b = do {
     c_assert (context \<noteq> NULL);
     Some (if fst (bus_handlers b context) \<noteq> NULL then [(fst (bus_handlers b context), data)] else []) }"

definition connection_service_subscribe :: "ptr \<Rightarrow> ptr \<Rightarrow> ptr \<Rightarrow> ptr \<Rightarrow> ptr \<times> ptr \<Rightarrow> bus \<Rightarrow> bus option" where
  "connection_service_subscribe this_thread cb handlers conn conn_handlers b = do {
     c_assert (handlers \<noteq> NULL);
     let b = b\<lparr>bus_live := insert handlers (bus_live b)\<rparr>;
     let b = b\<lparr>bus_handlers := (bus_handlers b)(handlers :=
        (if fst conn_handlers \<noteq> NULL then MK_THUMB_CB (fst conn_handlers) else NULL,
         if snd conn_handlers \<noteq> NULL then MK_THUMB_CB (snd conn_handlers) else NULL))\<rparr>;
     event_service_subscribe_with_context this_thread conn EventServiceCommandConnectionService cb handlers b }"

definition connection_service_unsubscribe :: "ptr \<Rightarrow> bus \<Rightarrow> bus option" where
  "connection_service_unsubscribe this_thread b = do {
     context \<leftarrow> event_service_get_context this_thread EventServiceCommandConnectionService b;
     b \<leftarrow> (if context \<noteq> NULL then sub_free context b else Some b);
     event_service_unsubscribe this_thread EventServiceCommandConnectionService b }"

definition connection_service_unsubscribe_thread :: "ptr \<Rightarrow> ptr \<Rightarrow> bus \<Rightarrow> bus option" where
  "connection_service_unsubscribe_thread this_thread thread b = do {
     context \<leftarrow> event_service_get_context this_thread EventServiceCommandConnectionService b;
     b \<leftarrow> (if context \<noteq> NULL then sub_free context b else Some b);
     event_service_unsubscribe_thread EventServiceCommandConnectionService thread b }"

definition connection_service_update :: "bool \<Rightarrow> bool \<Rightarrow> bool \<Rightarrow> bus \<Rightarrow> (bool \<times> (nat \<times> ptr \<times> ptr) list \<times> effect list \<times> bus) option" where
  "connection_service_update runloop room connected b =
     event_service_post runloop room EventServiceCommandConnectionService (if connected then 1 else 0) NULL b"

definition bluetooth_connection_service_subscribe :: "ptr \<Rightarrow> ptr \<Rightarrow> ptr \<Rightarrow> ptr \<Rightarrow> ptr \<Rightarrow> bus \<Rightarrow> bus option" where
  "bluetooth_connection_service_subscribe this_thread cb handlers conn handler b =
     connection_service_subscribe this_thread cb handlers conn (handler, NULL) b"

definition bluetooth_connection_service_unsubscribe :: "ptr \<Rightarrow> bus \<Rightarrow> bus option" where
  "bluetooth_connection_service_unsubscribe this_thread b = connection_service_unsubscribe this_thread b"

text \<open>The battery service keeps one handler, \<open>state_handler\<close>; mode and level are what the power driver reads.\<close>

record battery_charge_state =
  charge_percent :: nat
  is_charging :: bool
  is_plugged :: bool

definition POWER_CHG_MODE_MAINT_CHG_DONE :: nat where "POWER_CHG_MODE_MAINT_CHG_DONE = 6"
definition POWER_CHG_FAULT :: nat where "POWER_CHG_FAULT = 7"

definition battery_state_service_peek :: "nat \<Rightarrow> nat \<Rightarrow> battery_charge_state" where
  "battery_state_service_peek mode level =
     \<lparr> charge_percent = level, is_charging = (mode > 1 \<and> mode \<noteq> POWER_CHG_FAULT),
       is_plugged = (mode = POWER_CHG_MODE_MAINT_CHG_DONE) \<rparr>"

definition battery_state_service_subscribe :: "ptr \<Rightarrow> ptr \<Rightarrow> ptr" where
  "battery_state_service_subscribe handler state_handler = handler"

definition battery_state_service_unsubscribe :: "ptr \<Rightarrow> ptr" where
  "battery_state_service_unsubscribe state_handler = NULL"

definition battery_state_service_state_change :: "ptr \<Rightarrow> nat \<Rightarrow> nat \<Rightarrow> (ptr \<times> battery_charge_state) list" where
  "battery_state_service_state_change state_handler mode level =
     (if state_handler \<noteq> NULL then [(state_handler, battery_state_service_peek mode level)] else [])"

subsection \<open>The bus as a list of subscriptions\<close>

type_synonym subs = "(ptr \<times> subscriber) list"

definition bus_rep :: "bus \<Rightarrow> subs \<Rightarrow> bool" where
  "bus_rep b xs \<longleftrightarrow> dll (bus_nodes b) (bus_head b) (map fst xs) \<and> (\<forall>(p, s) \<in> set xs. bus_subs b p = s \<and> p \<in> bus_live b)"

primrec remove_first :: "('a \<Rightarrow> bool) \<Rightarrow> 'a list \<Rightarrow> 'a list" where
  "remove_first P [] = []"
| "remove_first P (x # xs) = (if P x then xs else x # remove_first P xs)"

primrec update_first :: "('a \<Rightarrow> bool) \<Rightarrow> ('a \<Rightarrow> 'a) \<Rightarrow> 'a list \<Rightarrow> 'a list" where
  "update_first P f [] = []"
| "update_first P f (x # xs) = (if P x then f x # xs else x # update_first P f xs)"

lemma bus_rep_nonnull: "bus_rep b xs \<Longrightarrow> (p, s) \<in> set xs \<Longrightarrow> p \<noteq> NULL \<and> p \<noteq> bus_head b"
  unfolding bus_rep_def dll_def by (metis (no_types, lifting) distinct.simps(2) list.set_intros(2) fst_conv image_eqI list.set_map)

lemma find_split: "(\<forall>x \<in> set xs. \<not> P x) \<or> (\<exists>us x vs. xs = us @ x # vs \<and> P x \<and> (\<forall>u \<in> set us. \<not> P u))"
  using split_list_first_prop [of xs P] by blast

lemma remove_first_split: "P x \<Longrightarrow> \<forall>u \<in> set us. \<not> P u \<Longrightarrow> remove_first P (us @ x # vs) = us @ vs"
  by (induction us) auto

lemma remove_first_none: "\<forall>x \<in> set xs. \<not> P x \<Longrightarrow> remove_first P xs = xs"
  by (induction xs) auto

lemma update_first_split: "P x \<Longrightarrow> \<forall>u \<in> set us. \<not> P u \<Longrightarrow> update_first P f (us @ x # vs) = us @ f x # vs"
  by (induction us) auto

lemma update_first_none: "\<forall>x \<in> set xs. \<not> P x \<Longrightarrow> update_first P f xs = xs"
  by (induction xs) auto

lemma find_subscriber_seg:
  assumes "seg (bus_nodes b) a (map fst xs) (bus_head b)" "\<forall>(p, s) \<in> set xs. bus_subs b p = s \<and> p \<noteq> NULL \<and> p \<noteq> bus_head b"
  shows "find_subscriber b P (nxt (bus_nodes b a)) = Some (case List.find (\<lambda>(p, s). P s) xs of None \<Rightarrow> NULL | Some (p, s) \<Rightarrow> p)"
  using assms
proof (induction xs arbitrary: a)
  case Nil
  then show ?case by (subst find_subscriber.simps) simp
next
  case (Cons x xs)
  then show ?case by (cases x; subst find_subscriber.simps) auto
qed

lemma first_subscriber_rep:
  assumes "bus_rep b xs"
  shows "first_subscriber b P = Some (case List.find (\<lambda>(p, s). P s) xs of None \<Rightarrow> NULL | Some (p, s) \<Rightarrow> p)"
  unfolding first_subscriber_def
  by (rule find_subscriber_seg) (use assms bus_rep_nonnull [OF assms] in \<open>auto simp: bus_rep_def dll_def\<close>)

lemma find_first_split:
  "(\<forall>x \<in> set xs. \<not> Q x) \<and> List.find Q xs = None \<or> (\<exists>us x vs. xs = us @ x # vs \<and> Q x \<and> (\<forall>u \<in> set us. \<not> Q u) \<and> List.find Q xs = Some x)"
proof -
  have "List.find Q (us @ x # vs) = Some x" if "Q x" "\<forall>u \<in> set us. \<not> Q u" for us x vs using that by (induction us) auto
  moreover have "List.find Q xs = None" if "\<forall>x \<in> set xs. \<not> Q x" using that by (induction xs) auto
  ultimately show ?thesis using find_split [of xs Q] by blast
qed

lemma subscribe_rep:
  assumes "bus_rep b xs" "conn \<noteq> NULL" "conn \<noteq> bus_head b" "conn \<notin> fst ` set xs"
  shows "\<exists>b'. event_service_subscribe_with_context th conn cmd cb ctx b = Some b' \<and>
    bus_rep b' ((conn, \<lparr> sb_command = cmd, sb_callback = MK_THUMB_CB cb, sb_context = ctx, sb_thread = th \<rparr>) # xs)"
proof -
  let ?h = "list_init_node (bus_nodes b) conn"
  have "dll ?h (bus_head b) (map fst xs)"
  proof -
    have "seg ?h (bus_head b) (map fst xs) (bus_head b) = seg (bus_nodes b) (bus_head b) (map fst xs) (bus_head b)"
      by (rule seg_cong) (use assms(3,4) in \<open>auto simp: list_init_node_def set_nxt_def set_prv_def\<close>)
    then show ?thesis using assms(1) by (simp add: bus_rep_def dll_def)
  qed
  then obtain h' where h': "list_insert_head ?h (bus_head b) conn = Some h'" "dll h' (bus_head b) (conn # map fst xs)"
    using dll_insert_head [of ?h "bus_head b" "map fst xs" conn] assms(2-4) by auto
  then show ?thesis using assms(1,2,4)
    by (force simp: event_service_subscribe_with_context_def bus_rep_def Let_def)
qed

lemma unsubscribe_rep:
  assumes "bus_rep b xs"
  shows "\<exists>b'. event_service_unsubscribe_thread cmd th b = Some b' \<and> bus_rep b' (remove_first (\<lambda>(p, s). sb_thread s = th) xs) \<and>
    bus_overlay b' = bus_overlay b \<and> bus_handlers b' = bus_handlers b"
  using find_first_split [of xs "\<lambda>(p, s). sb_thread s = th"]
proof (elim disjE exE conjE)
  assume "\<forall>x \<in> set xs. \<not> (case x of (p, s) \<Rightarrow> sb_thread s = th)" "List.find (\<lambda>(p, s). sb_thread s = th) xs = None"
  then show ?thesis using assms first_subscriber_rep [OF assms, of "\<lambda>s. sb_thread s = th"]
    by (simp add: event_service_unsubscribe_thread_def remove_first_none)
next
  fix us x vs
  assume xs: "xs = us @ x # vs" and x: "case x of (p, s) \<Rightarrow> sb_thread s = th" and u: "\<forall>u \<in> set us. \<not> (case u of (p, s) \<Rightarrow> sb_thread s = th)"
    and f: "List.find (\<lambda>(p, s). sb_thread s = th) xs = Some x"
  obtain p s where ps: "x = (p, s)" by (cases x)
  have nz: "p \<noteq> NULL" using bus_rep_nonnull [OF assms, of p s] by (simp add: xs ps)
  have "dll (bus_nodes b) (bus_head b) (map fst us @ p # map fst vs)" using assms by (simp add: bus_rep_def xs ps)
  from dll_remove [OF this] obtain h' where h': "list_remove (bus_nodes b) p = Some h'" "dll h' (bus_head b) (map fst us @ map fst vs)"
    by blast
  have d: "p \<notin> fst ` set (us @ vs)" using assms by (auto simp: bus_rep_def dll_def xs ps)
  have live: "p \<in> bus_live b" using assms by (auto simp: bus_rep_def xs ps)
  have "bus_rep (b\<lparr>bus_nodes := h', bus_live := bus_live b - {p}\<rparr>) (us @ vs)"
    using assms h'(2) d by (force simp: bus_rep_def xs)
  moreover have "remove_first (\<lambda>(p, s). sb_thread s = th) xs = us @ vs" unfolding xs by (rule remove_first_split [OF x u])
  ultimately show ?thesis
    using first_subscriber_rep [OF assms, of "\<lambda>s. sb_thread s = th"] f ps nz h'(1) live
    by (simp add: event_service_unsubscribe_thread_def sub_free_def)
qed

lemma get_context_rep:
  assumes "bus_rep b xs"
  shows "event_service_get_context th cmd b =
    Some (case List.find (\<lambda>(p, s). sb_thread s = th \<and> sb_command s = cmd) xs of None \<Rightarrow> NULL | Some (p, s) \<Rightarrow> sb_context s)"
  using find_first_split [of xs "\<lambda>(p, s). sb_thread s = th \<and> sb_command s = cmd"]
proof (elim disjE exE conjE)
  fix us x vs
  assume xs: "xs = us @ x # vs" and f: "List.find (\<lambda>(p, s). sb_thread s = th \<and> sb_command s = cmd) xs = Some x"
  obtain p s where ps: "x = (p, s)" by (cases x)
  have "p \<noteq> NULL" "bus_subs b p = s" using bus_rep_nonnull [OF assms, of p s] assms by (auto simp: xs ps bus_rep_def)
  then show ?thesis using first_subscriber_rep [OF assms, of "\<lambda>s. sb_thread s = th \<and> sb_command s = cmd"] f ps
    by (simp add: event_service_get_context_def)
qed (use first_subscriber_rep [OF assms, of "\<lambda>s. sb_thread s = th \<and> sb_command s = cmd"] in \<open>simp add: event_service_get_context_def\<close>)

lemma set_context_rep:
  assumes "bus_rep b xs"
  shows "\<exists>b'. event_service_set_context th cmd ctx b = Some b' \<and>
    bus_rep b' (update_first (\<lambda>(p, s). sb_thread s = th \<and> sb_command s = cmd) (\<lambda>(p, s). (p, s\<lparr>sb_context := ctx\<rparr>)) xs)"
  using find_first_split [of xs "\<lambda>(p, s). sb_thread s = th \<and> sb_command s = cmd"]
proof (elim disjE exE conjE)
  assume "\<forall>x \<in> set xs. \<not> (case x of (p, s) \<Rightarrow> sb_thread s = th \<and> sb_command s = cmd)"
    "List.find (\<lambda>(p, s). sb_thread s = th \<and> sb_command s = cmd) xs = None"
  then show ?thesis using assms first_subscriber_rep [OF assms, of "\<lambda>s. sb_thread s = th \<and> sb_command s = cmd"]
    by (simp add: event_service_set_context_def update_first_none)
next
  fix us x vs
  assume xs: "xs = us @ x # vs" and x: "case x of (p, s) \<Rightarrow> sb_thread s = th \<and> sb_command s = cmd"
    and u: "\<forall>u \<in> set us. \<not> (case u of (p, s) \<Rightarrow> sb_thread s = th \<and> sb_command s = cmd)"
    and f: "List.find (\<lambda>(p, s). sb_thread s = th \<and> sb_command s = cmd) xs = Some x"
  obtain p s where ps: "x = (p, s)" by (cases x)
  have nz: "p \<noteq> NULL" "bus_subs b p = s" using bus_rep_nonnull [OF assms, of p s] assms by (auto simp: xs ps bus_rep_def)
  have d: "p \<notin> fst ` set us" "p \<notin> fst ` set vs" using assms by (auto simp: bus_rep_def dll_def xs ps)
  have "bus_rep (b\<lparr>bus_subs := (bus_subs b)(p := s\<lparr>sb_context := ctx\<rparr>)\<rparr>) (us @ (p, s\<lparr>sb_context := ctx\<rparr>) # vs)"
  proof -
    have "dll (bus_nodes b) (bus_head b) (map fst us @ p # map fst vs)" using assms by (simp add: bus_rep_def xs ps)
    moreover have "(if q = p then s\<lparr>sb_context := ctx\<rparr> else bus_subs b q) = r \<and> q \<in> bus_live b" if "(q, r) \<in> set us \<union> set vs" for q r
    proof -
      have "(q, r) \<in> set xs" using that by (auto simp: xs)
      moreover have "q \<noteq> p" using that d by force
      ultimately show ?thesis using assms by (auto simp: bus_rep_def)
    qed
    moreover have "p \<in> bus_live b" using assms by (auto simp: bus_rep_def xs ps)
    ultimately show ?thesis unfolding bus_rep_def by fastforce
  qed
  moreover have "update_first (\<lambda>(p, s). sb_thread s = th \<and> sb_command s = cmd) (\<lambda>(p, s). (p, s\<lparr>sb_context := ctx\<rparr>)) xs =
      us @ (p, s\<lparr>sb_context := ctx\<rparr>) # vs"
    unfolding xs using update_first_split [OF x u, of "\<lambda>(p, s). (p, s\<lparr>sb_context := ctx\<rparr>)" vs] by (simp add: ps)
  ultimately show ?thesis
    using first_subscriber_rep [OF assms, of "\<lambda>s. sb_thread s = th \<and> sb_command s = cmd"] f ps nz
    by (simp add: event_service_set_context_def)
qed

subsection \<open>What a trigger does\<close>

text \<open>The effects of one subscriber, when it is visited.\<close>

definition visit_effects :: "ptr \<Rightarrow> thread_type \<Rightarrow> nat \<Rightarrow> ptr \<Rightarrow> ptr \<Rightarrow> subscriber \<Rightarrow> effect list" where
  "visit_effects this_thread ty command data destroy s =
     (if sb_command s \<noteq> command then []
      else (if sb_thread s = this_thread \<and> sb_callback s \<noteq> NULL then [Callback (sb_callback s) command data (sb_context s)] else []) @
        (if ty = AppThreadOverlay then (if destroy \<noteq> NULL then [Destroy destroy data] else []) @ [Redraw] else []))"

definition subscribed :: "subs \<Rightarrow> nat \<Rightarrow> subs" where
  "subscribed xs command = filter (\<lambda>(p, s). sb_command s = command) xs"

definition overlay_after :: "thread_type \<Rightarrow> subs \<Rightarrow> nat \<Rightarrow> ptr \<Rightarrow> ptr \<Rightarrow> (nat \<times> ptr \<times> ptr) list \<Rightarrow> (nat \<times> ptr \<times> ptr) list" where
  "overlay_after ty xs command data destroy q =
     (if ty = AppThreadMainApp \<and> subscribed xs command \<noteq> [] \<and> q = [] then [(command, data, destroy)] else q)"

text \<open>Callbacks that leave the bus as it is.\<close>

definition quiet :: "(ptr \<Rightarrow> nat \<Rightarrow> ptr \<Rightarrow> ptr \<Rightarrow> bus \<Rightarrow> bus option) \<Rightarrow> bool" where
  "quiet run \<longleftrightarrow> (\<forall>cb c d x b. run cb c d x b = Some b)"

lemma visit_quiet:
  assumes "quiet run" "bus_subs b p = s" "p \<noteq> NULL"
  shows "trigger_visit run th ty cmd data destroy p b = Some (visit_effects th ty cmd data destroy s,
    if ty = AppThreadMainApp \<and> sb_command s = cmd then overlay_window_post_event cmd data destroy b else b)"
  using assms by (cases ty) (auto simp: trigger_visit_def visit_effects_def quiet_def Let_def)

lemma trigger_seg:
  assumes "quiet run"
  shows "seg (bus_nodes b) a (map fst xs) (bus_head b) \<Longrightarrow> \<forall>(p, s) \<in> set xs. bus_subs b p = s \<and> p \<noteq> NULL \<and> p \<noteq> bus_head b \<Longrightarrow>
    trigger_loop run th ty cmd data destroy b (nxt (bus_nodes b a)) =
      Some (concat (map (\<lambda>(p, s). visit_effects th ty cmd data destroy s) xs),
        b\<lparr>bus_overlay := overlay_after ty xs cmd data destroy (bus_overlay b)\<rparr>)"
proof (induction xs arbitrary: a b)
  case Nil
  then show ?case by (subst trigger_loop.simps) (simp add: overlay_after_def subscribed_def)
next
  case (Cons x xs)
  obtain p s where x: "x = (p, s)" by (cases x)
  have ps: "nxt (bus_nodes b a) = p" "bus_subs b p = s" "p \<noteq> NULL" "p \<noteq> bus_head b" "seg (bus_nodes b) p (map fst xs) (bus_head b)"
    "\<forall>(p, s) \<in> set xs. bus_subs b p = s \<and> p \<noteq> NULL \<and> p \<noteq> bus_head b"
    using Cons.prems by (simp_all add: x)
  define b1 where "b1 = (if ty = AppThreadMainApp \<and> sb_command s = cmd then overlay_window_post_event cmd data destroy b else b)"
  have b1: "bus_nodes b1 = bus_nodes b" "bus_head b1 = bus_head b" "bus_subs b1 = bus_subs b"
    by (simp_all add: b1_def overlay_window_post_event_def)
  have ih: "trigger_loop run th ty cmd data destroy b1 (nxt (bus_nodes b1 p)) =
      Some (concat (map (\<lambda>(p, s). visit_effects th ty cmd data destroy s) xs),
        b1\<lparr>bus_overlay := overlay_after ty xs cmd data destroy (bus_overlay b1)\<rparr>)"
    by (rule Cons.IH) (use ps(5,6) in \<open>simp_all add: b1\<close>)
  have ov: "b1\<lparr>bus_overlay := overlay_after ty xs cmd data destroy (bus_overlay b1)\<rparr> =
      b\<lparr>bus_overlay := overlay_after ty (x # xs) cmd data destroy (bus_overlay b)\<rparr>"
    by (auto simp: b1_def overlay_window_post_event_def overlay_after_def subscribed_def x)
  have "trigger_visit run th ty cmd data destroy p b = Some (visit_effects th ty cmd data destroy s, b1)"
    using visit_quiet [OF assms ps(2,3)] by (simp add: b1_def)
  then show ?case unfolding ps(1) using ps(4) ih ov by (subst trigger_loop.simps) (simp add: x)
qed

lemma trigger_rep:
  assumes "bus_rep b xs" "quiet run"
  shows "event_service_event_trigger run th ty cmd data destroy b =
    (let d = (if destroy \<noteq> NULL then MK_THUMB_CB destroy else NULL)
     in Some (concat (map (\<lambda>(p, s). visit_effects th ty cmd data d s) xs), b\<lparr>bus_overlay := overlay_after ty xs cmd data d (bus_overlay b)\<rparr>))"
proof -
  have "seg (bus_nodes b) (bus_head b) (map fst xs) (bus_head b)" using assms(1) by (simp add: bus_rep_def dll_def)
  moreover have "\<forall>(p, s) \<in> set xs. bus_subs b p = s \<and> p \<noteq> NULL \<and> p \<noteq> bus_head b"
    using assms(1) bus_rep_nonnull [OF assms(1)] by (auto simp: bus_rep_def)
  ultimately show ?thesis unfolding event_service_event_trigger_def trigger_start_def prod.case Let_def by (simp only: trigger_seg [OF assms(2)] split: if_split) simp
qed

lemma trigger_rep_spec:
  assumes "bus_rep b xs" "quiet run" "destroy \<noteq> NULL"
  shows "event_service_event_trigger run th ty cmd data destroy b =
    Some (concat (map (\<lambda>(p, s). visit_effects th ty cmd data (MK_THUMB_CB destroy) s) xs),
      b\<lparr>bus_overlay := overlay_after ty xs cmd data (MK_THUMB_CB destroy) (bus_overlay b)\<rparr>)"
  using trigger_rep [OF assms(1,2)] assms(3) by (simp add: Let_def)

lemma thumb_twice: "MK_THUMB_CB (MK_THUMB_CB f) = MK_THUMB_CB f" "MK_THUMB_CB f \<noteq> NULL"
  by (auto simp: MK_THUMB_CB_def elim: oddE)

definition calls :: "effect list \<Rightarrow> effect list" where
  "calls es = filter (\<lambda>e. case e of Callback _ _ _ _ \<Rightarrow> True | _ \<Rightarrow> False) es"

definition destroys :: "ptr \<Rightarrow> effect list \<Rightarrow> nat" where
  "destroys data es = length (filter (\<lambda>e. case e of Destroy _ d \<Rightarrow> d = data | _ \<Rightarrow> False) es)"

lemma calls_append [simp]: "calls (es @ es') = calls es @ calls es'" "calls [] = []"
  by (simp_all add: calls_def)

lemma destroys_append [simp]: "destroys d (es @ es') = destroys d es + destroys d es'" "destroys d [] = 0"
  by (simp_all add: destroys_def)

text \<open>The callbacks due on a thread: those of its subscribers to the command, in the order of the list.\<close>

definition due :: "ptr \<Rightarrow> nat \<Rightarrow> ptr \<Rightarrow> subs \<Rightarrow> effect list" where
  "due th cmd data xs = map (\<lambda>(p, s). Callback (sb_callback s) cmd data (sb_context s))
     (filter (\<lambda>(p, s). sb_command s = cmd \<and> sb_thread s = th \<and> sb_callback s \<noteq> NULL) xs)"

lemma calls_visit: "calls (concat (map (\<lambda>(p, s). visit_effects th ty cmd data d s) xs)) = due th cmd data xs"
proof (induction xs)
  case (Cons x xs)
  obtain p s where "x = (p, s)" by (cases x)
  moreover have "calls (visit_effects th ty cmd data d s) = due th cmd data [(p, s)]" by (simp add: visit_effects_def calls_def due_def)
  ultimately show ?case using Cons by (simp add: due_def)
qed (simp add: due_def)

lemma destroys_visit:
  "destroys data (concat (map (\<lambda>(p, s). visit_effects th ty cmd data d s) xs)) =
     (if ty = AppThreadOverlay \<and> d \<noteq> NULL then length (subscribed xs cmd) else 0)"
proof (induction xs)
  case (Cons x xs)
  obtain p s where "x = (p, s)" by (cases x)
  moreover have "destroys data (visit_effects th ty cmd data d s) = (if ty = AppThreadOverlay \<and> d \<noteq> NULL \<and> sb_command s = cmd then 1 else 0)"
    by (simp add: visit_effects_def destroys_def)
  ultimately show ?case using Cons by (simp add: subscribed_def)
qed (simp add: subscribed_def)

text \<open>C36: the operations of the bus refine those of a list of subscriptions, most recent first. Subscribing puts a
  subscription in front. Unsubscribing a thread takes out its most recent subscription, whatever command that is to, and frees it:
  the command the caller names is ignored, against event_service.h, which documents the removal of the subscription to that command.
  The context that is
  read or replaced is that of the most recent subscription of the thread to the command. None of them faults on a well-formed bus, and each
  leaves it well formed.\<close>

theorem event_bus_refines:
  assumes "bus_rep b xs" "conn \<noteq> NULL" "conn \<noteq> bus_head b" "conn \<notin> fst ` set xs"
  shows "(\<exists>b'. event_service_subscribe_with_context th conn cmd cb ctx b = Some b' \<and>
      bus_rep b' ((conn, \<lparr> sb_command = cmd, sb_callback = MK_THUMB_CB cb, sb_context = ctx, sb_thread = th \<rparr>) # xs)) \<and>
    (\<exists>b'. event_service_unsubscribe_thread cmd th b = Some b' \<and> bus_rep b' (remove_first (\<lambda>(p, s). sb_thread s = th) xs)) \<and>
    event_service_get_context th cmd b =
      Some (case List.find (\<lambda>(p, s). sb_thread s = th \<and> sb_command s = cmd) xs of None \<Rightarrow> NULL | Some (p, s) \<Rightarrow> sb_context s) \<and>
    (\<exists>b'. event_service_set_context th cmd ctx b = Some b' \<and>
      bus_rep b' (update_first (\<lambda>(p, s). sb_thread s = th \<and> sb_command s = cmd) (\<lambda>(p, s). (p, s\<lparr>sb_context := ctx\<rparr>)) xs))"
  using subscribe_rep [OF assms, of th cmd cb ctx] unsubscribe_rep [OF assms(1), of cmd th] get_context_rep [OF assms(1), of th cmd]
    set_context_rep [OF assms(1), of th cmd ctx] by blast

definition ex_sub :: subscriber where
  "ex_sub = \<lparr> sb_command = 3, sb_callback = 101, sb_context = 7, sb_thread = 5 \<rparr>"

definition ex_bus :: bus where
  "ex_bus = \<lparr> bus_head = 10, bus_nodes = ex_heap, bus_subs = (\<lambda>_. ex_sub), bus_handlers = (\<lambda>_. (NULL, NULL)), bus_live = {20}, bus_overlay = [] \<rparr>"

lemma ex_bus_rep: "bus_rep ex_bus [(20, ex_sub)]"
  using ex_heap_dll by (simp add: bus_rep_def ex_bus_def)

lemma event_bus_refines_witness:
  "(\<exists>b'. event_service_unsubscribe_thread 3 5 ex_bus = Some b' \<and> bus_rep b' []) \<and> event_service_get_context 5 3 ex_bus = Some 7"
  using event_bus_refines [OF ex_bus_rep, where conn = 30 and th = 5 and cmd = 3] by (simp add: ex_sub_def) (simp add: ex_bus_def)

subsection \<open>The two threads at once\<close>

text \<open>The place of a subscriber in the list, the head behind the last.\<close>

definition place :: "bus \<Rightarrow> subs \<Rightarrow> nat \<Rightarrow> ptr" where
  "place b xs i = (if i < length xs then fst (xs ! i) else bus_head b)"

lemma seg_nth:
  assumes "seg h a ps b" "i \<le> length ps"
  shows "nxt (h ((a # ps) ! i)) = (ps @ [b]) ! i"
  using assms by (induction ps arbitrary: a i) (auto simp: nth_Cons split: nat.splits)

lemma place_facts:
  assumes "bus_rep b xs"
  shows "nxt (bus_nodes b (bus_head b)) = place b xs 0"
    and "i < length xs \<Longrightarrow> nxt (bus_nodes b (place b xs i)) = place b xs (Suc i)"
    and "i \<le> length xs \<Longrightarrow> place b xs i = bus_head b \<longleftrightarrow> i = length xs"
    and "i < length xs \<Longrightarrow> place b xs i \<noteq> NULL \<and> bus_subs b (place b xs i) = snd (xs ! i)"
proof -
  have s: "seg (bus_nodes b) (bus_head b) (map fst xs) (bus_head b)" using assms by (simp add: bus_rep_def dll_def)
  have n: "fst (xs ! i) \<noteq> bus_head b \<and> fst (xs ! i) \<noteq> NULL \<and> bus_subs b (fst (xs ! i)) = snd (xs ! i)" if "i < length xs" for i
  proof -
    have m: "(fst (xs ! i), snd (xs ! i)) \<in> set xs" using that by simp
    then show ?thesis using bus_rep_nonnull [OF assms m] assms by (auto simp: bus_rep_def)
  qed
  show "nxt (bus_nodes b (bus_head b)) = place b xs 0"
    using seg_nth [OF s, of 0] by (simp add: place_def nth_append)
  show "nxt (bus_nodes b (place b xs i)) = place b xs (Suc i)" if "i < length xs"
    using seg_nth [OF s, of "Suc i"] that by (simp add: place_def nth_append)
  show "place b xs i = bus_head b \<longleftrightarrow> i = length xs" if "i \<le> length xs" using n that by (auto simp: place_def)
  show "place b xs i \<noteq> NULL \<and> bus_subs b (place b xs i) = snd (xs ! i)" if "i < length xs" using n that by (simp add: place_def)
qed

text \<open>The effects of the visits so far.\<close>

definition visits :: "ptr \<Rightarrow> thread_type \<Rightarrow> nat \<Rightarrow> ptr \<Rightarrow> ptr \<Rightarrow> subs \<Rightarrow> effect list" where
  "visits th ty cmd data d xs = concat (map (\<lambda>(p, s). visit_effects th ty cmd data d s) xs)"

lemma visits_Suc: "i < length xs \<Longrightarrow> visits th ty cmd data d (take (Suc i) xs) =
   visits th ty cmd data d (take i xs) @ visit_effects th ty cmd data d (snd (xs ! i))"
  by (simp add: visits_def take_Suc_conv_app_nth split: prod.split)

lemma subscribed_Suc: "i < length xs \<Longrightarrow> length (subscribed (take (Suc i) xs) cmd) =
   length (subscribed (take i xs) cmd) + (if sb_command (snd (xs ! i)) = cmd then 1 else 0)"
  by (simp add: subscribed_def take_Suc_conv_app_nth split: prod.split)

text \<open>A run after \<open>i\<close> visits of the app thread, with \<open>t\<close> messages taken by the overlay thread. The queue holds the event or nothing; a
  message was put into it when the first subscriber to the command was visited, and no more were than subscribers to it.\<close>

definition run_inv :: "bus \<Rightarrow> subs \<Rightarrow> ptr \<Rightarrow> ptr \<Rightarrow> nat \<Rightarrow> ptr \<Rightarrow> ptr \<Rightarrow> bus_run \<Rightarrow> nat \<Rightarrow> nat \<Rightarrow> nat \<Rightarrow> bool" where
  "run_inv b xs app overlay cmd data d r i j t \<longleftrightarrow>
     i \<le> length xs \<and> j \<le> length xs \<and> br_app r = (cmd, data, d, place b xs i) \<and> (\<exists>q \<in> {[], [(cmd, data, d)]}. br_bus r = b\<lparr>bus_overlay := q\<rparr>) \<and>
     t + length (bus_overlay (br_bus r)) \<le> length (subscribed (take i xs) cmd) \<and>
     (subscribed (take i xs) cmd \<noteq> [] \<longrightarrow> 1 \<le> t + length (bus_overlay (br_bus r))) \<and>
     br_app_effects r = visits app AppThreadMainApp cmd data d (take i xs) \<and>
     (case br_ovl r of
        None \<Rightarrow> br_ovl_effects r = concat (replicate t (visits overlay AppThreadOverlay cmd data d xs))
      | Some m \<Rightarrow> m = (cmd, data, d, place b xs j) \<and> 1 \<le> t \<and>
          br_ovl_effects r = concat (replicate (t - 1) (visits overlay AppThreadOverlay cmd data d xs)) @
            visits overlay AppThreadOverlay cmd data d (take j xs))"

text \<open>What is left to do, in steps.\<close>

definition left_over :: "subs \<Rightarrow> bus_run \<Rightarrow> nat \<Rightarrow> nat \<Rightarrow> nat" where
  "left_over xs r i j = (length xs - i) * (length xs + 3) + length (bus_overlay (br_bus r)) * (length xs + 2) +
     (case br_ovl r of None \<Rightarrow> 0 | Some _ \<Rightarrow> length xs - j + 1)"


lemma concat_replicate_Suc: "concat (replicate (Suc n) xs) = concat (replicate n xs) @ xs"
  by (induction n) auto

lemma run_step:
  assumes b: "bus_rep b xs" and run: "quiet run" and d: "d \<noteq> NULL" "MK_THUMB_CB d = d" and inv: "run_inv b xs app overlay cmd data d r i j t"
    and s: "bus_step run app overlay r r'"
  shows "\<exists>i' j' t'. run_inv b xs app overlay cmd data d r' i' j' t' \<and> left_over xs r' i' j' < left_over xs r i j"
proof -
  note pl = place_facts [OF b]
  obtain q where q: "q \<in> {[], [(cmd, data, d)]}" "br_bus r = b\<lparr>bus_overlay := q\<rparr>" and ij: "i \<le> length xs" "j \<le> length xs"
    and ap: "br_app r = (cmd, data, d, place b xs i)"
    using inv by (auto simp: run_inv_def)
  have same: "bus_nodes (br_bus r) = bus_nodes b" "bus_head (br_bus r) = bus_head b" "bus_subs (br_bus r) = bus_subs b" by (simp_all add: q)
  note s
  then show ?thesis
  proof cases
    case (app_visit c d' f pos es b')
    then have i: "i < length xs" and cdf: "c = cmd" "d' = data" "f = d" "pos = place b xs i" using ap ij pl(3) by (auto simp: same)
    let ?s = "snd (xs ! i)"
    have e: "es = visit_effects app AppThreadMainApp cmd data d ?s"
        "b' = (if sb_command ?s = cmd then overlay_window_post_event cmd data d (br_bus r) else br_bus r)"
      using app_visit(4) visit_quiet [OF run, of "br_bus r" "place b xs i" ?s app AppThreadMainApp cmd data d] pl(4) [OF i] by (simp_all add: cdf same)
    have r': "br_app r' = (cmd, data, d, place b xs (Suc i))" "br_ovl r' = br_ovl r" "br_ovl_effects r' = br_ovl_effects r"
      "br_app_effects r' = visits app AppThreadMainApp cmd data d (take (Suc i) xs)" "br_bus r' = b'"
      using app_visit(1) cdf pl(2) [OF i] inv i by (simp_all add: e(1) visits_Suc run_inv_def) (simp add: e(2) overlay_window_post_event_def same)
    define q' where "q' = bus_overlay b'"
    have b': "b' = b\<lparr>bus_overlay := q'\<rparr>" "q' \<in> {[], [(cmd, data, d)]}" "length q' \<le> length q + (if sb_command ?s = cmd then 1 else 0)"
      "sb_command ?s = cmd \<Longrightarrow> 1 \<le> length q'" "length q \<le> length q'"
      using q by (auto simp: q'_def e(2) overlay_window_post_event_def)
    have "t + length q \<le> length (subscribed (take i xs) cmd)" "subscribed (take i xs) cmd \<noteq> [] \<longrightarrow> 1 \<le> t + length q"
      using inv by (simp_all add: run_inv_def q(2))
    then have n: "t + length q' \<le> length (subscribed (take (Suc i) xs) cmd)" "subscribed (take (Suc i) xs) cmd \<noteq> [] \<longrightarrow> 1 \<le> t + length q'"
      using b'(3-5) subscribed_Suc [OF i, of cmd] unfolding length_greater_0_conv [symmetric] by (cases "sb_command ?s = cmd"; simp)+
    have "run_inv b xs app overlay cmd data d r' (Suc i) j t"
      unfolding run_inv_def r' unfolding b'(1) using inv [unfolded run_inv_def] i n b'(2) by auto
    moreover have "left_over xs r' (Suc i) j < left_over xs r i j"
    proof -
      have "length q' * (length xs + 2) \<le> (length q + 1) * (length xs + 2)" using b'(3) by (intro mult_le_mono1) (auto split: if_splits)
      moreover have "(length xs - i) * (length xs + 3) = (length xs - Suc i) * (length xs + 3) + (length xs + 3)"
        using i by (simp add: Suc_diff_Suc [symmetric])
      ultimately show ?thesis unfolding left_over_def r' b'(1) q(2) by simp
    qed
    ultimately show ?thesis by blast
  next
    case (ovl_take c d' f q')
    then have cdf: "c = cmd" "d' = data" "f = d" "q' = []" "q = [(cmd, data, d)]" using q by auto
    have st: "trigger_start cmd data d (b\<lparr>bus_overlay := w\<rparr>) = (cmd, data, d, place b xs 0)" for w using d pl(1) by (simp add: trigger_start_def)
    have "run_inv b xs app overlay cmd data d r' i 0 (Suc t)"
      using inv ovl_take(1,2) unfolding run_inv_def by (auto simp: st cdf q visits_def)
    moreover have "left_over xs r' i 0 < left_over xs r i j"
      using ovl_take(1,2) by (simp add: left_over_def cdf q)
    ultimately show ?thesis by blast
  next
    case (ovl_visit c d' f pos es b')
    then have j: "j < length xs" and cdf: "c = cmd" "d' = data" "f = d" "pos = place b xs j"
      using inv ij pl(3) [of j] by (auto simp: run_inv_def same)
    let ?s = "snd (xs ! j)"
    have e: "es = visit_effects overlay AppThreadOverlay cmd data d ?s" "b' = br_bus r"
      using ovl_visit(4) visit_quiet [OF run, of "br_bus r" "place b xs j" ?s overlay AppThreadOverlay cmd data d] pl(4) [OF j] by (simp_all add: cdf same)
    have "run_inv b xs app overlay cmd data d r' i (Suc j) t"
      using inv ovl_visit(1,2) j pl(2) [OF j] visits_Suc [OF j, of overlay AppThreadOverlay cmd data d] unfolding run_inv_def
      by (auto simp: cdf e same)
    moreover have "left_over xs r' i (Suc j) < left_over xs r i j" using ovl_visit(1,2) j by (simp add: left_over_def e)
    ultimately show ?thesis by blast
  next
    case (ovl_done c d' f pos)
    then have j: "j = length xs" using inv ij pl(3) [of j] by (auto simp: run_inv_def same)
    have "concat (replicate t V) = concat (replicate (t - 1) V) @ V" if "1 \<le> t" for V :: "effect list"
      using that concat_replicate_Suc [of "t - 1" V] by simp
    then have "run_inv b xs app overlay cmd data d r' i j t" using inv ovl_done(1,2) j unfolding run_inv_def by auto
    moreover have "left_over xs r' i j < left_over xs r i j" using ovl_done(1,2) by (simp add: left_over_def)
    ultimately show ?thesis by blast
  qed
qed

text \<open>Both threads are through and the queue is empty.\<close>

definition bus_over :: "bus_run \<Rightarrow> bool" where
  "bus_over r \<longleftrightarrow> (case br_app r of (_, _, _, pos) \<Rightarrow> pos = bus_head (br_bus r)) \<and> br_ovl r = None \<and> bus_overlay (br_bus r) = []"

lemma run_alive:
  assumes b: "bus_rep b xs" and run: "quiet run" and inv: "run_inv b xs app overlay cmd data d r i j t"
    and stuck: "\<forall>r'. \<not> bus_step run app overlay r r'"
  shows "i = length xs \<and> br_ovl r = None \<and> bus_overlay (br_bus r) = []"
proof -
  note pl = place_facts [OF b]
  obtain q where q: "br_bus r = b\<lparr>bus_overlay := q\<rparr>" and ij: "i \<le> length xs" "j \<le> length xs"
    and ap: "br_app r = (cmd, data, d, place b xs i)"
    using inv by (auto simp: run_inv_def)
  have vis: "\<exists>es b'. trigger_visit run th ty cmd data d (place b xs k) (br_bus r) = Some (es, b')" if "k < length xs" for k th ty
    using visit_quiet [OF run, of "br_bus r" "place b xs k"] pl(4) [OF that] by (simp add: q)
  have "i = length xs"
  proof (rule ccontr)
    assume "i \<noteq> length xs"
    then have "place b xs i \<noteq> bus_head (br_bus r)" "i < length xs" using pl(3) [OF ij(1)] ij(1) by (simp_all add: q)
    with vis [of i app AppThreadMainApp] app_visit [OF ap] stuck show False by blast
  qed
  moreover have none: "br_ovl r = None"
  proof (rule ccontr)
    assume "br_ovl r \<noteq> None"
    then have o: "br_ovl r = Some (cmd, data, d, place b xs j)" using inv by (auto simp: run_inv_def)
    show False
    proof (cases "j = length xs")
      case True
      then have "place b xs j = bus_head (br_bus r)" using pl(3) [OF ij(2)] by (simp add: q)
      with ovl_done [OF o] stuck show False by blast
    next
      case False
      then have "place b xs j \<noteq> bus_head (br_bus r)" "j < length xs" using pl(3) [OF ij(2)] ij(2) by (simp_all add: q)
      with vis [of j overlay AppThreadOverlay] ovl_visit [OF o] stuck show False by blast
    qed
  qed
  moreover have "bus_overlay (br_bus r) = []"
  proof (cases "bus_overlay (br_bus r)")
    case (Cons m q')
    obtain c d' f where "m = (c, d', f)" by (cases m)
    with ovl_take [OF none] Cons stuck show ?thesis by blast
  qed
  ultimately show ?thesis by blast
qed

lemma run_begin:
  assumes "bus_rep b xs" "bus_overlay b = []" "destroy \<noteq> NULL"
  shows "run_inv b xs app overlay cmd data (MK_THUMB_CB destroy) (bus_begin cmd data destroy b) 0 0 0"
proof -
  have "b = b\<lparr>bus_overlay := []\<rparr>" using assms(2) by simp
  then show ?thesis
    using assms place_facts(1) [OF assms(1)] by (auto simp: run_inv_def bus_begin_def trigger_start_def subscribed_def visits_def)
qed

lemma run_reach:
  assumes "bus_rep b xs" "quiet run" "d \<noteq> NULL" "MK_THUMB_CB d = d" "(bus_step run app overlay)\<^sup>*\<^sup>* r0 r"
    and "run_inv b xs app overlay cmd data d r0 i j t"
  shows "\<exists>i j t. run_inv b xs app overlay cmd data d r i j t"
  using assms(5,6)
proof (induction arbitrary: i j t rule: rtranclp_induct)
  case (step r r')
  then obtain i j t where "run_inv b xs app overlay cmd data d r i j t" by blast
  from run_step [OF assms(1-4) this step(2)] show ?case by blast
qed blast

lemma run_finishes:
  assumes "bus_rep b xs" "quiet run" "d \<noteq> NULL" "MK_THUMB_CB d = d" "run_inv b xs app overlay cmd data d r i j t"
  shows "\<exists>r'. (bus_step run app overlay)\<^sup>*\<^sup>* r r' \<and> (\<forall>r''. \<not> bus_step run app overlay r' r'')"
  using assms(5)
proof (induction "left_over xs r i j" arbitrary: r i j t rule: less_induct)
  case less
  show ?case
  proof (cases "\<exists>r'. bus_step run app overlay r r'")
    case True
    then obtain r' where s: "bus_step run app overlay r r'" by blast
    from run_step [OF assms(1-4) less(2) s] less(1) obtain r'' where "(bus_step run app overlay)\<^sup>*\<^sup>* r' r''"
      "\<forall>z. \<not> bus_step run app overlay r'' z" by blast
    with s show ?thesis by (meson converse_rtranclp_into_rtranclp)
  qed blast
qed

lemma calls_replicate: "calls (concat (replicate k es)) = concat (replicate k (calls es))"
  "destroys data (concat (replicate k es)) = k * destroys data es"
  by (induction k) simp_all

text \<open>When the overlay thread waits until the app thread is through, the data is destroyed once for each subscriber.\<close>

lemma event_passed_in_turn:
  assumes "bus_rep b xs" "bus_overlay b = []" "destroy \<noteq> NULL" "quiet run"
  shows "\<exists>es b1 es' b2. event_service_event_trigger run app AppThreadMainApp cmd data destroy b = Some (es, b1) \<and>
    overlay_event_round run overlay b1 = Some (es', b2) \<and> bus_rep b2 xs \<and> bus_overlay b2 = [] \<and>
    calls es = due app cmd data xs \<and> calls es' = due overlay cmd data xs \<and>
    destroys data (es @ es') = length (subscribed xs cmd)"
proof -
  let ?d = "MK_THUMB_CB destroy"
  let ?b1 = "b\<lparr>bus_overlay := overlay_after AppThreadMainApp xs cmd data ?d []\<rparr>"
  note t1 = trigger_rep_spec [OF assms(1,4,3), of app AppThreadMainApp cmd data, unfolded assms(2)]
  have rep: "bus_rep (b\<lparr>bus_overlay := q\<rparr>) xs" for q using assms(1) by (simp add: bus_rep_def)
  show ?thesis
  proof (cases "subscribed xs cmd = []")
    case True
    then have "due th cmd data xs = []" for th by (auto simp: due_def subscribed_def filter_empty_conv)
    then show ?thesis using t1 True rep by (auto simp: overlay_after_def overlay_event_round_def calls_visit destroys_visit)
  next
    case False
    then have q: "bus_overlay ?b1 = [(cmd, data, ?d)]" by (simp add: overlay_after_def)
    have "overlay_event_round run overlay ?b1 =
        Some (concat (map (\<lambda>(p, s). visit_effects overlay AppThreadOverlay cmd data ?d s) xs), b\<lparr>bus_overlay := []\<rparr>)"
      using trigger_rep_spec [of "b\<lparr>bus_overlay := []\<rparr>" xs run ?d overlay AppThreadOverlay cmd data, OF rep assms(4) thumb_twice(2)]
      by (simp add: overlay_event_round_def False thumb_twice(1) overlay_after_def)
    then show ?thesis using t1 rep thumb_twice(2) by (auto simp: calls_visit destroys_visit)
  qed
qed

text \<open>C37: an event from the app to the end, with the overlay thread running in between as it likes: it may take a message from its queue
  and visit the subscribers between any two visits of the app thread. The queue of the overlay thread is empty at first, nobody else sends
  to it, the callbacks leave the bus as it is, and the event has a destructor. Then every run can be completed, and a run that can go no
  further is complete: no step faults. By then the app thread has called its subscribers to the command, in order and once; the overlay
  thread has called its own \<open>k\<close> times and destroyed the data \<open>k * n\<close> times, \<open>n\<close> being the number of subscribers to the command on any
  thread, where \<open>k\<close> is 0 if \<open>n\<close> is, and else between 1 and \<open>n\<close>. So the data is destroyed exactly once when there is exactly one subscriber,
  never when there is none, and repeatedly when there are several.\<close>

theorem event_data_destroyed:
  assumes "bus_rep b xs" "bus_overlay b = []" "destroy \<noteq> NULL" "quiet run"
    and "(bus_step run app overlay)\<^sup>*\<^sup>* (bus_begin cmd data destroy b) r"
  shows "(\<exists>r'. (bus_step run app overlay)\<^sup>*\<^sup>* r r' \<and> (\<forall>r''. \<not> bus_step run app overlay r' r'')) \<and>
    ((\<forall>r'. \<not> bus_step run app overlay r r') \<longrightarrow> bus_over r \<and> bus_rep (br_bus r) xs \<and> calls (br_app_effects r) = due app cmd data xs \<and>
      (\<exists>k. (if subscribed xs cmd = [] then k = 0 else 1 \<le> k \<and> k \<le> length (subscribed xs cmd)) \<and>
        calls (br_ovl_effects r) = concat (replicate k (due overlay cmd data xs)) \<and>
        destroys data (br_app_effects r @ br_ovl_effects r) = k * length (subscribed xs cmd)))"
proof -
  let ?d = "MK_THUMB_CB destroy"
  obtain i j t where inv: "run_inv b xs app overlay cmd data ?d r i j t"
    using run_reach [OF assms(1,4) thumb_twice(2,1) assms(5) run_begin [OF assms(1-3)]] by blast
  have "bus_over r \<and> bus_rep (br_bus r) xs \<and> calls (br_app_effects r) = due app cmd data xs \<and>
      (\<exists>k. (if subscribed xs cmd = [] then k = 0 else 1 \<le> k \<and> k \<le> length (subscribed xs cmd)) \<and>
        calls (br_ovl_effects r) = concat (replicate k (due overlay cmd data xs)) \<and>
        destroys data (br_app_effects r @ br_ovl_effects r) = k * length (subscribed xs cmd))"
    if stuck: "\<forall>r'. \<not> bus_step run app overlay r r'"
  proof -
    note f = run_alive [OF assms(1,4) inv stuck]
    have app: "br_app r = (cmd, data, ?d, bus_head (br_bus r))" "br_app_effects r = visits app AppThreadMainApp cmd data ?d xs"
      and rep: "bus_rep (br_bus r) xs" and ovl: "br_ovl_effects r = concat (replicate t (visits overlay AppThreadOverlay cmd data ?d xs))"
      and t: "t \<le> length (subscribed xs cmd)" "subscribed xs cmd \<noteq> [] \<longrightarrow> 1 \<le> t"
      using inv f assms(1) by (auto simp: run_inv_def place_def bus_rep_def)
    have "destroys data (br_app_effects r @ br_ovl_effects r) = t * length (subscribed xs cmd)"
      unfolding app(2) ovl visits_def by (simp add: calls_replicate destroys_visit thumb_twice(2))
    moreover have "calls (br_app_effects r) = due app cmd data xs" "calls (br_ovl_effects r) = concat (replicate t (due overlay cmd data xs))"
      unfolding app(2) ovl visits_def by (simp_all add: calls_replicate calls_visit)
    ultimately show ?thesis using app(1) f rep t by (auto simp: bus_over_def)
  qed
  then show ?thesis using run_finishes [OF assms(1,4) thumb_twice(2,1) inv] by blast
qed

lemma event_data_destroyed_witness:
  "\<exists>r. (bus_step (\<lambda>_ _ _ _ b. Some b) 5 6)\<^sup>*\<^sup>* (bus_begin 3 77 200 ex_bus) r \<and> bus_over r \<and>
    calls (br_app_effects r) = [Callback 101 3 77 7] \<and> destroys 77 (br_app_effects r @ br_ovl_effects r) = 1"
proof -
  have q: "quiet (\<lambda>_ _ _ _ b. Some b)" by (simp add: quiet_def)
  have o: "bus_overlay ex_bus = []" by (simp add: ex_bus_def)
  have s: "length (subscribed [(20, ex_sub)] 3) = 1" "subscribed [(20, ex_sub)] 3 \<noteq> []" "due 5 3 77 [(20, ex_sub)] = [Callback 101 3 77 7]"
    by (simp_all add: subscribed_def due_def ex_sub_def)
  note ev = event_data_destroyed [OF ex_bus_rep o, where destroy = 200 and run = "\<lambda>_ _ _ _ b. Some b" and app = 5 and overlay = 6 and
      cmd = 3 and data = 77]
  obtain r where r: "(bus_step (\<lambda>_ _ _ _ b. Some b) 5 6)\<^sup>*\<^sup>* (bus_begin 3 77 200 ex_bus) r" "\<forall>r'. \<not> bus_step (\<lambda>_ _ _ _ b. Some b) 5 6 r r'"
    using ev [OF _ q rtranclp.rtrancl_refl] by auto
  from ev [OF _ q r(1)] r(2) s show ?thesis by (intro exI [of _ r]) (auto simp: r(1))
qed

subsection \<open>What goes wrong\<close>

text \<open>Unsubscribing from one command takes away the thread's subscription to another.\<close>

lemma unsubscribe_ignores_command:
  "bus_rep b [(p, s)] \<Longrightarrow> sb_thread s = th \<Longrightarrow> sb_command s \<noteq> cmd \<Longrightarrow>
   \<exists>b'. event_service_unsubscribe th cmd b = Some b' \<and> bus_rep b' []"
  using unsubscribe_rep [of b "[(p, s)]" cmd th] by (auto simp: event_service_unsubscribe_def)

text \<open>When a thread ends only its most recent subscription is taken off the list.\<close>

lemma unsubscribe_all_keeps_others:
  "bus_rep b ((p, s) # xs) \<Longrightarrow> sb_thread s = th \<Longrightarrow>
   \<exists>b'. event_service_unsubscribe_thread_all th b = Some b' \<and> bus_rep b' xs"
  using unsubscribe_rep [of b "(p, s) # xs" 0 th]
  by (auto simp: event_service_unsubscribe_thread_def event_service_unsubscribe_thread_all_def)

text \<open>A callback that unsubscribes takes its node off the list the trigger is walking, and the trigger follows the null pointer left in it.\<close>

lemma callback_unsubscribes_faults:
  assumes "bus_rep b ((p, s) # xs)" "sb_command s = cmd" "sb_thread s = th" "sb_callback s \<noteq> NULL" "ty = AppThreadMainApp"
  shows "event_service_event_trigger (\<lambda>_ _ _ _ b. event_service_unsubscribe th cmd b) th ty cmd data d b = None"
proof -
  have p: "nxt (bus_nodes b (bus_head b)) = p" "bus_subs b p = s" "p \<noteq> NULL" "p \<noteq> bus_head b" "p \<in> bus_live b" "bus_head b \<noteq> NULL"
    using assms(1) bus_rep_nonnull [OF assms(1), of p s] by (auto simp: bus_rep_def dll_def)
  have f: "first_subscriber b (\<lambda>s. sb_thread s = th) = Some p"
    using first_subscriber_rep [OF assms(1), of "\<lambda>s. sb_thread s = th"] assms(3) by simp
  have "dll (bus_nodes b) (bus_head b) ([] @ p # map fst xs)" using assms(1) by (simp add: bus_rep_def)
  from dll_remove [OF this] obtain h' where h': "list_remove (bus_nodes b) p = Some h'" "nxt (h' p) = NULL" by blast
  have nil: "trigger_loop run th ty cmd data d b' NULL = None" if "bus_head b' = bus_head b" for run d b'
    using that p(6) by (subst trigger_loop.simps) (simp add: trigger_visit_def)
  show ?thesis
    unfolding event_service_event_trigger_def trigger_start_def prod.case p(1)
    using p assms(2-5) f h' nil
    by (subst trigger_loop.simps)
      (simp add: trigger_visit_def event_service_unsubscribe_def event_service_unsubscribe_thread_def sub_free_def overlay_window_post_event_def Let_def)
qed

text \<open>A change of the connection posted while the app's queue is full calls a destructor that is always null.\<close>

lemma connection_update_faults: "connection_service_update True False c b = None"
  by (simp add: connection_service_update_def event_service_post_def appmanager_post_event_message_def)

end
