(* ===== verification/Timers.thy ===== *)
theory Timers
  imports NodeList
begin

section \<open>Timers: rcore/appmanager_app_timer.c and rwatch/event/app_timer.c\<close>

text \<open>
  A thread's timers: a singly linked list of \<open>CoreTimer\<close>s in order of expiry, walked by the C with a
  pointer to the pointer to the next timer, here a \<open>slot\<close> (the thread's head or a timer's \<open>next\<close>
  field). \<open>AppTimer\<close> embeds a \<open>CoreTimer\<close> at its start, and the application interface registers,
  reschedules and cancels by a 16-bit handle. The state holds the heap of timers, the addresses
  that are allocated, the tick count and the handle counter. A failing assert, a null
  dereference and the freeing of what is not allocated are \<open>None\<close>. \<open>hz\<close> is \<open>configTICK_RATE_HZ\<close>; the
  application's callbacks are a parameter. The lemmas show that the list stays sorted and free of cycles,
  and that allocated timers and listed timers are the same.
\<close>

datatype timer_fn = NoCallback | AppTimerCallback | OtherCallback nat

record app_timer =
  t_when :: u32
  t_callback :: timer_fn
  t_next :: ptr
  t_cb :: nat
  t_priv :: nat
  t_scheduled :: bool
  t_id :: u16

record tq =
  tq_head :: ptr
  tq_heap :: "ptr \<Rightarrow> app_timer"
  tq_live :: "ptr set"
  tq_now :: u32
  tq_id :: u16

datatype slot = HeadSlot | NextSlot ptr

primrec load :: "tq \<Rightarrow> slot \<Rightarrow> ptr" where
  "load s HeadSlot = tq_head s" |
  "load s (NextSlot p) = t_next (tq_heap s p)"

definition upd :: "tq \<Rightarrow> ptr \<Rightarrow> (app_timer \<Rightarrow> app_timer) \<Rightarrow> tq" where
  "upd s p f = s\<lparr>tq_heap := (tq_heap s)(p := f (tq_heap s p))\<rparr>"

primrec store :: "tq \<Rightarrow> slot \<Rightarrow> ptr \<Rightarrow> tq" where
  "store s HeadSlot q = s\<lparr>tq_head := q\<rparr>" |
  "store s (NextSlot p) q = upd s p (\<lambda>t. t\<lparr>t_next := q\<rparr>)"

abbreviation when_of :: "tq \<Rightarrow> ptr \<Rightarrow> u32" where
  "when_of s p \<equiv> t_when (tq_heap s p)"

subsection \<open>The queue\<close>

definition appmanager_timer_get_next_expiry :: "tq \<Rightarrow> u32" where
  "appmanager_timer_get_next_expiry s =
    (if tq_head s \<noteq> NULL
     then if tq_now s > when_of s (tq_head s) then 0 else when_of s (tq_head s) - tq_now s
     else - 1)"

partial_function (option) timer_add_loop :: "tq \<Rightarrow> u32 \<Rightarrow> slot \<Rightarrow> slot option" where
  "timer_add_loop s w sl =
    (if load s sl \<noteq> NULL \<and> w > when_of s (load s sl) then timer_add_loop s w (NextSlot (load s sl)) else Some sl)"

definition appmanager_timer_add :: "tq \<Rightarrow> ptr \<Rightarrow> tq option" where
  "appmanager_timer_add s timer = do {
     tnext \<leftarrow> timer_add_loop s (when_of s timer) HeadSlot;
     let s = upd s timer (\<lambda>t. t\<lparr>t_next := load s tnext\<rparr>);
     Some (store s tnext timer) }"

partial_function (option) timer_remove_loop :: "tq \<Rightarrow> ptr \<Rightarrow> slot \<Rightarrow> tq option" where
  "timer_remove_loop s timer sl =
    (if load s sl = NULL then None
     else if load s sl = timer then Some (store s sl (t_next (tq_heap s timer)))
     else timer_remove_loop s timer (NextSlot (load s sl)))"

definition appmanager_timer_remove :: "tq \<Rightarrow> ptr \<Rightarrow> tq option" where
  "appmanager_timer_remove s timer = timer_remove_loop s timer HeadSlot"

subsection \<open>Application timers\<close>

definition app_free :: "tq \<Rightarrow> ptr \<Rightarrow> tq option" where
  "app_free s p = (if p \<in> tq_live s then Some (s\<lparr>tq_live := tq_live s - {p}\<rparr>) else None)"

definition app_timer_callback :: "(nat \<Rightarrow> nat \<Rightarrow> tq \<Rightarrow> tq option) \<Rightarrow> tq \<Rightarrow> ptr \<Rightarrow> tq option" where
  "app_timer_callback user s timer = do {
     let s = upd s timer (\<lambda>t. t\<lparr>t_scheduled := False\<rparr>);
     s \<leftarrow> user (t_cb (tq_heap s timer)) (t_priv (tq_heap s timer)) s;
     app_free s timer }"

text \<open>\<open>other\<close> is what the callbacks of timers that are not application timers do.\<close>

definition appmanager_timer_expired :: "(nat \<Rightarrow> nat \<Rightarrow> tq \<Rightarrow> tq option) \<Rightarrow> (nat \<Rightarrow> ptr \<Rightarrow> tq \<Rightarrow> tq option) \<Rightarrow> tq \<Rightarrow> ptr \<Rightarrow> tq option" where
  "appmanager_timer_expired user other s timer = do {
     c_assert (timer \<noteq> NULL);
     let s' = s\<lparr>tq_head := t_next (tq_heap s timer)\<rparr>;
     case t_callback (tq_heap s timer) of
       NoCallback \<Rightarrow> Some s'
     | AppTimerCallback \<Rightarrow> app_timer_callback user s' timer
     | OtherCallback i \<Rightarrow> other i timer s' }"

definition pdMS_TO_TICKS :: "u32 \<Rightarrow> u32 \<Rightarrow> u32" where
  "pdMS_TO_TICKS hz ms = ms * hz div 1000"

definition app_timer_next_free_id :: "tq \<Rightarrow> u16 \<times> tq" where
  "app_timer_next_free_id s = (tq_id s, s\<lparr>tq_id := tq_id s + 1\<rparr>)"

text \<open>\<open>mem\<close> is the address \<open>app_calloc\<close> returns, \<open>NULL\<close> when there is no memory.\<close>

definition app_timer_register :: "u32 \<Rightarrow> tq \<Rightarrow> ptr \<Rightarrow> u32 \<Rightarrow> nat \<Rightarrow> nat \<Rightarrow> (u16 \<times> tq) option" where
  "app_timer_register hz s mem ms cb priv =
    (if mem = NULL then Some (0, s)
     else let (i, s) = app_timer_next_free_id s;
              s = s\<lparr>tq_live := insert mem (tq_live s)\<rparr>;
              s = upd s mem (\<lambda>_. \<lparr> t_when = tq_now s + pdMS_TO_TICKS hz ms, t_callback = AppTimerCallback, t_next = NULL,
                                   t_cb = cb, t_priv = priv, t_scheduled = True, t_id = i \<rparr>)
          in do { s \<leftarrow> appmanager_timer_add s mem; Some (i, s) })"

partial_function (option) get_by_id_loop :: "tq \<Rightarrow> u16 \<Rightarrow> slot \<Rightarrow> ptr option" where
  "get_by_id_loop s i sl =
    (if load s sl = NULL then Some NULL
     else if t_id (tq_heap s (load s sl)) = i then Some (load s sl)
     else if NextSlot (load s sl) = sl then Some NULL
     else get_by_id_loop s i (NextSlot (load s sl)))"

definition app_timer_get_by_id :: "tq \<Rightarrow> u16 \<Rightarrow> ptr option" where
  "app_timer_get_by_id s i = get_by_id_loop s i HeadSlot"

definition app_timer_reschedule :: "u32 \<Rightarrow> tq \<Rightarrow> u16 \<Rightarrow> u32 \<Rightarrow> (bool \<times> tq) option" where
  "app_timer_reschedule hz s handle ms = do {
     timer \<leftarrow> app_timer_get_by_id s handle;
     if timer = NULL \<or> \<not> t_scheduled (tq_heap s timer) then Some (False, s)
     else do {
       s \<leftarrow> appmanager_timer_remove s timer;
       let s = upd s timer (\<lambda>t. t\<lparr>t_when := tq_now s + pdMS_TO_TICKS hz ms\<rparr>);
       s \<leftarrow> appmanager_timer_add s timer;
       Some (True, s) } }"

definition app_timer_cancel :: "tq \<Rightarrow> u16 \<Rightarrow> tq option" where
  "app_timer_cancel s handle = do {
     timer \<leftarrow> app_timer_get_by_id s handle;
     if timer = NULL then Some s
     else do {
       s \<leftarrow> (if t_scheduled (tq_heap s timer) then appmanager_timer_remove s timer else Some s);
       app_free s timer } }"

subsection \<open>Chains\<close>

fun chain :: "tq \<Rightarrow> slot \<Rightarrow> ptr list \<Rightarrow> bool" where
  "chain s sl [] = (load s sl = NULL)" |
  "chain s sl (x # xs) = (load s sl = x \<and> x \<noteq> NULL \<and> chain s (NextSlot x) xs)"

definition tq_ok :: "tq \<Rightarrow> ptr list \<Rightarrow> bool" where
  "tq_ok s xs \<longleftrightarrow> chain s HeadSlot xs \<and> distinct xs \<and> sorted_wrt (\<lambda>x y. when_of s x \<le> when_of s y) xs"

definition slot_of :: "ptr list \<Rightarrow> slot \<Rightarrow> slot" where
  "slot_of xs sl = (if xs = [] then sl else NextSlot (last xs))"

lemma upd_fields [simp]: "tq_head (upd s p f) = tq_head s" "tq_live (upd s p f) = tq_live s" "tq_now (upd s p f) = tq_now s"
  "tq_id (upd s p f) = tq_id s" "tq_heap (upd s p f) q = (if q = p then f (tq_heap s p) else tq_heap s q)"
  by (simp_all add: upd_def)

lemma store_fields [simp]: "tq_live (store s sl q) = tq_live s" "tq_now (store s sl q) = tq_now s" "tq_id (store s sl q) = tq_id s"
  "t_when (tq_heap (store s sl q) p) = t_when (tq_heap s p)" "t_callback (tq_heap (store s sl q) p) = t_callback (tq_heap s p)"
  "t_scheduled (tq_heap (store s sl q) p) = t_scheduled (tq_heap s p)" "t_id (tq_heap (store s sl q) p) = t_id (tq_heap s p)"
  by (cases sl; simp)+

lemma load_store [simp]: "load (store s sl q) sl' = (if sl' = sl then q else load s sl')"
  by (cases sl; cases sl') auto

lemma load_upd [simp]: "load (upd s p f) sl = (if sl = NextSlot p then t_next (f (tq_heap s p)) else load s sl)"
  by (cases sl) auto


lemma chain_cong: "(\<And>sl'. sl' \<in> insert sl (NextSlot ` set xs) \<Longrightarrow> load s' sl' = load s sl') \<Longrightarrow> chain s' sl xs = chain s sl xs"
  by (induction xs arbitrary: sl) auto

lemma chain_split: "chain s sl (xs @ ys) \<Longrightarrow> chain s (slot_of xs sl) ys"
  by (induction xs arbitrary: sl) (auto simp: slot_of_def)

text \<open>Changing what the slot after \<open>xs\<close> holds replaces the rest of the chain.\<close>

lemma chain_replace:
  assumes "chain s sl (xs @ ys)" "distinct xs" "sl \<notin> NextSlot ` set xs"
    and "\<And>sl'. sl' \<in> insert sl (NextSlot ` set xs) \<Longrightarrow> sl' \<noteq> slot_of xs sl \<Longrightarrow> load s' sl' = load s sl'"
    and "chain s' (slot_of xs sl) zs"
  shows "chain s' sl (xs @ zs)"
  using assms
proof (induction xs arbitrary: sl)
  case (Cons x xs)
  have "sl \<noteq> slot_of (x # xs) sl" using Cons.prems(3) last_in_set [of "x # xs"] by (auto simp: slot_of_def)
  then have l: "load s' sl = x" "x \<noteq> NULL" using Cons.prems(1,4) by auto
  have so: "slot_of xs (NextSlot x) = slot_of (x # xs) sl" by (simp add: slot_of_def)
  have "chain s' (NextSlot x) (xs @ zs)"
    by (rule Cons.IH) (use Cons.prems so in auto)
  then show ?case using l by simp
qed (simp add: slot_of_def)

lemma chain_unique: "chain s sl xs \<Longrightarrow> chain s sl ys \<Longrightarrow> xs = ys"
  by (induction xs arbitrary: sl ys) (case_tac ys; auto)+


subsection \<open>What the queue operations do\<close>

lemma add_loop:
  "chain s sl xs \<Longrightarrow> timer_add_loop s w sl = Some (slot_of (takeWhile (\<lambda>x. when_of s x < w) xs) sl)"
proof (induction xs arbitrary: sl)
  case Nil
  then show ?case by (subst timer_add_loop.simps) (simp add: slot_of_def)
next
  case (Cons x xs)
  then show ?case by (subst timer_add_loop.simps) (auto simp: slot_of_def)
qed

definition tq_insert :: "tq \<Rightarrow> ptr \<Rightarrow> ptr list \<Rightarrow> ptr list" where
  "tq_insert s t xs = takeWhile (\<lambda>x. when_of s x < when_of s t) xs @ t # dropWhile (\<lambda>x. when_of s x < when_of s t) xs"

lemma tq_insert_set [simp]: "set (tq_insert s t xs) = insert t (set xs)"
proof -
  have "set (takeWhile P xs) \<union> set (dropWhile P xs) = set xs" for P
    by (metis set_append takeWhile_dropWhile_id)
  then show ?thesis by (auto simp: tq_insert_def)
qed

lemma tq_insert_sorted:
  assumes "sorted_wrt (\<lambda>x y. when_of s x \<le> when_of s y) xs"
  shows "sorted_wrt (\<lambda>x y. when_of s x \<le> when_of s y) (tq_insert s t xs)"
  using assms unfolding tq_insert_def
  by (induction xs) (auto simp: not_less dest!: set_takeWhileD set_dropWhileD intro: less_imp_le)

lemma tq_insert_distinct: "distinct xs \<Longrightarrow> t \<notin> set xs \<Longrightarrow> distinct (tq_insert s t xs)"
proof -
  assume d: "distinct xs" "t \<notin> set xs"
  let ?P = "\<lambda>x. when_of s x < when_of s t"
  have "distinct (takeWhile ?P xs @ dropWhile ?P xs)" using d(1) by simp
  then show ?thesis using d(2) unfolding tq_insert_def
    by (simp only: distinct_append distinct.simps list.set(2)) (auto dest: set_takeWhileD set_dropWhileD)
qed

definition same_timers :: "tq \<Rightarrow> tq \<Rightarrow> bool" where
  "same_timers s' s \<longleftrightarrow> tq_live s' = tq_live s \<and> tq_now s' = tq_now s \<and> tq_id s' = tq_id s \<and>
     (\<forall>p. (tq_heap s' p)\<lparr>t_next := 0\<rparr> = (tq_heap s p)\<lparr>t_next := 0\<rparr>)"

lemma same_timersD:
  assumes "same_timers s' s"
  shows "when_of s' p = when_of s p" "t_callback (tq_heap s' p) = t_callback (tq_heap s p)"
    "t_scheduled (tq_heap s' p) = t_scheduled (tq_heap s p)" "t_id (tq_heap s' p) = t_id (tq_heap s p)"
    "t_cb (tq_heap s' p) = t_cb (tq_heap s p)" "t_priv (tq_heap s' p) = t_priv (tq_heap s p)"
    "tq_live s' = tq_live s" "tq_now s' = tq_now s" "tq_id s' = tq_id s"
proof -
  have e: "(tq_heap s' p)\<lparr>t_next := 0\<rparr> = (tq_heap s p)\<lparr>t_next := 0\<rparr>" using assms by (simp add: same_timers_def)
  show "when_of s' p = when_of s p" using arg_cong [OF e, of t_when] by simp
  show "t_callback (tq_heap s' p) = t_callback (tq_heap s p)" using arg_cong [OF e, of t_callback] by simp
  show "t_scheduled (tq_heap s' p) = t_scheduled (tq_heap s p)" using arg_cong [OF e, of t_scheduled] by simp
  show "t_id (tq_heap s' p) = t_id (tq_heap s p)" using arg_cong [OF e, of t_id] by simp
  show "t_cb (tq_heap s' p) = t_cb (tq_heap s p)" using arg_cong [OF e, of t_cb] by simp
  show "t_priv (tq_heap s' p) = t_priv (tq_heap s p)" using arg_cong [OF e, of t_priv] by simp
qed (use assms in \<open>simp_all add: same_timers_def\<close>)

lemma same_timers_store: "same_timers (store s sl q) s"
  by (cases sl) (auto simp: same_timers_def)

lemma same_timers_trans: "same_timers a b \<Longrightarrow> same_timers b c \<Longrightarrow> same_timers a c"
  by (simp add: same_timers_def)

lemma same_timers_next: "same_timers (upd s p (\<lambda>t. t\<lparr>t_next := q\<rparr>)) s"
  by (auto simp: same_timers_def)

lemma timer_add:
  assumes ok: "tq_ok s xs" and t: "t \<notin> set xs" "t \<noteq> NULL"
  shows "\<exists>s'. appmanager_timer_add s t = Some s' \<and> tq_ok s' (tq_insert s t xs) \<and> same_timers s' s"
proof -
  define ys zs where "ys = takeWhile (\<lambda>x. when_of s x < when_of s t) xs" and "zs = dropWhile (\<lambda>x. when_of s x < when_of s t) xs"
  have xs: "xs = ys @ zs" by (simp add: ys_def zs_def)
  define sl where "sl = slot_of ys HeadSlot"
  define s1 where "s1 = upd s t (\<lambda>u. u\<lparr>t_next := load s sl\<rparr>)"
  define s2 where "s2 = store s1 sl t"
  have c: "chain s HeadSlot (ys @ zs)" "distinct (ys @ zs)" using ok by (simp_all add: tq_ok_def xs)
  have add: "appmanager_timer_add s t = Some s2"
    using add_loop [OF c(1), of "when_of s t"] unfolding xs [symmetric]
    by (simp add: appmanager_timer_add_def ys_def [symmetric] sl_def [symmetric] s1_def s2_def)
  have nt: "sl \<noteq> NextSlot t" using t last_in_set [of ys] by (auto simp: sl_def slot_of_def xs)
  have zl: "load s2 sl = t" by (simp add: s2_def)
  have zt: "load s2 (NextSlot t) = load s sl" unfolding s2_def load_store using nt by (simp add: s1_def)
  have cz: "chain s sl zs" using chain_split [OF c(1)] by (simp add: sl_def)
  have "chain s2 (NextSlot t) zs"
  proof (cases zs)
    case Nil
    then show ?thesis using cz zt by simp
  next
    case (Cons z zs')
    have "chain s2 (NextSlot z) zs' = chain s (NextSlot z) zs'"
    proof (rule chain_cong)
      fix sl' assume "sl' \<in> insert (NextSlot z) (NextSlot ` set zs')"
      then obtain y where y: "sl' = NextSlot y" "y \<in> set zs" using Cons by auto
      have "y \<noteq> t" using y t xs by auto
      moreover have "last ys \<notin> set zs" if "ys \<noteq> []" using c(2) last_in_set [OF that] by auto
      then have "sl' \<noteq> sl" using y by (auto simp: sl_def slot_of_def)
      ultimately show "load s2 sl' = load s sl'" unfolding s2_def load_store s1_def load_upd by (simp add: y)
    qed
    then show ?thesis using cz zt Cons by simp
  qed
  then have "chain s2 sl (t # zs)" using zl t(2) by simp
  then have "chain s2 HeadSlot (ys @ t # zs)"
  proof (intro chain_replace [OF c(1)])
    fix sl' assume "sl' \<in> insert HeadSlot (NextSlot ` set ys)" "sl' \<noteq> slot_of ys HeadSlot"
    moreover have "sl' \<noteq> NextSlot t" using calculation(1) t xs by auto
    ultimately show "load s2 sl' = load s sl'" unfolding s2_def load_store s1_def load_upd by (simp add: sl_def)
  qed (use c(2) in \<open>auto simp: sl_def\<close>)
  moreover have st: "same_timers s2 s"
    unfolding s2_def s1_def by (rule same_timers_trans [OF same_timers_store same_timers_next])
  ultimately have "tq_ok s2 (tq_insert s t xs)"
    using tq_insert_sorted [of s xs t] tq_insert_distinct [of xs t s] ok t same_timersD(1) [OF st]
    by (simp add: tq_ok_def tq_insert_def ys_def [symmetric] zs_def [symmetric])
  then show ?thesis using add st by blast
qed

lemma remove_loop:
  "chain s sl (xs @ t # ys) \<Longrightarrow> t \<notin> set xs \<Longrightarrow> timer_remove_loop s t sl = Some (store s (slot_of xs sl) (t_next (tq_heap s t)))"
proof (induction xs arbitrary: sl)
  case Nil
  then show ?case by (subst timer_remove_loop.simps) (simp add: slot_of_def)
next
  case (Cons x xs)
  then show ?case by (subst timer_remove_loop.simps) (auto simp: slot_of_def)
qed

lemma remove_missing: "chain s sl xs \<Longrightarrow> t \<notin> set xs \<Longrightarrow> timer_remove_loop s t sl = None"
proof (induction xs arbitrary: sl)
  case Nil
  then show ?case by (subst timer_remove_loop.simps) simp
next
  case (Cons x xs)
  then show ?case by (subst timer_remove_loop.simps) auto
qed

lemma timer_remove:
  assumes ok: "tq_ok s (xs @ t # ys)"
  shows "\<exists>s'. appmanager_timer_remove s t = Some s' \<and> tq_ok s' (xs @ ys) \<and> same_timers s' s"
proof -
  define s' where "s' = store s (slot_of xs HeadSlot) (t_next (tq_heap s t))"
  have c: "chain s HeadSlot (xs @ t # ys)" "distinct (xs @ t # ys)" using ok by (simp_all add: tq_ok_def)
  have rm: "appmanager_timer_remove s t = Some s'"
    using remove_loop [OF c(1)] c(2) by (simp add: appmanager_timer_remove_def s'_def)
  have st: "same_timers s' s" unfolding s'_def by (rule same_timers_store)
  have cy: "chain s (NextSlot t) ys" using chain_split [OF c(1)] by simp
  have "chain s' (slot_of xs HeadSlot) ys"
  proof (cases ys)
    case Nil
    then show ?thesis using cy by (simp add: s'_def)
  next
    case (Cons y ys')
    have "chain s' (NextSlot y) ys' = chain s (NextSlot y) ys'"
    proof (rule chain_cong)
      fix sl' assume "sl' \<in> insert (NextSlot y) (NextSlot ` set ys')"
      moreover have "last xs \<notin> set ys" if "xs \<noteq> []" using c(2) last_in_set [OF that] by auto
      ultimately have "sl' \<noteq> slot_of xs HeadSlot" using Cons by (auto simp: slot_of_def)
      then show "load s' sl' = load s sl'" by (simp add: s'_def)
    qed
    then show ?thesis using cy Cons by (simp add: s'_def)
  qed
  then have "chain s' HeadSlot (xs @ ys)"
    by (intro chain_replace [OF c(1)]) (use c(2) in \<open>auto simp: s'_def\<close>)
  then have "tq_ok s' (xs @ ys)"
    using ok same_timersD(1) [OF st] by (auto simp: tq_ok_def sorted_wrt_append)
  then show ?thesis using rm st by blast
qed

lemma get_by_id:
  "chain s sl xs \<Longrightarrow> distinct xs \<Longrightarrow> sl \<notin> NextSlot ` set xs \<Longrightarrow>
   get_by_id_loop s i sl = Some (case filter (\<lambda>x. t_id (tq_heap s x) = i) xs of [] \<Rightarrow> NULL | x # _ \<Rightarrow> x)"
proof (induction xs arbitrary: sl)
  case Nil
  then show ?case by (subst get_by_id_loop.simps) simp
next
  case (Cons x xs)
  show ?case
  proof (cases "t_id (tq_heap s x) = i")
    case True
    then show ?thesis using Cons.prems by (subst get_by_id_loop.simps) simp
  next
    case False
    have "get_by_id_loop s i sl = get_by_id_loop s i (NextSlot x)"
      using Cons.prems False by (subst get_by_id_loop.simps) auto
    then show ?thesis using Cons.IH [of "NextSlot x"] Cons.prems False by auto
  qed
qed


subsection \<open>The invariant of the application timers\<close>

text \<open>\<open>app_inv s xs fired\<close>: the list holds the timers \<open>xs\<close> in order of expiry, all scheduled, and the
  timers that are allocated are those and the \<open>fired\<close> ones, whose callback is running.\<close>

definition app_inv :: "tq \<Rightarrow> ptr list \<Rightarrow> ptr set \<Rightarrow> bool" where
  "app_inv s xs fired \<longleftrightarrow> tq_ok s xs \<and> tq_live s = set xs \<union> fired \<and> set xs \<inter> fired = {} \<and> NULL \<notin> tq_live s \<and>
     (\<forall>x \<in> set xs. t_scheduled (tq_heap s x) \<and> t_callback (tq_heap s x) = AppTimerCallback)"

lemma chain_upd: "t \<notin> set xs \<Longrightarrow> sl \<noteq> NextSlot t \<Longrightarrow> chain (upd s t f) sl xs = chain s sl xs"
  by (rule chain_cong) auto

lemma tq_ok_upd: "tq_ok s xs \<Longrightarrow> t \<notin> set xs \<Longrightarrow> tq_ok (upd s t f) xs"
proof -
  assume a: "tq_ok s xs" "t \<notin> set xs"
  then have "sorted_wrt (\<lambda>x y. when_of (upd s t f) x \<le> when_of (upd s t f) y) xs"
    unfolding tq_ok_def by (elim conjE) (erule sorted_wrt_mono_rel [rotated], auto)
  then show ?thesis using a by (simp add: tq_ok_def chain_upd)
qed

lemma tq_ok_other: "tq_ok (s\<lparr>tq_live := l\<rparr>) xs = tq_ok s xs" "tq_ok (s\<lparr>tq_id := i\<rparr>) xs = tq_ok s xs"
proof -
  have "chain (s\<lparr>tq_live := l\<rparr>) sl xs = chain s sl xs" "chain (s\<lparr>tq_id := i\<rparr>) sl xs = chain s sl xs" for sl
    by (rule chain_cong, case_tac sl'; simp)+
  then show "tq_ok (s\<lparr>tq_live := l\<rparr>) xs = tq_ok s xs" "tq_ok (s\<lparr>tq_id := i\<rparr>) xs = tq_ok s xs"
    by (simp_all add: tq_ok_def)
qed

lemma register_inv:
  assumes inv: "app_inv s xs fired" and m: "mem \<notin> tq_live s" "mem \<noteq> NULL"
  shows "\<exists>s' xs'. app_timer_register hz s mem ms cb priv = Some (tq_id s, s') \<and> app_inv s' xs' fired \<and> set xs' = insert mem (set xs) \<and>
    when_of s' mem = tq_now s + pdMS_TO_TICKS hz ms"
proof -
  define s1 where "s1 = upd (s\<lparr>tq_id := tq_id s + 1, tq_live := insert mem (tq_live s)\<rparr>) mem
     (\<lambda>_. \<lparr> t_when = tq_now s + pdMS_TO_TICKS hz ms, t_callback = AppTimerCallback, t_next = NULL,
            t_cb = cb, t_priv = priv, t_scheduled = True, t_id = tq_id s \<rparr>)"
  have m': "mem \<notin> set xs" using inv m by (auto simp: app_inv_def)
  have "tq_ok s1 xs" using inv unfolding s1_def by (intro tq_ok_upd) (simp_all add: m' tq_ok_other app_inv_def)
  from timer_add [OF this m' m(2)] obtain s2 where s2: "appmanager_timer_add s1 mem = Some s2" "tq_ok s2 (tq_insert s1 mem xs)" "same_timers s2 s1"
    by blast
  note st = same_timersD [OF s2(3)]
  have "app_inv s2 (tq_insert s1 mem xs) fired"
    unfolding app_inv_def using s2(2) inv m m' by (simp add: st) (auto simp: s1_def app_inv_def)
  moreover have "when_of s2 mem = tq_now s + pdMS_TO_TICKS hz ms" by (simp add: st s1_def)
  moreover have "app_timer_register hz s mem ms cb priv = Some (tq_id s, s2)"
    using s2(1) m(2) by (simp add: app_timer_register_def app_timer_next_free_id_def s1_def)
  ultimately show ?thesis by (intro exI [of _ s2] exI [of _ "tq_insert s1 mem xs"]) simp
qed

lemma get_inv:
  assumes "app_inv s xs fired"
  shows "\<exists>t. app_timer_get_by_id s i = Some t \<and> (t = NULL \<and> (\<forall>x \<in> set xs. t_id (tq_heap s x) \<noteq> i) \<or> t \<in> set xs \<and> t_id (tq_heap s t) = i)"
proof -
  have c: "chain s HeadSlot xs" "distinct xs" using assms by (simp_all add: app_inv_def tq_ok_def)
  have g: "app_timer_get_by_id s i = Some (case filter (\<lambda>x. t_id (tq_heap s x) = i) xs of [] \<Rightarrow> NULL | x # _ \<Rightarrow> x)"
    unfolding app_timer_get_by_id_def by (rule get_by_id [OF c]) auto
  show ?thesis
  proof (cases "filter (\<lambda>x. t_id (tq_heap s x) = i) xs")
    case Nil
    then show ?thesis using g by (auto simp: filter_empty_conv)
  next
    case (Cons x ys)
    have "x \<in> set (filter (\<lambda>x. t_id (tq_heap s x) = i) xs)" unfolding Cons by simp
    then have "x \<in> set xs \<and> t_id (tq_heap s x) = i" by simp
    then show ?thesis using g unfolding Cons by simp
  qed
qed

lemma cancel_inv:
  assumes inv: "app_inv s xs fired"
  shows "\<exists>s' xs'. app_timer_cancel s i = Some s' \<and> app_inv s' xs' fired \<and>
    (xs' = xs \<and> s' = s \<and> (\<forall>x \<in> set xs. t_id (tq_heap s x) \<noteq> i) \<or> (\<exists>t \<in> set xs. t_id (tq_heap s t) = i \<and> set xs' = set xs - {t}))"
proof -
  obtain t where t: "app_timer_get_by_id s i = Some t" "t = NULL \<and> (\<forall>x \<in> set xs. t_id (tq_heap s x) \<noteq> i) \<or> t \<in> set xs \<and> t_id (tq_heap s t) = i"
    using get_inv [OF inv] by blast
  show ?thesis
  proof (cases "t = NULL")
    case True
    then have "\<forall>x \<in> set xs. t_id (tq_heap s x) \<noteq> i" using t(2) inv by (auto simp: app_inv_def)
    then show ?thesis using t(1) inv True by (simp add: app_timer_cancel_def)
  next
    case False
    then obtain ys zs where xs: "xs = ys @ t # zs" using t(2) split_list [of t xs] by auto
    have "tq_ok s (ys @ t # zs)" using inv by (simp add: app_inv_def xs)
    from timer_remove [OF this] obtain s1 where s1: "appmanager_timer_remove s t = Some s1" "tq_ok s1 (ys @ zs)" "same_timers s1 s" by blast
    note st = same_timersD [OF s1(3)]
    have d: "distinct xs" using inv by (simp add: app_inv_def tq_ok_def)
    let ?s = "s1\<lparr>tq_live := tq_live s1 - {t}\<rparr>"
    have "app_timer_cancel s i = Some ?s"
      using t(1) False inv s1(1) by (simp add: app_timer_cancel_def app_free_def st app_inv_def xs)
    moreover have "app_inv ?s (ys @ zs) fired"
      unfolding app_inv_def using s1(2) inv d by (auto simp: tq_ok_other st xs app_inv_def)
    moreover have "set (ys @ zs) = set xs - {t}" using d by (auto simp: xs)
    ultimately show ?thesis using t(2) False by (intro exI [of _ ?s] exI [of _ "ys @ zs"]) auto
  qed
qed

lemma reschedule_inv:
  assumes inv: "app_inv s xs fired"
  shows "\<exists>b s' xs'. app_timer_reschedule hz s i ms = Some (b, s') \<and> app_inv s' xs' fired \<and> set xs' = set xs \<and>
    (b \<longrightarrow> (\<exists>t \<in> set xs. t_id (tq_heap s t) = i \<and> when_of s' t = tq_now s + pdMS_TO_TICKS hz ms)) \<and>
    (\<not> b \<longrightarrow> s' = s \<and> (\<forall>x \<in> set xs. t_id (tq_heap s x) \<noteq> i))"
proof -
  obtain t where t: "app_timer_get_by_id s i = Some t" "t = NULL \<and> (\<forall>x \<in> set xs. t_id (tq_heap s x) \<noteq> i) \<or> t \<in> set xs \<and> t_id (tq_heap s t) = i"
    using get_inv [OF inv] by blast
  show ?thesis
  proof (cases "t = NULL")
    case True
    then have "\<forall>x \<in> set xs. t_id (tq_heap s x) \<noteq> i" using t(2) inv by (auto simp: app_inv_def)
    then show ?thesis using t(1) inv True by (auto simp: app_timer_reschedule_def)
  next
    case False
    then obtain ys zs where xs: "xs = ys @ t # zs" using t(2) split_list [of t xs] by auto
    have "tq_ok s (ys @ t # zs)" using inv by (simp add: app_inv_def xs)
    from timer_remove [OF this] obtain s1 where s1: "appmanager_timer_remove s t = Some s1" "tq_ok s1 (ys @ zs)" "same_timers s1 s" by blast
    note st1 = same_timersD [OF s1(3)]
    have d: "distinct xs" using inv by (simp add: app_inv_def tq_ok_def)
    define s2 where "s2 = upd s1 t (\<lambda>u. u\<lparr>t_when := tq_now s1 + pdMS_TO_TICKS hz ms\<rparr>)"
    have nt: "t \<notin> set (ys @ zs)" using d by (auto simp: xs)
    have "tq_ok s2 (ys @ zs)" unfolding s2_def by (rule tq_ok_upd [OF s1(2) nt])
    from timer_add [OF this nt False] obtain s3 where s3: "appmanager_timer_add s2 t = Some s3" "tq_ok s3 (tq_insert s2 t (ys @ zs))" "same_timers s3 s2"
      by blast
    note st3 = same_timersD [OF s3(3)]
    have "app_timer_reschedule hz s i ms = Some (True, s3)"
      using t(1) False inv s1(1) s3(1) by (simp add: app_timer_reschedule_def app_inv_def xs s2_def)
    moreover have "app_inv s3 (tq_insert s2 t (ys @ zs)) fired"
      unfolding app_inv_def using s3(2) inv by (simp add: st3) (auto simp: s2_def st1 xs app_inv_def)
    moreover have "when_of s3 t = tq_now s + pdMS_TO_TICKS hz ms" by (simp add: st3 s2_def st1)
    ultimately show ?thesis using t(2) False
      by (intro exI [of _ True] exI [of _ s3] exI [of _ "tq_insert s2 t (ys @ zs)"]) (auto simp: xs)
  qed
qed

text \<open>The callback of a fired timer may use the timer interface as it likes.\<close>

definition well_behaved :: "(nat \<Rightarrow> nat \<Rightarrow> tq \<Rightarrow> tq option) \<Rightarrow> bool" where
  "well_behaved user \<longleftrightarrow> (\<forall>cb priv s xs fired. app_inv s xs fired \<longrightarrow> (\<exists>s' xs'. user cb priv s = Some s' \<and> app_inv s' xs' fired))"

lemma expired_inv:
  assumes inv: "app_inv s (t # xs) {}" and user: "well_behaved user"
  shows "\<exists>s' xs'. appmanager_timer_expired user other s t = Some s' \<and> app_inv s' xs' {}"
proof -
  have c: "chain s HeadSlot (t # xs)" and d: "distinct (t # xs)" and cb: "t_callback (tq_heap s t) = AppTimerCallback"
    using inv by (auto simp: app_inv_def tq_ok_def)
  define s1 where "s1 = s\<lparr>tq_head := t_next (tq_heap s t)\<rparr>"
  define s2 where "s2 = upd s1 t (\<lambda>u. u\<lparr>t_scheduled := False\<rparr>)"
  have "chain s1 HeadSlot xs"
  proof (cases xs)
    case Nil
    then show ?thesis using c by (simp add: s1_def)
  next
    case (Cons x ys)
    have "chain s1 (NextSlot x) ys = chain s (NextSlot x) ys"
      by (rule chain_cong) (auto simp: s1_def)
    then show ?thesis using c Cons by (simp add: s1_def)
  qed
  then have "tq_ok s1 xs" using inv by (simp add: app_inv_def tq_ok_def) (simp add: s1_def)
  then have "tq_ok s2 xs" unfolding s2_def using d by (intro tq_ok_upd) auto
  then have "app_inv s2 xs {t}"
    using inv d by (auto simp: app_inv_def s2_def s1_def)
  then obtain s3 xs' where s3: "user (t_cb (tq_heap s t)) (t_priv (tq_heap s t)) s2 = Some s3" "app_inv s3 xs' {t}"
    using user unfolding well_behaved_def by blast
  have "app_inv (s3\<lparr>tq_live := tq_live s3 - {t}\<rparr>) xs' {}"
    using s3(2) by (auto simp: app_inv_def tq_ok_other)
  moreover have "appmanager_timer_expired user other s t = Some (s3\<lparr>tq_live := tq_live s3 - {t}\<rparr>)"
    using s3 c cb by (auto simp: appmanager_timer_expired_def app_timer_callback_def app_free_def s1_def [symmetric] s2_def [symmetric] app_inv_def Let_def)
      (simp_all add: s2_def s1_def)
  ultimately show ?thesis by blast
qed


subsection \<open>All the states the timers can reach\<close>

definition tq_init :: "(ptr \<Rightarrow> app_timer) \<Rightarrow> tq" where
  "tq_init h = \<lparr> tq_head = NULL, tq_heap = h, tq_live = {}, tq_now = 0, tq_id = 0 \<rparr>"

inductive timer_reach :: "u32 \<Rightarrow> (nat \<Rightarrow> nat \<Rightarrow> tq \<Rightarrow> tq option) \<Rightarrow> (nat \<Rightarrow> ptr \<Rightarrow> tq \<Rightarrow> tq option) \<Rightarrow> tq \<Rightarrow> bool"
  for hz user other where
  init: "timer_reach hz user other (tq_init h)"
| register: "timer_reach hz user other s \<Longrightarrow> mem \<notin> tq_live s \<Longrightarrow> mem \<noteq> NULL \<Longrightarrow>
    app_timer_register hz s mem ms cb priv = Some (i, s') \<Longrightarrow> timer_reach hz user other s'"
| cancel: "timer_reach hz user other s \<Longrightarrow> app_timer_cancel s i = Some s' \<Longrightarrow> timer_reach hz user other s'"
| reschedule: "timer_reach hz user other s \<Longrightarrow> app_timer_reschedule hz s i ms = Some (b, s') \<Longrightarrow> timer_reach hz user other s'"
| tick: "timer_reach hz user other s \<Longrightarrow> timer_reach hz user other (s\<lparr>tq_now := n\<rparr>)"
| expire: "timer_reach hz user other s \<Longrightarrow> appmanager_timer_get_next_expiry s = 0 \<Longrightarrow>
    appmanager_timer_expired user other s (tq_head s) = Some s' \<Longrightarrow> timer_reach hz user other s'"

lemma init_inv: "app_inv (tq_init h) [] {}"
  by (simp add: app_inv_def tq_ok_def tq_init_def)

lemma tick_inv: "app_inv s xs F \<Longrightarrow> app_inv (s\<lparr>tq_now := n\<rparr>) xs F"
proof -
  have "chain (s\<lparr>tq_now := n\<rparr>) sl xs = chain s sl xs" for sl
    by (rule chain_cong, case_tac sl'; simp)
  then show "app_inv s xs F \<Longrightarrow> app_inv (s\<lparr>tq_now := n\<rparr>) xs F" by (auto simp: app_inv_def tq_ok_def)
qed

lemma app_inv_head: "app_inv s xs F \<Longrightarrow> tq_head s = (case xs of [] \<Rightarrow> NULL | x # _ \<Rightarrow> x)"
  by (cases xs) (auto simp: app_inv_def tq_ok_def)

lemma reach_inv:
  assumes "well_behaved user"
  shows "timer_reach hz user other s \<Longrightarrow> \<exists>xs. app_inv s xs {}"
proof (induction rule: timer_reach.induct)
  case (init h)
  show ?case using init_inv by blast
next
  case (register s mem ms cb priv i s')
  then show ?case using register_inv [of s _ "{}" mem hz ms cb priv] by fastforce
next
  case (cancel s i s')
  then show ?case using cancel_inv [of s _ "{}" i] by fastforce
next
  case (reschedule s i ms b s')
  then show ?case using reschedule_inv [of s _ "{}" hz i ms] by fastforce
next
  case (tick s n)
  then show ?case using tick_inv by blast
next
  case (expire s s')
  then obtain xs where xs: "app_inv s xs {}" by blast
  show ?case
  proof (cases xs)
    case Nil
    then have "tq_head s = NULL" using app_inv_head [OF xs] by simp
    then show ?thesis using expire by (simp add: appmanager_timer_expired_def)
  next
    case (Cons t ys)
    then show ?thesis using expired_inv [OF _ assms, of s t ys other] xs app_inv_head [OF xs] expire by fastforce
  qed
qed

text \<open>C20: in every state the timers can reach, by registering, rescheduling, cancelling, the passing of
  time and the expiry of timers whose callbacks use the interface themselves, the list is free of cycles,
  in order of expiry, and holds exactly the timers that are allocated, each scheduled: none is lost and none is freed while listed.\<close>

theorem timers_invariant:
  assumes "well_behaved user" "timer_reach hz user other s"
  shows "\<exists>xs. chain s HeadSlot xs \<and> distinct xs \<and> sorted_wrt (\<lambda>x y. when_of s x \<le> when_of s y) xs \<and>
    set xs = tq_live s \<and> (\<forall>x \<in> set xs. t_scheduled (tq_heap s x))"
  using reach_inv [OF assms] by (auto simp: app_inv_def tq_ok_def)

definition ex_user :: "nat \<Rightarrow> nat \<Rightarrow> tq \<Rightarrow> tq option" where
  "ex_user cb priv s = app_timer_cancel s 7"

lemma ex_user_ok: "well_behaved ex_user"
  unfolding well_behaved_def ex_user_def using cancel_inv by blast

definition ex_tq :: tq where
  "ex_tq = tq_init (\<lambda>_. \<lparr> t_when = 0, t_callback = NoCallback, t_next = 0, t_cb = 0, t_priv = 0, t_scheduled = False, t_id = 0 \<rparr>)"

theorem timers_invariant_witness:
  "\<exists>s' xs. app_timer_register 1000 ex_tq 64 500 1 2 = Some (0, s') \<and> chain s' HeadSlot xs \<and> set xs = {64}"
proof -
  obtain s' where s': "app_timer_register 1000 ex_tq 64 500 1 2 = Some (0, s')" "tq_live s' = {64}"
    using register_inv [OF init_inv, of 64 _ 1000 500 1 2] by (fastforce simp: ex_tq_def tq_init_def app_inv_def)
  have "timer_reach 1000 ex_user (\<lambda>_ _ s. Some s) ex_tq" unfolding ex_tq_def by (rule timer_reach.init)
  then have "timer_reach 1000 ex_user (\<lambda>_ _ s. Some s) s'"
    by (rule timer_reach.register [OF _ _ _ s'(1)]) (simp_all add: ex_tq_def tq_init_def)
  from timers_invariant [OF ex_user_ok this] show ?thesis using s' by auto
qed

text \<open>C28: no timer operation faults: from every reachable state, registering at fresh memory, cancelling and
  rescheduling any handle, and the expiry of the first timer all return; no assert fails, no loop runs on,
  and nothing is freed twice, even when a callback cancels its own handle.\<close>

theorem timers_never_fault:
  assumes "well_behaved user" "timer_reach hz user other s"
  shows "app_timer_cancel s i \<noteq> None \<and> app_timer_reschedule hz s i ms \<noteq> None \<and>
    (mem \<notin> tq_live s \<longrightarrow> app_timer_register hz s mem ms cb priv \<noteq> None) \<and>
    (tq_head s \<noteq> NULL \<longrightarrow> appmanager_timer_expired user other s (tq_head s) \<noteq> None)"
proof (intro conjI impI)
  obtain xs where xs: "app_inv s xs {}" using reach_inv [OF assms] by blast
  show "app_timer_cancel s i \<noteq> None" using cancel_inv [OF xs, of i] by auto
  show "app_timer_reschedule hz s i ms \<noteq> None" using reschedule_inv [OF xs, of hz i ms] by auto
  show "app_timer_register hz s mem ms cb priv \<noteq> None" if "mem \<notin> tq_live s"
    using register_inv [OF xs that, of hz ms cb priv] by (cases "mem = NULL") (auto simp: app_timer_register_def)
  show "appmanager_timer_expired user other s (tq_head s) \<noteq> None" if "tq_head s \<noteq> NULL"
    using app_inv_head [OF xs] that xs expired_inv [OF _ assms(1)] by (cases xs) fastforce+
qed

theorem timers_never_fault_witness:
  "app_timer_cancel ex_tq 5 \<noteq> None \<and> app_timer_register 1000 ex_tq 64 500 1 2 \<noteq> None"
  using timers_never_fault [OF ex_user_ok timer_reach.init] by (simp add: ex_tq_def) (simp add: tq_init_def)

text \<open>\<open>appmanager_timer_add\<close> refines insertion in a sequence sorted by expiry: the timer goes before the first
  that is not earlier, the order of the others and all their fields but \<open>next\<close> are kept.\<close>

theorem timer_add_refines:
  assumes "tq_ok s xs" "t \<notin> set xs" "t \<noteq> NULL"
  shows "\<exists>s'. appmanager_timer_add s t = Some s' \<and> tq_ok s' (tq_insert s t xs) \<and> same_timers s' s"
  by (rule timer_add [OF assms])

theorem timer_add_refines_witness:
  "\<exists>s'. appmanager_timer_add ex_tq 64 = Some s' \<and> tq_ok s' [64]"
  using timer_add_refines [of ex_tq "[]" 64] init_inv by (auto simp: app_inv_def ex_tq_def tq_insert_def)

text \<open>Removing a timer that is not in the list runs off its end into the failing assert, and one that is in it is
  taken out wherever it stands.\<close>

theorem timer_remove_error:
  assumes "tq_ok s xs"
  shows "appmanager_timer_remove s t = None \<longleftrightarrow> t \<notin> set xs"
proof
  have c: "chain s HeadSlot xs" using assms by (simp add: tq_ok_def)
  show "appmanager_timer_remove s t = None" if "t \<notin> set xs"
    using remove_missing [OF c that] by (simp add: appmanager_timer_remove_def)
  show "t \<notin> set xs" if "appmanager_timer_remove s t = None"
  proof
    assume "t \<in> set xs"
    then obtain ys zs where "xs = ys @ t # zs" using split_list by fast
    then show False using timer_remove [of s ys t zs] assms that by simp
  qed
qed

theorem timer_remove_error_witness: "appmanager_timer_remove ex_tq 64 = None"
  using timer_remove_error [of ex_tq "[]" 64] init_inv by (auto simp: app_inv_def ex_tq_def)

text \<open>The runloop may sleep for the time \<open>appmanager_timer_get_next_expiry\<close> returns: a nonzero result
  ends no later than any timer is due, zero means the first timer is due, and with no timer the result is the
  largest tick count.\<close>

theorem next_expiry_bounds:
  assumes "tq_ok s xs"
  shows "(xs = [] \<longrightarrow> appmanager_timer_get_next_expiry s = - 1) \<and>
    (\<forall>x \<in> set xs. appmanager_timer_get_next_expiry s \<noteq> 0 \<longrightarrow>
      unat (tq_now s) + unat (appmanager_timer_get_next_expiry s) \<le> unat (when_of s x)) \<and>
    (xs \<noteq> [] \<longrightarrow> (appmanager_timer_get_next_expiry s = 0 \<longleftrightarrow> when_of s (hd xs) \<le> tq_now s))"
proof (intro conjI impI ballI)
  have h: "tq_head s = (case xs of [] \<Rightarrow> NULL | x # _ \<Rightarrow> x)" "NULL \<notin> set (take 1 xs)"
    using assms by (cases xs; auto simp: tq_ok_def)+
  show "appmanager_timer_get_next_expiry s = - 1" if "xs = []" using that h by (simp add: appmanager_timer_get_next_expiry_def)
  show "appmanager_timer_get_next_expiry s = 0 \<longleftrightarrow> when_of s (hd xs) \<le> tq_now s" if "xs \<noteq> []"
    using that h by (cases xs) (auto simp: appmanager_timer_get_next_expiry_def not_less)
  show "unat (tq_now s) + unat (appmanager_timer_get_next_expiry s) \<le> unat (when_of s x)"
    if x: "x \<in> set xs" and ne: "appmanager_timer_get_next_expiry s \<noteq> 0" for x
  proof -
    obtain y ys where xs: "xs = y # ys" using x by (cases xs) auto
    have le: "when_of s y \<le> when_of s x" using x assms by (auto simp: xs tq_ok_def)
    have nx: "appmanager_timer_get_next_expiry s = when_of s y - tq_now s" "tq_now s \<le> when_of s y"
      using ne h by (auto simp: xs appmanager_timer_get_next_expiry_def split: if_splits)
    have "unat (appmanager_timer_get_next_expiry s) = unat (when_of s y) - unat (tq_now s)"
      unfolding nx(1) by (rule unat_sub_small [OF nx(2)])
    then show ?thesis using nx(2) le by (simp add: word_le_nat_alt)
  qed
qed

theorem next_expiry_bounds_witness: "appmanager_timer_get_next_expiry ex_tq = - 1"
  using next_expiry_bounds [of ex_tq "[]"] init_inv by (auto simp: app_inv_def ex_tq_def)

text \<open>The first handle given out is the value that stands for failure.\<close>

lemma first_handle_is_failure: "mem \<noteq> NULL \<Longrightarrow>
  map_option fst (app_timer_register hz (tq_init h) mem ms cb priv) = map_option fst (app_timer_register hz (tq_init h) NULL ms cb priv)"
  using register_inv [OF init_inv [of h], of mem hz ms cb priv]
  by (auto simp: tq_init_def app_timer_register_def)

end
