(* ===== verification/TickTimer.thy ===== *)
theory TickTimer
  imports TimeZone Timers
begin

section \<open>The tick timer service: rwatch/event/tick_timer_service.c\<close>

text \<open>
  One shared subscription to the change of second, minute, hour, day, month or year. The service keeps a timer in the queue of the
  subscribing thread (theory \<open>Timers\<close>) and computes its expiry from local time (theories \<open>CivilTime\<close> and \<open>TimeZone\<close>). \<open>tick\<close> is the static
  \<open>_state\<close> apart from its timer, whose address is \<open>tt\<close>; the zone \<open>r\<close>, the clock \<open>c\<close> and the tick rate \<open>hz\<close> are arguments, and \<open>tm0\<close> is
  what an uninitialised \<open>struct tm\<close> on the stack holds. The lemmas show when the next tick is.
\<close>

unbundle bit_operations_syntax

definition SECOND_UNIT :: u32 where "SECOND_UNIT = 1"
definition MINUTE_UNIT :: u32 where "MINUTE_UNIT = 2"
definition HOUR_UNIT :: u32 where "HOUR_UNIT = 4"
definition DAY_UNIT :: u32 where "DAY_UNIT = 8"
definition MONTH_UNIT :: u32 where "MONTH_UNIT = 16"
definition YEAR_UNIT :: u32 where "YEAR_UNIT = 32"

record tick =
  tk_onqueue :: bool
  tk_units :: u32
  tk_handler :: nat
  tk_last :: tm

definition TICK_CALLBACK :: timer_fn where "TICK_CALLBACK = OtherCallback 0"

text \<open>The wall time of the next tick.\<close>

definition tick_dtime :: "tzrec \<Rightarrow> tm \<Rightarrow> tick \<Rightarrow> int option" where
  "tick_dtime r tm0 st =
     (let dtime = mktime r (tk_last st) in
      if tk_units st AND SECOND_UNIT \<noteq> 0 then Some (dtime + 1)
      else if tk_units st AND MINUTE_UNIT \<noteq> 0 then
        do { (_, nexttm) \<leftarrow> localtime_r r tm0 (dtime + 60) tm0;
             Some (mktime r (nexttm\<lparr>tm_sec := 0\<rparr>)) }
      else if tk_units st AND (HOUR_UNIT OR DAY_UNIT OR MONTH_UNIT OR YEAR_UNIT) \<noteq> 0 then
        do { (_, nexttm) \<leftarrow> localtime_r r tm0 (dtime + 60 * 60) tm0;
             Some (mktime r (nexttm\<lparr>tm_min := 0, tm_sec := 0\<rparr>)) }
      else Some dtime)"

definition tick_timer_update_next :: "u32 \<Rightarrow> tzrec \<Rightarrow> tm \<Rightarrow> clock \<Rightarrow> ptr \<Rightarrow> tick \<Rightarrow> tq \<Rightarrow> (tick \<times> tq) option" where
  "tick_timer_update_next hz r tm0 c tt st s = do {
     s \<leftarrow> (if tk_onqueue st then appmanager_timer_remove s tt else Some s);
     dtime \<leftarrow> tick_dtime r tm0 st;
     let when = rcore_time_to_ticks hz c dtime 0;
     let when = (if when = 0 then 2 else when);
     s \<leftarrow> appmanager_timer_add (upd s tt (\<lambda>t. t\<lparr>t_when := when, t_callback := TICK_CALLBACK\<rparr>)) tt;
     Some (st\<lparr>tk_onqueue := True\<rparr>, s) }"

definition units_changed :: "tm \<Rightarrow> tm \<Rightarrow> u32" where
  "units_changed tm lasttm =
     (let units = 0;
          units = (if tm_sec tm \<noteq> tm_sec lasttm then units OR SECOND_UNIT else units);
          units = (if tm_min tm \<noteq> tm_min lasttm then units OR MINUTE_UNIT else units);
          units = (if tm_hour tm \<noteq> tm_hour lasttm then units OR HOUR_UNIT else units);
          units = (if tm_mday tm \<noteq> tm_mday lasttm then units OR DAY_UNIT else units);
          units = (if tm_mon tm \<noteq> tm_mon lasttm then units OR MONTH_UNIT else units)
      in if tm_year tm \<noteq> tm_year lasttm then units OR YEAR_UNIT else units)"

text \<open>The result carries the call of the handler, if there is one.\<close>

definition tick_timer_callback :: "u32 \<Rightarrow> tzrec \<Rightarrow> tm \<Rightarrow> clock \<Rightarrow> ptr \<Rightarrow> tick \<Rightarrow> tq \<Rightarrow> ((nat \<times> tm \<times> u32) option \<times> tick \<times> tq) option" where
  "tick_timer_callback hz r tm0 c tt st s = do {
     (_, tm) \<leftarrow> localtime_r r tm0 (fst (rcore_time_ms hz c (tq_now s))) tm0;
     let units = units_changed tm (tk_last st);
     (st, s) \<leftarrow> tick_timer_update_next hz r tm0 c tt (st\<lparr>tk_onqueue := False, tk_last := tm\<rparr>) s;
     Some (if units AND tk_units st \<noteq> 0 then Some (tk_handler st, tm, units) else None, st, s) }"

definition tick_timer_service_subscribe :: "u32 \<Rightarrow> tzrec \<Rightarrow> tm \<Rightarrow> clock \<Rightarrow> ptr \<Rightarrow> u32 \<Rightarrow> nat \<Rightarrow> tick \<Rightarrow> tq \<Rightarrow> (tick \<times> tq) option" where
  "tick_timer_service_subscribe hz r tm0 c tt tick_units handler st s = do {
     (_, tm) \<leftarrow> localtime_r r tm0 (fst (rcore_time_ms hz c (tq_now s))) (tk_last st);
     tick_timer_update_next hz r tm0 c tt (st\<lparr>tk_last := tm, tk_units := tick_units, tk_handler := handler\<rparr>) s }"

definition tick_timer_service_unsubscribe :: "ptr \<Rightarrow> tick \<Rightarrow> tq \<Rightarrow> (tick \<times> tq) option" where
  "tick_timer_service_unsubscribe tt st s =
     (if tk_onqueue st
      then do { s \<leftarrow> appmanager_timer_remove s tt; Some (st\<lparr>tk_onqueue := False\<rparr>, s) }
      else Some (st, s))"

text \<open>\<open>s\<close> is the queue of the thread that ends.\<close>

definition tick_timer_service_unsubscribe_thread :: "ptr \<Rightarrow> tick \<Rightarrow> tq \<Rightarrow> (tick \<times> tq) option" where
  "tick_timer_service_unsubscribe_thread tt st s =
     (if tk_onqueue st
      then do { s \<leftarrow> appmanager_timer_remove s tt; Some (st\<lparr>tk_onqueue := False\<rparr>, s) }
      else Some (st, s))"

subsection \<open>When the next tick is\<close>

lemma mktime_shift:
  "mktime r (tm\<lparr>tm_sec := 0\<rparr>) = mktime r tm - tm_sec tm"
  "mktime r (tm\<lparr>tm_min := 0\<rparr>) = mktime r tm - 60 * tm_min tm"
  by (simp_all add: mktime_def tz_local_to_utc_def tm_to_secs_def Let_def split: prod.splits)

lemma civil_secs_mod:
  assumes "civil_ok tm"
  shows "civil_secs tm mod 60 = tm_sec tm" "civil_secs tm mod 3600 = 60 * tm_min tm + tm_sec tm"
proof -
  let ?d = "civil_day (tm_year tm) (tm_mon tm) (tm_mday tm)"
  have b: "0 \<le> tm_sec tm" "tm_sec tm < 60" "0 \<le> tm_min tm" "tm_min tm < 60" using assms by (simp_all add: civil_ok_def)
  have e: "civil_secs tm = tm_sec tm + 60 * (1440 * ?d + 60 * tm_hour tm + tm_min tm)"
    "civil_secs tm = (60 * tm_min tm + tm_sec tm) + 3600 * (24 * ?d + tm_hour tm)" by (simp_all add: civil_secs_def)
  show "civil_secs tm mod 60 = tm_sec tm" unfolding e(1) mod_mult_self2 using b by simp
  show "civil_secs tm mod 3600 = 60 * tm_min tm + tm_sec tm" unfolding e(2) mod_mult_self2 using b by simp
qed

text \<open>The length of the smallest unit subscribed to; days and more are looked at every hour.\<close>

definition tick_step :: "u32 \<Rightarrow> int" where
  "tick_step units = (if units AND SECOND_UNIT \<noteq> 0 then 1 else if units AND MINUTE_UNIT \<noteq> 0 then 60 else 3600)"

lemma tick_dtime_step:
  assumes "hasdst r" "localtime_r r tm0 t tm = Some (True, tk_last st)"
    and "localtime_r r tm0 (t + tick_step (tk_units st)) tm0 = Some (True, nx)"
    and "tk_units st AND (SECOND_UNIT OR MINUTE_UNIT OR HOUR_UNIT OR DAY_UNIT OR MONTH_UNIT OR YEAR_UNIT) \<noteq> 0"
  shows "tick_dtime r tm0 st = Some (t + tick_step (tk_units st) - civil_secs nx mod tick_step (tk_units st))"
proof -
  obtain l dst where l: "tz_utc_to_local r tm0 t = Some (l, dst)" "civil_ok (tk_last st)" "civil_secs (tk_last st) = l"
    "tm_isdst (tk_last st) = (if dst then 1 else 0)" by (rule localtime_Some [OF assms(2)])
  have mk: "mktime r (tk_last st) = t"
    using utc_local_utc [OF assms(1) l(1)] tm_to_secs_ok [OF l(2)] l(3,4) by (cases dst) (simp_all add: mktime_def)
  obtain k d where k: "tz_utc_to_local r tm0 (t + tick_step (tk_units st)) = Some (k, d)" "civil_ok nx" "civil_secs nx = k"
    "tm_isdst nx = (if d then 1 else 0)" by (rule localtime_Some [OF assms(3)])
  have mkn: "mktime r nx = t + tick_step (tk_units st)"
    using utc_local_utc [OF assms(1) k(1)] tm_to_secs_ok [OF k(2)] k(3,4) by (cases d) (simp_all add: mktime_def)
  have u: "tk_units st AND (HOUR_UNIT OR DAY_UNIT OR MONTH_UNIT OR YEAR_UNIT) \<noteq> 0"
    if "tk_units st AND SECOND_UNIT = 0" "tk_units st AND MINUTE_UNIT = 0"
    using assms(4) that by (simp add: bit.conj_disj_distrib or.assoc)
  show ?thesis
    using assms(3) u mkn civil_secs_mod [OF k(2)]
    by (auto simp: tick_dtime_def mk tick_step_def mktime_shift Let_def)
qed

text \<open>Local time is defined on a whole day when it is defined at one instant of it.\<close>

lemma local_same_day:
  assumes "tz_utc_to_local r tm0 v = Some x" "u div 86400 = v div 86400"
  shows "\<exists>l dst. tz_utc_to_local r tm0 u = Some (l, dst)"
proof (cases "hasdst r")
  case True
  with assms(1) obtain tm vs ve where tm: "gmtime_r v tm0 = Some (True, tm)"
    and vs: "transtime (tm_year tm + 1900) (dst_start_mode r) (dst_start_param r) = Some vs"
    and ve: "transtime (tm_year tm + 1900) (dst_end_mode r) (dst_end_param r) = Some ve"
    by (auto simp: tz_utc_to_local_def Let_def bind_eq_Some_conv c_assert_def split: if_splits)
  have nr: "\<not> time_rejected v" using tm by (auto simp: gmtime_r_def)
  obtain tm' where c: "secs_to_tm v (tm0\<lparr>tm_isdst := 0\<rparr>) =
      (if tm_year tm' > INT_MAX \<or> tm_year tm' < INT_MIN then Some (- 1, tm0\<lparr>tm_isdst := 0\<rparr>) else Some (0, tm'))"
    "0 \<le> tm_yday tm'" "tm_yday tm' < year_days (tm_year tm')" "v div 86400 = days_before_year (tm_year tm') + tm_yday tm'"
    using secs_to_tm_civil [OF nr] by metis
  then have "tm = tm'" "INT_MIN \<le> tm_year tm" "tm_year tm \<le> INT_MAX" using tm nr by (auto simp: gmtime_r_def split: if_splits)
  then have y: "days_before_year (tm_year tm) \<le> u div 86400" "u div 86400 < days_before_year (tm_year tm + 1)" "INT_MIN \<le> tm_year tm" "tm_year tm \<le> INT_MAX"
    using c(2-4) assms(2) by (simp_all add: days_before_year_Suc)
  obtain tmu where "gmtime_r u tm0 = Some (True, tmu)" "tm_year tmu = tm_year tm" by (rule gmtime_year [OF y])
  then show ?thesis using True vs ve by (simp add: tz_utc_to_local_def Let_def c_assert_def)
qed (auto simp: tz_utc_to_local_def)

lemma local_between:
  assumes "tz_utc_to_local r tm0 t = Some x" "tz_utc_to_local r tm0 t1 = Some y" "t \<le> u" "u \<le> t1" "t1 \<le> t + 86400"
  shows "\<exists>l dst. tz_utc_to_local r tm0 u = Some (l, dst)"
proof -
  have "u div 86400 = t div 86400 \<or> u div 86400 = t1 div 86400"
    using zdiv_mono1 [OF assms(3), of 86400] zdiv_mono1 [OF assms(4), of 86400] zdiv_mono1 [OF assms(5), of 86400] div_add_self2 [of 86400 t] by auto
  then show ?thesis using local_same_day assms(1,2) by metis
qed

text \<open>Where the two offsets differ by whole units, local times are congruent to instants.\<close>

lemma local_mod:
  assumes "hasdst r" "(tz_offset r - dstoffset r) mod n = 0" "tz_utc_to_local r tm0 u = Some (l, dst)"
  shows "l mod n = (u - tz_offset r) mod n"
proof -
  have "l = u - (if dst then dstoffset r else tz_offset r)"
    using assms(1,3) by (auto simp: tz_utc_to_local_def Let_def bind_eq_Some_conv split: if_splits)
  moreover have "(u - dstoffset r) mod n = (u - tz_offset r) mod n"
    using assms(2) by (simp add: mod_eq_dvd_iff) (metis dvd_eq_mod_eq_0 diff_diff_eq2 add_diff_cancel_left add_diff_cancel_left' diff_add_eq diff_diff_add uminus_add_conv_diff)
  ultimately show ?thesis by simp
qed

text \<open>C38: the tick timer in a zone with daylight saving time whose two offsets differ by whole units. The unit is a second, a minute or
  an hour, according to the smallest one subscribed to. Called with the local time of instant \<open>t\<close>, the update puts the service's timer in
  the sorted queue of the thread with the expiry of the first instant after \<open>t\<close> at which the local time is a whole unit, also when daylight
  saving time begins or ends in between. (Where the offsets differ by half an hour and the unit is the hour the theorem claims nothing.)\<close>

theorem tick_next_boundary:
  assumes "hasdst r" "(tz_offset r - dstoffset r) mod tick_step (tk_units st) = 0" "localtime_r r tm0 t tm = Some (True, tk_last st)"
    and "localtime_r r tm0 (t + tick_step (tk_units st)) tm0 = Some (True, nx)"
    and "tk_units st AND (SECOND_UNIT OR MINUTE_UNIT OR HOUR_UNIT OR DAY_UNIT OR MONTH_UNIT OR YEAR_UNIT) \<noteq> 0"
    and "tq_ok s xs" "tt \<notin> set xs" "tt \<noteq> NULL" "\<not> tk_onqueue st"
  shows "\<exists>t' s'. tick_timer_update_next hz r tm0 c tt st s = Some (st\<lparr>tk_onqueue := True\<rparr>, s') \<and>
    t < t' \<and> (\<exists>l dst. tz_utc_to_local r tm0 t' = Some (l, dst) \<and> l mod tick_step (tk_units st) = 0) \<and>
    (\<forall>u l dst. t < u \<and> u < t' \<and> tz_utc_to_local r tm0 u = Some (l, dst) \<longrightarrow> l mod tick_step (tk_units st) \<noteq> 0) \<and>
    (\<exists>ys zs. xs = ys @ zs \<and> tq_ok s' (ys @ tt # zs)) \<and>
    when_of s' tt = (let w = rcore_time_to_ticks hz c t' 0 in if w = 0 then 2 else w)"
proof -
  let ?n = "tick_step (tk_units st)" and ?k = "civil_secs nx"
  define t' where "t' = t + ?n - ?k mod ?n"
  have n: "0 < ?n" "?n \<le> 86400" by (simp_all add: tick_step_def)
  have t': "t < t'" "t' \<le> t + ?n"
    using pos_mod_bound [OF n(1), of ?k] pos_mod_sign [OF n(1), of ?k] by (simp_all add: t'_def)
  obtain l0 d0 where l0: "tz_utc_to_local r tm0 t = Some (l0, d0)" by (rule localtime_Some [OF assms(3)])
  obtain l1 d1 where l1: "tz_utc_to_local r tm0 (t + ?n) = Some (l1, d1)" "?k = l1" by (rule localtime_Some [OF assms(4)])
  obtain l' dst' where l': "tz_utc_to_local r tm0 t' = Some (l', dst')" using local_between [OF l0 l1(1), of t'] t' n(2) by auto
  note lm = local_mod [OF assms(1,2)]
  have "?k mod ?n = (t + ?n - tz_offset r) mod ?n" using lm [OF l1(1)] l1(2) by simp
  then have z: "(t' - tz_offset r) mod ?n = 0"
    unfolding t'_def by (metis diff_diff_eq2 diff_diff_add add.commute cancel_comm_monoid_add_class.diff_cancel mod_0 mod_diff_cong mod_diff_right_eq mod_mod_trivial)
  have whole: "l' mod ?n = 0" using lm [OF l'] z by simp
  have first: "l mod ?n \<noteq> 0" if "t < u" "u < t'" "tz_utc_to_local r tm0 u = Some (l, dst)" for u l dst
  proof
    assume "l mod ?n = 0"
    then have "(u - tz_offset r) mod ?n = (t' - tz_offset r) mod ?n" using lm [OF that(3)] z by simp
    then have "?n dvd t' - u" by (simp add: mod_eq_dvd_iff) (metis dvd_minus_iff minus_diff_eq)
    then have "?n \<le> t' - u" using that(2) by (intro zdvd_imp_le) simp_all
    then show False using that(1) t'(2) by simp
  qed
  have d: "tick_dtime r tm0 st = Some t'" unfolding t'_def by (rule tick_dtime_step [OF assms(1,3-5)])
  define w where "w = (let w = rcore_time_to_ticks hz c t' 0 in if w = 0 then 2 else w)"
  define s1 where "s1 = upd s tt (\<lambda>t. t\<lparr>t_when := w, t_callback := TICK_CALLBACK\<rparr>)"
  have "tq_ok s1 xs" unfolding s1_def using assms(6,7) by (rule tq_ok_upd)
  then obtain s' where s': "appmanager_timer_add s1 tt = Some s'" "tq_ok s' (tq_insert s1 tt xs)" "same_timers s' s1"
    using timer_add [OF _ assms(7,8)] by blast
  have wh: "when_of s' tt = w" using same_timersD(1) [OF s'(3)] by (simp add: s1_def upd_def)
  have up: "tick_timer_update_next hz r tm0 c tt st s = Some (st\<lparr>tk_onqueue := True\<rparr>, s')"
    using assms(9) s'(1) by (simp add: tick_timer_update_next_def d s1_def w_def Let_def)
  have pos: "\<exists>ys zs. xs = ys @ zs \<and> tq_ok s' (ys @ tt # zs)"
    using s'(2) takeWhile_dropWhile_id [of "\<lambda>x. when_of s1 x < when_of s1 tt" xs] unfolding tq_insert_def by metis
  have at: "\<exists>l dst. tz_utc_to_local r tm0 t' = Some (l, dst) \<and> l mod ?n = 0" by (intro exI conjI) (rule l', rule whole)
  have before: "\<forall>u l dst. t < u \<and> u < t' \<and> tz_utc_to_local r tm0 u = Some (l, dst) \<longrightarrow> l mod ?n \<noteq> 0"
    by (intro allI impI, elim conjE) (rule first)
  show ?thesis
    by (rule exI [of _ t'], rule exI [of _ s'], intro conjI) (rule up, rule t'(1), rule at, rule before, rule pos, rule wh [unfolded w_def])
qed

definition ex_tick :: tick where
  "ex_tick = \<lparr> tk_onqueue = False, tk_units = MINUTE_UNIT, tk_handler = 1,
     tk_last = tm_zero\<lparr>tm_mday := 30, tm_mon := 5, tm_year := 120, tm_hour := 20, tm_sec := 7, tm_wday := 2, tm_yday := 181, tm_isdst := 1\<rparr> \<rparr>"

lemma tick_next_boundary_witness:
  "\<exists>(t' :: int) s'. tick_timer_update_next 1000 tz_new_york tm_zero \<lparr>boot_ticks = 0, boot_time = 1593561600\<rparr> 64 ex_tick ex_tq =
      Some (ex_tick\<lparr>tk_onqueue := True\<rparr>, s') \<and> 1593561607 < t' \<and> tq_ok s' [64] \<and>
    (\<exists>l dst. tz_utc_to_local tz_new_york tm_zero t' = Some (l, dst) \<and> l mod 60 = 0)"
proof -
  have st: "tick_step (tk_units ex_tick) = 60" by code_simp
  have l: "localtime_r tz_new_york tm_zero 1593561607 tm_zero = Some (True, tk_last ex_tick)"
    "localtime_r tz_new_york tm_zero (1593561607 + 60) tm_zero = Some (True, (tk_last ex_tick)\<lparr>tm_min := 1\<rparr>)" by code_simp+
  have u: "tk_units ex_tick AND (SECOND_UNIT OR MINUTE_UNIT OR HOUR_UNIT OR DAY_UNIT OR MONTH_UNIT OR YEAR_UNIT) \<noteq> 0" by code_simp
  have o: "(tz_offset tz_new_york - dstoffset tz_new_york) mod 60 = 0" by code_simp
  have q: "tq_ok ex_tq []" using init_inv by (auto simp: app_inv_def ex_tq_def)
  have "\<not> tk_onqueue ex_tick" by (simp add: ex_tick_def)
  from tick_next_boundary [OF new_york_fields(1), of ex_tick, unfolded st, OF o l u q _ _ this, of 64 1000 "\<lparr>boot_ticks = 0, boot_time = 1593561600\<rparr>"]
  obtain t' s' where "tick_timer_update_next 1000 tz_new_york tm_zero \<lparr>boot_ticks = 0, boot_time = 1593561600\<rparr> 64 ex_tick ex_tq =
      Some (ex_tick\<lparr>tk_onqueue := True\<rparr>, s')" "1593561607 < t'" "tq_ok s' [64]"
    "\<exists>l dst. tz_utc_to_local tz_new_york tm_zero t' = Some (l, dst) \<and> l mod 60 = 0" by (auto simp: dvd_eq_mod_eq_0)
  then show ?thesis by (simp only:) (rule exI [of _ t'], rule exI [of _ s'], simp)
qed

subsection \<open>What goes wrong\<close>

text \<open>In a zone without daylight saving time the round trip through local time shifts the next tick by twice the offset.\<close>

lemma tick_plain_zone:
  assumes "\<not> hasdst r" "localtime_r r tm0 t tm = Some (True, tk_last st)" "tk_units st AND SECOND_UNIT \<noteq> 0"
  shows "tick_dtime r tm0 st = Some (t + 2 * tz_offset r + 1)"
proof -
  obtain l dst where l: "tz_utc_to_local r tm0 t = Some (l, dst)" "civil_ok (tk_last st)" "civil_secs (tk_last st) = l"
    by (rule localtime_Some [OF assms(2)])
  then show ?thesis using assms(1,3) tm_to_secs_ok [OF l(2)] by (simp add: tick_dtime_def mktime_def tz_local_to_utc_def tz_utc_to_local_def Let_def)
qed

text \<open>The state does not remember its thread: when another thread ends, the timer is looked for in the wrong queue, which ends in the
  failing assert.\<close>

lemma tick_wrong_queue:
  "tq_ok s xs \<Longrightarrow> tt \<notin> set xs \<Longrightarrow> tk_onqueue st \<Longrightarrow> tick_timer_service_unsubscribe_thread tt st s = None"
  using remove_missing [of s HeadSlot xs tt] by (simp add: tick_timer_service_unsubscribe_thread_def appmanager_timer_remove_def tq_ok_def)

end
