(* ===== verification/Layers.thy ===== *)
theory Layers
  imports NodeList "HOL-Library.Multiset"
begin

section \<open>The layer tree: rwatch/ui/layer/layer.c\<close>

text \<open>
  The tree of layers of a window, linked by first child, next sibling and parent. \<open>ui\<close> is the heap of layers, the set of those that are
  allocated and \<open>is_render_scheduled\<close> of the window on top, which there is, as \<open>layer_mark_dirty\<close> sets it. Following \<open>NULL\<close> is \<open>None\<close>, and so is a walk that does not end. The
  coordinates are those of the graphics library, a submodule; they are integers here, so their overflow is not considered. What a layer's
  \<open>update_proc\<close> draws is not modelled: a walk yields the calls of these procedures with the drawing area of each.

  \<open>forest\<close> relates the heap to a list of trees, the reference for every operation. The lemmas show that drawing visits the trees in
  preorder, what insertion and removal do to them, and where they break the tree.
\<close>

record grect =
  gx :: int
  gy :: int
  gw :: int
  gh :: int

record layer =
  ly_child :: ptr
  ly_sibling :: ptr
  ly_parent :: ptr
  ly_window :: ptr
  ly_bounds :: grect
  ly_frame :: grect
  ly_clip :: bool
  ly_proc :: ptr
  ly_data :: ptr
  ly_hidden :: bool

record ui =
  ui_layers :: "ptr \<Rightarrow> layer"
  ui_live :: "ptr set"
  ui_dirty :: bool

abbreviation child_of :: "ui \<Rightarrow> ptr \<Rightarrow> ptr" where "child_of s p \<equiv> ly_child (ui_layers s p)"
abbreviation sibling_of :: "ui \<Rightarrow> ptr \<Rightarrow> ptr" where "sibling_of s p \<equiv> ly_sibling (ui_layers s p)"
abbreviation parent_of :: "ui \<Rightarrow> ptr \<Rightarrow> ptr" where "parent_of s p \<equiv> ly_parent (ui_layers s p)"

definition upd_layer :: "ui \<Rightarrow> ptr \<Rightarrow> (layer \<Rightarrow> layer) \<Rightarrow> ui" where
  "upd_layer s p f = s\<lparr>ui_layers := (ui_layers s)(p := f (ui_layers s p))\<rparr>"

subsection \<open>Creation and attributes\<close>

definition layer_zero :: layer where
  "layer_zero = \<lparr> ly_child = NULL, ly_sibling = NULL, ly_parent = NULL, ly_window = NULL, ly_bounds = \<lparr>gx = 0, gy = 0, gw = 0, gh = 0\<rparr>,
     ly_frame = \<lparr>gx = 0, gy = 0, gw = 0, gh = 0\<rparr>, ly_clip = False, ly_proc = NULL, ly_data = NULL, ly_hidden = False \<rparr>"

definition layer_ctor :: "ui \<Rightarrow> ptr \<Rightarrow> grect \<Rightarrow> ui" where
  "layer_ctor s l frame = upd_layer s l (\<lambda>y. y\<lparr>ly_bounds := frame\<lparr>gx := 0, gy := 0\<rparr>, ly_clip := False, ly_frame := frame,
     ly_child := NULL, ly_sibling := NULL, ly_parent := NULL\<rparr>)"

text \<open>\<open>l\<close> is the address \<open>app_calloc\<close> returns.\<close>

definition layer_create :: "ui \<Rightarrow> ptr \<Rightarrow> grect \<Rightarrow> ptr \<times> ui" where
  "layer_create s l frame =
     (if l = NULL then (NULL, s)
      else (l, layer_ctor (upd_layer (s\<lparr>ui_live := insert l (ui_live s)\<rparr>) l (\<lambda>_. layer_zero)) l frame))"

definition layer_create_with_data :: "ui \<Rightarrow> ptr \<Rightarrow> ptr \<Rightarrow> grect \<Rightarrow> (ptr \<times> ui) option" where
  "layer_create_with_data s l d frame =
     (let (l, s) = layer_create s l frame in do {
        c_assert (l \<noteq> NULL);
        Some (l, upd_layer s l (\<lambda>y. y\<lparr>ly_data := d\<rparr>)) })"

definition layer_set_update_proc :: "ui \<Rightarrow> ptr \<Rightarrow> ptr \<Rightarrow> ui" where
  "layer_set_update_proc s l proc = upd_layer s l (\<lambda>y. y\<lparr>ly_proc := proc\<rparr>)"

definition layer_mark_dirty :: "ui \<Rightarrow> ui" where
  "layer_mark_dirty s = s\<lparr>ui_dirty := True\<rparr>"

definition layer_set_bounds :: "ui \<Rightarrow> ptr \<Rightarrow> grect \<Rightarrow> ui" where
  "layer_set_bounds s l bounds =
     (if ly_bounds (ui_layers s l) \<noteq> bounds then layer_mark_dirty (upd_layer s l (\<lambda>y. y\<lparr>ly_bounds := bounds\<rparr>)) else s)"

definition layer_set_bounds_origin :: "ui \<Rightarrow> ptr \<Rightarrow> int \<times> int \<Rightarrow> ui" where
  "layer_set_bounds_origin s l origin =
     (if (gx (ly_bounds (ui_layers s l)), gy (ly_bounds (ui_layers s l))) \<noteq> origin
      then layer_mark_dirty (upd_layer s l (\<lambda>y. y\<lparr>ly_bounds := (ly_bounds y)\<lparr>gx := fst origin, gy := snd origin\<rparr>\<rparr>)) else s)"

definition layer_set_frame :: "ui \<Rightarrow> ptr \<Rightarrow> grect \<Rightarrow> ui" where
  "layer_set_frame s l frame =
     (if ly_frame (ui_layers s l) \<noteq> frame then layer_mark_dirty (upd_layer s l (\<lambda>y. y\<lparr>ly_frame := frame\<rparr>)) else s)"

definition layer_set_hidden :: "ui \<Rightarrow> ptr \<Rightarrow> bool \<Rightarrow> ui" where
  "layer_set_hidden s l hidden = upd_layer s l (\<lambda>y. y\<lparr>ly_hidden := hidden\<rparr>)"

definition layer_set_clips :: "ui \<Rightarrow> ptr \<Rightarrow> bool \<Rightarrow> ui" where
  "layer_set_clips s l clips = (if l = NULL then s else upd_layer s l (\<lambda>y. y\<lparr>ly_clip := clips\<rparr>))"

text \<open>The loop steps to the parent of the layer it started from, not of the current one.\<close>

partial_function (option) to_screen_loop :: "ui \<Rightarrow> ptr \<Rightarrow> ptr \<Rightarrow> int \<times> int \<Rightarrow> (int \<times> int) option" where
  "to_screen_loop s l cur point =
    (if cur = NULL then Some point
     else to_screen_loop s l (parent_of s l)
       (fst point + gx (ly_frame (ui_layers s cur)), snd point + gy (ly_frame (ui_layers s cur))))"

definition layer_convert_point_to_screen :: "ui \<Rightarrow> ptr \<Rightarrow> int \<times> int \<Rightarrow> (int \<times> int) option" where
  "layer_convert_point_to_screen s l point = to_screen_loop s l l point"

subsection \<open>The tree\<close>

partial_function (option) last_sibling :: "ui \<Rightarrow> ptr \<Rightarrow> ptr \<Rightarrow> ptr option option" where
  "last_sibling s child_layer child =
    (if sibling_of s child = NULL then Some (Some child)
     else if child = child_layer then Some None
     else last_sibling s child_layer (sibling_of s child))"

definition adopt :: "ui \<Rightarrow> ptr \<Rightarrow> ptr \<Rightarrow> ui" where
  "adopt s parent_layer child_layer =
     upd_layer s child_layer (\<lambda>y. y\<lparr>ly_parent := parent_layer, ly_window := ly_window (ui_layers s parent_layer)\<rparr>)"

definition layer_add_child :: "ui \<Rightarrow> ptr \<Rightarrow> ptr \<Rightarrow> ui option" where
  "layer_add_child s parent_layer child_layer =
    (if parent_layer = NULL \<or> child_layer = NULL then Some s
     else if child_of s parent_layer = child_layer then Some s
     else if child_of s parent_layer = NULL
     then Some (adopt (upd_layer s parent_layer (\<lambda>y. y\<lparr>ly_child := child_layer\<rparr>)) parent_layer child_layer)
     else do {
       r \<leftarrow> last_sibling s child_layer (child_of s parent_layer);
       case r of
         None \<Rightarrow> Some s
       | Some child \<Rightarrow>
           Some (layer_mark_dirty (adopt (upd_layer s child (\<lambda>y. y\<lparr>ly_sibling := child_layer\<rparr>)) parent_layer child_layer)) })"

partial_function (option) layer_find_parent :: "ui \<Rightarrow> ptr \<Rightarrow> ptr \<Rightarrow> ptr option" where
  "layer_find_parent s orig_layer l =
    (if l = NULL then Some NULL
     else if sibling_of s l = orig_layer \<or> child_of s l = orig_layer then Some l
     else do {
       found_layer \<leftarrow> layer_find_parent s orig_layer (child_of s l);
       if found_layer \<noteq> NULL then Some found_layer
       else layer_find_parent s orig_layer (sibling_of s l) })"

definition layer_remove_node :: "ui \<Rightarrow> ptr \<Rightarrow> ui option" where
  "layer_remove_node s to_be_removed =
    (if parent_of s to_be_removed = NULL then Some s
     else do {
       parent \<leftarrow> layer_find_parent s to_be_removed (parent_of s to_be_removed);
       c_assert (parent \<noteq> NULL);
       let s = (if sibling_of s parent = to_be_removed
                then upd_layer s parent (\<lambda>y. y\<lparr>ly_sibling := sibling_of s to_be_removed\<rparr>)
                else if child_of s parent = to_be_removed then upd_layer s parent (\<lambda>y. y\<lparr>ly_child := NULL\<rparr>) else s);
       Some (upd_layer s to_be_removed (\<lambda>y. y\<lparr>ly_parent := NULL\<rparr>)) })"

definition layer_remove_from_parent :: "ui \<Rightarrow> ptr \<Rightarrow> ui option" where
  "layer_remove_from_parent s child = layer_remove_node s child"

definition layer_dtor :: "ui \<Rightarrow> ptr \<Rightarrow> ui option" where
  "layer_dtor s l = layer_remove_node s l"

definition layer_destroy :: "ui \<Rightarrow> ptr \<Rightarrow> ui option" where
  "layer_destroy s l = layer_dtor s l"

definition layer_insert_node :: "ui \<Rightarrow> ptr \<Rightarrow> ptr \<Rightarrow> bool \<Rightarrow> ui option" where
  "layer_insert_node s layer_to_insert sibling_layer below = do {
     s \<leftarrow> (if below
           then do {
             parent \<leftarrow> layer_find_parent s sibling_layer sibling_layer;
             c_assert (parent \<noteq> NULL);
             let s = upd_layer s layer_to_insert (\<lambda>y. y\<lparr>ly_parent := parent_of s parent, ly_sibling := sibling_of s parent\<rparr>);
             Some (upd_layer s parent (\<lambda>y. y\<lparr>ly_sibling := layer_to_insert\<rparr>)) }
           else let s = upd_layer s layer_to_insert (\<lambda>y. y\<lparr>ly_parent := parent_of s sibling_layer, ly_sibling := sibling_of s sibling_layer\<rparr>)
                in Some (upd_layer s sibling_layer (\<lambda>y. y\<lparr>ly_sibling := layer_to_insert\<rparr>)));
     Some (upd_layer s layer_to_insert (\<lambda>y. y\<lparr>ly_window := ly_window (ui_layers s sibling_layer)\<rparr>)) }"

definition layer_insert_below_sibling :: "ui \<Rightarrow> ptr \<Rightarrow> ptr \<Rightarrow> ui option" where
  "layer_insert_below_sibling s layer_to_insert below_sibling_layer = layer_insert_node s layer_to_insert below_sibling_layer True"

definition layer_insert_above_sibling :: "ui \<Rightarrow> ptr \<Rightarrow> ptr \<Rightarrow> ui option" where
  "layer_insert_above_sibling s layer_to_insert above_sibling_layer = layer_insert_node s layer_to_insert above_sibling_layer False"

subsection \<open>Drawing and freeing\<close>

definition layer_apply_frame_offset :: "layer \<Rightarrow> grect \<Rightarrow> grect" where
  "layer_apply_frame_offset l ofs =
     \<lparr> gx = gx ofs + gx (ly_frame l), gy = gy ofs + gy (ly_frame l),
       gw = max 0 (gw ofs - gx (ly_frame l)), gh = max 0 (gh ofs - gy (ly_frame l)) \<rparr>"

text \<open>The calls of update procedures, each with its layer and the offset of the context.\<close>

partial_function (option) layer_walk :: "ui \<Rightarrow> ptr \<Rightarrow> grect \<Rightarrow> (ptr \<times> ptr \<times> grect) list option" where
  "layer_walk s l ofs =
    (if l = NULL then Some []
     else do {
       here \<leftarrow> (if \<not> ly_hidden (ui_layers s l)
         then let ofs' = layer_apply_frame_offset (ui_layers s l) ofs in do {
           sub \<leftarrow> layer_walk s (child_of s l) ofs';
           Some ((if ly_proc (ui_layers s l) \<noteq> NULL then [(ly_proc (ui_layers s l), l, ofs')] else []) @ sub) }
         else Some []);
       rest \<leftarrow> layer_walk s (sibling_of s l) ofs;
       Some (here @ rest) })"

definition layer_draw :: "ui \<Rightarrow> ptr \<Rightarrow> grect \<Rightarrow> (ptr \<times> ptr \<times> grect) list option" where
  "layer_draw s l ofs = layer_walk s l ofs"

definition free_layer :: "ui \<Rightarrow> ptr \<Rightarrow> ui option" where
  "free_layer s l = do { c_assert (l \<in> ui_live s); Some (s\<lparr>ui_live := ui_live s - {l}\<rparr>) }"

text \<open>\<open>depth\<close> is the global \<open>inj\<close>, the depth of the recursion, kept for the indentation of the log: \<open>sinj\<close> has 20 characters and gets three for every level.\<close>

definition SIZEOF_SINJ :: nat where "SIZEOF_SINJ = 20"

partial_function (option) layer_delete_tree :: "nat \<Rightarrow> ui \<Rightarrow> ptr \<Rightarrow> ui option" where
  "layer_delete_tree depth s l =
    (if l = NULL then Some s
     else do {
       c_assert (3 * depth < SIZEOF_SINJ);
       s \<leftarrow> (if child_of s l \<noteq> NULL then layer_delete_tree (depth + 1) s (child_of s l) else Some s);
       s \<leftarrow> (if sibling_of s l \<noteq> NULL then layer_delete_tree (depth + 1) s (sibling_of s l) else Some s);
       free_layer s l })"

definition layer_remove_child_layers :: "ui \<Rightarrow> ptr \<Rightarrow> ui option" where
  "layer_remove_child_layers s parent = layer_delete_tree 0 s (child_of s parent)"

subsection \<open>The reference: lists of trees\<close>

datatype rose = Rose (root: ptr) (kids: "rose list")

fun nodes :: "rose list \<Rightarrow> ptr list" where
  "nodes [] = []"
| "nodes (Rose q cs # fs) = q # nodes cs @ nodes fs"

text \<open>\<open>forest s par p fs\<close>: from \<open>p\<close> on, the siblings and their children are the trees \<open>fs\<close>, whose roots have the parent \<open>par\<close>.\<close>

fun forest :: "ui \<Rightarrow> ptr \<Rightarrow> ptr \<Rightarrow> rose list \<Rightarrow> bool" where
  "forest s par p [] \<longleftrightarrow> p = NULL"
| "forest s par p (Rose q cs # fs) \<longleftrightarrow> p = q \<and> q \<noteq> NULL \<and> parent_of s q = par \<and>
     forest s q (child_of s q) cs \<and> forest s par (sibling_of s q) fs"

definition first_root :: "rose list \<Rightarrow> ptr" where
  "first_root fs = (case fs of [] \<Rightarrow> NULL | f # _ \<Rightarrow> root f)"

lemma nodes_append [simp]: "nodes (fs @ gs) = nodes fs @ nodes gs"
  by (induction fs rule: nodes.induct) simp_all

lemma forest_first: "forest s par p fs \<Longrightarrow> p = first_root fs"
  by (cases "(s, par, p, fs)" rule: forest.cases) (auto simp: first_root_def)

lemma forest_nonnull: "forest s par p fs \<Longrightarrow> NULL \<notin> set (nodes fs)"
  by (induction s par p fs rule: forest.induct) auto

lemma forest_cong:
  "(\<And>q. q \<in> set (nodes fs) \<Longrightarrow> child_of s' q = child_of s q \<and> sibling_of s' q = sibling_of s q \<and> parent_of s' q = parent_of s q) \<Longrightarrow>
   forest s' par p fs = forest s par p fs"
proof (induction fs arbitrary: par p rule: nodes.induct)
  case (2 q cs fs)
  have "forest s' q (child_of s q) cs = forest s q (child_of s q) cs" by (rule 2(1)) (use 2(3) in auto)
  moreover have "forest s' par (sibling_of s q) fs = forest s par (sibling_of s q) fs" by (rule 2(2)) (use 2(3) in auto)
  ultimately show ?case using 2(3) [of q] by auto
qed simp

lemma upd_layer_simps [simp]:
  "ui_layers (upd_layer s p f) q = (if q = p then f (ui_layers s p) else ui_layers s q)"
  "ui_live (upd_layer s p f) = ui_live s" "ui_dirty (upd_layer s p f) = ui_dirty s"
  by (simp_all add: upd_layer_def)

lemma mark_dirty_simps [simp]: "ui_layers (layer_mark_dirty s) = ui_layers s" "ui_live (layer_mark_dirty s) = ui_live s"
  by (simp_all add: layer_mark_dirty_def)

subsection \<open>Drawing\<close>

text \<open>What is drawn: in preorder, the layers that are not hidden and have no hidden ancestor, each within the frames of its ancestors.\<close>

fun drawn :: "(ptr \<Rightarrow> layer) \<Rightarrow> grect \<Rightarrow> rose list \<Rightarrow> (ptr \<times> ptr \<times> grect) list" where
  "drawn h ofs [] = []"
| "drawn h ofs (Rose q cs # fs) =
     (if ly_hidden (h q) then []
      else (if ly_proc (h q) \<noteq> NULL then [(ly_proc (h q), q, layer_apply_frame_offset (h q) ofs)] else []) @
        drawn h (layer_apply_frame_offset (h q) ofs) cs) @ drawn h ofs fs"

lemma walk_forest: "forest s par p fs \<Longrightarrow> layer_walk s p ofs = Some (drawn (ui_layers s) ofs fs)"
proof (induction fs arbitrary: par p ofs rule: nodes.induct)
  case 1
  then show ?case by (subst layer_walk.simps) simp
next
  case (2 q cs fs)
  from 2(3) have f: "p = q" "q \<noteq> NULL" "forest s q (child_of s q) cs" "forest s par (sibling_of s q) fs" by simp_all
  show ?case unfolding f(1) using 2(1) [OF f(3)] 2(2) [OF f(4)] f(2) by (subst layer_walk.simps) (simp add: Let_def)
qed

lemma drawn_nodes: "set (map (fst \<circ> snd) (drawn h ofs fs)) \<subseteq> {q \<in> set (nodes fs). ly_proc (h q) \<noteq> NULL \<and> \<not> ly_hidden (h q)}"
proof (induction h ofs fs rule: drawn.induct)
  case (2 h ofs q cs fs)
  then show ?case by (cases "ly_hidden (h q)") (simp_all, blast+)
qed simp

lemma drawn_distinct: "distinct (nodes fs) \<Longrightarrow> distinct (map (fst \<circ> snd) (drawn h ofs fs))"
proof (induction h ofs fs rule: drawn.induct)
  case (2 h ofs q cs fs)
  let ?o = "layer_apply_frame_offset (h q) ofs" and ?n = "\<lambda>xs. set (map (fst \<circ> snd) xs)"
  have s: "?n (drawn h ?o cs) \<subseteq> set (nodes cs)" "?n (drawn h ofs fs) \<subseteq> set (nodes fs)" using drawn_nodes by fastforce+
  have d: "q \<notin> set (nodes cs)" "q \<notin> set (nodes fs)" "set (nodes cs) \<inter> set (nodes fs) = {}" using 2(3) by auto
  have i: "?n (drawn h ?o cs) \<inter> ?n (drawn h ofs fs) = {}" "q \<notin> ?n (drawn h ?o cs)" "q \<notin> ?n (drawn h ofs fs)" using s d by blast+
  show ?case using 2 i by (cases "ly_hidden (h q)") auto
qed simp

subsection \<open>Pointers into the tree\<close>

text \<open>The pairs of a layer and one it points to as its first child or next sibling.\<close>

fun edges :: "rose list \<Rightarrow> (ptr \<times> ptr) list" where
  "edges [] = []"
| "edges (Rose q cs # fs) = (if cs = [] then [] else [(q, first_root cs)]) @ (if fs = [] then [] else [(q, first_root fs)]) @ edges cs @ edges fs"

lemma nodes_first: "fs \<noteq> [] \<Longrightarrow> nodes fs = first_root fs # tl (nodes fs)"
  by (cases fs rule: nodes.cases) (simp_all add: first_root_def)

lemma edges_targets: "mset (map snd (edges fs)) = mset (tl (nodes fs))"
proof (induction fs rule: edges.induct)
  case (2 q cs fs)
  have "mset (map snd ((if xs = [] then [] else [(q, first_root xs)]) @ edges xs)) = mset (nodes xs)"
    if "mset (map snd (edges xs)) = mset (tl (nodes xs))" for xs
    using that nodes_first [of xs] by (cases "xs = []") (simp_all, metis mset.simps(2))
  from this [OF 2(1)] this [OF 2(2)] show ?case by (simp add: ac_simps)
qed simp

lemma edges_distinct: "distinct (nodes fs) \<Longrightarrow> distinct (map snd (edges fs))"
  using edges_targets [of fs] by (metis distinct_tl mset_eq_imp_distinct_iff)

lemma edges_unique: "distinct (nodes fs) \<Longrightarrow> (u, c) \<in> set (edges fs) \<Longrightarrow> (v, c) \<in> set (edges fs) \<Longrightarrow> u = v"
  using edges_distinct [of fs] by (metis eq_key_imp_eq_value distinct_map inj_onD prod.inject snd_conv)

lemma edges_target_in: "(u, c) \<in> set (edges fs) \<Longrightarrow> c \<in> set (tl (nodes fs))"
  using edges_targets [of fs] by (metis image_eqI list.set_map set_mset_mset snd_conv)

lemma edges_sources: "(u, c) \<in> set (edges fs) \<Longrightarrow> u \<in> set (nodes fs)"
  by (induction fs rule: edges.induct) (auto split: if_splits)

lemma forest_points:
  "distinct (nodes fs) \<Longrightarrow> forest s par p fs \<Longrightarrow> u \<in> set (nodes fs) \<Longrightarrow> c \<noteq> NULL \<Longrightarrow>
   (sibling_of s u = c \<or> child_of s u = c) = ((u, c) \<in> set (edges fs))"
proof (induction fs arbitrary: par p rule: edges.induct)
  case (2 q cs fs)
  from 2(4) have f: "p = q" "q \<noteq> NULL" "forest s q (child_of s q) cs" "forest s par (sibling_of s q) fs" by simp_all
  have d: "distinct (nodes cs)" "distinct (nodes fs)" "q \<notin> set (nodes cs)" "q \<notin> set (nodes fs)" "set (nodes cs) \<inter> set (nodes fs) = {}"
    using 2(3) by auto
  have r: "child_of s q = first_root cs" "sibling_of s q = first_root fs" using forest_first [OF f(3)] forest_first [OF f(4)] by simp_all
  show ?case
  proof (cases "u = q")
    case True
    then have "(u, c) \<notin> set (edges cs)" "(u, c) \<notin> set (edges fs)" using d(3,4) edges_sources by blast+
    then show ?thesis using True r 2(6) by (auto simp: first_root_def)
  next
    case False
    then consider (kid) "u \<in> set (nodes cs)" | (sib) "u \<in> set (nodes fs)" using 2(5) by auto
    then show ?thesis
    proof cases
      case kid
      then have "(u, c) \<notin> set (edges fs)" using d(5) edges_sources by blast
      then show ?thesis using 2(1) [OF d(1) f(3) kid 2(6)] False by auto
    next
      case sib
      then have "(u, c) \<notin> set (edges cs)" using d(5) edges_sources by blast
      then show ?thesis using 2(2) [OF d(2) f(4) sib 2(6)] False by auto
    qed
  qed
qed simp

text \<open>\<open>_layer_find_parent\<close> is the first layer in preorder that points to the one looked for.\<close>

lemma find_parent_forest:
  "forest s par p fs \<Longrightarrow> layer_find_parent s c p =
     Some (case List.find (\<lambda>u. sibling_of s u = c \<or> child_of s u = c) (nodes fs) of None \<Rightarrow> NULL | Some u \<Rightarrow> u)"
proof (induction fs arbitrary: par p rule: nodes.induct)
  case 1
  then show ?case by (subst layer_find_parent.simps) simp
next
  case (2 q cs fs)
  from 2(3) have f: "p = q" "q \<noteq> NULL" "forest s q (child_of s q) cs" "forest s par (sibling_of s q) fs" by simp_all
  let ?P = "\<lambda>u. sibling_of s u = c \<or> child_of s u = c"
  have app: "List.find ?P (xs @ ys) = (case List.find ?P xs of None \<Rightarrow> List.find ?P ys | Some x \<Rightarrow> Some x)" for xs ys :: "ptr list"
    by (induction xs) auto
  have nn: "u \<noteq> NULL" if "List.find ?P (nodes cs) = Some u" for u
    using forest_nonnull [OF f(3)] that by (metis find_Some_iff nth_mem)
  show ?case
  proof (cases "?P q")
    case True
    then show ?thesis using f(1,2) by (subst layer_find_parent.simps) auto
  next
    case False
    then have "layer_find_parent s c p = do {
        found_layer \<leftarrow> layer_find_parent s c (child_of s q);
        if found_layer \<noteq> NULL then Some found_layer else layer_find_parent s c (sibling_of s q) }"
      using f(1,2) by (subst layer_find_parent.simps) auto
    then show ?thesis using False nn unfolding 2(1) [OF f(3)] 2(2) [OF f(4)]
      by (cases "List.find ?P (nodes cs)") (simp_all add: app)
  qed
qed

lemma find_unique: "u \<in> set xs \<Longrightarrow> P u \<Longrightarrow> (\<And>v. v \<in> set xs \<Longrightarrow> P v \<Longrightarrow> v = u) \<Longrightarrow> List.find P xs = Some u"
proof (induction xs)
  case (Cons x xs)
  show ?case
  proof (cases "P x")
    case True
    have "x = u" by (rule Cons.prems(3) [OF list.set_intros(1) True])
    then show ?thesis using True by simp
  next
    case False
    then have "u \<in> set xs" using Cons.prems(1,2) by auto
    then have "List.find P xs = Some u" by (rule Cons.IH [OF _ Cons.prems(2)]) (rule Cons.prems(3) [OF list.set_intros(2)])
    then show ?thesis using False by simp
  qed
qed simp

lemma find_parent_edge:
  assumes "forest s par p fs" "distinct (nodes fs)" "(u, c) \<in> set (edges fs)" "c \<noteq> NULL"
  shows "layer_find_parent s c p = Some u"
proof -
  have "List.find (\<lambda>u. sibling_of s u = c \<or> child_of s u = c) (nodes fs) = Some u"
  proof (rule find_unique)
    show u: "u \<in> set (nodes fs)" by (rule edges_sources [OF assms(3)])
    show "sibling_of s u = c \<or> child_of s u = c" using forest_points [OF assms(2,1) u assms(4)] assms(3) by simp
    show "v = u" if "v \<in> set (nodes fs)" "sibling_of s v = c \<or> child_of s v = c" for v
      using forest_points [OF assms(2,1) that(1) assms(4)] that(2) edges_unique [OF assms(2) _ assms(3)] by simp
  qed
  then show ?thesis using find_parent_forest [OF assms(1), of c] by simp
qed

subsection \<open>Removal\<close>

text \<open>What becomes of the trees when \<open>c\<close> is removed: it goes with its subtree, and if it is a first child all its siblings go too.\<close>

fun prune :: "ptr \<Rightarrow> rose list \<Rightarrow> rose list" where
  "prune c [] = []"
| "prune c (Rose q cs # fs) = (if q = c then fs else Rose q (if cs \<noteq> [] \<and> first_root cs = c then [] else prune c cs) # prune c fs)"

lemma prune_other: "c \<notin> set (nodes fs) \<Longrightarrow> prune c fs = fs \<and> (fs \<noteq> [] \<longrightarrow> first_root fs \<noteq> c)"
proof (induction fs rule: nodes.induct)
  case (2 q cs fs)
  then show ?case by (cases "cs = []") (auto simp: first_root_def)
qed simp

lemma prune_nodes: "set (nodes (prune c fs)) \<subseteq> set (nodes fs) \<and> (distinct (nodes fs) \<longrightarrow> distinct (nodes (prune c fs)) \<and> c \<notin> set (nodes (prune c fs)))"
proof (induction fs rule: nodes.induct)
  case (2 q cs fs)
  have s: "set (nodes (prune c cs)) \<subseteq> set (nodes cs)" "set (nodes (prune c fs)) \<subseteq> set (nodes fs)" using 2 by simp_all
  show ?case
  proof (cases "q = c")
    case False
    then show ?thesis using 2 s by (cases "cs \<noteq> [] \<and> first_root cs = c"; simp; blast)
  qed auto
qed simp

definition detach :: "ui \<Rightarrow> ptr \<Rightarrow> ptr \<Rightarrow> ui" where
  "detach s u c = (if sibling_of s u = c then upd_layer s u (\<lambda>y. y\<lparr>ly_sibling := sibling_of s c\<rparr>)
     else if child_of s u = c then upd_layer s u (\<lambda>y. y\<lparr>ly_child := NULL\<rparr>) else s)"

lemma detach_other: "q \<noteq> u \<Longrightarrow> ui_layers (detach s u c) q = ui_layers s q"
  "parent_of (detach s u c) q = parent_of s q" "ui_live (detach s u c) = ui_live s"
  by (simp_all add: detach_def)

lemma forest_detach_other: "u \<notin> set (nodes fs) \<Longrightarrow> forest (detach s u c) par p fs = forest s par p fs"
  by (rule forest_cong) (metis detach_other(1))

lemma forest_detach:
  "forest s par p fs \<Longrightarrow> distinct (nodes fs) \<Longrightarrow> (u, c) \<in> set (edges fs) \<Longrightarrow> c \<noteq> NULL \<Longrightarrow> forest (detach s u c) par p (prune c fs)"
proof (induction fs arbitrary: par p rule: edges.induct)
  case (2 q cs fs)
  let ?s = "detach s u c"
  from 2(3) have f: "p = q" "q \<noteq> NULL" "parent_of s q = par" "forest s q (child_of s q) cs" "forest s par (sibling_of s q) fs" by simp_all
  have d: "distinct (nodes cs)" "distinct (nodes fs)" "q \<notin> set (nodes cs)" "q \<notin> set (nodes fs)" "set (nodes cs) \<inter> set (nodes fs) = {}"
    using 2(4) by auto
  have r: "child_of s q = first_root cs" "sibling_of s q = first_root fs" using forest_first [OF f(4)] forest_first [OF f(5)] by simp_all
  have c: "q \<noteq> c" using edges_target_in [OF 2(5)] 2(4) by auto
  from 2(5) consider (kid) "u = q" "cs \<noteq> []" "c = first_root cs" | (sib) "u = q" "fs \<noteq> []" "c = first_root fs"
    | (kids) "(u, c) \<in> set (edges cs)" | (sibs) "(u, c) \<in> set (edges fs)" by (auto split: if_splits)
  then show ?case
  proof cases
    case kid
    have "c \<in> set (nodes cs)" using kid(3) nodes_first [OF kid(2)] by (metis list.set_intros(1))
    then have n: "c \<notin> set (nodes fs)" using d(5) by auto
    have "sibling_of s q \<noteq> c" using r(2) prune_other [OF n] 2(6) by (cases "fs = []") (auto simp: first_root_def)
    then have "child_of ?s q = NULL" "sibling_of ?s q = sibling_of s q" using kid r(1) by (simp_all add: detach_def)
    then show ?thesis using c f kid prune_other [OF n] forest_detach_other [of u fs] d(4) by (simp add: detach_other(2))
  next
    case sib
    obtain ks gs where fs: "fs = Rose c ks # gs" using sib(2,3) by (cases fs rule: nodes.cases) (auto simp: first_root_def)
    have n: "c \<notin> set (nodes cs)" using d(5) fs by auto
    have "sibling_of ?s q = sibling_of s c" "child_of ?s q = child_of s q" using sib r(2) by (simp_all add: detach_def)
    moreover have "forest s par (sibling_of s c) gs" using f(5) fs by simp
    ultimately show ?thesis
      using c f(1,2,3,4) prune_other [OF n] forest_detach_other [of u] d(3,4) sib(1) fs by (auto simp: detach_other(2))
  next
    case kids
    have u: "u \<in> set (nodes cs)" "c \<in> set (tl (nodes cs))" using edges_sources [OF kids] edges_target_in [OF kids] by simp_all
    have cs: "cs \<noteq> []" using u by auto
    have k: "first_root cs \<noteq> c" using u(2) d(1) nodes_first [OF cs] by (metis distinct.simps(2))
    have n: "c \<notin> set (nodes fs)" "u \<notin> set (nodes fs)" "q \<noteq> u" using u d list.set_sel(2) [of "nodes cs" c] by (cases "nodes cs"; auto)+
    show ?thesis using c f k cs prune_other [OF n(1)] forest_detach_other [OF n(2)] 2(1) [OF f(4) d(1) kids 2(6)] detach_other(1) [OF n(3)]
      by simp
  next
    case sibs
    have u: "u \<in> set (nodes fs)" "c \<in> set (nodes fs)" using edges_sources [OF sibs] edges_target_in [OF sibs] by (auto dest: list.set_sel(2) [rotated])
    then have n: "c \<notin> set (nodes cs)" "u \<notin> set (nodes cs)" "q \<noteq> u" using d by auto
    show ?thesis using c f prune_other [OF n(1)] forest_detach_other [OF n(2)] 2(2) [OF f(5) d(2) sibs 2(6)] detach_other(1) [OF n(3)]
      by auto
  qed
qed simp

lemma forest_parent: "forest s par p fs \<Longrightarrow> c \<in> set (nodes fs) \<Longrightarrow> (c \<in> root ` set fs \<and> parent_of s c = par) \<or> parent_of s c \<in> set (nodes fs)"
proof (induction fs arbitrary: par p rule: nodes.induct)
  case (2 q cs fs)
  then have f: "forest s q (child_of s q) cs" "forest s par (sibling_of s q) fs" by simp_all
  then show ?case using 2(1) [OF f(1)] 2(2) [OF f(2)] 2(3,4) by auto
qed simp

lemma roots_edges: "c \<in> root ` set fs \<Longrightarrow> c = first_root fs \<or> (\<exists>u. (u, c) \<in> set (edges fs))"
proof (induction fs rule: edges.induct)
  case (2 q cs fs)
  then show ?case by (auto simp: first_root_def)
qed simp

lemma child_edge:
  "forest s par p fs \<Longrightarrow> distinct (nodes fs) \<Longrightarrow> c \<in> set (nodes fs) \<Longrightarrow> parent_of s c \<noteq> par \<Longrightarrow>
   \<exists>par' cs gs u. forest s par' (parent_of s c) (Rose (parent_of s c) cs # gs) \<and> distinct (nodes (Rose (parent_of s c) cs # gs)) \<and>
     (u, c) \<in> set (edges (Rose (parent_of s c) cs # gs)) \<and> (u, c) \<in> set (edges fs)"
proof (induction fs arbitrary: par p rule: edges.induct)
  case (2 q cs fs)
  from 2(3) have f: "p = q" "q \<noteq> NULL" "parent_of s q = par" "forest s q (child_of s q) cs" "forest s par (sibling_of s q) fs" by simp_all
  have d: "distinct (nodes cs)" "distinct (nodes fs)" "q \<notin> set (nodes cs)" using 2(4) by auto
  have "c \<noteq> q" using f(3) 2(6) by auto
  then consider (own) "c \<in> set (nodes cs)" "parent_of s c = q" | (kids) "c \<in> set (nodes cs)" "parent_of s c \<noteq> q" | (sibs) "c \<in> set (nodes fs)"
    using 2(5) by auto
  then show ?case
  proof cases
    case own
    have rc: "c \<in> root ` set cs" using forest_parent [OF f(4) own(1)] own(2) d(3) by auto
    obtain u where u: "(u, c) \<in> set (edges (Rose q cs # fs))" using roots_edges [OF rc] own(1) by (cases "cs = []") auto
    show ?thesis unfolding own(2) using 2(3,4) u f(1) by (intro exI [of _ par] exI [of _ cs] exI [of _ fs] exI [of _ u] conjI) simp_all
  next
    case kids
    from 2(1) [OF f(4) d(1) this] obtain par' ks gs u where
      h: "forest s par' (parent_of s c) (Rose (parent_of s c) ks # gs)" "distinct (nodes (Rose (parent_of s c) ks # gs))"
        "(u, c) \<in> set (edges (Rose (parent_of s c) ks # gs))" "(u, c) \<in> set (edges cs)" by blast
    have "(u, c) \<in> set (edges (Rose q cs # fs))" using h(4) by simp
    then show ?thesis using h(1-3) by blast
  next
    case sibs
    from 2(2) [OF f(5) d(2) this 2(6)] obtain par' ks gs u where
      h: "forest s par' (parent_of s c) (Rose (parent_of s c) ks # gs)" "distinct (nodes (Rose (parent_of s c) ks # gs))"
        "(u, c) \<in> set (edges (Rose (parent_of s c) ks # gs))" "(u, c) \<in> set (edges fs)" by blast
    have "(u, c) \<in> set (edges (Rose q cs # fs))" using h(4) by simp
    then show ?thesis using h(1-3) by blast
  qed
qed simp

lemma remove_prune:
  assumes "forest s NULL r [Rose r cs]" "distinct (nodes [Rose r cs])" "c \<in> set (nodes cs)"
  shows "\<exists>s'. layer_remove_node s c = Some s' \<and> forest s' NULL r (prune c [Rose r cs]) \<and> ui_live s' = ui_live s"
proof -
  have c: "c \<noteq> NULL" "c \<in> set (nodes [Rose r cs])" using forest_nonnull [OF assms(1)] assms(3) by (metis in_set_conv_decomp nodes.simps(2) append_Nil2 nodes.simps(1) list.set_intros(2), simp)
  have "forest s r (child_of s r) cs" "r \<noteq> NULL" "NULL \<notin> set (nodes cs)" using assms(1) forest_nonnull [OF assms(1)] by simp_all
  then have "parent_of s c \<noteq> NULL" using forest_parent [OF _ assms(3)] by (metis)
  from child_edge [OF assms(1,2) c(2) this] obtain par' ks gs u where
    e: "forest s par' (parent_of s c) (Rose (parent_of s c) ks # gs)" "distinct (nodes (Rose (parent_of s c) ks # gs))"
      "(u, c) \<in> set (edges (Rose (parent_of s c) ks # gs))" and u: "(u, c) \<in> set (edges [Rose r cs])" by blast
  have fp: "layer_find_parent s c (parent_of s c) = Some u" by (rule find_parent_edge [OF e c(1)])
  have "u \<in> set (nodes [Rose r cs])" by (rule edges_sources [OF u])
  then have nn: "u \<noteq> NULL" using forest_nonnull [OF assms(1)] by metis
  let ?s = "upd_layer (detach s u c) c (\<lambda>y. y\<lparr>ly_parent := NULL\<rparr>)"
  have "layer_remove_node s c = Some ?s"
    using \<open>parent_of s c \<noteq> NULL\<close> nn by (simp add: layer_remove_node_def fp detach_def Let_def)
  moreover have "forest ?s NULL r (prune c [Rose r cs]) = forest (detach s u c) NULL r (prune c [Rose r cs])"
    by (rule forest_cong) (use prune_nodes [of c "[Rose r cs]"] assms(2) in auto)
  ultimately show ?thesis using forest_detach [OF assms(1,2) u c(1)] by (auto simp: detach_other(3))
qed

subsection \<open>Insertion\<close>

text \<open>The tree \<open>t\<close> becomes the last child of \<open>q\<close>.\<close>

fun graft :: "ptr \<Rightarrow> rose \<Rightarrow> rose list \<Rightarrow> rose list" where
  "graft q t [] = []"
| "graft q t (Rose r cs # fs) = (if r = q then Rose r (cs @ [t]) # fs else Rose r (graft q t cs) # graft q t fs)"

fun kids_of :: "ptr \<Rightarrow> rose list \<Rightarrow> rose list" where
  "kids_of q [] = []"
| "kids_of q (Rose r cs # fs) = (if r = q then cs else if q \<in> set (nodes cs) then kids_of q cs else kids_of q fs)"

lemma graft_other: "q \<notin> set (nodes fs) \<Longrightarrow> graft q t fs = fs"
  by (induction fs rule: nodes.induct) auto

lemma kids_nodes: "set (nodes (kids_of q fs)) \<subseteq> set (nodes fs)"
  by (induction q fs rule: kids_of.induct) auto

lemma kids_forest: "forest s par p fs \<Longrightarrow> q \<in> set (nodes fs) \<Longrightarrow> forest s q (child_of s q) (kids_of q fs)"
  by (induction q fs arbitrary: par p rule: kids_of.induct) auto

definition attach :: "ui \<Rightarrow> ptr \<Rightarrow> ptr \<Rightarrow> rose list \<Rightarrow> ui" where
  "attach s q c ks = adopt (if ks = [] then upd_layer s q (\<lambda>y. y\<lparr>ly_child := c\<rparr>)
     else upd_layer s (root (last ks)) (\<lambda>y. y\<lparr>ly_sibling := c\<rparr>)) q c"

lemma attach_other: "r \<noteq> c \<Longrightarrow> r \<noteq> q \<Longrightarrow> r \<notin> set (nodes ks) \<Longrightarrow> ui_layers (attach s q c ks) r = ui_layers s r"
proof -
  assume a: "r \<noteq> c" "r \<noteq> q" "r \<notin> set (nodes ks)"
  have "ks \<noteq> [] \<Longrightarrow> root (last ks) \<in> set (nodes ks)" by (induction ks rule: nodes.induct) auto
  then show ?thesis using a by (auto simp: attach_def adopt_def)
qed

lemma forest_attach_other: "c \<notin> set (nodes fs) \<Longrightarrow> q \<notin> set (nodes fs) \<Longrightarrow> set (nodes ks) \<inter> set (nodes fs) = {} \<Longrightarrow>
   forest (attach s q c ks) par p fs = forest s par p fs"
  by (rule forest_cong) (subst (1 2 3) attach_other; auto)

lemma last_sibling_forest:
  "forest s par p fs \<Longrightarrow> fs \<noteq> [] \<Longrightarrow> c \<notin> set (nodes fs) \<Longrightarrow> last_sibling s c p = Some (Some (root (last fs)))"
proof (induction fs arbitrary: p rule: nodes.induct)
  case (2 q cs fs)
  from 2(3) have f: "p = q" "forest s par (sibling_of s q) fs" by simp_all
  show ?case
  proof (cases "fs = []")
    case True
    then show ?thesis using f by (subst last_sibling.simps) simp
  next
    case False
    then have "sibling_of s q \<noteq> NULL" using f(2) by (cases fs rule: nodes.cases) auto
    then show ?thesis using 2(2) [OF f(2) False] 2(5) f(1) False by (subst last_sibling.simps) simp
  qed
qed simp

lemma forest_append:
  "forest s par p fs \<Longrightarrow> distinct (nodes fs) \<Longrightarrow> fs \<noteq> [] \<Longrightarrow> c \<notin> set (nodes fs) \<Longrightarrow> c \<noteq> NULL \<Longrightarrow>
   forest (attach s par c fs) par c [t] \<Longrightarrow> par \<notin> set (nodes fs) \<Longrightarrow> forest (attach s par c fs) par p (fs @ [t])"
proof (induction fs arbitrary: p rule: nodes.induct)
  case (2 q cs fs)
  from 2(3) have f: "p = q" "q \<noteq> NULL" "parent_of s q = par" "forest s q (child_of s q) cs" "forest s par (sibling_of s q) fs" by simp_all
  let ?s = "attach s par c (Rose q cs # fs)"
  have l: "root (last (Rose q cs # fs)) \<notin> set (nodes cs)"
  proof (cases "fs = []")
    case False
    then have "root (last fs) \<in> set (nodes fs)" by (induction fs rule: nodes.induct) auto
    then show ?thesis using False 2(4) by auto
  qed (use 2(4) in auto)
  have cs: "forest ?s q (child_of s q) cs" using f(4) l 2(6,9)
    by (subst forest_cong [of cs _ s]) (auto simp: attach_def adopt_def)
  show ?case
  proof (cases "fs = []")
    case True
    then show ?thesis using f cs 2(6,8) by (auto simp: attach_def adopt_def)
  next
    case False
    then have e: "?s = attach s par c fs" by (simp add: attach_def)
    have rl: "root (last fs) \<in> set (nodes fs)" using False by (induction fs rule: nodes.induct) auto
    have "forest ?s par (sibling_of s q) (fs @ [t])"
      unfolding e using 2(2) [OF f(5) _ False] 2(4,6,7,8,9) e by simp
    moreover have "sibling_of ?s q = sibling_of s q" "child_of ?s q = child_of s q" "parent_of ?s q = par"
      unfolding e using False f(3) rl 2(4,6) by (auto simp: attach_def adopt_def)
    ultimately show ?thesis using f(1,2) cs by simp
  qed
qed simp

text \<open>\<open>Rose c kc\<close> is a tree of its own.\<close>

definition loose :: "ui \<Rightarrow> ptr \<Rightarrow> rose list \<Rightarrow> bool" where
  "loose s c kc \<longleftrightarrow> c \<noteq> NULL \<and> sibling_of s c = NULL \<and> forest s c (child_of s c) kc"

lemma forest_attach:
  "forest s par p fs \<Longrightarrow> distinct (nodes fs @ c # nodes kc) \<Longrightarrow> q \<in> set (nodes fs) \<Longrightarrow> loose s c kc \<Longrightarrow>
   forest (attach s q c (kids_of q fs)) par p (graft q (Rose c kc) fs)"
proof (induction fs arbitrary: par p rule: nodes.induct)
  case (2 r cs fs)
  from 2(3) have f: "p = r" "r \<noteq> NULL" "parent_of s r = par" "forest s r (child_of s r) cs" "forest s par (sibling_of s r) fs" by simp_all
  have d: "distinct (nodes cs @ c # nodes kc)" "distinct (nodes fs @ c # nodes kc)" "r \<notin> set (nodes cs)" "r \<notin> set (nodes fs)"
    "set (nodes cs) \<inter> set (nodes fs) = {}" "r \<noteq> c" "r \<notin> set (nodes kc)" using 2(4) by auto
  consider (own) "r = q" | (kids) "r \<noteq> q" "q \<in> set (nodes cs)" "q \<notin> set (nodes fs)" | (sibs) "r \<noteq> q" "q \<notin> set (nodes cs)" "q \<in> set (nodes fs)"
    using 2(5) d(5) by auto
  then show ?case
  proof cases
    case own
    let ?s = "attach s q c cs"
    have k: "forest ?s c (child_of s c) kc" using 2(6) own d forest_attach_other [of c kc q cs s c "child_of s c"] by (auto simp: loose_def)
    have l: "cs \<noteq> [] \<Longrightarrow> root (last cs) \<in> set (nodes cs)" by (induction cs rule: nodes.induct) auto
    have c: "parent_of ?s c = q" "sibling_of ?s c = NULL" "child_of ?s c = child_of s c"
      using 2(6) own d l by (auto simp: attach_def adopt_def loose_def)
    have t: "forest ?s q c [Rose c kc]" using c k 2(6) by (simp add: loose_def)
    have q: "parent_of ?s q = par" "sibling_of ?s q = sibling_of s q" using own d(3,6) f(3) l by (auto simp: attach_def adopt_def)
    have fs: "forest ?s par (sibling_of s q) fs" using f(5) own d forest_attach_other [of c fs q cs s] by auto
    have "forest ?s q (child_of ?s q) (cs @ [Rose c kc])"
    proof (cases "cs = []")
      case True
      then have "child_of ?s q = c" using own d(6) by (simp add: attach_def adopt_def)
      then show ?thesis using t True by simp
    next
      case False
      then have "child_of ?s q = child_of s q" using l own d(3,6) by (auto simp: attach_def adopt_def)
      then show ?thesis using forest_append [OF f(4) [unfolded own] _ False] d t own 2(6) by (simp add: loose_def)
    qed
    then show ?thesis using f(1,2) own q fs by simp
  next
    case kids
    let ?s = "attach s q c (kids_of q cs)"
    have "ui_layers ?s r = ui_layers s r" using kids d(3,6) kids_nodes [of q cs] by (intro attach_other) auto
    moreover have "set (nodes (kids_of q cs)) \<inter> set (nodes fs) = {}" using kids_nodes [of q cs] d(5) by blast
    then have "forest ?s par (sibling_of s r) fs"
      using f(5) kids d(2) forest_attach_other [of c fs q "kids_of q cs" s] by auto
    ultimately show ?thesis using f(1-3) 2(1) [OF f(4) d(1) kids(2) 2(6)] kids graft_other [OF kids(3)] by simp
  next
    case sibs
    let ?s = "attach s q c (kids_of q fs)"
    have "ui_layers ?s r = ui_layers s r" using sibs d(4,6) kids_nodes [of q fs] by (intro attach_other) auto
    moreover have "set (nodes (kids_of q fs)) \<inter> set (nodes cs) = {}" using kids_nodes [of q fs] d(5) by blast
    then have "forest ?s r (child_of s r) cs"
      using f(4) sibs d(1) forest_attach_other [of c cs q "kids_of q fs" s] by auto
    ultimately show ?thesis using f(1-3) 2(2) [OF f(5) d(2) sibs(3) 2(6)] sibs graft_other [OF sibs(2)] by simp
  qed
qed simp

lemma add_graft:
  assumes "forest s par p fs" "distinct (nodes fs @ c # nodes kc)" "q \<in> set (nodes fs)" "loose s c kc"
  shows "\<exists>s'. layer_add_child s q c = Some s' \<and> forest s' par p (graft q (Rose c kc) fs) \<and> ui_live s' = ui_live s"
proof -
  let ?ks = "kids_of q fs"
  have nn: "q \<noteq> NULL" "c \<noteq> NULL" using forest_nonnull [OF assms(1)] assms(3,4) by (metis, simp add: loose_def)
  have k: "forest s q (child_of s q) ?ks" by (rule kids_forest [OF assms(1,3)])
  have c: "c \<notin> set (nodes ?ks)" using kids_nodes [of q fs] assms(2) by auto
  have h: "child_of s q \<noteq> c" using k c nn(2) by (cases ?ks rule: nodes.cases) auto
  have dirty: "forest (layer_mark_dirty s') par p gs = forest s' par p gs" for s' gs by (rule forest_cong) simp
  show ?thesis
  proof (cases "?ks = []")
    case True
    then have "layer_add_child s q c = Some (attach s q c ?ks)" using k nn h by (simp add: layer_add_child_def attach_def)
    then show ?thesis using forest_attach [OF assms] by (simp add: attach_def adopt_def)
  next
    case False
    then have "child_of s q \<noteq> NULL" using k by (cases ?ks rule: nodes.cases) auto
    then have "layer_add_child s q c = Some (layer_mark_dirty (attach s q c ?ks))"
      using last_sibling_forest [OF k False c] nn h False by (simp add: layer_add_child_def attach_def)
    then show ?thesis using forest_attach [OF assms] dirty by (simp add: attach_def adopt_def)
  qed
qed

subsection \<open>Freeing\<close>

text \<open>The depth of the recursion, which goes down for a sibling as for a child.\<close>

fun ldepth :: "rose list \<Rightarrow> nat" where
  "ldepth [] = 0"
| "ldepth (Rose q cs # fs) = Suc (max (ldepth cs) (ldepth fs))"

lemma forest_same: "ui_layers s' = ui_layers s \<Longrightarrow> forest s' par p fs = forest s par p fs"
  by (rule forest_cong) simp

lemma delete_forest:
  "forest s par p fs \<Longrightarrow> distinct (nodes fs) \<Longrightarrow> set (nodes fs) \<subseteq> ui_live s \<Longrightarrow>
   layer_delete_tree d s p = (if fs \<noteq> [] \<and> 7 < d + ldepth fs then None else Some (s\<lparr>ui_live := ui_live s - set (nodes fs)\<rparr>))"
proof (induction fs arbitrary: s par p d rule: nodes.induct)
  case 1
  then show ?case by (subst layer_delete_tree.simps) simp
next
  case (2 q cs fs)
  from 2(3) have f: "p = q" "q \<noteq> NULL" "forest s q (child_of s q) cs" "forest s par (sibling_of s q) fs" by simp_all
  have d: "distinct (nodes cs)" "distinct (nodes fs)" "q \<notin> set (nodes cs)" "q \<notin> set (nodes fs)" "set (nodes cs) \<inter> set (nodes fs) = {}"
    and l: "q \<in> ui_live s" "set (nodes cs) \<subseteq> ui_live s" "set (nodes fs) \<subseteq> ui_live s"
    using 2(4,5) by auto
  let ?s = "s\<lparr>ui_live := ui_live s - set (nodes cs)\<rparr>"
  have e: "(child_of s q = NULL) = (cs = [])" "(sibling_of s q = NULL) = (fs = [])"
    using f(3,4) by ((cases cs rule: nodes.cases; simp), (cases fs rule: nodes.cases; simp))
  define s1 where "s1 = ?s"
  have kids: "(if child_of s q \<noteq> NULL then layer_delete_tree (d + 1) s (child_of s q) else Some s) =
      (if cs \<noteq> [] \<and> 7 < d + 1 + ldepth cs then None else Some s1)"
    using 2(1) [OF f(3) d(1) l(2), of "d + 1"] e(1) by (simp add: s1_def)
  have f4: "forest s1 par (sibling_of s1 q) fs" using f(4) forest_same [of ?s s] by (simp add: s1_def)
  have l3: "set (nodes fs) \<subseteq> ui_live s1" using l(3) d(5) by (auto simp: s1_def)
  define s2 where "s2 = s1\<lparr>ui_live := ui_live s1 - set (nodes fs)\<rparr>"
  have sibs: "(if sibling_of s1 q \<noteq> NULL then layer_delete_tree (d + 1) s1 (sibling_of s1 q) else Some s1) =
      (if fs \<noteq> [] \<and> 7 < d + 1 + ldepth fs then None else Some s2)"
    using 2(2) [OF f4 d(2) l3, of "d + 1"] e(2) by (simp add: s1_def s2_def)
  have z: "ldepth xs = 0 \<longleftrightarrow> xs = []" for xs by (cases xs rule: ldepth.cases) simp_all
  have m: "(7 < d + ldepth (Rose q cs # fs)) = (6 < d \<or> (cs \<noteq> [] \<and> 7 < d + 1 + ldepth cs) \<or> (fs \<noteq> [] \<and> 7 < d + 1 + ldepth fs))"
    using z [of cs] z [of fs] by auto
  have n: "free_layer s2 q = Some (s\<lparr>ui_live := ui_live s - set (nodes (Rose q cs # fs))\<rparr>)"
    using l(1) d(3,4) by (auto simp: free_layer_def s1_def s2_def intro: arg_cong [where f = "\<lambda>x. s\<lparr>ui_live := x\<rparr>"])
  have step: "layer_delete_tree d s q = do {
       c_assert (3 * d < SIZEOF_SINJ);
       s \<leftarrow> (if child_of s q \<noteq> NULL then layer_delete_tree (d + 1) s (child_of s q) else Some s);
       s \<leftarrow> (if sibling_of s q \<noteq> NULL then layer_delete_tree (d + 1) s (sibling_of s q) else Some s);
       free_layer s q }" by (subst layer_delete_tree.simps) (simp only: f(2) if_False)
  have b: "3 * d < SIZEOF_SINJ \<longleftrightarrow> \<not> 6 < d" by (simp add: SIZEOF_SINJ_def) presburger
  show ?case
    unfolding f(1) m step kids b c_assert_bind
    by (cases "cs \<noteq> [] \<and> 7 < d + 1 + ldepth cs"; cases "fs \<noteq> [] \<and> 7 < d + 1 + ldepth fs"; cases "6 < d")
      (simp_all only: if_True if_False Option.bind.bind_lzero Option.bind.bind_lunit sibs n simp_thms list.simps if_cancel)
qed

lemma remove_children:
  assumes "forest s par p fs" "distinct (nodes fs)" "set (nodes fs) \<subseteq> ui_live s" "q \<in> set (nodes fs)"
  shows "layer_remove_child_layers s q =
    (if 7 < ldepth (kids_of q fs) then None else Some (s\<lparr>ui_live := ui_live s - set (nodes (kids_of q fs))\<rparr>))"
proof -
  have "distinct (nodes (kids_of q fs))" using assms(2) by (induction q fs rule: kids_of.induct) auto
  moreover have "set (nodes (kids_of q fs)) \<subseteq> ui_live s" using kids_nodes [of q fs] assms(3) by blast
  ultimately show ?thesis
    using delete_forest [OF kids_forest [OF assms(1,4)], of 0] by (auto simp: layer_remove_child_layers_def)
qed

subsection \<open>Properties\<close>

text \<open>C39: drawing a window whose layers form trees ends; it calls the update procedures in preorder, of just the layers that are not hidden
  and have no hidden ancestor, each once and with the offset of the frames of all its ancestors added up.\<close>

theorem layer_draw_preorder:
  assumes "forest s par l fs" "distinct (nodes fs)"
  shows "\<exists>calls. layer_draw s l ofs = Some calls \<and> calls = drawn (ui_layers s) ofs fs \<and> distinct (map (fst \<circ> snd) calls) \<and>
    set (map (fst \<circ> snd) calls) \<subseteq> {q \<in> set (nodes fs). ly_proc (ui_layers s q) \<noteq> NULL \<and> \<not> ly_hidden (ui_layers s q)}"
  using walk_forest [OF assms(1)] drawn_distinct [OF assms(2)] drawn_nodes by (auto simp: layer_draw_def)

text \<open>The layers 1 to 4: 2 and 3 are the children of 1, and 4 is alone.\<close>

definition ex_ui :: ui where
  "ex_ui = \<lparr> ui_layers = (\<lambda>_. layer_zero)(1 := layer_zero\<lparr>ly_child := 2, ly_proc := 101, ly_frame := \<lparr>gx = 10, gy = 20, gw = 100, gh = 100\<rparr>\<rparr>,
      2 := layer_zero\<lparr>ly_sibling := 3, ly_parent := 1, ly_proc := 102\<rparr>, 3 := layer_zero\<lparr>ly_parent := 1, ly_proc := 103, ly_hidden := True\<rparr>),
     ui_live = {1, 2, 3, 4}, ui_dirty = False \<rparr>"

definition ex_trees :: "rose list" where "ex_trees = [Rose 1 [Rose 2 [], Rose 3 []]]"

lemma ex_ui_forest: "forest ex_ui NULL 1 ex_trees" "distinct (nodes ex_trees)"
  by (simp_all add: ex_ui_def ex_trees_def layer_zero_def)

theorem layer_draw_preorder_witness:
  "layer_draw ex_ui 1 \<lparr>gx = 0, gy = 0, gw = 144, gh = 168\<rparr> =
    Some [(101, 1, \<lparr>gx = 10, gy = 20, gw = 134, gh = 148\<rparr>), (102, 2, \<lparr>gx = 10, gy = 20, gw = 134, gh = 148\<rparr>)]"
  using layer_draw_preorder [OF ex_ui_forest, of "\<lparr>gx = 0, gy = 0, gw = 144, gh = 168\<rparr>"]
  by (simp add: ex_ui_def ex_trees_def layer_zero_def layer_apply_frame_offset_def)

text \<open>C40: editing the tree under a window's root layer. Adding a loose layer makes it, with all below it, the last child of its
  parent. Removing a layer takes it away with all below it; a layer that is not the first child leaves the rest alone, a
  first child takes all its siblings along. Neither faults nor fails to end.\<close>

theorem layer_edits_refine:
  assumes "forest s NULL r [Rose r cs]" "distinct (nodes [Rose r cs])"
  shows "(\<forall>q c kc. q \<in> set (nodes [Rose r cs]) \<and> loose s c kc \<and> distinct (nodes [Rose r cs] @ c # nodes kc) \<longrightarrow>
      (\<exists>s'. layer_add_child s q c = Some s' \<and> forest s' NULL r (graft q (Rose c kc) [Rose r cs]))) \<and>
    (\<forall>c \<in> set (nodes cs). \<exists>s'. layer_remove_from_parent s c = Some s' \<and> forest s' NULL r (prune c [Rose r cs]))"
proof (intro conjI allI ballI impI)
  fix q c kc
  assume "q \<in> set (nodes [Rose r cs]) \<and> loose s c kc \<and> distinct (nodes [Rose r cs] @ c # nodes kc)"
  then show "\<exists>s'. layer_add_child s q c = Some s' \<and> forest s' NULL r (graft q (Rose c kc) [Rose r cs])"
    using add_graft [OF assms(1)] by blast
next
  fix c
  assume "c \<in> set (nodes cs)"
  then show "\<exists>s'. layer_remove_from_parent s c = Some s' \<and> forest s' NULL r (prune c [Rose r cs])"
    using remove_prune [OF assms] unfolding layer_remove_from_parent_def by blast
qed

theorem layer_edits_refine_witness:
  "(\<exists>s'. layer_add_child ex_ui 2 4 = Some s' \<and> forest s' NULL 1 [Rose 1 [Rose 2 [Rose 4 []], Rose 3 []]]) \<and>
   (\<exists>s'. layer_remove_from_parent ex_ui 3 = Some s' \<and> forest s' NULL 1 [Rose 1 [Rose 2 []]]) \<and>
   (\<exists>s'. layer_remove_from_parent ex_ui 2 = Some s' \<and> forest s' NULL 1 [Rose 1 []])"
proof -
  have l: "loose ex_ui 4 []" by (simp add: loose_def ex_ui_def layer_zero_def)
  note r = layer_edits_refine [OF ex_ui_forest [unfolded ex_trees_def]]
  show ?thesis
    using conjunct1 [OF r, rule_format, of 2 4 "[]"] l conjunct2 [OF r, THEN bspec, of 3] conjunct2 [OF r, THEN bspec, of 2]
    by (simp add: first_root_def)
qed

subsection \<open>What goes wrong\<close>

text \<open>Adding the last of several children again: the search for the end of the list stops at the layer itself, which then becomes its own
  sibling, and drawing it never ends.\<close>

lemma own_sibling_draws_forever: "sibling_of s c = c \<Longrightarrow> c \<noteq> NULL \<Longrightarrow> layer_walk s c ofs = None"
proof -
  assume c: "sibling_of s c = c" "c \<noteq> NULL"
  have "s = s \<longrightarrow> l \<noteq> c" if "layer_walk s l ofs = Some calls" for l ofs calls
    using that
  proof (rule layer_walk.raw_induct [where P = "\<lambda>s' l ofs calls. s' = s \<longrightarrow> l \<noteq> c", rotated])
    fix walk :: "ui \<Rightarrow> ptr \<Rightarrow> grect \<Rightarrow> (ptr \<times> ptr \<times> grect) list option" and s' :: ui and l ofs calls
    assume ih: "\<And>s' l ofs calls. walk s' l ofs = Some calls \<Longrightarrow> s' = s \<longrightarrow> l \<noteq> c"
    assume y: "(if l = NULL then Some []
      else do {
        here \<leftarrow> (if \<not> ly_hidden (ui_layers s' l)
          then let ofs' = layer_apply_frame_offset (ui_layers s' l) ofs in do {
            sub \<leftarrow> walk s' (child_of s' l) ofs';
            Some ((if ly_proc (ui_layers s' l) \<noteq> NULL then [(ly_proc (ui_layers s' l), l, ofs')] else []) @ sub) }
          else Some []);
        rest \<leftarrow> walk s' (sibling_of s' l) ofs;
        Some (here @ rest) }) = Some calls"
    show "s' = s \<longrightarrow> l \<noteq> c"
    proof (intro impI notI)
      assume e: "s' = s" "l = c"
      then obtain rest where "walk s c ofs = Some rest" using y c by (auto simp: bind_eq_Some_conv)
      then show False using ih by blast
    qed
  qed
  then show ?thesis by fastforce
qed

lemma add_last_child_again:
  assumes "child_of s q = a" "sibling_of s a = c" "sibling_of s c = NULL" "a \<noteq> c" "q \<noteq> NULL" "a \<noteq> NULL" "c \<noteq> NULL" "q \<noteq> c"
  shows "\<exists>s'. layer_add_child s q c = Some s' \<and> layer_draw s' c ofs = None"
proof -
  have "last_sibling s c c = Some (Some c)" by (subst last_sibling.simps) (simp add: assms(3))
  then have "last_sibling s c a = Some (Some c)" by (subst last_sibling.simps) (simp add: assms)
  then have "layer_add_child s q c = Some (layer_mark_dirty (adopt (upd_layer s c (\<lambda>y. y\<lparr>ly_sibling := c\<rparr>)) q c))"
    using assms by (simp add: layer_add_child_def)
  then show ?thesis using own_sibling_draws_forever assms(7) by (simp add: layer_draw_def adopt_def)
qed

text \<open>\<open>layer_insert_below_sibling\<close> looks for the predecessor among the layers after and below the sibling, finds none and follows \<open>NULL\<close>.\<close>

lemma insert_below_faults:
  assumes "forest s par b fs" "distinct (nodes fs)" "fs \<noteq> []"
  shows "layer_insert_below_sibling s n b = None"
proof -
  obtain cs gs where fs: "fs = Rose b cs # gs" using assms(1,3) by (cases fs rule: nodes.cases) auto
  have b: "b \<noteq> NULL" using assms(1) fs by simp
  have n: "(u, b) \<notin> set (edges fs)" for u using edges_target_in [of u b fs] assms(2) unfolding fs by auto
  have "List.find (\<lambda>u. sibling_of s u = b \<or> child_of s u = b) (nodes fs) = None"
    unfolding find_None_iff using forest_points [OF assms(2,1) _ b] n by blast
  then have "layer_find_parent s b b = Some NULL" using find_parent_forest [OF assms(1), of b] by simp
  then show ?thesis by (simp add: layer_insert_below_sibling_def layer_insert_node_def)
qed

text \<open>The conversion of a point never ends for a layer that has a parent.\<close>

lemma to_screen_never_ends: "parent_of s l \<noteq> NULL \<Longrightarrow> l \<noteq> NULL \<Longrightarrow> layer_convert_point_to_screen s l p = None"
proof -
  assume l: "parent_of s l \<noteq> NULL" "l \<noteq> NULL"
  have "s = s \<and> l = l \<longrightarrow> cur = NULL" if "to_screen_loop s l cur p = Some p'" for cur p p'
    using that
  proof (rule to_screen_loop.raw_induct [where P = "\<lambda>s' l' cur p p'. s' = s \<and> l' = l \<longrightarrow> cur = NULL", rotated])
    fix loop :: "ui \<Rightarrow> ptr \<Rightarrow> ptr \<Rightarrow> int \<times> int \<Rightarrow> (int \<times> int) option" and s' :: ui and l' cur p p'
    assume ih: "\<And>s' l' cur p p'. loop s' l' cur p = Some p' \<Longrightarrow> s' = s \<and> l' = l \<longrightarrow> cur = NULL"
    assume y: "(if cur = NULL then Some p
      else loop s' l' (parent_of s' l') (fst p + gx (ly_frame (ui_layers s' cur)), snd p + gy (ly_frame (ui_layers s' cur)))) = Some p'"
    show "s' = s \<and> l' = l \<longrightarrow> cur = NULL"
    proof (intro impI, rule ccontr)
      assume e: "s' = s \<and> l' = l" "cur \<noteq> NULL"
      obtain q where "loop s l (parent_of s l) q = Some p'" using y e by auto
      from ih [OF this] show False using l(1) by simp
    qed
  qed
  from this [of l p] show ?thesis using l(2) unfolding layer_convert_point_to_screen_def by (cases "to_screen_loop s l l p") simp_all
qed

text \<open>Eight layers in a row, or one below the other, overflow the buffer for the indentation of the log when they are freed. Where it ends well, the
  freed layers stay linked: only the set of allocated layers changes.\<close>

lemma remove_eight_children:
  assumes "forest s par p fs" "distinct (nodes fs)" "set (nodes fs) \<subseteq> ui_live s" "q \<in> set (nodes fs)" "length (kids_of q fs) = 8"
  shows "layer_remove_child_layers s q = None"
proof -
  have "length gs \<le> ldepth gs" for gs by (induction gs rule: ldepth.induct) auto
  from this [of "kids_of q fs"] show ?thesis using remove_children [OF assms(1-4)] assms(5) by simp
qed

lemma removed_children_dangle:
  assumes "forest s par p fs" "distinct (nodes fs)" "set (nodes fs) \<subseteq> ui_live s" "q \<in> set (nodes fs)"
    and "layer_remove_child_layers s q = Some s'" "child_of s q \<noteq> NULL"
  shows "child_of s' q = child_of s q \<and> child_of s' q \<notin> ui_live s'"
proof -
  have "child_of s q \<in> set (nodes (kids_of q fs))" using kids_forest [OF assms(1,4)] assms(6) by (cases "kids_of q fs" rule: nodes.cases) auto
  then show ?thesis using remove_children [OF assms(1-4)] assms(5) by (auto split: if_splits)
qed

end
