(* ===== verification/FsCreat.thy ===== *)
theory FsCreat
  imports RdbLaws
begin
unbundle bit_operations_syntax

section \<open>Creating a file and finding it: rcore/fs.c, fs_creat, fs_mark_written, fs_find_file\<close>

text \<open>
  The definitions of the operations are in \<open>FsAlloc\<close>. Here is what a creation does, page by page: which pages it takes, what it
  leaves in their headers and that it touches nothing else (\<open>creat_pages\<close>, \<open>fs_creat_ok\<close>); that the chain of those pages is a
  file of the right length with erased content (\<open>new_file_ok\<close>); what the completion changes (\<open>mark_written_plain\<close>); and
  that the lookup of a name is the lookup in a list of the files by page (\<open>find_file_dir\<close>), which a created file enters when it
  is complete (\<open>created_dir\<close>).
\<close>

subsection \<open>Pages\<close>

definition page_size :: "plat \<Rightarrow> nat" where
  "page_size p = unat (REGION_FS_PAGE_SIZE p)"

text \<open>An erased page: no next page, and nothing after the page header.\<close>

definition page_erased :: "plat \<Rightarrow> mem \<Rightarrow> u16 \<Rightarrow> bool" where
  "page_erased p m w \<longleftrightarrow> (\<forall>i < page_size p. i = 22 \<or> i = 23 \<or> 28 \<le> i \<longrightarrow> m (fs_addr p w 0 + i) = 0xFF)"

text \<open>A change of memory inside the pages \<open>W\<close>, and of the flags byte of other pages.\<close>

definition page_frame :: "plat \<Rightarrow> u16 set \<Rightarrow> mem \<Rightarrow> mem \<Rightarrow> bool" where
  "page_frame p W m m' \<longleftrightarrow> (\<forall>v i. unat v < REGION_FS_N_PAGES p \<longrightarrow> v \<notin> W \<longrightarrow> i < page_size p \<longrightarrow> i \<noteq> 2 \<longrightarrow>
     m' (fs_addr p v 0 + i) = m (fs_addr p v 0 + i))"

definition clean_pages :: "plat \<Rightarrow> fs \<Rightarrow> u16 set" where
  "clean_pages p s = {w. unat w < REGION_FS_N_PAGES p \<and> page_clean s (uint w)}"

definition hdr_wear :: "plat \<Rightarrow> mem \<Rightarrow> u16 \<Rightarrow> u32" where
  "hdr_wear p m w = wear_level_counter (page_hdr_of (mread m (fs_addr p w 0) SIZEOF_PAGE_HDR))"

text \<open>The file system as a creation needs it: the table is whole, clean pages are erased and not worn out, and the
  last page is in use: the header after the last page is past the end.\<close>

definition fs_ready :: "plat \<Rightarrow> fs \<Rightarrow> bool" where
  "fs_ready p s \<longleftrightarrow> alloc_ok p s \<and> (\<forall>w \<in> clean_pages p s. page_erased p (fs_flash s) w \<and> hdr_wear p (fs_flash s) w \<noteq> 0xFFFFFFFF \<and>
     unat w + 1 < REGION_FS_N_PAGES p)"

lemma flash_frame_clean:
  "clean_pages p (s\<lparr>fs_flash := m\<rparr>) = clean_pages p s"
  by (simp add: clean_pages_def page_clean_def)

text \<open>A change of memory inside one page.\<close>

definition page_only :: "plat \<Rightarrow> u16 \<Rightarrow> mem \<Rightarrow> mem \<Rightarrow> bool" where
  "page_only p w m m' \<longleftrightarrow> (\<forall>v i. v \<noteq> w \<longrightarrow> i < page_size p \<longrightarrow> m' (fs_addr p v 0 + i) = m (fs_addr p v 0 + i))"

lemma page_only_frame: "page_only p w m m' \<Longrightarrow> page_frame p {w} m m'"
  by (simp add: page_only_def page_frame_def)

lemma page_frame_refl [simp]: "page_frame p W m m"
  by (simp add: page_frame_def)

lemma page_frame_trans: "page_frame p W m m' \<Longrightarrow> page_frame p W' m' m'' \<Longrightarrow> W \<subseteq> V \<Longrightarrow> W' \<subseteq> V \<Longrightarrow> page_frame p V m m''"
  unfolding page_frame_def by (metis subsetD)

lemma page_frame_mono: "page_frame p W m m' \<Longrightarrow> W \<subseteq> V \<Longrightarrow> page_frame p V m m'"
  by (auto simp: page_frame_def)

context fs_platform begin

lemma page_size_bounds: "128 \<le> page_size p" "page_size p < 2 ^ 32"
  using page_lo unat_u32_less [of "REGION_FS_PAGE_SIZE p"] by (simp_all add: page_size_def)

text \<open>Two places in pages are the same just when the pages and the offsets are.\<close>

lemma page_place:
  assumes "i < page_size p" "j < page_size p"
  shows "fs_addr p v 0 + i = fs_addr p w 0 + j \<longleftrightarrow> v = w \<and> i = j"
proof
  assume e: "fs_addr p v 0 + i = fs_addr p w 0 + j"
  then have "unat v * page_size p + i = unat w * page_size p + j" by (simp add: fs_addr_def page_size_def)
  then have "(unat v * page_size p + i) div page_size p = (unat w * page_size p + j) div page_size p"
    "(unat v * page_size p + i) mod page_size p = (unat w * page_size p + j) mod page_size p" by simp_all
  then show "v = w \<and> i = j" using assms by (simp add: word_unat_eq_iff)
qed simp

lemma page_index:
  "unat w < REGION_FS_N_PAGES p \<Longrightarrow> uint w \<in> fs_pages p"
  unfolding unat_eq_nat_uint nat_less_iff [OF unsigned_greater_eq] by (simp add: fs_pages_def)

lemma page_word_uint: "(word_of_int (uint w) :: u16) = w"
  by simp

lemma frame_next: "page_frame p W m m' \<Longrightarrow> unat v < REGION_FS_N_PAGES p \<Longrightarrow> v \<notin> W \<Longrightarrow> fs_next p m' v = fs_next p m v"
  using page_size_bounds by (simp add: fs_next_bytes page_frame_def)

lemma frame_erased: "page_frame p W m m' \<Longrightarrow> unat v < REGION_FS_N_PAGES p \<Longrightarrow> v \<notin> W \<Longrightarrow> page_erased p m' v = page_erased p m v"
  by (auto simp: page_frame_def page_erased_def)

lemma frame_wear: "page_frame p W m m' \<Longrightarrow> unat v < REGION_FS_N_PAGES p \<Longrightarrow> v \<notin> W \<Longrightarrow> hdr_wear p m' v = hdr_wear p m v"
  using page_size_bounds by (simp add: hdr_wear_def page_hdr_of_def get32_def SIZEOF_PAGE_HDR_def page_frame_def)

text \<open>Bytes programmed into a page.\<close>

lemma put_page:
  assumes w: "unat w < REGION_FS_N_PAGES p" and fit: "unat ofs + length bs \<le> page_size p" "length bs \<le> 127"
  shows "\<exists>m. fs_put p s (uint w) ofs bs = Some (0, s\<lparr>fs_flash := m\<rparr>) \<and> page_only p w (fs_flash s) m \<and>
    (\<forall>i < page_size p. m (fs_addr p w 0 + i) = (if unat ofs \<le> i \<and> i < unat ofs + length bs
        then fs_flash s (fs_addr p w 0 + i) AND bs ! (i - unat ofs) else fs_flash s (fs_addr p w 0 + i)))"
proof -
  let ?m = "mprogram (fs_flash s) (fs_addr p w ofs) bs"
  have a: "fs_addr p w ofs = fs_addr p w 0 + unat ofs" by (simp add: fs_addr_def)
  have 1: "fs_put p s (uint w) ofs bs = Some (0, s\<lparr>fs_flash := ?m\<rparr>)"
    using fs_put_ok [OF page_index [OF w], of ofs bs s] fit by (simp add: page_size_def)
  have in_page: "?m (fs_addr p w 0 + i) = (if unat ofs \<le> i \<and> i < unat ofs + length bs
        then fs_flash s (fs_addr p w 0 + i) AND bs ! (i - unat ofs) else fs_flash s (fs_addr p w 0 + i))" for i
    by (auto simp: mprogram_def a)
  have "page_only p w (fs_flash s) ?m"
  proof (unfold page_only_def, intro allI impI)
    fix v i assume v: "v \<noteq> w" "i < page_size p"
    have "fs_addr p v 0 + i \<noteq> fs_addr p w 0 + unat ofs + k" if "k < length bs" for k
      using page_place [of i "unat ofs + k" v w] v that fit(1) by (simp add: add.assoc)
    then show "?m (fs_addr p v 0 + i) = fs_flash s (fs_addr p v 0 + i)"
      unfolding mprogram_def a by (metis le_Suc_ex nat_add_left_cancel_less)
  qed
  then show ?thesis using 1 in_page by blast
qed

lemma page_hdr_read_at: "unat w < REGION_FS_N_PAGES p \<Longrightarrow>
   page_hdr_at p s (uint w) = Some (page_hdr_of (mread (fs_flash s) (fs_addr p w 0) SIZEOF_PAGE_HDR))"
  using page_hdr_ok [OF page_index, of w s] unfolding page_word_uint .

text \<open>The header of the following page loses one bit of its flags byte.\<close>

lemma moreblocks:
  assumes "unat w + 1 < REGION_FS_N_PAGES p"
  shows "\<exists>m. update_moreblocks p s (uint w + 1) = Some (0, s\<lparr>fs_flash := m\<rparr>) \<and> page_frame p {} (fs_flash s) m \<and>
    (\<forall>i < page_size p. m (fs_addr p w 0 + i) = fs_flash s (fs_addr p w 0 + i))"
proof -
  have w1: "unat (w + 1) = unat w + 1" using assms n_pages by (simp add: unat_word_ariths)
  then have u: "uint w + 1 = uint (w + 1)" unfolding uint_nat w1 by simp
  have n: "unat (w + 1) < REGION_FS_N_PAGES p" using w1 assms by simp
  let ?bs = "mread (fs_flash s) (fs_addr p (w + 1) 0) SIZEOF_PAGE_HDR" and ?h = "page_hdr_of (mread (fs_flash s) (fs_addr p (w + 1) 0) SIZEOF_PAGE_HDR)"
  let ?new = "page_hdr_bytes (?h\<lparr>empty := empty ?h AND NOT HDR_EMPTY_ALLOCATED\<rparr>)"
  have new: "?new = ?bs[2 := empty ?h AND NOT HDR_EMPTY_ALLOCATED]"
  proof -
    have "?new = (page_hdr_bytes ?h)[2 := empty ?h AND NOT HDR_EMPTY_ALLOCATED]"
      by (simp add: page_hdr_bytes_def le16_def)
    then show ?thesis by (simp add: page_hdr_bytes_of SIZEOF_PAGE_HDR_def)
  qed
  obtain m where m: "fs_put p s (uint (w + 1)) 0 ?new = Some (0, s\<lparr>fs_flash := m\<rparr>)" "page_only p (w + 1) (fs_flash s) m"
    "\<forall>i < page_size p. m (fs_addr p (w + 1) 0 + i) = (if i < 28 then fs_flash s (fs_addr p (w + 1) 0 + i) AND ?new ! i
        else fs_flash s (fs_addr p (w + 1) 0 + i))"
    using put_page [OF n, of 0 ?new s] page_size_bounds by auto
  have "page_frame p {} (fs_flash s) m"
  proof (unfold page_frame_def, intro allI impI)
    fix v :: u16 and i assume v: "unat v < REGION_FS_N_PAGES p" "i < page_size p" "i \<noteq> 2"
    show "m (fs_addr p v 0 + i) = fs_flash s (fs_addr p v 0 + i)"
    proof (cases "v = w + 1")
      case True
      then show ?thesis using m(3) v(2,3) unfolding new by (simp add: SIZEOF_PAGE_HDR_def)
    qed (use m(2) v in \<open>simp add: page_only_def\<close>)
  qed
  moreover have "update_moreblocks p s (uint w + 1) = Some (0, s\<lparr>fs_flash := m\<rparr>)"
    unfolding update_moreblocks_def u page_hdr_read_at [OF n] using m(1) by simp
  moreover have "w \<noteq> w + 1" by simp
  then have "\<forall>i < page_size p. m (fs_addr p w 0 + i) = fs_flash s (fs_addr p w 0 + i)" using m(2) unfolding page_only_def by blast
  ultimately show ?thesis by blast
qed


subsection \<open>One page\<close>

lemma page_wear_word: "page_wear p s (uint w) = hdr_wear p (fs_flash s) w"
  by (simp only: page_wear_def hdr_wear_def page_word_uint)

lemma ready_flash:
  assumes r: "fs_ready p s" and f: "page_frame p W (fs_flash s) m" and W: "W \<inter> clean_pages p s = {}"
  shows "fs_ready p (s\<lparr>fs_flash := m\<rparr>)"
proof -
  have cl: "unat w < REGION_FS_N_PAGES p" "w \<notin> W" if "w \<in> clean_pages p s" for w
    using that W by (auto simp: clean_pages_def)
  have wear: "page_wear p (s\<lparr>fs_flash := m\<rparr>) pg = page_wear p s pg" if "pg \<in> fs_pages p" "page_clean s pg" for pg
  proof -
    have pg: "pg = uint (word_of_int pg :: u16)" using page_word(1) [OF that(1)] that(1) unfolding uint_nat by (simp add: fs_pages_def)
    have "(word_of_int pg :: u16) \<in> clean_pages p s" using that page_word(3) [OF that(1)] pg by (simp add: clean_pages_def)
    then show ?thesis using frame_wear [OF f cl, of "word_of_int pg"] by (subst (1 2) pg) (simp add: page_wear_word)
  qed
  have "alloc_ok p (s\<lparr>fs_flash := m\<rparr>)"
    using r wear by (simp add: fs_ready_def alloc_ok_def) (simp add: page_clean_def)
  then show ?thesis using r frame_erased [OF f cl] frame_wear [OF f cl] by (simp add: fs_ready_def flash_frame_clean)
qed

lemma alloc_step:
  assumes r: "fs_ready p s" and ne: "clean_pages p s \<noteq> {}" and st: "st \<noteq> PageStateClean"
  shows "\<exists>w s1. fs_verily_alloc_page p s st = Some (w, s1) \<and> w \<in> clean_pages p s \<and> fs_ready p s1 \<and>
    clean_pages p s1 = clean_pages p s - {w} \<and> fs_flash s1 = fs_flash s \<and> fs_free_pages s1 = fs_free_pages s \<and> fs_valid s1 = fs_valid s \<and>
    (\<forall>v. page_at s1 (uint v) = (if v = w then st else page_at s (uint v))) \<and> fs_lastpg s1 = max (fs_lastpg s) (uint w)"
proof -
  have ok: "alloc_ok p s" using r by (simp add: fs_ready_def)
  obtain pg b l where a: "fs_page_alloc p s = Some (pg, s\<lparr>fs_best_erase_count := b, fs_last_allocated_page := l\<rparr>)"
    "pg = -1 \<and> (\<forall>q \<in> fs_pages p. \<not> page_clean s q) \<or>
     pg \<in> fs_pages p \<and> page_clean s pg \<and> l = pg \<and> b = page_wear p s pg \<and>
       (\<forall>q \<in> fs_pages p. page_clean s q \<longrightarrow> page_wear p s pg \<le> page_wear p s q)"
    using page_alloc [OF ok] by blast
  obtain c where c: "c \<in> clean_pages p s" using ne by blast
  then have "uint c \<in> fs_pages p" "page_clean s (uint c)" by (auto simp: clean_pages_def intro: page_index)
  then have pg: "pg \<in> fs_pages p" "page_clean s pg" "l = pg" "b = page_wear p s pg"
    "\<forall>q \<in> fs_pages p. page_clean s q \<longrightarrow> page_wear p s pg \<le> page_wear p s q" using a(2) by auto
  define w where "w = (word_of_int pg :: u16)"
  have uw: "uint w = pg" using page_word(1) [OF pg(1)] pg(1) unfolding uint_nat w_def by (simp add: fs_pages_def)
  have w: "w \<in> clean_pages p s" using pg(2) page_word(3) [OF pg(1)] uw by (simp add: clean_pages_def w_def)
  define s0 where "s0 = s\<lparr>fs_best_erase_count := b, fs_last_allocated_page := pg\<rparr>"
  have len: "REGION_FS_N_PAGES p \<le> 4 * length (fs_page_flags s0)" using ok by (simp add: alloc_ok_def s0_def)
  define s1 where "s1 = s0\<lparr>fs_page_flags := set_page_flags (fs_page_flags s) w st, fs_lastpg := max (fs_lastpg s) (uint w)\<rparr>"
  have pos: "0 \<le> pg" using pg(1) by (simp add: fs_pages_def)
  have v: "fs_verily_alloc_page p s st = Some (w, s1)"
    using a(1) pos page_state_ok(2) [OF pg(1) len, of st]
    by (auto simp: fs_verily_alloc_page_def pg(3) s0_def [symmetric] w_def [symmetric] s1_def uw max_def) (simp_all add: s0_def)
  have idx: "pg_index w < length (fs_page_flags s)"
    using w len unfolding pg_index by (auto simp: clean_pages_def s0_def)
  have at: "page_at s1 (uint v) = (if v = w then st else page_at s (uint v))" for v
    unfolding page_at_def page_word_uint using get_set_page_flags [OF idx] by (simp add: s1_def)
  have cl: "clean_pages p s1 = clean_pages p s - {w}"
    using at st by (auto simp: clean_pages_def page_clean_def page_at_def)
  have wear: "page_wear p s1 = page_wear p s" by (simp add: fun_eq_iff page_wear_def s1_def s0_def)
  have cl': "page_clean s1 q \<Longrightarrow> page_clean s q" if "q \<in> fs_pages p" for q
  proof -
    have "q = uint (word_of_int q :: u16)" using page_word(1) [OF that] that unfolding uint_nat by (simp add: fs_pages_def)
    then show "page_clean s1 q \<Longrightarrow> page_clean s q" using at [of "word_of_int q"] st by (simp add: page_clean_def page_at_def split: if_splits)
  qed
  have bw: "b \<noteq> 0xFFFFFFFF" using r w pg(4) uw page_wear_word [of s w] by (simp add: fs_ready_def)
  have "alloc_ok p s1"
    using ok pg bw cl' wear by (simp add: alloc_ok_def s1_def s0_def)
  then have "fs_ready p s1" using r cl by (simp add: fs_ready_def s1_def s0_def)
  then show ?thesis using v w cl at by (intro exI [of _ w] exI [of _ s1]) (simp add: s1_def s0_def)
qed

text \<open>Bytes programmed over a page header that has no next page.\<close>

lemma erased_next:
  assumes "\<forall>i < page_size p. m' (fs_addr p w 0 + i) = (if i < k then m (fs_addr p w 0 + i) AND bs ! i else m (fs_addr p w 0 + i))"
    and "page_erased p m w" "28 \<le> k"
  shows "fs_next p m' w = get16 bs 22"
proof -
  have b: "22 < page_size p" "23 < page_size p" using page_size_bounds by simp_all
  have "m (fs_addr p w 0 + 22) = 0xFF" "m (fs_addr p w 0 + 23) = 0xFF"
    using assms(2) b unfolding page_erased_def by blast+
  moreover have "m' (fs_addr p w 0 + 22) = m (fs_addr p w 0 + 22) AND bs ! 22" "m' (fs_addr p w 0 + 23) = m (fs_addr p w 0 + 23) AND bs ! 23"
    using assms(1,3) b by simp_all
  ultimately have "m' (fs_addr p w 0 + 22) = bs ! 22" "m' (fs_addr p w 0 + 23) = bs ! 23" by simp_all
  then show ?thesis by (simp add: fs_next_bytes get16_def)
qed

lemma creat_cont:
  assumes w: "unat w + 1 < REGION_FS_N_PAGES p" and er: "page_erased p (fs_flash s) w"
  shows "\<exists>m. fs_creat_cont p s w nx ph = Some (s\<lparr>fs_flash := m\<rparr>) \<and> page_frame p {w} (fs_flash s) m \<and> fs_next p m w = nx \<and>
    (\<forall>i < page_size p. 28 \<le> i \<longrightarrow> m (fs_addr p w 0 + i) = 0xFF)"
proof -
  let ?bs = "page_hdr_bytes (fs_new_cont_hdr ph nx)"
  obtain m1 where m1: "update_moreblocks p s (uint w + 1) = Some (0, s\<lparr>fs_flash := m1\<rparr>)" "page_frame p {} (fs_flash s) m1"
    "\<forall>i < page_size p. m1 (fs_addr p w 0 + i) = fs_flash s (fs_addr p w 0 + i)"
    using moreblocks [OF w] by blast
  have wn: "unat w < REGION_FS_N_PAGES p" using w by simp
  obtain m where m: "fs_put p (s\<lparr>fs_flash := m1\<rparr>) (uint w) 0 ?bs = Some (0, s\<lparr>fs_flash := m\<rparr>)" "page_only p w m1 m"
    "\<forall>i < page_size p. m (fs_addr p w 0 + i) = (if i < 28 then m1 (fs_addr p w 0 + i) AND ?bs ! i else m1 (fs_addr p w 0 + i))"
    using put_page [OF wn, of 0 ?bs "s\<lparr>fs_flash := m1\<rparr>"] page_size_bounds by auto
  have e1: "page_erased p m1 w" using er m1(3) by (simp add: page_erased_def)
  have "get16 ?bs 22 = nx"
    using page_hdr_of_bytes [of "fs_new_cont_hdr ph nx" "[]"]
    by (simp add: page_hdr_of_def fs_page_hdr.defs) (simp add: fs_new_cont_hdr_def Let_def)
  then have "fs_next p m w = nx" using erased_next [OF m(3) e1] by simp
  moreover have "page_frame p {w} (fs_flash s) m"
    by (rule page_frame_trans [OF m1(2) page_only_frame [OF m(2)]]) auto
  ultimately show ?thesis using m1 m e1 by (auto simp: fs_creat_cont_def page_erased_def)
qed


end

text \<open>A page that starts a file: its chain, the fields of its header and its name, and nothing after them.\<close>

definition file_page :: "plat \<Rightarrow> mem \<Rightarrow> u16 \<Rightarrow> u16 \<Rightarrow> fs_file_hdr \<Rightarrow> bytes \<Rightarrow> bool" where
  "file_page p m w nx h nm \<longleftrightarrow> fs_next p m w = nx \<and> mread m (fs_addr p w 0 + 28) 48 = file_hdr_tail h \<and>
     mread m (fs_addr p w 0 + 76) (length nm) = nm \<and> (\<forall>i < page_size p. 76 + length nm \<le> i \<longrightarrow> m (fs_addr p w 0 + i) = 0xFF)"

lemma new_file_hdr_fields: "length (v_full (fs_new_file_hdr ph nm n nx)) = 26" "next_page (fs_new_file_hdr ph nm n nx) = nx"
  "file_size (fs_new_file_hdr ph nm n nx) = n" "filename_len (fs_new_file_hdr ph nm n nx) = word_of_nat (length nm)"
  "st_tmp_file (fs_new_file_hdr ph nm n nx) = 0xFFFF"
  by (simp_all add: fs_new_file_hdr_def Let_def file_hdr_of_def fs_page_hdr.defs fs_file_hdr.defs SIZEOF_FILE_HDR_def get16_def)

lemma file_hdr_tail_length [simp]: "length (v_full h) = 26 \<Longrightarrow> length (file_hdr_tail h) = 48"
  by (simp add: file_hdr_tail_def)

lemma file_hdr_nth: "i < 28 \<Longrightarrow> file_hdr_bytes h ! i = page_hdr_bytes h ! i" "file_hdr_bytes h ! (28 + i) = file_hdr_tail h ! i"
  by (simp_all add: file_hdr_bytes_def nth_append)

lemma page_hdr_next: "get16 (page_hdr_bytes h) 22 = next_page h"
  using page_hdr_of_bytes [of h "[]"] by (simp add: page_hdr_of_def fs_page_hdr.defs)

lemma complete_tail: "file_hdr_tail (h\<lparr>st_create_complete := 0\<rparr>) = (file_hdr_tail h)[18 := 0, 19 := 0]"
  by (simp add: file_hdr_tail_def list_update_append le16_def le32_def)

context fs_platform begin

lemma creat_first:
  assumes w: "unat w + 1 < REGION_FS_N_PAGES p" and er: "page_erased p (fs_flash s) w" and nm: "length nm < 32"
  shows "\<exists>m. fs_creat_first p s (Some nm) n w nx ph = Some (fs_new_file_hdr ph nm n nx, s\<lparr>fs_flash := m\<rparr>) \<and>
    page_frame p {w} (fs_flash s) m \<and> file_page p m w nx (fs_new_file_hdr ph nm n nx) nm"
proof -
  let ?h = "fs_new_file_hdr ph nm n nx"
  let ?bs = "file_hdr_bytes ?h" and ?a = "fs_addr p w 0"
  have hl: "length ?bs = 76" by (simp add: new_file_hdr_fields)
  obtain m1 where m1: "update_moreblocks p s (uint w + 1) = Some (0, s\<lparr>fs_flash := m1\<rparr>)" "page_frame p {} (fs_flash s) m1"
    "\<forall>i < page_size p. m1 (?a + i) = fs_flash s (?a + i)"
    using moreblocks [OF w] by blast
  have wn: "unat w < REGION_FS_N_PAGES p" using w by simp
  obtain m2 where m2: "fs_put p (s\<lparr>fs_flash := m1\<rparr>) (uint w) 0 ?bs = Some (0, s\<lparr>fs_flash := m2\<rparr>)" "page_only p w m1 m2"
    "\<forall>i < page_size p. m2 (?a + i) = (if i < 76 then m1 (?a + i) AND ?bs ! i else m1 (?a + i))"
    using put_page [OF wn, of 0 ?bs "s\<lparr>fs_flash := m1\<rparr>"] page_size_bounds hl by auto
  obtain m3 where m3: "fs_put p (s\<lparr>fs_flash := m2\<rparr>) (uint w) 76 nm = Some (0, s\<lparr>fs_flash := m3\<rparr>)" "page_only p w m2 m3"
    "\<forall>i < page_size p. m3 (?a + i) = (if 76 \<le> i \<and> i < 76 + length nm then m2 (?a + i) AND nm ! (i - 76) else m2 (?a + i))"
    using put_page [OF wn, of 76 nm "s\<lparr>fs_flash := m2\<rparr>"] page_size_bounds nm by auto
  have e1: "page_erased p m1 w" using er m1(3) by (simp add: page_erased_def)
  have ff: "m1 (?a + i) = 0xFF" if "i < page_size p" "28 \<le> i" for i using e1 that by (simp add: page_erased_def)
  have "fs_next p m2 w = nx"
    using erased_next [OF m2(3) e1] page_hdr_next [of ?h] by (simp add: get16_def file_hdr_nth new_file_hdr_fields)
  then have "fs_next p m3 w = nx" using m3(3) page_size_bounds by (simp add: fs_next_bytes)
  moreover have "mread m3 (?a + 28) 48 = file_hdr_tail ?h"
  proof (rule nth_equalityI)
    show "mread m3 (?a + 28) 48 ! i = file_hdr_tail ?h ! i" if "i < length (mread m3 (?a + 28) 48)" for i
      using that m3(3) m2(3) ff [of "28 + i"] page_size_bounds file_hdr_nth(2) [of ?h i] by (simp add: add.assoc)
  qed (simp add: new_file_hdr_fields)
  moreover have "mread m3 (?a + 76) (length nm) = nm"
    by (rule nth_equalityI) (use m3(3) m2(3) ff page_size_bounds nm in \<open>simp_all add: add.assoc\<close>)
  moreover have "\<forall>i < page_size p. 76 + length nm \<le> i \<longrightarrow> m3 (?a + i) = 0xFF"
    using m3(3) m2(3) ff by simp
  ultimately have "file_page p m3 w nx ?h nm" by (simp add: file_page_def)
  moreover have "page_frame p {w} (fs_flash s) m3"
    by (rule page_frame_trans [OF page_frame_trans [OF m1(2) page_only_frame [OF m2(2)]] page_only_frame [OF m3(2)]]) auto
  moreover have "fs_creat_first p s (Some nm) n w nx ph = Some (?h, s\<lparr>fs_flash := m3\<rparr>)"
    using m1(1) m2(1) m3(1) nm by (simp add: fs_creat_first_def Let_def MAX_FILENAME_LEN_def SIZEOF_FILE_HDR_def)
  ultimately show ?thesis by blast
qed

text \<open>The last write of a creation.\<close>

lemma creat_complete:
  assumes w: "unat w < REGION_FS_N_PAGES p" and f: "file_page p (fs_flash s) w nx h nm" and h: "length (v_full h) = 26" "next_page h = nx" "length nm < 32"
  shows "\<exists>m. fs_put p s (uint w) 0 (file_hdr_bytes (h\<lparr>st_create_complete := 0\<rparr>)) = Some (0, s\<lparr>fs_flash := m\<rparr>) \<and>
    page_frame p {w} (fs_flash s) m \<and> file_page p m w nx (h\<lparr>st_create_complete := 0\<rparr>) nm"
proof -
  let ?h = "h\<lparr>st_create_complete := 0\<rparr>"
  let ?bs = "file_hdr_bytes ?h" and ?a = "fs_addr p w 0" and ?m = "fs_flash s"
  have hl: "length ?bs = 76" using h by simp
  obtain m where m: "fs_put p s (uint w) 0 ?bs = Some (0, s\<lparr>fs_flash := m\<rparr>)" "page_only p w ?m m"
    "\<forall>i < page_size p. m (?a + i) = (if i < 76 then ?m (?a + i) AND ?bs ! i else ?m (?a + i))"
    using put_page [OF w, of 0 ?bs s] page_size_bounds hl by auto
  have fl: "fs_next p ?m w = nx" "mread ?m (?a + 28) 48 = file_hdr_tail h" "mread ?m (?a + 76) (length nm) = nm"
    "\<forall>i < page_size p. 76 + length nm \<le> i \<longrightarrow> ?m (?a + i) = 0xFF" using f by (simp_all add: file_page_def)
  have nb: "le16 (fs_next p ?m w) = [?m (?a + 22), ?m (?a + 23)]"
    using le16_get [of "[?m (?a + 22), ?m (?a + 23)]" 0] by (simp add: fs_next_bytes get16_def)
  have hb: "le16 nx = [?bs ! 22, ?bs ! 23]"
    using le16_get [of "page_hdr_bytes ?h" 22] page_hdr_next [of ?h] h by (simp add: file_hdr_nth)
  have "?m (?a + 22) = ?bs ! 22" "?m (?a + 23) = ?bs ! 23" using nb hb fl(1) by simp_all
  then have "m (?a + 22) = ?m (?a + 22)" "m (?a + 23) = ?m (?a + 23)" using m(3) page_size_bounds by simp_all
  then have "fs_next p m w = nx" using fl(1) by (simp add: fs_next_bytes)
  moreover have "mread m (?a + 28) 48 = file_hdr_tail ?h"
  proof (rule nth_equalityI)
    fix i assume "i < length (mread m (?a + 28) 48)"
    then have i: "i < 48" by simp
    have "?m (?a + 28 + i) = file_hdr_tail h ! i" using arg_cong [OF fl(2), of "\<lambda>l. l ! i"] i by simp
    then have "m (?a + 28 + i) = file_hdr_tail h ! i AND file_hdr_tail ?h ! i"
      using m(3) i page_size_bounds file_hdr_nth(2) [of ?h i] by (simp add: add.assoc)
    also have "\<dots> = file_hdr_tail ?h ! i" using i h unfolding complete_tail by (simp add: nth_list_update)
    finally show "mread m (?a + 28) 48 ! i = file_hdr_tail ?h ! i" using i by simp
  qed (simp add: h)
  moreover have tl: "m (?a + i) = ?m (?a + i)" if "76 \<le> i" "i < page_size p" for i using m(3) that by simp
  moreover have "mread m (?a + 76) (length nm) = nm"
  proof -
    have "mread m (?a + 76) (length nm) = mread ?m (?a + 76) (length nm)"
      by (rule mread_cong) (use tl [of "76 + k" for k] h(3) page_size_bounds in \<open>simp add: add.assoc\<close>)
    then show ?thesis using fl(3) by simp
  qed
  ultimately show ?thesis using m(1) page_only_frame [OF m(2)] fl(4) by (intro exI [of _ m]) (simp add: file_page_def)
qed

end

subsection \<open>All pages\<close>

text \<open>The pages \<open>W\<close> have been taken out of the clean ones for the state \<open>st\<close>.\<close>

definition taken :: "plat \<Rightarrow> page_state \<Rightarrow> u16 set \<Rightarrow> fs \<Rightarrow> fs \<Rightarrow> bool" where
  "taken p st W s s' \<longleftrightarrow> W \<subseteq> clean_pages p s \<and> clean_pages p s' = clean_pages p s - W \<and> fs_free_pages s' = fs_free_pages s \<and> fs_valid s' = fs_valid s \<and>
     (\<forall>v. page_at s' (uint v) = (if v \<in> W then st else page_at s (uint v))) \<and>
     fs_lastpg s \<le> fs_lastpg s' \<and> (\<forall>v \<in> W. uint v \<le> fs_lastpg s') \<and> fs_lastpg s' < max (fs_lastpg s + 1) (int (REGION_FS_N_PAGES p))"

definition taken_ready :: "plat \<Rightarrow> page_state \<Rightarrow> u16 set \<Rightarrow> u16 set \<Rightarrow> fs \<Rightarrow> fs \<Rightarrow> bool" where
  "taken_ready p st W V s s' \<longleftrightarrow> taken p st W s s' \<and> fs_ready p s' \<and> page_frame p V (fs_flash s) (fs_flash s')"

lemma page_at_flash [simp]: "page_at (s\<lparr>fs_flash := m\<rparr>) = page_at s"
  by (simp add: page_at_def fun_eq_iff)

lemma taken_flash: "taken p st W s s' \<Longrightarrow> taken p st W s (s'\<lparr>fs_flash := m\<rparr>)"
  by (simp add: taken_def flash_frame_clean)

lemma taken_empty: "taken p st {} s s"
  by (simp add: taken_def)

lemma taken_trans: "taken p st W s s' \<Longrightarrow> taken p st W' s' s'' \<Longrightarrow> taken p st (W \<union> W') s s''"
  unfolding taken_def by (auto simp: max_def split: if_splits)

text \<open>The chain of a file, page by page.\<close>

primrec page_chain :: "plat \<Rightarrow> mem \<Rightarrow> u16 list \<Rightarrow> bool" where
  "page_chain p m [] = True"
| "page_chain p m (w # ws) = (fs_next p m w = (case ws of [] \<Rightarrow> 0xFFFF | v # _ \<Rightarrow> v) \<and> page_chain p m ws)"

definition pages_blank :: "plat \<Rightarrow> mem \<Rightarrow> u16 set \<Rightarrow> bool" where
  "pages_blank p m W \<longleftrightarrow> (\<forall>w \<in> W. unat w < REGION_FS_N_PAGES p \<and> (\<forall>i < page_size p. 28 \<le> i \<longrightarrow> m (fs_addr p w 0 + i) = 0xFF))"

lemma blank_frame: "page_frame p V m m' \<Longrightarrow> W \<inter> V = {} \<Longrightarrow> pages_blank p m W \<Longrightarrow> pages_blank p m' W"
  by (auto simp: page_frame_def pages_blank_def)

lemma clean_finite [simp]: "finite (clean_pages p s)"
  by (rule finite)

context fs_platform begin

lemma clean_lt: "fs_ready p s \<Longrightarrow> w \<in> clean_pages p s \<Longrightarrow> unat w < REGION_FS_N_PAGES p \<and> unat w + 1 < REGION_FS_N_PAGES p \<and> page_erased p (fs_flash s) w"
  by (auto simp: fs_ready_def)

lemma next_alloc:
  assumes r: "fs_ready p s" and k: "k \<le> card (clean_pages p s)" and st: "st \<noteq> PageStateClean" and k0: "k \<noteq> 0"
  shows "\<exists>w s1. fs_verily_alloc_page p s st = Some (w, s1) \<and> w \<in> clean_pages p s \<and> taken_ready p st {w} {} s s1 \<and> fs_flash s1 = fs_flash s"
proof -
  have "clean_pages p s \<noteq> {}" using k k0 by (metis card.empty le_zero_eq)
  then obtain w s1 where a: "fs_verily_alloc_page p s st = Some (w, s1)" "w \<in> clean_pages p s" "fs_ready p s1"
    "clean_pages p s1 = clean_pages p s - {w}" "fs_flash s1 = fs_flash s" "fs_free_pages s1 = fs_free_pages s" "fs_valid s1 = fs_valid s"
    "\<forall>v. page_at s1 (uint v) = (if v = w then st else page_at s (uint v))" "fs_lastpg s1 = max (fs_lastpg s) (uint w)"
    using alloc_step [OF r _ st] by blast
  have "uint w < int (REGION_FS_N_PAGES p)" using page_index clean_lt [OF r a(2)] by (auto simp: fs_pages_def)
  then have "taken p st {w} s s1" using a by (auto simp: taken_def less_max_iff_disj)
  then show ?thesis using a by (auto simp: taken_ready_def)
qed

lemma creat_rest:
  assumes "fs_ready p s" "k \<le> card (clean_pages p s)" "unat w + 1 < REGION_FS_N_PAGES p" "w \<notin> clean_pages p s" "page_erased p (fs_flash s) w"
  shows "\<exists>s' ws. fs_creat_pages (Suc k) p s name n w (Some fh) = Some (Some fh, s') \<and> length ws = k \<and> distinct ws \<and>
    page_chain p (fs_flash s') (w # ws) \<and> pages_blank p (fs_flash s') (set (w # ws)) \<and> taken_ready p PageStateFileCont (set ws) (set (w # ws)) s s'"
  using assms
proof (induction k arbitrary: s w)
  case 0
  have "unat w < REGION_FS_N_PAGES p" using 0 by simp
  moreover obtain m where m: "fs_creat_cont p s w 0xFFFF (page_hdr_of (mread (fs_flash s) (fs_addr p w 0) SIZEOF_PAGE_HDR)) = Some (s\<lparr>fs_flash := m\<rparr>)"
    "page_frame p {w} (fs_flash s) m" "fs_next p m w = 0xFFFF" "\<forall>i < page_size p. 28 \<le> i \<longrightarrow> m (fs_addr p w 0 + i) = 0xFF"
    using creat_cont [OF 0(3,5)] by blast
  moreover have "fs_ready p (s\<lparr>fs_flash := m\<rparr>)" using ready_flash [OF 0(1) m(2)] 0(4) by simp
  ultimately show ?case
    by (intro exI [of _ "s\<lparr>fs_flash := m\<rparr>"] exI [of _ "[]"])
      (simp add: page_hdr_read_at pages_blank_def taken_ready_def taken_flash taken_empty)
next
  case (Suc k)
  have wn: "unat w < REGION_FS_N_PAGES p" using Suc.prems(3) by simp
  obtain nx s1 where a: "fs_verily_alloc_page p s PageStateFileCont = Some (nx, s1)" "nx \<in> clean_pages p s"
    "taken_ready p PageStateFileCont {nx} {} s s1" "fs_flash s1 = fs_flash s"
    using next_alloc [OF Suc.prems(1,2), of PageStateFileCont] by auto
  have t1: "fs_ready p s1" "clean_pages p s1 = clean_pages p s - {nx}" "taken p PageStateFileCont {nx} s s1" using a(3) by (simp_all add: taken_ready_def taken_def)
  have nxw: "nx \<noteq> w" using a(2) Suc.prems(4) by auto
  obtain m where m: "fs_creat_cont p s1 w nx (page_hdr_of (mread (fs_flash s1) (fs_addr p w 0) SIZEOF_PAGE_HDR)) = Some (s1\<lparr>fs_flash := m\<rparr>)"
    "page_frame p {w} (fs_flash s) m" "fs_next p m w = nx" "\<forall>i < page_size p. 28 \<le> i \<longrightarrow> m (fs_addr p w 0 + i) = 0xFF"
    using creat_cont [OF Suc.prems(3), of s1] Suc.prems(5) unfolding a(4) by blast
  let ?s2 = "s1\<lparr>fs_flash := m\<rparr>"
  have r2: "fs_ready p ?s2" using ready_flash [OF t1(1), of "{w}" m] m(2) a(4) t1(2) Suc.prems(4) by simp
  have c2: "clean_pages p ?s2 = clean_pages p s - {nx}" by (simp add: flash_frame_clean t1(2))
  have k2: "k \<le> card (clean_pages p ?s2)" unfolding c2 using Suc.prems(2) a(2) by simp
  note nx = clean_lt [OF Suc.prems(1) a(2)]
  have e2: "page_erased p (fs_flash ?s2) nx" using frame_erased [OF m(2), of nx] nx nxw by simp
  obtain s' ws where ih: "fs_creat_pages (Suc k) p ?s2 name n nx (Some fh) = Some (Some fh, s')" "length ws = k" "distinct ws"
    "page_chain p (fs_flash s') (nx # ws)" "pages_blank p (fs_flash s') (set (nx # ws))"
    "taken_ready p PageStateFileCont (set ws) (set (nx # ws)) ?s2 s'"
    using Suc.IH [OF r2 k2, of nx] nx e2 c2 by blast
  have sub: "set ws \<subseteq> clean_pages p s - {nx}" and t2: "taken p PageStateFileCont (set ws) ?s2 s'"
    and r': "fs_ready p s'" and f2: "page_frame p (set (nx # ws)) m (fs_flash s')"
    using ih(6) by (auto simp: taken_ready_def taken_def c2)
  have wnot: "w \<notin> set (nx # ws)" using sub nxw Suc.prems(4) by auto
  have "taken p PageStateFileCont ({nx} \<union> set ws) s s'" by (rule taken_trans [OF taken_flash [OF t1(3)] t2])
  moreover have "page_frame p (set (w # nx # ws)) (fs_flash s) (fs_flash s')"
    by (rule page_frame_trans [OF m(2) f2]) auto
  moreover have "pages_blank p (fs_flash s') {w}"
    using m(4) wn wnot by (intro blank_frame [OF f2]) (auto simp: pages_blank_def)
  moreover have "fs_next p (fs_flash s') w = nx" using frame_next [OF f2 wn wnot] m(3) by simp
  moreover have "fs_creat_pages (Suc (Suc k)) p s name n w (Some fh) = Some (Some fh, s')"
    using a(1) m(1) ih(1) by (simp add: page_hdr_read_at [OF wn])
  ultimately show ?case using ih(2,3,4,5) r' sub
    by (intro exI [of _ s'] exI [of _ "nx # ws"]) (auto simp: taken_ready_def pages_blank_def)
qed

lemma creat_pages:
  assumes r: "fs_ready p s" "k \<le> card (clean_pages p s)" and w: "unat w + 1 < REGION_FS_N_PAGES p" "w \<notin> clean_pages p s" "page_erased p (fs_flash s) w"
    and nm: "length nm < 32"
  shows "\<exists>s' ws h. fs_creat_pages (Suc k) p s (Some nm) n w None = Some (Some (w, h), s') \<and> length ws = k \<and> distinct ws \<and>
    file_page p (fs_flash s') w (case ws of [] \<Rightarrow> 0xFFFF | v # _ \<Rightarrow> v) h nm \<and> (\<exists>ph. h = fs_new_file_hdr ph nm n (case ws of [] \<Rightarrow> 0xFFFF | v # _ \<Rightarrow> v)) \<and>
    page_chain p (fs_flash s') (w # ws) \<and> pages_blank p (fs_flash s') (set ws) \<and> taken_ready p PageStateFileCont (set ws) (set (w # ws)) s s'"
proof (cases k)
  case 0
  have wn: "unat w < REGION_FS_N_PAGES p" using w by simp
  let ?ph = "page_hdr_of (mread (fs_flash s) (fs_addr p w 0) SIZEOF_PAGE_HDR)"
  obtain m where m: "fs_creat_first p s (Some nm) n w 0xFFFF ?ph = Some (fs_new_file_hdr ?ph nm n 0xFFFF, s\<lparr>fs_flash := m\<rparr>)"
    "page_frame p {w} (fs_flash s) m" "file_page p m w 0xFFFF (fs_new_file_hdr ?ph nm n 0xFFFF) nm"
    using creat_first [OF w(1,3) nm] by blast
  have "fs_ready p (s\<lparr>fs_flash := m\<rparr>)" using ready_flash [OF r(1) m(2)] w(2) by simp
  then show ?thesis using m 0 wn
    by (intro exI [of _ "s\<lparr>fs_flash := m\<rparr>"] exI [of _ "[]"] exI [of _ "fs_new_file_hdr ?ph nm n 0xFFFF"])
      (auto simp: page_hdr_read_at pages_blank_def taken_ready_def taken_flash taken_empty file_page_def)
next
  case (Suc k')
  have wn: "unat w < REGION_FS_N_PAGES p" using w by simp
  obtain nx s1 where a: "fs_verily_alloc_page p s PageStateFileCont = Some (nx, s1)" "nx \<in> clean_pages p s"
    "taken_ready p PageStateFileCont {nx} {} s s1" "fs_flash s1 = fs_flash s"
    using next_alloc [OF r, of PageStateFileCont] Suc by auto
  have t1: "fs_ready p s1" "clean_pages p s1 = clean_pages p s - {nx}" "taken p PageStateFileCont {nx} s s1" using a(3) by (simp_all add: taken_ready_def taken_def)
  have nxw: "nx \<noteq> w" using a(2) w(2) by auto
  let ?ph = "page_hdr_of (mread (fs_flash s) (fs_addr p w 0) SIZEOF_PAGE_HDR)"
  let ?h = "fs_new_file_hdr ?ph nm n nx"
  obtain m where m: "fs_creat_first p s1 (Some nm) n w nx ?ph = Some (?h, s1\<lparr>fs_flash := m\<rparr>)"
    "page_frame p {w} (fs_flash s) m" "file_page p m w nx ?h nm"
    using creat_first [OF w(1), of s1 nm n nx ?ph] w(3) nm unfolding a(4) by blast
  let ?s2 = "s1\<lparr>fs_flash := m\<rparr>"
  have r2: "fs_ready p ?s2" using ready_flash [OF t1(1), of "{w}" m] m(2) a(4) t1(2) w(2) by simp
  have c2: "clean_pages p ?s2 = clean_pages p s - {nx}" by (simp add: flash_frame_clean t1(2))
  have k2: "k' \<le> card (clean_pages p ?s2)" unfolding c2 using r(2) Suc a(2) by simp
  note nx = clean_lt [OF r(1) a(2)]
  have e2: "page_erased p (fs_flash ?s2) nx" using frame_erased [OF m(2), of nx] nx nxw by simp
  obtain s' ws where ih: "fs_creat_pages (Suc k') p ?s2 (Some nm) n nx (Some (w, ?h)) = Some (Some (w, ?h), s')" "length ws = k'" "distinct ws"
    "page_chain p (fs_flash s') (nx # ws)" "pages_blank p (fs_flash s') (set (nx # ws))"
    "taken_ready p PageStateFileCont (set ws) (set (nx # ws)) ?s2 s'"
    using creat_rest [OF r2 k2, of nx "Some nm" n "(w, ?h)"] nx e2 c2 by blast
  have sub: "set ws \<subseteq> clean_pages p s - {nx}" and t2: "taken p PageStateFileCont (set ws) ?s2 s'"
    and r': "fs_ready p s'" and f2: "page_frame p (set (nx # ws)) m (fs_flash s')"
    using ih(6) by (auto simp: taken_ready_def taken_def c2)
  have wnot: "w \<notin> set (nx # ws)" using sub nxw w(2) by auto
  have "taken p PageStateFileCont ({nx} \<union> set ws) s s'" by (rule taken_trans [OF taken_flash [OF t1(3)] t2])
  moreover have "page_frame p (set (w # nx # ws)) (fs_flash s) (fs_flash s')"
    by (rule page_frame_trans [OF m(2) f2]) auto
  moreover have fp: "file_page p (fs_flash s') w nx ?h nm"
  proof -
    have "fs_flash s' (fs_addr p w 0 + i) = m (fs_addr p w 0 + i)" if "i < page_size p" "28 \<le> i" for i
      using f2 wn wnot that by (simp add: page_frame_def)
    then have "mread (fs_flash s') (fs_addr p w 0 + 28) 48 = mread m (fs_addr p w 0 + 28) 48"
      "mread (fs_flash s') (fs_addr p w 0 + 76) (length nm) = mread m (fs_addr p w 0 + 76) (length nm)"
      "\<forall>i < page_size p. 76 + length nm \<le> i \<longrightarrow> fs_flash s' (fs_addr p w 0 + i) = m (fs_addr p w 0 + i)"
      using page_size_bounds nm by (auto intro!: mread_cong simp: add.assoc)
    then show ?thesis using m(3) frame_next [OF f2 wn wnot] by (simp add: file_page_def)
  qed
  moreover have "fs_creat_pages (Suc k) p s (Some nm) n w None = Some (Some (w, ?h), s')"
    using a(1) a(4) m(1) ih(1) Suc by (simp add: page_hdr_read_at [OF wn])
  ultimately show ?thesis using ih(2,3,4,5) r' sub Suc
    by (intro exI [of _ s'] exI [of _ "nx # ws"] exI [of _ ?h]) (auto simp: taken_ready_def file_page_def)
qed

end

subsection \<open>Completion\<close>

text \<open>The bytes of a header whose file is no longer marked temporary: only two change.\<close>

lemma hdr_untmp_bytes:
  assumes "length bs = 76"
  shows "file_hdr_bytes ((file_hdr_of bs)\<lparr>st_tmp_file := 0\<rparr>) = bs[44 := 0, 45 := 0]"
proof -
  have l: "length (file_hdr_bytes (file_hdr_of bs)) = 76" using assms by (simp add: file_hdr_bytes_of)
  have z: "le16 0 = [0, 0]" by (simp add: le16_def)
  have "file_hdr_bytes ((file_hdr_of bs)\<lparr>st_tmp_file := 0\<rparr>) = (file_hdr_bytes (file_hdr_of bs))[44 := 0, 45 := 0]"
    by (simp add: file_hdr_bytes_def file_hdr_tail_def page_hdr_bytes_def list_update_append le16_def le32_def)
  then show ?thesis using assms by (simp add: file_hdr_bytes_of)
qed

lemma untmp_program:
  "mprogram m a (file_hdr_bytes ((file_hdr_of (mread m a 76))\<lparr>st_tmp_file := 0\<rparr>)) = m(a + 44 := 0, a + 45 := 0)"
proof (rule ext)
  show "mprogram m a (file_hdr_bytes ((file_hdr_of (mread m a 76))\<lparr>st_tmp_file := 0\<rparr>)) x = (m(a + 44 := 0, a + 45 := 0)) x" for x
  proof (cases "a \<le> x \<and> x < a + 76")
    case True
    then obtain i where "x = a + i" "i < 76" by (metis le_Suc_ex nat_add_left_cancel_less)
    then show ?thesis by (auto simp: hdr_untmp_bytes mem_simps nth_list_update)
  qed (auto simp: hdr_untmp_bytes mem_simps)
qed


text \<open>The header of a file is not among its data.\<close>

definition hdr_apart :: "plat \<Rightarrow> mem \<Rightarrow> fs_file \<Rightarrow> bool" where
  "hdr_apart p m f \<longleftrightarrow> unat (startpage f) < REGION_FS_N_PAGES p \<and>
     (\<forall>a \<in> set (fs_addrs p m f 0 (unat (fsize f))). a < fs_addr p (startpage f) 0 \<or> fs_addr p (startpage f) 0 + 76 \<le> a)"

definition hdr_file_at :: "plat \<Rightarrow> mem \<Rightarrow> fs_file \<Rightarrow> fs_file_hdr" where
  "hdr_file_at p m f = file_hdr_of (mread m (fs_addr p (startpage f) 0) 76)"

context fs_platform begin

lemma at_crc:
  assumes at: "fd_at p m f i fd"
  shows "\<exists>fd'. fs_file_crc32 p m fd (fsize f) = Some (fs_pbfs_crc32 (fcontent p m f), fd') \<and> fd_file fd' = f \<and> replaces fd' = replaces fd"
proof -
  have ok: "fd_ok p m fd" "fd_file fd = f" using at by (simp_all add: fd_at_def)
  have "fs_newoffset fd 0 FS_SEEK_SET = 0" by (simp add: fs_newoffset_def)
  then have "fs_seek p m fd 0 FS_SEEK_SET = Some (0, fs_goto p m fd 0)" using seek_ok [OF ok(1), of 0 FS_SEEK_SET] by simp
  moreover have "fd_ok p m (fs_goto p m fd 0)" using ok by (intro fs_goto_ok) simp_all
  ultimately show ?thesis
    using crc_loop [of m "fs_goto p m fd 0" "fsize f" "0xFFFFFFFF"] ok
    by (simp add: fs_file_crc32_def fs_pbfs_crc32_def fcontent_def)
qed

lemma mark_written_plain:
  assumes at: "content_ok p (fs_flash s) f" "hdr_apart p (fs_flash s) f" and fd: "fd_file fd = f" "fsize (replaces fd) = 0"
  obtains m where "fs_mark_written p s fd = Some (s\<lparr>fs_flash := m\<rparr>)" "fcontent p m f = fcontent p (fs_flash s) f"
    "hdr_file_at p m f = (hdr_file_at p (fs_flash s) f)\<lparr>st_tmp_file := 0\<rparr>" "content_ok p m f"
    "m = (fs_flash s)(fs_addr p (startpage f) 0 + 44 := 0, fs_addr p (startpage f) 0 + 45 := 0)"
proof -
  let ?m = "fs_flash s" and ?pg = "uint (startpage f)" and ?h = "fs_addr p (startpage f) 0"
  define m where "m = ?m(?h + 44 := 0, ?h + 45 := 0)"
  have sp: "unat (startpage f) < REGION_FS_N_PAGES p" using at(2) by (simp add: hdr_apart_def)
  then have "uint (startpage f) < int (REGION_FS_N_PAGES p)" unfolding unat_eq_nat_uint nat_less_iff [OF unsigned_greater_eq] .
  then have pg: "?pg \<in> fs_pages p" by (simp add: fs_pages_def)
  have w: "word_of_int ?pg = startpage f" by simp
  have rd: "file_hdr_at p s ?pg = Some (hdr_file_at p ?m f)"
    unfolding file_hdr_at_def page_word(2) [OF pg] w hdr_file_at_def SIZEOF_FILE_HDR_def using page_read [OF sp, of 0 76] page_lo by simp
  have hl: "length (file_hdr_bytes ((hdr_file_at p ?m f)\<lparr>st_tmp_file := 0\<rparr>)) = 76"
    by (simp add: hdr_file_at_def hdr_untmp_bytes)
  have put: "fs_put p s ?pg 0 (file_hdr_bytes ((hdr_file_at p ?m f)\<lparr>st_tmp_file := 0\<rparr>)) = Some (0, s\<lparr>fs_flash := m\<rparr>)"
    using fs_put_ok [OF pg, of 0 "file_hdr_bytes ((hdr_file_at p ?m f)\<lparr>st_tmp_file := 0\<rparr>)" s] page_lo
    unfolding hl w by (simp add: hdr_file_at_def untmp_program m_def)
  have "mprogram ?m (fs_addr p (startpage f) 44) [0, 0] = m"
    by (rule ext) (auto simp: m_def mprogram_def fs_addr_def nth_Cons')
  then have nx: "fs_next p m q = fs_next p ?m q" for q
    using page_hdr_disjoint [of 44 "[0, 0]" ?m "startpage f" q] page_lo by (simp add: SIZEOF_PAGE_HDR_def)
  have addrs: "fs_addrs p m = fs_addrs p ?m"
    by (intro ext) (simp add: fs_addrs_def fs_walk_cong [OF nx] fs_run_cong [OF nx])
  have "fcontent p m f = fcontent p ?m f"
    using at(2) unfolding fcontent_def addrs hdr_apart_def by (auto simp: m_def)
  moreover have "hdr_file_at p m f = (hdr_file_at p ?m f)\<lparr>st_tmp_file := 0\<rparr>"
  proof -
    have "mread m ?h 76 = (mread ?m ?h 76)[44 := 0, 45 := 0]"
      by (rule nth_equalityI) (auto simp: m_def nth_list_update)
    also have "\<dots> = file_hdr_bytes ((hdr_file_at p ?m f)\<lparr>st_tmp_file := 0\<rparr>)" by (simp add: hdr_untmp_bytes hdr_file_at_def)
    finally show ?thesis
      using file_hdr_of_bytes [of "(hdr_file_at p ?m f)\<lparr>st_tmp_file := 0\<rparr>" "[]"]
      by (simp add: hdr_file_at_def) (simp add: file_hdr_of_def fs_page_hdr.defs fs_file_hdr.defs)
  qed
  moreover have "content_ok p m f" using at(1)
    by (simp add: content_ok_def addrs file_ok_def fs_walk_cong [OF nx] fs_pages_ok_cong [OF nx])
  moreover have "fs_mark_written p s fd = Some (s\<lparr>fs_flash := m\<rparr>)"
    using fd rd put by (simp add: fs_mark_written_def)
  ultimately show thesis using that m_def by blast
qed

end

subsection \<open>The data of a created file\<close>

text \<open>The addresses of a chain of pages, from an offset in the first.\<close>

definition page_data :: "plat \<Rightarrow> u16 \<Rightarrow> nat \<Rightarrow> nat list" where
  "page_data p w i = [fs_addr p w 0 + i..<fs_addr p w 0 + page_size p]"

definition chain_data :: "plat \<Rightarrow> u16 \<Rightarrow> nat \<Rightarrow> u16 list \<Rightarrow> nat list" where
  "chain_data p w i ws = page_data p w i @ concat (map (\<lambda>v. page_data p v 28) ws)"

lemma page_data_mem: "a \<in> set (page_data p w i) \<longleftrightarrow> (\<exists>k. i \<le> k \<and> k < page_size p \<and> a = fs_addr p w 0 + k)"
proof
  assume "a \<in> set (page_data p w i)"
  then have "fs_addr p w 0 + i \<le> a" "a < fs_addr p w 0 + page_size p" by (simp_all add: page_data_def)
  then show "\<exists>k. i \<le> k \<and> k < page_size p \<and> a = fs_addr p w 0 + k" by (intro exI [of _ "a - fs_addr p w 0"]) linarith
qed (auto simp: page_data_def)

context fs_platform begin

lemma run_chain:
  assumes "page_chain p m (w # ws)" "unat ofs \<le> page_size p" "unat ofs < page_size p"
    and "n \<le> (page_size p - unat ofs) + length ws * (page_size p - 28)"
  shows "fs_run p m (w, ofs) n = take n (chain_data p w (unat ofs) ws) \<and> (\<forall>k < n. fst (fs_walk p m (w, ofs) k) \<in> set (w # ws))"
  using assms
proof (induction ws arbitrary: w ofs n)
  case Nil
  have run: "fs_run p m (w, ofs) n = [fs_addr p w ofs..<fs_addr p w ofs + n]"
    using run_in_page [of ofs n m w] Nil(2,4) by (simp add: page_size_def)
  have "fst (fs_walk p m (w, ofs) k) = w" if "k < n" for k
    using walk_in_page [of ofs k m w] Nil(4) that by (cases "k = 0") (auto simp: page_size_def)
  then show ?case using Nil(2,4) run by (simp add: chain_data_def page_data_def take_upt fs_addr_def)
next
  case (Cons v ws)
  let ?r = "page_size p - unat ofs"
  have run: "fs_run p m (w, ofs) n = [fs_addr p w ofs..<fs_addr p w ofs + n]" if "n \<le> ?r" for n
    using run_in_page [of ofs n m w] Cons.prems(2) that by (simp add: page_size_def)
  have stay: "fst (fs_walk p m (w, ofs) k) = w" if "k < ?r" for k
    using walk_in_page [of ofs k m w] that by (cases "k = 0") (auto simp: page_size_def)
  have pd: "page_data p w (unat ofs) = [fs_addr p w ofs..<fs_addr p w ofs + ?r]"
    using Cons.prems(2) by (simp add: page_data_def fs_addr_def add.assoc)
  show ?case
  proof (cases "n \<le> ?r")
    case True
    then show ?thesis using run [OF True] stay by (simp add: chain_data_def pd take_upt)
  next
    case False
    define n' where "n' = n - ?r"
    have n: "n = ?r + n'" using False by (simp add: n'_def)
    have turn: "fs_walk p m (w, ofs) ?r = (v, 28)"
      using walk_in_page [of ofs ?r m w] Cons.prems(1,2,3) by (simp add: page_size_def SIZEOF_PAGE_HDR_def)
    have ih: "fs_run p m (v, 28) n' = take n' (chain_data p v 28 ws) \<and> (\<forall>k < n'. fst (fs_walk p m (v, 28) k) \<in> set (v # ws))"
      using Cons.IH [of v 28 n'] Cons.prems(1,4) n page_size_bounds by simp
    have "fs_run p m (w, ofs) n = [fs_addr p w ofs..<fs_addr p w ofs + ?r] @ take n' (chain_data p v 28 ws)"
      unfolding n fs_run_add turn using run [of ?r] ih by simp
    also have "\<dots> = take n (chain_data p w (unat ofs) (v # ws))"
      unfolding chain_data_def [of p w] pd n by (simp add: chain_data_def)
    finally have "fs_run p m (w, ofs) n = take n (chain_data p w (unat ofs) (v # ws))" .
    moreover have "fst (fs_walk p m (w, ofs) k) \<in> set (w # v # ws)" if "k < n" for k
    proof (cases "k < ?r")
      case False
      then have "k = ?r + (k - ?r)" by simp
      then have "fs_walk p m (w, ofs) k = fs_walk p m (v, 28) (k - ?r)" using fs_walk_add [of p m "(w, ofs)" ?r "k - ?r"] turn by simp
      moreover have "k - ?r < n'" using that False by (simp add: n'_def)
      ultimately show ?thesis using ih by auto
    qed (simp add: stay)
    ultimately show ?thesis by blast
  qed
qed

lemma chain_distinct: "distinct (w # ws) \<Longrightarrow> distinct (chain_data p w i ws)"
proof -
  assume d: "distinct (w # ws)"
  have apart: "set (page_data p v i) \<inter> set (page_data p u j) = {}" if "v \<noteq> u" for v u i j
    using page_place that by (auto simp: page_data_mem)
  have in_ws: "set (page_data p v i) \<inter> set (concat (map (\<lambda>v. page_data p v 28) vs)) = {}" if "v \<notin> set vs" for v i vs
    using apart [of v _ i 28] that by auto (metis disjoint_iff)
  have "distinct (concat (map (\<lambda>v. page_data p v 28) vs))" if "distinct vs" for vs
    using that in_ws by (induction vs) (auto simp: page_data_def)
  then show ?thesis using d in_ws by (simp add: chain_data_def) (simp add: page_data_def)
qed

end

lemma chain_data_mem: "a \<in> set (chain_data p w i ws) \<Longrightarrow> \<exists>v k. k < page_size p \<and> a = fs_addr p v 0 + k \<and> (v = w \<and> i \<le> k \<or> v \<in> set ws \<and> 28 \<le> k)"
  by (auto simp: chain_data_def page_data_mem)

text \<open>The file a creation opens.\<close>

definition new_file :: "u16 \<Rightarrow> bytes \<Rightarrow> u32 \<Rightarrow> fs_file" where
  "new_file w nm n = \<lparr> flags = FILE_HAS_DIRENT, startpage = w, startpofs = word_of_nat (length nm) + 76, fsize = n \<rparr>"

context fs_platform begin

lemma new_file_ok:
  assumes c: "page_chain p m (w # ws)" "distinct (w # ws)" "\<forall>v \<in> set (w # ws). unat v < REGION_FS_N_PAGES p"
    and nm: "length nm < 32" and n: "unat n < 2 ^ 31" "unat n + length nm + 48 \<le> (length ws + 1) * (page_size p - 28)"
    and ff: "\<forall>i < page_size p. 76 + length nm \<le> i \<longrightarrow> m (fs_addr p w 0 + i) = 0xFF" "pages_blank p m (set ws)"
  defines "f \<equiv> new_file w nm n"
  shows "content_ok p m f" "fcontent p m f = replicate (unat n) 0xFF" "hdr_apart p m f"
    "set (fs_addrs p m f 0 (unat n)) \<subseteq> set (chain_data p w (76 + length nm) ws)"
proof -
  let ?o = "startpofs f"
  have o: "unat ?o = 76 + length nm"
  proof -
    have "unat (word_of_nat (76 + length nm) :: u32) = 76 + length nm" using nm by (subst unat_of_nat) simp
    then show ?thesis by (simp add: f_def new_file_def add.commute)
  qed
  have os: "unat ?o < page_size p" using o nm page_size_bounds by simp
  have fs: "fs_start f = (w, ?o)" "fsize f = n" "startpage f = w" by (simp_all add: f_def new_file_def fs_start_def)
  have cap: "unat n \<le> (page_size p - unat ?o) + length ws * (page_size p - 28)"
    using n(2) o os by simp
  note rc = run_chain [OF c(1) less_imp_le [OF os] os cap]
  have addrs: "fs_addrs p m f 0 (unat n) = take (unat n) (chain_data p w (76 + length nm) ws)"
    using rc fs o by (simp add: fs_addrs_def)
  then show sub: "set (fs_addrs p m f 0 (unat n)) \<subseteq> set (chain_data p w (76 + length nm) ws)"
    by (simp add: set_take_subset)
  have "file_ok p m f"
    using rc c(3) fs os o by (auto simp: file_ok_def fs_pages_ok_def fs_inpage_def f_def new_file_def FILE_HAS_DIRENT_def FILE_IS_RAW_FLASH_def
      SIZEOF_PAGE_HDR_def word_less_nat_alt page_size_def)
  moreover have "distinct (fs_addrs p m f 0 (unat n))" unfolding addrs by (rule distinct_take [OF chain_distinct [OF c(2)]])
  ultimately show "content_ok p m f" using n(1) fs by (simp add: content_ok_def)
  have "m a = 0xFF" if "a \<in> set (chain_data p w (76 + length nm) ws)" for a
    using chain_data_mem [OF that] ff by (auto simp: pages_blank_def)
  then show "fcontent p m f = replicate (unat n) 0xFF"
    using sub fs by (intro replicate_eqI) (auto simp: fcontent_def)
  have "a < fs_addr p w 0 \<or> fs_addr p w 0 + 76 \<le> a" if a: "a \<in> set (chain_data p w (76 + length nm) ws)" for a
  proof (rule ccontr)
    assume "\<not> ?thesis"
    then obtain j where j: "a = fs_addr p w 0 + j" "j < 76" by (metis le_Suc_ex nat_add_left_cancel_less not_less)
    obtain v k where k: "k < page_size p" "a = fs_addr p v 0 + k" "v = w \<and> 76 + length nm \<le> k \<or> v \<in> set ws \<and> 28 \<le> k"
      using chain_data_mem [OF a] by blast
    have "v = w \<and> k = j" using page_place [of k j v w] k j page_size_bounds by simp
    then show False using k(3) j(2) c(2) by auto
  qed
  then show "hdr_apart p m f" using sub fs c(3) by (auto simp: hdr_apart_def)
qed


lemma npages:
  assumes "unat n + length nm + 48 < 2 ^ 32" "length nm < 32"
  shows "unat n + length nm + 48 \<le> unat (fs_npages p (Some nm) n) * (page_size p - 28)" "0 < unat (fs_npages p (Some nm) n)"
proof -
  define x where "x = n + word_of_nat (length nm) + 48"
  define b where "b = REGION_FS_PAGE_SIZE p - 28"
  have l: "unat (word_of_nat (length nm) :: u32) = length nm" using assms(2) by (subst unat_of_nat) simp
  have "unat (n + word_of_nat (length nm)) = unat n + length nm" using assms l by (subst unat_add_small) simp_all
  then have x: "unat x = unat n + length nm + 48" unfolding x_def using assms by (subst unat_add_small) simp_all
  have b: "unat b = page_size p - 28" unfolding b_def page_size_def using page_lo by (subst unat_sub_small) (simp_all add: word_le_nat_alt)
  have b0: "100 \<le> unat b" using b page_size_bounds by simp
  have e: "n + name_length (Some nm) + word_of_nat SIZEOF_FILE_HDR - word_of_nat SIZEOF_PAGE_HDR = x"
    by (simp add: x_def name_length_def SIZEOF_FILE_HDR_def SIZEOF_PAGE_HDR_def)
  have np: "fs_npages p (Some nm) n = x div b + (if x mod b \<noteq> 0 then 1 else 0)"
    unfolding fs_npages_def Let_def e by (simp add: b_def SIZEOF_PAGE_HDR_def)
  have d: "unat (x div b) = unat x div unat b" "unat (x mod b) = unat x mod unat b" by (simp_all add: unat_div_distrib unat_mod_distrib)
  have "unat x div unat b \<le> unat x div 100" using b0 by (intro div_le_mono2) simp_all
  then have "unat (x div b) + 1 < 2 ^ 32" using d(1) unat_u32_less [of x] by simp
  then have u: "unat (fs_npages p (Some nm) n) = unat x div unat b + (if unat x mod unat b \<noteq> 0 then 1 else 0)"
    unfolding np using d by (auto simp: unat_add_small word_unat_eq_iff)
  have dm: "unat x = unat x div unat b * unat b + unat x mod unat b" by simp
  have "unat x mod unat b < unat b" using b0 by simp
  then have le_add: "unat x \<le> unat x div unat b * unat b + unat b" using dm by linarith
  have "unat x \<le> unat (fs_npages p (Some nm) n) * unat b"
    unfolding u using dm le_add by (cases "unat x mod unat b = 0") (simp_all add: add_mult_distrib add.commute)
  then show "unat n + length nm + 48 \<le> unat (fs_npages p (Some nm) n) * (page_size p - 28)" by (simp add: x b)
  then show "0 < unat (fs_npages p (Some nm) n)" by (cases "unat (fs_npages p (Some nm) n) = 0") simp_all
qed

end

text \<open>A created file: open at its start, as long as asked for and erased, its header apart from its data; the first page holds
  header and name, all pages were clean, and the rest of the file system is as before.\<close>

definition created :: "plat \<Rightarrow> bytes \<Rightarrow> u32 \<Rightarrow> u16 \<Rightarrow> u16 set \<Rightarrow> fs \<Rightarrow> fs \<Rightarrow> bool" where
  "created p nm n w V s s' \<longleftrightarrow> content_ok p (fs_flash s') (new_file w nm n) \<and> fcontent p (fs_flash s') (new_file w nm n) = replicate (unat n) 0xFF \<and>
     hdr_apart p (fs_flash s') (new_file w nm n) \<and> w \<in> V \<and> V \<subseteq> clean_pages p s \<and> page_frame p V (fs_flash s) (fs_flash s') \<and>
     (\<forall>a \<in> set (fs_addrs p (fs_flash s') (new_file w nm n) 0 (unat n)). \<exists>v k. v \<in> V \<and> 28 \<le> k \<and> k < page_size p \<and> a = fs_addr p v 0 + k \<and> (v = w \<longrightarrow> 76 + length nm \<le> k)) \<and>
     (\<exists>nx h. file_page p (fs_flash s') w nx h nm \<and> length (v_full h) = 26 \<and> file_size h = n \<and> filename_len h = word_of_nat (length nm) \<and> st_tmp_file h = 0xFFFF) \<and>
     (\<forall>v. page_at s' (uint v) = (if v = w then PageStateFileStart else if v \<in> V then PageStateFileCont else page_at s (uint v))) \<and>
     fs_ready p s' \<and> clean_pages p s' = clean_pages p s - V \<and> fs_valid s' = fs_valid s \<and>
     fs_free_pages s' = fs_free_pages s - fs_npages p (Some nm) n \<and>
     fs_lastpg s \<le> fs_lastpg s' \<and> uint w \<le> fs_lastpg s' \<and> fs_lastpg s' < max (fs_lastpg s + 1) (int (REGION_FS_N_PAGES p))"

context fs_platform begin

lemma chain_frame:
  "page_frame p W m m' \<Longrightarrow> W \<inter> set ws = {} \<Longrightarrow> \<forall>v \<in> set ws. unat v < REGION_FS_N_PAGES p \<Longrightarrow> page_chain p m ws \<Longrightarrow> page_chain p m' ws"
  by (induction ws) (auto simp: frame_next)

lemma fs_creat_ok:
  assumes r: "fs_ready p s" and nm: "length nm < 32" and n: "unat n < 2 ^ 31"
    and room: "unat (fs_npages p (Some nm) n) \<le> card (clean_pages p s)" "fs_npages p (Some nm) n \<le> fs_free_pages s"
  shows "\<exists>w V s'. fs_creat p s (Some nm) n = Some (Some (fs_open (new_file w nm n)), s') \<and> created p nm n w V s s'"
proof -
  define k where "k = unat (fs_npages p (Some nm) n) - 1"
  have np: "unat (fs_npages p (Some nm) n) = Suc k" and cap: "unat n + length nm + 48 \<le> (k + 1) * (page_size p - 28)"
    using npages [of n nm] n nm by (simp_all add: k_def)
  define s0 where "s0 = s\<lparr>fs_free_pages := fs_free_pages s - fs_npages p (Some nm) n\<rparr>"
  have c0: "clean_pages p s0 = clean_pages p s" by (simp add: s0_def clean_pages_def page_clean_def)
  have r0: "fs_ready p s0"
    using r c0 by (simp add: fs_ready_def alloc_ok_def) (simp add: s0_def page_clean_def page_wear_def)
  obtain w s1 where a: "fs_verily_alloc_page p s0 PageStateFileStart = Some (w, s1)" "w \<in> clean_pages p s0"
    "taken_ready p PageStateFileStart {w} {} s0 s1" "fs_flash s1 = fs_flash s0"
    using next_alloc [OF r0, of "Suc k" PageStateFileStart] room(1) c0 np by auto
  have t1: "fs_ready p s1" "clean_pages p s1 = clean_pages p s - {w}" "taken p PageStateFileStart {w} s0 s1"
    using a(3) by (simp_all add: taken_ready_def taken_def c0)
  note w = clean_lt [OF r0 a(2)]
  have k: "k \<le> card (clean_pages p s1)" unfolding t1(2) using room(1) np a(2) c0 by simp
  obtain s2 ws h where b: "fs_creat_pages (Suc k) p s1 (Some nm) n w None = Some (Some (w, h), s2)" "length ws = k" "distinct ws"
    "file_page p (fs_flash s2) w (case ws of [] \<Rightarrow> 0xFFFF | v # _ \<Rightarrow> v) h nm" "\<exists>ph. h = fs_new_file_hdr ph nm n (case ws of [] \<Rightarrow> 0xFFFF | v # _ \<Rightarrow> v)"
    "page_chain p (fs_flash s2) (w # ws)" "pages_blank p (fs_flash s2) (set ws)" "taken_ready p PageStateFileCont (set ws) (set (w # ws)) s1 s2"
    using creat_pages [OF t1(1) k, of w nm n] w nm a(4) t1(2) by auto
  have t2: "taken p PageStateFileCont (set ws) s1 s2" "fs_ready p s2" "page_frame p (set (w # ws)) (fs_flash s1) (fs_flash s2)"
    using b(8) by (simp_all add: taken_ready_def)
  have sub: "set ws \<subseteq> clean_pages p s - {w}" using t2(1) t1(2) by (simp add: taken_def)
  then have wn: "w \<notin> set ws" and wsn: "\<forall>v \<in> set ws. unat v < REGION_FS_N_PAGES p" by (auto simp: clean_pages_def)
  define nx where "nx = (case ws of [] \<Rightarrow> 0xFFFF :: u16 | v # _ \<Rightarrow> v)"
  obtain ph where h: "h = fs_new_file_hdr ph nm n nx" using b(5) unfolding nx_def by blast
  have fp2: "file_page p (fs_flash s2) w nx h nm" using b(4) by (simp add: nx_def)
  have wlt: "unat w < REGION_FS_N_PAGES p" using w by simp
  let ?h = "h\<lparr>st_create_complete := 0\<rparr>"
  obtain m where m: "fs_put p s2 (uint w) 0 (file_hdr_bytes ?h) = Some (0, s2\<lparr>fs_flash := m\<rparr>)" "page_frame p {w} (fs_flash s2) m"
    "file_page p m w nx ?h nm"
    using creat_complete [OF wlt fp2 _ _ nm] h by (auto simp: new_file_hdr_fields)
  let ?s3 = "s2\<lparr>fs_flash := m\<rparr>"
  define V where "V = set (w # ws)"
  have V: "w \<in> V" "V \<subseteq> clean_pages p s" using a(2) c0 sub by (auto simp: V_def)
  have e1: "fs_flash s1 = fs_flash s" using a(4) by (simp add: s0_def)
  have fr: "page_frame p V (fs_flash s) m"
    by (rule page_frame_trans [OF t2(3) [unfolded e1] m(2)]) (auto simp: V_def)
  have "page_chain p m ws" using b(6) wn wsn by (intro chain_frame [OF m(2)]) auto
  then have ch: "page_chain p m (w # ws)" using m(3) by (simp add: file_page_def nx_def)
  have bl: "pages_blank p m (set ws)" using b(7) wn by (intro blank_frame [OF m(2)]) auto
  have d: "distinct (w # ws)" "\<forall>v \<in> set (w # ws). unat v < REGION_FS_N_PAGES p" using wn b(3) wlt wsn by auto
  have cap': "unat n + length nm + 48 \<le> (length ws + 1) * (page_size p - 28)" using cap b(2) by simp
  have ff: "\<forall>i < page_size p. 76 + length nm \<le> i \<longrightarrow> m (fs_addr p w 0 + i) = 0xFF" using m(3) by (simp add: file_page_def)
  note ok = new_file_ok [OF ch d nm n cap' ff bl]
  have dat: "\<exists>v k. v \<in> V \<and> 28 \<le> k \<and> k < page_size p \<and> x = fs_addr p v 0 + k \<and> (v = w \<longrightarrow> 76 + length nm \<le> k)"
    if "x \<in> set (fs_addrs p m (new_file w nm n) 0 (unat n))" for x
  proof -
    have "x \<in> set (chain_data p w (76 + length nm) ws)" using that ok(4) by blast
    then show ?thesis using chain_data_mem [of x p w "76 + length nm" ws] wn by (fastforce simp: V_def)
  qed
  have st: "page_at s2 (uint v) = (if v = w then PageStateFileStart else if v \<in> V then PageStateFileCont else page_at s (uint v))" for v
    using t1(3) t2(1) wn by (simp add: taken_def V_def) (simp add: s0_def page_at_def)
  have cl: "clean_pages p s2 = clean_pages p s - V" using t2(1) t1(2) by (auto simp: taken_def V_def)
  have lp: "fs_lastpg s \<le> fs_lastpg s2" "uint w \<le> fs_lastpg s2" "fs_lastpg s2 < max (fs_lastpg s + 1) (int (REGION_FS_N_PAGES p))"
    "fs_valid s2 = fs_valid s" "fs_free_pages s2 = fs_free_pages s - fs_npages p (Some nm) n"
    using t1(3) t2(1) by (auto simp: taken_def s0_def max_def split: if_splits)
  have rd: "fs_ready p ?s3" using ready_flash [OF t2(2) m(2)] V cl by simp
  have "created p nm n w V s ?s3"
    unfolding created_def using ok(1-3) V fr dat m(3) h st rd cl lp
    by (auto simp: flash_frame_clean new_file_hdr_fields intro!: exI [of _ nx] exI [of _ ?h])
  moreover have "fs_creat p s (Some nm) n = Some (Some (fs_open (new_file w nm n)), ?s3)"
    using room(2) a(1) b(1) m(1) np
    by (simp add: fs_creat_def fs_creat_replacing_def Let_def s0_def [symmetric] not_less [symmetric] word_less_nat_alt fs_open_def new_file_def name_length_def SIZEOF_FILE_HDR_def
        del: fs_creat_pages.simps)
  ultimately show ?thesis by blast
qed

end

subsection \<open>The directory\<close>

definition dir_hdr :: "plat \<Rightarrow> mem \<Rightarrow> u16 \<Rightarrow> fs_file_hdr" where
  "dir_hdr p m w = file_hdr_of (mread m (fs_addr p w 0) 112)"

definition dir_name :: "plat \<Rightarrow> mem \<Rightarrow> u16 \<Rightarrow> bytes" where
  "dir_name p m w = c_string ((mread m (fs_addr p w 0 + 76) 33)[min 32 (unat (filename_len (dir_hdr p m w))) := 0])"

text \<open>The file that starts in a page, unless it is temporary.\<close>

definition dir_entry :: "plat \<Rightarrow> fs \<Rightarrow> u16 \<Rightarrow> (bytes \<times> fs_file) option" where
  "dir_entry p s w =
    (if page_at s (uint w) = PageStateFileStart \<and> st_tmp_file (dir_hdr p (fs_flash s) w) = 0
     then Some (dir_name p (fs_flash s) w, \<lparr> flags = FILE_HAS_DIRENT, startpage = w,
        startpofs = 76 + ucast (filename_len (dir_hdr p (fs_flash s) w)), fsize = file_size (dir_hdr p (fs_flash s) w) \<rparr>)
     else None)"

definition dir_pages :: "nat \<Rightarrow> nat \<Rightarrow> u16 list" where
  "dir_pages a b = map word_of_nat [a..<b]"

text \<open>The files of the file system, by page.\<close>

definition dir_list :: "plat \<Rightarrow> fs \<Rightarrow> (bytes \<times> fs_file) list" where
  "dir_list p s = List.map_filter (dir_entry p s) (dir_pages 0 (REGION_FS_N_PAGES p))"

text \<open>A file system in use: no file starts past the last page.\<close>

definition dir_whole :: "plat \<Rightarrow> fs \<Rightarrow> bool" where
  "dir_whole p s \<longleftrightarrow> fs_valid s \<and> fs_lastpg s < int (REGION_FS_N_PAGES p) \<and> REGION_FS_N_PAGES p \<le> 4 * length (fs_page_flags s) \<and>
     (\<forall>w :: u16. fs_lastpg s < uint w \<longrightarrow> unat w < REGION_FS_N_PAGES p \<longrightarrow> page_at s (uint w) \<noteq> PageStateFileStart)"

lemma map_filter_Nil [simp]: "List.map_filter g [] = []"
  by (simp add: List.map_filter_def)

lemma map_filter_Cons: "List.map_filter g (x # xs) = (case g x of None \<Rightarrow> List.map_filter g xs | Some y \<Rightarrow> y # List.map_filter g xs)"
  by (simp add: List.map_filter_def split: option.splits)

lemma map_filter_append: "List.map_filter g (xs @ ys) = List.map_filter g xs @ List.map_filter g ys"
  by (simp add: List.map_filter_def)

lemma map_filter_none: "\<forall>x \<in> set xs. g x = None \<Longrightarrow> List.map_filter g xs = []"
  by (induction xs) (simp_all add: map_filter_Cons)

text \<open>A lookup when one place gets a new entry.\<close>

lemma lookup_other:
  assumes "\<forall>x \<in> set xs. x \<noteq> w \<longrightarrow> g' x = g x" "g w = None" "g' w = Some (k, v)" "k' \<noteq> k"
  shows "map_of (List.map_filter g' xs) k' = map_of (List.map_filter g xs) k'"
  using assms by (induction xs) (auto simp: map_filter_Cons split: option.splits)

lemma lookup_new:
  assumes "\<forall>x \<in> set xs. x \<noteq> w \<longrightarrow> g' x = g x" "g w = None" "g' w = Some (k, v)" "map_of (List.map_filter g xs) k = None" "w \<in> set xs"
  shows "map_of (List.map_filter g' xs) k = Some v"
  using assms
proof (induction xs)
  case (Cons x xs)
  show ?case
  proof (cases "x = w")
    case False
    then have "g' x = g x" "map_of (List.map_filter g' xs) k = Some v"
      using Cons by (auto simp: map_filter_Cons split: option.splits if_splits)
    then show ?thesis using Cons.prems(4) False by (auto simp: map_filter_Cons split: option.splits if_splits)
  qed (use Cons.prems(3) in \<open>simp add: map_filter_Cons\<close>)
qed simp

lemma lookup_same:
  assumes "\<forall>x \<in> set xs. g' x = g x"
  shows "List.map_filter g' xs = List.map_filter g xs"
  using assms by (induction xs) (auto simp: map_filter_Cons split: option.splits)

context fs_platform begin

lemma read_file_hdr:
  assumes "unat w < REGION_FS_N_PAGES p"
  shows "fs_read_file_hdr p s (uint w) = Some (dir_hdr p (fs_flash s) w, dir_name p (fs_flash s) w)"
proof -
  have rd: "fs_read_page_ofs p m (ucast w) 0 (p_local p) 112 = Some (mread m (fs_addr p w 0) 112)" for m
    using page_read [OF assms, of 0 112 m "p_local p"] page_lo by simp
  have e: "(if MAX_FILENAME_LEN < k then MAX_FILENAME_LEN else k) = min 32 k" for k by (simp add: MAX_FILENAME_LEN_def)
  have t: "take (MAX_FILENAME_LEN + 1) (drop SIZEOF_FILE_HDR (mread m a 112)) = mread m (a + 76) 33" for m a
    by (simp add: MAX_FILENAME_LEN_def SIZEOF_FILE_HDR_def mread_drop mread_take)
  then have t': "take (Suc MAX_FILENAME_LEN) (drop SIZEOF_FILE_HDR (mread m a 112)) = mread m (a + 76) 33" for m a by simp
  show ?thesis unfolding fs_read_file_hdr_def Let_def e by (simp add: rd dir_hdr_def dir_name_def t')
qed

lemma find_loop_dir:
  assumes lp: "fs_lastpg s < int (REGION_FS_N_PAGES p)" "REGION_FS_N_PAGES p \<le> 4 * length (fs_page_flags s)"
    and w: "unat w \<le> nat (fs_lastpg s + 1)"
  shows "fs_find_loop p s nm w = Some (map_of (List.map_filter (dir_entry p s) (dir_pages (unat w) (nat (fs_lastpg s + 1)))) nm)"
  using w
proof (induction "nat (fs_lastpg s + 1) - unat w" arbitrary: w)
  case 0
  then have "nat (fs_lastpg s + 1) = unat w" by simp
  then have "\<not> uint w \<le> fs_lastpg s" unfolding uint_nat by linarith
  then show ?case using 0 by (subst fs_find_loop.simps) (simp add: dir_pages_def)
next
  case (Suc k)
  have le: "uint w \<le> fs_lastpg s" using Suc(2) unfolding uint_nat by linarith
  have wn: "unat w < REGION_FS_N_PAGES p" using le lp(1) unfolding uint_nat by linarith
  have w1: "unat (w + 1) = unat w + 1" using wn n_pages by (simp add: unat_word_ariths)
  have st: "fs_get_page_state s (uint w) = Some (page_at s (uint w))"
    using page_state_ok(1) [OF page_index [OF wn] lp(2)] by (simp only: page_at_def)
  have ih: "fs_find_loop p s nm (w + 1) = Some (map_of (List.map_filter (dir_entry p s) (dir_pages (unat (w + 1)) (nat (fs_lastpg s + 1)))) nm)"
    using Suc(1) [of "w + 1"] Suc(2,3) w1 by simp
  have dp: "dir_pages (unat w) (nat (fs_lastpg s + 1)) = w # dir_pages (unat (w + 1)) (nat (fs_lastpg s + 1))"
    using Suc(2) w1 by (simp add: dir_pages_def upt_conv_Cons)
  show ?case
    unfolding dp using le ih by (subst fs_find_loop.simps)
      (auto simp: st read_file_hdr [OF wn] dir_entry_def map_filter_Cons SIZEOF_FILE_HDR_def)
qed

lemma find_file_dir:
  assumes "dir_whole p s" "-1 \<le> fs_lastpg s"
  shows "fs_find_file p s nm = Some (map_of (dir_list p s) nm)"
proof -
  let ?l = "nat (fs_lastpg s + 1)"
  have lp: "fs_lastpg s < int (REGION_FS_N_PAGES p)" "REGION_FS_N_PAGES p \<le> 4 * length (fs_page_flags s)" "fs_valid s"
    using assms by (simp_all add: dir_whole_def)
  have l: "?l \<le> REGION_FS_N_PAGES p" using lp(1) by simp
  have "dir_pages 0 (REGION_FS_N_PAGES p) = dir_pages 0 ?l @ dir_pages ?l (REGION_FS_N_PAGES p)"
    using l unfolding dir_pages_def map_append [symmetric] by (metis le0 upt_add_eq_append le_Suc_ex)
  moreover have "dir_entry p s w = None" if "w \<in> set (dir_pages ?l (REGION_FS_N_PAGES p))" for w
  proof -
    note w = that
    obtain k where k: "w = word_of_nat k" "?l \<le> k" "k < REGION_FS_N_PAGES p" using w by (auto simp: dir_pages_def)
    then have "unat w = k" using n_pages by (simp add: unat_of_nat)
    then have "fs_lastpg s < uint w" "unat w < REGION_FS_N_PAGES p" using k assms(2) unfolding uint_nat by linarith+
    then show ?thesis using assms(1) by (simp add: dir_whole_def dir_entry_def)
  qed
  ultimately have "dir_list p s = List.map_filter (dir_entry p s) (dir_pages 0 ?l)"
    by (simp add: dir_list_def map_filter_append map_filter_none)
  then show ?thesis using find_loop_dir [OF lp(1,2), of 0 nm] lp(3) by (simp add: fs_find_file_def)
qed

end

lemma dir_entry_cong:
  assumes "page_at s' (uint w) = page_at s (uint w)"
    and m: "\<And>i. 28 \<le> i \<Longrightarrow> i < 112 \<Longrightarrow> fs_flash s' (fs_addr p w 0 + i) = fs_flash s (fs_addr p w 0 + i)"
  shows "dir_entry p s' w = dir_entry p s w"
proof -
  have h: "st_tmp_file (dir_hdr p (fs_flash s') w) = st_tmp_file (dir_hdr p (fs_flash s) w)"
    "filename_len (dir_hdr p (fs_flash s') w) = filename_len (dir_hdr p (fs_flash s) w)"
    "file_size (dir_hdr p (fs_flash s') w) = file_size (dir_hdr p (fs_flash s) w)"
    using m by (simp_all add: dir_hdr_def file_hdr_of_def fs_page_hdr.defs fs_file_hdr.defs get16_def get32_def)
  have "mread (fs_flash s') (fs_addr p w 0 + 76) 33 = mread (fs_flash s) (fs_addr p w 0 + 76) 33"
    by (rule mread_cong) (use m [of "76 + i" for i] in \<open>simp add: add.assoc\<close>)
  then show ?thesis using assms(1) h by (simp add: dir_entry_def dir_name_def)
qed

lemma hdr_of_tail:
  assumes "length xs = 28" "length (v_full h) = 26"
  shows "st_tmp_file (file_hdr_of (xs @ file_hdr_tail h @ ys)) = st_tmp_file h" "filename_len (file_hdr_of (xs @ file_hdr_tail h @ ys)) = filename_len h"
    "file_size (file_hdr_of (xs @ file_hdr_tail h @ ys)) = file_size h"
  using assms by (simp_all add: file_hdr_of_def file_hdr_tail_def nth_append get16_def get32_def
      le16_def le32_def get16_le16 get32_le32 fs_page_hdr.defs fs_file_hdr.defs)

lemma file_page_dir:
  assumes f: "mread m (fs_addr p w 0 + 28) 48 = file_hdr_tail h" "mread m (fs_addr p w 0 + 76) (length nm) = nm" and h: "length (v_full h) = 26" "filename_len h = word_of_nat (length nm)"
    and nm: "0 \<notin> set nm" "length nm < 32"
  shows "dir_name p m w = nm" "st_tmp_file (dir_hdr p m w) = st_tmp_file h" "file_size (dir_hdr p m w) = file_size h"
    "filename_len (dir_hdr p m w) = filename_len h"
proof -
  let ?a = "fs_addr p w 0"
  have "mread m ?a 112 = mread m ?a 28 @ file_hdr_tail h @ mread m (?a + 76) 36"
    using f mread_add [of m ?a 28 84] mread_add [of m "?a + 28" 48 36] by (simp add: add.assoc)
  then show fl: "st_tmp_file (dir_hdr p m w) = st_tmp_file h" "file_size (dir_hdr p m w) = file_size h"
    "filename_len (dir_hdr p m w) = filename_len h"
    using hdr_of_tail [of "mread m ?a 28" h] h(1) by (simp_all add: dir_hdr_def)
  have l: "unat (word_of_nat (length nm) :: u8) = length nm" using nm(2) by (simp add: unat_of_nat)
  have "mread m (?a + 76) 33 = nm @ mread m (?a + 76 + length nm) (33 - length nm)"
    using f mread_add [of m "?a + 76" "length nm" "33 - length nm"] nm(2) by simp
  then show "dir_name p m w = nm"
    using nm unfolding dir_name_def fl(3) h(2) l by (subst c_string_cut) (auto simp: c_string_def takeWhile_eq_all_conv min_def)
qed

lemma new_file_dir: "length nm < 32 \<Longrightarrow> \<lparr> flags = FILE_HAS_DIRENT, startpage = w, startpofs = 76 + ucast (word_of_nat (length nm) :: u8), fsize = n \<rparr> = new_file w nm n"
proof -
  assume nm: "length nm < 32"
  have "unat (ucast (word_of_nat (length nm) :: u8) :: u32) = unat (word_of_nat (length nm) :: u32)"
    using nm by (simp only: unat_ucast_u8) (simp add: unat_of_nat)
  then have "ucast (word_of_nat (length nm) :: u8) = (word_of_nat (length nm) :: u32)" by (simp only: word_unat_eq_iff)
  then show ?thesis by (simp add: new_file_def add.commute)
qed

text \<open>A file none of whose pages is touched keeps its content.\<close>

definition file_pages :: "plat \<Rightarrow> mem \<Rightarrow> fs_file \<Rightarrow> u16 set" where
  "file_pages p m f = (\<lambda>k. fst (fs_walk p m (fs_start f) k)) ` {..<unat (fsize f)}"

lemma walk_local:
  assumes "\<And>j. j < k \<Longrightarrow> fs_next p m' (fst (fs_walk p m pos j)) = fs_next p m (fst (fs_walk p m pos j))"
  shows "fs_walk p m' pos k = fs_walk p m pos k"
  using assms by (induction k) (simp_all add: fs_walk_def fs_step_def)

context fs_platform begin

lemma other_content:
  assumes fr: "page_frame p V m m'" and ok: "content_ok p m f" and apart: "file_pages p m f \<inter> V = {}"
  shows "fcontent p m' f = fcontent p m f" "content_ok p m' f"
proof -
  let ?n = "unat (fsize f)"
  have pg: "unat (fst (fs_walk p m (fs_start f) k)) < REGION_FS_N_PAGES p" "fst (fs_walk p m (fs_start f) k) \<notin> V" if "k < ?n" for k
    using ok apart that by (auto simp: content_ok_def file_ok_def fs_pages_ok_def file_pages_def)
  have w: "fs_walk p m' (fs_start f) k = fs_walk p m (fs_start f) k" if "k \<le> ?n" for k
    by (rule walk_local, rule frame_next [OF fr]) (use pg that in auto)
  have run: "fs_addrs p m' f 0 ?n = fs_addrs p m f 0 ?n"
    using w by (auto simp: fs_addrs_def fs_run_def)
  have "m' a = m a" if a: "a \<in> set (fs_addrs p m f 0 ?n)" for a
  proof -
    obtain k where k: "k < ?n" "a = fs_addr p (fst (fs_walk p m (fs_start f) k)) (snd (fs_walk p m (fs_start f) k))"
      using a by (auto simp: fs_addrs_def fs_run_def)
    have "fs_inpage p (fs_walk p m (fs_start f) k)" using ok by (intro walk_inpage) (simp add: content_ok_def file_ok_def)
    then have "28 \<le> unat (snd (fs_walk p m (fs_start f) k))" "unat (snd (fs_walk p m (fs_start f) k)) < page_size p"
      by (simp_all add: fs_inpage_def page_size_def word_less_nat_alt SIZEOF_PAGE_HDR_def)
    then show ?thesis using fr pg [OF k(1)] unfolding k(2) page_frame_def fs_addr_def by simp
  qed
  then show "fcontent p m' f = fcontent p m f" by (simp add: fcontent_def run)
  show "content_ok p m' f" using ok w by (auto simp: content_ok_def run file_ok_def fs_pages_ok_def)
qed

text \<open>After the data has been written and the file marked, it is in the directory, and the rest of the directory is as before.\<close>

lemma created_dir:
  assumes c: "created p nm n w V s s1" and d: "dir_whole p s" and nm: "0 \<notin> set nm" "length nm < 32"
    and fr: "file_frame p (new_file w nm n) (fs_flash s1) m"
  defines "m2 \<equiv> m(fs_addr p w 0 + 44 := 0, fs_addr p w 0 + 45 := 0)"
  shows "page_frame p V (fs_flash s) m2" "dir_entry p s w = None" "dir_entry p (s1\<lparr>fs_flash := m2\<rparr>) w = Some (nm, new_file w nm n)"
    "\<And>v. v \<noteq> w \<Longrightarrow> unat v < REGION_FS_N_PAGES p \<Longrightarrow> dir_entry p (s1\<lparr>fs_flash := m2\<rparr>) v = dir_entry p s v"
    "\<And>v. unat v < REGION_FS_N_PAGES p \<Longrightarrow> dir_entry p (s1\<lparr>fs_flash := m\<rparr>) v = dir_entry p s v"
    "dir_whole p (s1\<lparr>fs_flash := m\<rparr>)"
proof -
  let ?f = "new_file w nm n" and ?m1 = "fs_flash s1" and ?a = "fs_addr p w 0"
  have V: "w \<in> V" "V \<subseteq> clean_pages p s" "page_frame p V (fs_flash s) ?m1"
    and dat: "\<And>x. x \<in> set (fs_addrs p ?m1 ?f 0 (unat n)) \<Longrightarrow> \<exists>v k. v \<in> V \<and> 28 \<le> k \<and> k < page_size p \<and> x = fs_addr p v 0 + k \<and> (v = w \<longrightarrow> 76 + length nm \<le> k)"
    and st: "\<And>v. page_at s1 (uint v) = (if v = w then PageStateFileStart else if v \<in> V then PageStateFileCont else page_at s (uint v))"
    and lp: "fs_lastpg s \<le> fs_lastpg s1" "uint w \<le> fs_lastpg s1" "fs_lastpg s1 < max (fs_lastpg s + 1) (int (REGION_FS_N_PAGES p))" "fs_valid s1 = fs_valid s"
    and rdy: "fs_ready p s1"
    using c by (auto simp: created_def)
  obtain nx h where h: "file_page p ?m1 w nx h nm" "length (v_full h) = 26" "file_size h = n" "filename_len h = word_of_nat (length nm)" "st_tmp_file h = 0xFFFF"
    using c by (auto simp: created_def)
  have keep: "m a = ?m1 a" if "a \<notin> set (fs_addrs p ?m1 ?f 0 (unat n))" for a
    using fr that by (simp add: file_frame_def new_file_def)
  have out: "m (fs_addr p v 0 + i) = ?m1 (fs_addr p v 0 + i)" if "i < page_size p" "v \<notin> V \<or> v = w \<and> i < 76 + length nm" for v i
    by (rule keep) (use that dat [of "fs_addr p v 0 + i"] page_place in fastforce)
  have fr1: "page_frame p V (fs_flash s) m" using V(3) out by (simp add: page_frame_def)
  then show fr2: "page_frame p V (fs_flash s) m2"
    using V(1) page_place page_size_bounds unfolding page_frame_def m2_def by (auto simp: fun_upd_def)
  have clean: "page_at s (uint v) = PageStateClean" if "v \<in> V" for v
    using V(2) that by (auto simp: clean_pages_def page_clean_def page_at_def)
  then show "dir_entry p s w = None" using V(1) by (simp add: dir_entry_def)
  have e: "dir_entry p (s1\<lparr>fs_flash := m'\<rparr>) v = dir_entry p s v" if "v \<noteq> w" "unat v < REGION_FS_N_PAGES p" "page_frame p V (fs_flash s) m'" for v m'
  proof (cases "v \<in> V")
    case True
    then show ?thesis using st [of v] clean [OF True] that(1) by (simp add: dir_entry_def)
  next
    case False
    then show ?thesis using st [of v] that page_size_bounds by (intro dir_entry_cong) (simp_all add: page_frame_def)
  qed
  show "\<And>v. v \<noteq> w \<Longrightarrow> unat v < REGION_FS_N_PAGES p \<Longrightarrow> dir_entry p (s1\<lparr>fs_flash := m2\<rparr>) v = dir_entry p s v" using e fr2 by blast
  have mw: "m (?a + i) = ?m1 (?a + i)" if "i < 76 + length nm" for i
    using out [of i w] that nm(2) page_size_bounds by simp
  have fp: "mread ?m1 (?a + 28) 48 = file_hdr_tail h" "mread ?m1 (?a + 76) (length nm) = nm" using h(1) by (simp_all add: file_page_def)
  have fpm: "mread m (?a + 28) 48 = file_hdr_tail h" "mread m (?a + 76) (length nm) = nm"
  proof -
    have "mread m (?a + 28) 48 = mread ?m1 (?a + 28) 48"
      by (rule mread_cong) (use mw [of "28 + i" for i] in \<open>simp add: add.assoc\<close>)
    then show "mread m (?a + 28) 48 = file_hdr_tail h" using fp(1) by (simp only:)
    have "mread m (?a + 76) (length nm) = mread ?m1 (?a + 76) (length nm)"
      by (rule mread_cong) (use mw [of "76 + i" for i] in \<open>simp add: add.assoc\<close>)
    then show "mread m (?a + 76) (length nm) = nm" using fp(2) by (simp only:)
  qed
  have "dir_entry p (s1\<lparr>fs_flash := m\<rparr>) w = None"
    using file_page_dir(2) [OF fpm h(2,4) nm] h(5) by (simp add: dir_entry_def)
  then show "\<And>v. unat v < REGION_FS_N_PAGES p \<Longrightarrow> dir_entry p (s1\<lparr>fs_flash := m\<rparr>) v = dir_entry p s v"
    using e fr1 \<open>dir_entry p s w = None\<close> by metis
  let ?h = "h\<lparr>st_tmp_file := 0\<rparr>"
  have t2: "file_hdr_tail ?h = (file_hdr_tail h)[16 := 0, 17 := 0]"
    by (simp add: file_hdr_tail_def list_update_append le16_def le32_def)
  have "mread m2 (?a + 28) 48 = (mread m (?a + 28) 48)[16 := 0, 17 := 0]"
    by (rule nth_equalityI) (auto simp: m2_def nth_list_update)
  then have fp2: "mread m2 (?a + 28) 48 = file_hdr_tail ?h" using fpm(1) t2 by simp
  have "mread m2 (?a + 76) (length nm) = mread m (?a + 76) (length nm)"
    by (rule mread_cong) (simp add: m2_def)
  then have fn2: "mread m2 (?a + 76) (length nm) = nm" using fpm(2) by simp
  show "dir_entry p (s1\<lparr>fs_flash := m2\<rparr>) w = Some (nm, new_file w nm n)"
    using file_page_dir [OF fp2 fn2 _ _ nm] h(2-4) st [of w] new_file_dir [OF nm(2), of w n] by (simp add: dir_entry_def)
  have "page_at s1 (uint v) \<noteq> PageStateFileStart" if v: "fs_lastpg s1 < uint v" "unat v < REGION_FS_N_PAGES p" for v :: u16
    using st [of v] lp(1,2) d v by (auto simp: dir_whole_def)
  moreover have "fs_lastpg s1 < int (REGION_FS_N_PAGES p)" "REGION_FS_N_PAGES p \<le> 4 * length (fs_page_flags s1)" "fs_valid s1"
    using lp d rdy by (auto simp: dir_whole_def fs_ready_def alloc_ok_def)
  ultimately show "dir_whole p (s1\<lparr>fs_flash := m\<rparr>)" by (simp add: dir_whole_def)
qed

end

lemma dir_pages_mem: "w \<in> set (dir_pages 0 N) \<Longrightarrow> N \<le> 65536 \<Longrightarrow> unat w < N"
  by (auto simp: dir_pages_def unat_of_nat)

lemma dir_pages_all: "unat w < N \<Longrightarrow> w \<in> set (dir_pages 0 N)"
  by (auto simp: dir_pages_def image_iff intro!: bexI [of _ "unat w"])

context fs_platform begin

lemma find_frame_list:
  assumes "dir_whole p s" "-1 \<le> fs_lastpg s" "dir_whole p s'" "-1 \<le> fs_lastpg s'"
    and "\<And>v. unat v < REGION_FS_N_PAGES p \<Longrightarrow> dir_entry p s' v = dir_entry p s v"
  shows "fs_find_file p s' nm = fs_find_file p s nm"
  using lookup_same [of "dir_pages 0 (REGION_FS_N_PAGES p)" "dir_entry p s'" "dir_entry p s"] assms(5) n_pages
  by (simp add: find_file_dir assms(1-4) dir_list_def dir_pages_mem)

text \<open>From the creation of a file to its completion: \<open>m\<close> is the memory after its data has been written.\<close>

lemma creat_find:
  assumes d: "dir_whole p s" "-1 \<le> fs_lastpg s" and nm: "0 \<notin> set nm" "length nm < 32"
    and absent: "fs_find_file p s nm = Some None"
    and c: "created p nm n w V s s1" and fr: "file_frame p (new_file w nm n) (fs_flash s1) m"
    and fd: "fd_file fd = new_file w nm n" "fsize (replaces fd) = 0" "content_ok p m (new_file w nm n)"
  shows "\<exists>s2. fs_mark_written p (s1\<lparr>fs_flash := m\<rparr>) fd = Some s2 \<and> fs_find_file p (s1\<lparr>fs_flash := m\<rparr>) = fs_find_file p s \<and>
    fs_find_file p s2 nm = Some (Some (new_file w nm n)) \<and> fcontent p (fs_flash s2) (new_file w nm n) = fcontent p m (new_file w nm n) \<and>
    (\<forall>nm'. nm' \<noteq> nm \<longrightarrow> fs_find_file p s2 nm' = fs_find_file p s nm') \<and>
    (\<forall>f. content_ok p (fs_flash s) f \<and> file_pages p (fs_flash s) f \<inter> clean_pages p s = {} \<longrightarrow>
       fcontent p (fs_flash s2) f = fcontent p (fs_flash s) f) \<and>
    fs_ready p s2 \<and> dir_whole p s2 \<and> clean_pages p s2 = clean_pages p s - V"
proof -
  let ?f = "new_file w nm n" and ?s1 = "s1\<lparr>fs_flash := m\<rparr>" and ?N = "REGION_FS_N_PAGES p"
  have sp: "startpage ?f = w" by (simp add: new_file_def)
  have ap: "hdr_apart p (fs_flash ?s1) ?f" using c fr by (simp add: created_def hdr_apart_def file_frame_def)
  have co: "content_ok p (fs_flash ?s1) ?f" using fd(3) by simp
  obtain m2 where m2': "fs_mark_written p ?s1 fd = Some (?s1\<lparr>fs_flash := m2\<rparr>)" "fcontent p m2 ?f = fcontent p (fs_flash ?s1) ?f"
    "hdr_file_at p m2 ?f = (hdr_file_at p (fs_flash ?s1) ?f)\<lparr>st_tmp_file := 0\<rparr>" "content_ok p m2 ?f"
    "m2 = (fs_flash ?s1)(fs_addr p (startpage ?f) 0 + 44 := 0, fs_addr p (startpage ?f) 0 + 45 := 0)"
    by (rule mark_written_plain [OF co ap fd(1,2)])
  have m2: "fs_mark_written p ?s1 fd = Some (s1\<lparr>fs_flash := m2\<rparr>)" "fcontent p m2 ?f = fcontent p m ?f"
    "m2 = m(fs_addr p w 0 + 44 := 0, fs_addr p w 0 + 45 := 0)"
    using m2' by (simp_all add: sp del: fun_upd_apply)
  let ?s2 = "s1\<lparr>fs_flash := m2\<rparr>"
  note cd = created_dir [OF c d(1) nm fr, folded m2(3)]
  have lp: "-1 \<le> fs_lastpg s1" using c d(2) by (simp add: created_def)
  have dw: "dir_whole p ?s2" using cd(6) by (simp add: dir_whole_def)
  have V: "w \<in> V" "V \<subseteq> clean_pages p s" and cl: "clean_pages p s1 = clean_pages p s - V" and r1: "fs_ready p s1"
    using c by (simp_all add: created_def)
  have wn: "unat w < ?N" using V by (auto simp: clean_pages_def)
  have same: "fs_find_file p ?s1 x = fs_find_file p s x" for x
    using find_frame_list [OF d cd(6), of x] cd(5) lp by simp
  have pgs: "\<forall>v \<in> set (dir_pages 0 ?N). v \<noteq> w \<longrightarrow> dir_entry p ?s2 v = dir_entry p s v"
    using cd(4) n_pages by (auto dest: dir_pages_mem)
  have fl: "fs_find_file p ?s2 x = Some (map_of (dir_list p ?s2) x)" "fs_find_file p s x = Some (map_of (dir_list p s) x)" for x
    using find_file_dir [OF dw, of x] find_file_dir [OF d, of x] lp by simp_all
  have new: "fs_find_file p ?s2 nm = Some (Some ?f)"
    using lookup_new [OF pgs cd(2,3) _ dir_pages_all [OF wn]] absent unfolding fl by (simp add: dir_list_def)
  have other: "fs_find_file p ?s2 x = fs_find_file p s x" if "x \<noteq> nm" for x
    using lookup_other [OF pgs cd(2,3) that] unfolding fl by (simp add: dir_list_def)
  have oc: "fcontent p m2 f = fcontent p (fs_flash s) f" if "content_ok p (fs_flash s) f" "file_pages p (fs_flash s) f \<inter> clean_pages p s = {}" for f
    by (rule other_content(1) [OF cd(1)]) (use that V in auto)
  have "page_frame p V (fs_flash s) (fs_flash s1)" using c by (simp add: created_def)
  have "page_frame p V (fs_flash s1) m2" using cd(1) c by (simp add: created_def page_frame_def)
  then have rd: "fs_ready p ?s2" using ready_flash [OF r1] cl by blast
  show ?thesis
    using m2(1,2) same new other oc rd dw cl by (intro exI [of _ ?s2]) (simp add: flash_frame_clean fun_eq_iff)
qed

end


text \<open>C2: a file that is written is the file that is found. On a file system with enough clean pages and no file of that
  name, \<open>fs_creat\<close>, \<open>fs_write\<close> of as many bytes as asked for and \<open>fs_mark_written\<close> succeed; until the last the
  directory is as before, then the name leads to a file with the bytes written, every other name to what it led to, every other file has its
  content and the file system is as ready as it was.\<close>

theorem fs_creat_write_find:
  assumes "fs_ready (snowy_plat nor_ideal) s" "dir_whole (snowy_plat nor_ideal) s" "-1 \<le> fs_lastpg s"
    and "fs_find_file (snowy_plat nor_ideal) s nm = Some None" "length nm < 32" "0 \<notin> set nm" "unat n < 2 ^ 31" "unat src + unat n < 2 ^ 32"
    and "unat (fs_npages (snowy_plat nor_ideal) (Some nm) n) \<le> card (clean_pages (snowy_plat nor_ideal) s)"
    and "fs_npages (snowy_plat nor_ideal) (Some nm) n \<le> fs_free_pages s"
  shows "\<exists>fd s1 fd' m s2 f. fs_creat (snowy_plat nor_ideal) s (Some nm) n = Some (Some fd, s1) \<and>
    fs_write (snowy_plat nor_ideal) ram (fs_flash s1) fd src n = Some (n, fd', m) \<and>
    fs_find_file (snowy_plat nor_ideal) (s1\<lparr>fs_flash := m\<rparr>) = fs_find_file (snowy_plat nor_ideal) s \<and>
    fs_mark_written (snowy_plat nor_ideal) (s1\<lparr>fs_flash := m\<rparr>) fd' = Some s2 \<and>
    fs_find_file (snowy_plat nor_ideal) s2 nm = Some (Some f) \<and> fcontent (snowy_plat nor_ideal) (fs_flash s2) f = mread ram (unat src) (unat n) \<and>
    (\<forall>nm'. nm' \<noteq> nm \<longrightarrow> fs_find_file (snowy_plat nor_ideal) s2 nm' = fs_find_file (snowy_plat nor_ideal) s nm') \<and>
    (\<forall>g. content_ok (snowy_plat nor_ideal) (fs_flash s) g \<and>
       file_pages (snowy_plat nor_ideal) (fs_flash s) g \<inter> clean_pages (snowy_plat nor_ideal) s = {} \<longrightarrow>
       fcontent (snowy_plat nor_ideal) (fs_flash s2) g = fcontent (snowy_plat nor_ideal) (fs_flash s) g) \<and>
    fs_ready (snowy_plat nor_ideal) s2 \<and> dir_whole (snowy_plat nor_ideal) s2"
proof -
  obtain w V s1 where c: "fs_creat (snowy_plat nor_ideal) s (Some nm) n = Some (Some (fs_open (new_file w nm n)), s1)"
    "created (snowy_plat nor_ideal) nm n w V s s1"
    using snowy_fs.fs_creat_ok [OF assms(1,5,7,9,10)] by blast
  let ?f = "new_file w nm n"
  have cr: "content_ok (snowy_plat nor_ideal) (fs_flash s1) ?f" "fcontent (snowy_plat nor_ideal) (fs_flash s1) ?f = replicate (unat n) 0xFF"
    using c(2) by (simp_all add: created_def)
  have sz: "0 + unat n \<le> unat (fsize ?f)" by (simp add: new_file_def)
  obtain fd' m where w: "fs_write (snowy_plat nor_ideal) ram (fs_flash s1) (fs_open ?f) src n = Some (n, fd', m)"
    "fd_at (snowy_plat nor_ideal) m ?f (0 + unat n) fd'" "replaces fd' = replaces (fs_open ?f)"
    "fcontent (snowy_plat nor_ideal) m ?f = overlay (fcontent (snowy_plat nor_ideal) (fs_flash s1) ?f) 0 (mread ram (unat src) (unat n))"
    "file_frame (snowy_plat nor_ideal) ?f (fs_flash s1) m"
    using snowy_fs.at_write [OF fd_at_open [OF cr(1)] refl sz assms(8), of ram] by blast
  have cm: "fcontent (snowy_plat nor_ideal) m ?f = mread ram (unat src) (unat n)"
    unfolding w(4) cr(2) using overlay_blank [of 0 "[]" "mread ram (unat src) (unat n)" "unat n"] by simp
  have fd: "fd_file fd' = ?f" "fsize (replaces fd') = 0" "content_ok (snowy_plat nor_ideal) m ?f"
    using w(2,3) by (simp_all add: fd_at_def fs_open_def file_zero_def)
  show ?thesis
    using snowy_fs.creat_find [OF assms(2,3,6,5,4) c(2) w(5) fd] c(1) w(1) cm by force
qed

text \<open>A formatted file system without files, its last page in use.\<close>

definition ex_empty :: fs where
  "ex_empty = \<lparr> fs_flash = (\<lambda>a. if a mod 0x2000 = 9 \<or> a mod 0x2000 = 10 \<or> a mod 0x2000 = 11 then 0 else 0xFF), fs_valid = True, fs_lastpg = -1,
     fs_best_erase_count = 255, fs_last_allocated_page = 0, fs_free_pages = 1535, fs_page_flags = replicate 383 0 @ [3], gc_sector = -1 \<rparr>"

lemma ex_empty_page: "fs_flash ex_empty (fs_addr (snowy_plat nor_ideal) w 0 + i) = (if i = 9 \<or> i = 10 \<or> i = 11 then 0 else 0xFF)" if "i < 0x2000"
proof -
  have "fs_addr (snowy_plat nor_ideal) w 0 + i = i + (512 + unat w) * 0x2000" by (simp add: fs_addr_def)
  then have "(fs_addr (snowy_plat nor_ideal) w 0 + i) mod 0x2000 = i" using that by (simp only: mod_mult_self1 mod_less)
  then show ?thesis by (simp add: ex_empty_def)
qed

lemma ex_empty_at: "unat w < 1536 \<Longrightarrow> page_at ex_empty (uint (w :: u16)) = (if unat w = 1535 then PageStateDirty else PageStateClean)"
proof -
  assume w: "unat w < 1536"
  have e: "page_at ex_empty (uint w) = page_state_of (drop_bit (6 - 2 * (unat w mod 4)) ((replicate 383 0 @ [3]) ! (unat w div 4)) AND 3)"
    by (simp add: page_at_def get_page_flags_def pg_index pg_offset_def pg_and3 ex_empty_def)
  show ?thesis
  proof (cases "unat w div 4 < 383")
    case True
    moreover from this have "unat w \<noteq> 1535" by auto
    ultimately show ?thesis unfolding e by (simp add: nth_append page_state_of_def)
  next
    case False
    then have "unat w div 4 = 383" using w by linarith
    moreover from this have "unat w = 4 * 383 + unat w mod 4" by (metis div_mult_mod_eq mult.commute)
    moreover have "unat w mod 4 = 0 \<or> unat w mod 4 = 1 \<or> unat w mod 4 = 2 \<or> unat w mod 4 = 3" by linarith
    ultimately show ?thesis unfolding e by (elim disjE) (simp_all add: nth_append page_state_of_def)
  qed
qed

lemma ex_empty_clean: "w \<in> clean_pages (snowy_plat nor_ideal) ex_empty \<longleftrightarrow> unat w < 1535"
  using ex_empty_at [of w] by (auto simp: clean_pages_def page_clean_def page_at_def split: if_splits)

lemma ex_empty_ready: "fs_ready (snowy_plat nor_ideal) ex_empty" "dir_whole (snowy_plat nor_ideal) ex_empty"
proof -
  have ps: "page_size (snowy_plat nor_ideal) = 0x2000" by (simp add: page_size_def)
  have er: "page_erased (snowy_plat nor_ideal) (fs_flash ex_empty) w" for w
    using ex_empty_page by (auto simp: page_erased_def ps)
  have wear: "hdr_wear (snowy_plat nor_ideal) (fs_flash ex_empty) w = 255" for w
    by (simp add: hdr_wear_def page_hdr_of_def SIZEOF_PAGE_HDR_def get32_def ex_empty_page)
  have "page_wear (snowy_plat nor_ideal) ex_empty pg = 255" for pg
    using wear [of "word_of_int pg"] by (simp add: page_wear_def hdr_wear_def)
  then have "alloc_ok (snowy_plat nor_ideal) ex_empty"
    by (simp add: alloc_ok_def fs_pages_def) (simp add: ex_empty_def)
  then show "fs_ready (snowy_plat nor_ideal) ex_empty" using er wear by (simp add: fs_ready_def ex_empty_clean)
  have "page_at ex_empty (uint w) \<noteq> PageStateFileStart" if "unat w < 1536" for w :: u16
    using ex_empty_at [OF that] by simp
  then show "dir_whole (snowy_plat nor_ideal) ex_empty" by (simp add: dir_whole_def) (simp add: ex_empty_def)
qed

lemma ex_empty_find: "fs_find_file (snowy_plat nor_ideal) ex_empty nm = Some None"
  by (simp add: fs_find_file_def) (subst fs_find_loop.simps, simp add: ex_empty_def)

theorem fs_creat_write_find_witness:
  "\<exists>fd s1 fd' m s2 f. fs_creat (snowy_plat nor_ideal) ex_empty (Some [0x61, 0x62]) 3 = Some (Some fd, s1) \<and>
    fs_write (snowy_plat nor_ideal) (\<lambda>a. word_of_nat a) (fs_flash s1) fd 7 3 = Some (3, fd', m) \<and>
    fs_mark_written (snowy_plat nor_ideal) (s1\<lparr>fs_flash := m\<rparr>) fd' = Some s2 \<and>
    fs_find_file (snowy_plat nor_ideal) s2 [0x61, 0x62] = Some (Some f) \<and> fcontent (snowy_plat nor_ideal) (fs_flash s2) f = [7, 8, 9]"
proof -
  have np: "fs_npages (snowy_plat nor_ideal) (Some [0x61, 0x62]) 3 = 1"
    by (simp add: fs_npages_def name_length_def SIZEOF_FILE_HDR_def SIZEOF_PAGE_HDR_def)
  have "(0 :: u16) \<in> clean_pages (snowy_plat nor_ideal) ex_empty" by (simp add: ex_empty_clean)
  then have card: "1 \<le> card (clean_pages (snowy_plat nor_ideal) ex_empty)" by (metis One_nat_def Suc_leI card_gt_0_iff clean_finite empty_iff)
  have "fs_lastpg ex_empty = -1" "fs_free_pages ex_empty = 1535" by (simp_all add: ex_empty_def)
  moreover have "mread (\<lambda>a. word_of_nat a) 7 3 = ([7, 8, 9] :: bytes)" by (simp add: mread_def upt_conv_Cons)
  ultimately show ?thesis
    using fs_creat_write_find [OF ex_empty_ready _ ex_empty_find, of "[0x61, 0x62]" 3 7 "\<lambda>a. word_of_nat a"] np card by fastforce
qed

end
