(* ===== verification/Minilib.thy ===== *)
theory Minilib
  imports Prelude
begin

section \<open>C library routines: lib/minilib/minilib.c\<close>

text \<open>
  The memory and string routines of lib/minilib/minilib.c over a memory of bytes. Counts that the C code has as \<open>int\<close>
  are natural numbers where a negative one would run off (\<open>while (bytes--)\<close>), and integers where the code tests
  them. Loops that stop at a null byte are partial functions. The lemmas show that \<open>memcpy\<close> with its unrolled word loop and
  \<open>memmove\<close> move bytes whatever the overlap, and what the string routines do, their overruns included.
\<close>

subsection \<open>Memory\<close>

text \<open>Copying byte by byte, upwards and downwards.\<close>

primrec copy_fwd :: "mem \<Rightarrow> nat \<Rightarrow> nat \<Rightarrow> nat \<Rightarrow> mem" where
  "copy_fwd m d s 0 = m" |
  "copy_fwd m d s (Suc n) = copy_fwd (m(d := m s)) (d + 1) (s + 1) n"

primrec copy_bwd :: "mem \<Rightarrow> nat \<Rightarrow> nat \<Rightarrow> nat \<Rightarrow> mem" where
  "copy_bwd m d s 0 = m" |
  "copy_bwd m d s (Suc n) = copy_bwd (m(d - 1 := m (s - 1))) (d - 1) (s - 1) n"

text \<open>The first loop of \<open>_memcpy_fast\<close>: bytes up to a word boundary of the source.\<close>

primrec copy_align :: "mem \<Rightarrow> nat \<Rightarrow> nat \<Rightarrow> nat \<Rightarrow> mem \<times> nat \<times> nat \<times> nat" where
  "copy_align m d s 0 = (m, d, s, 0)" |
  "copy_align m d s (Suc n) = (if s mod 4 = 0 then (m, d, s, Suc n) else copy_align (m(d := m s)) (d + 1) (s + 1) n)"

text \<open>The loop unrolled eight times that is entered in the middle: \<open>pos\<close> is the case label to execute next, and the count
  is tested after the one labelled 1.\<close>

partial_function (option) duff :: "mem \<Rightarrow> nat \<Rightarrow> nat \<Rightarrow> int \<Rightarrow> nat \<Rightarrow> (mem \<times> nat \<times> nat) option" where
  "duff m idest isrc nwords pos =
    (let m = mwrite m idest (mread m isrc 4) in
     if pos = 1
     then (if nwords - 1 = 0 then Some (m, idest + 4, isrc + 4) else duff m (idest + 4) (isrc + 4) (nwords - 1) 0)
     else duff m (idest + 4) (isrc + 4) (nwords - 1) (if pos = 0 then 7 else pos - 1))"

definition memcpy_fast :: "mem \<Rightarrow> nat \<Rightarrow> nat \<Rightarrow> nat \<Rightarrow> mem option" where
  "memcpy_fast m dest src n =
    (let (m, d, s, n) = copy_align m dest src n; nwords = n div 4; n = n - nwords * 4 in
     do { (m, d, s) \<leftarrow> (if nwords \<noteq> 0 then duff m d s (int nwords) (nwords mod 8) else Some (m, d, s));
          Some (copy_fwd m d s n) })"

definition memcpy_slow :: "mem \<Rightarrow> nat \<Rightarrow> nat \<Rightarrow> nat \<Rightarrow> mem" where
  "memcpy_slow m dest src n = copy_fwd m dest src n"

definition memcpy :: "mem \<Rightarrow> nat \<Rightarrow> nat \<Rightarrow> int \<Rightarrow> mem option" where
  "memcpy m dest src n = do {
     c_assert (n \<ge> 0);
     if dest mod 4 = src mod 4 then memcpy_fast m dest src (nat n)
     else Some (memcpy_slow m dest src (nat n)) }"

definition memmove :: "mem \<Rightarrow> nat \<Rightarrow> nat \<Rightarrow> int \<Rightarrow> mem option" where
  "memmove m dest src n =
    (if dest > src \<and> int dest \<le> int src + n then Some (copy_bwd m (dest + nat n) (src + nat n) (nat n))
     else memcpy m dest src n)"

primrec memset :: "mem \<Rightarrow> nat \<Rightarrow> u32 \<Rightarrow> nat \<Rightarrow> mem" where
  "memset m dest data 0 = m" |
  "memset m dest data (Suc n) = memset (m(dest := ucast data)) (dest + 1) data n"

primrec memchr :: "mem \<Rightarrow> nat \<Rightarrow> int \<Rightarrow> nat \<Rightarrow> nat option" where
  "memchr m buf c 0 = None" |
  "memchr m buf c (Suc n) = (if uint (m buf) = c then Some buf else memchr m (buf + 1) c n)"

primrec memcmp :: "mem \<Rightarrow> nat \<Rightarrow> nat \<Rightarrow> nat \<Rightarrow> int" where
  "memcmp m a2 a1 0 = 0" |
  "memcmp m a2 a1 (Suc n) = (if m a2 \<noteq> m a1 then 1 else memcmp m (a2 + 1) (a1 + 1) n)"

subsection \<open>Strings\<close>

partial_function (option) strcmp :: "mem \<Rightarrow> nat \<Rightarrow> nat \<Rightarrow> int option" where
  "strcmp m a2 a1 = (if m a2 \<noteq> m a1 then Some 1 else if m a2 = 0 then Some 0 else strcmp m (a2 + 1) (a1 + 1))"

primrec strncmp :: "mem \<Rightarrow> nat \<Rightarrow> nat \<Rightarrow> nat \<Rightarrow> int" where
  "strncmp m a2 a1 0 = 0" |
  "strncmp m a2 a1 (Suc n) = (if m a2 \<noteq> m a1 then 1 else if m a2 = 0 then 0 else strncmp m (a2 + 1) (a1 + 1) n)"

partial_function (option) strlen_from :: "mem \<Rightarrow> nat \<Rightarrow> nat \<Rightarrow> nat option" where
  "strlen_from m c l = (if m c = 0 then Some l else strlen_from m (c + 1) (l + 1))"

definition strlen :: "mem \<Rightarrow> nat \<Rightarrow> nat option" where
  "strlen m c = strlen_from m c 0"

primrec strnlen_at :: "mem \<Rightarrow> nat \<Rightarrow> nat \<Rightarrow> nat" where
  "strnlen_at m c 0 = 0" |
  "strnlen_at m c (Suc n) = (if m c = 0 then 0 else Suc (strnlen_at m (c + 1) n))"

partial_function (option) strcpy :: "mem \<Rightarrow> nat \<Rightarrow> nat \<Rightarrow> mem option" where
  "strcpy m a2 a1 = (let m = m(a2 := m a1) in if m a1 = 0 then Some m else strcpy m (a2 + 1) (a1 + 1))"

text \<open>The result of \<open>malloc\<close> is a parameter, \<open>None\<close> for a null pointer.\<close>

definition strdup :: "mem \<Rightarrow> (nat \<Rightarrow> nat option) \<Rightarrow> nat \<Rightarrow> (nat \<times> mem) option" where
  "strdup m malloc s = do {
     n \<leftarrow> strlen m s;
     case malloc (n + 1) of
       None \<Rightarrow> Some (0, m)
     | Some s2 \<Rightarrow> do { m \<leftarrow> strcpy m s2 s; Some (s2, m) } }"

text \<open>The count of \<open>strncpy\<close> is tested after the copy, so it moves one byte more.\<close>

primrec strncpy :: "mem \<Rightarrow> nat \<Rightarrow> nat \<Rightarrow> nat \<Rightarrow> mem" where
  "strncpy m a2 a1 0 = m(a2 := m a1)" |
  "strncpy m a2 a1 (Suc n) = (let m = m(a2 := m a1) in if m a1 = 0 then m else strncpy m (a2 + 1) (a1 + 1) n)"

partial_function (option) strcat_copy :: "mem \<Rightarrow> nat \<Rightarrow> nat \<Rightarrow> mem option" where
  "strcat_copy m dest src = (if m src \<noteq> 0 then strcat_copy (m(dest := m src)) (dest + 1) (src + 1) else Some (m(dest := m src)))"

definition strcat :: "mem \<Rightarrow> nat \<Rightarrow> nat \<Rightarrow> mem option" where
  "strcat m dest src = do { n \<leftarrow> strlen m dest; strcat_copy m (dest + n) src }"

text \<open>When the count is used up the last assignment stores the next byte of the source, not a null byte.\<close>

primrec strncat_copy :: "mem \<Rightarrow> nat \<Rightarrow> nat \<Rightarrow> nat \<Rightarrow> mem" where
  "strncat_copy m dest src 0 = m(dest := m src)" |
  "strncat_copy m dest src (Suc n) =
    (if m src \<noteq> 0 then strncat_copy (m(dest := m src)) (dest + 1) (src + 1) n else m(dest := m src))"

definition strncat :: "mem \<Rightarrow> nat \<Rightarrow> nat \<Rightarrow> nat \<Rightarrow> mem option" where
  "strncat m dest src n = do { k \<leftarrow> strlen m dest; Some (strncat_copy m (dest + k) src n) }"

subsection \<open>Numbers\<close>

definition hexarr :: bytes where
  "hexarr = map (\<lambda>c. word_of_nat (of_char c)) ''0123456789ABCDEF''"

primrec tohex_from :: "mem \<Rightarrow> nat \<Rightarrow> u32 \<Rightarrow> nat \<Rightarrow> mem" where
  "tohex_from m s l 0 = m" |
  "tohex_from m s l (Suc n) = tohex_from (m(s := hexarr ! unat (drop_bit 28 l))) (s + 1) (push_bit 4 l) n"

definition tohex :: "mem \<Rightarrow> nat \<Rightarrow> u32 \<Rightarrow> mem" where
  "tohex m s l = tohex_from m s l 8"

definition btohex :: "mem \<Rightarrow> nat \<Rightarrow> u8 \<Rightarrow> mem" where
  "btohex m s c = m(s := hexarr ! unat (drop_bit 4 c), s + 1 := hexarr ! unat (c AND 0xF))"

definition htons :: "u16 \<Rightarrow> u16" where
  "htons n = drop_bit 8 n OR push_bit 8 n"

definition htonl :: "u32 \<Rightarrow> u32" where
  "htonl n = push_bit 24 (n AND 0xff) OR push_bit 8 (n AND 0xff00) OR drop_bit 8 (n AND 0xff0000) OR drop_bit 24 (n AND 0xff000000)"

definition ntohs :: "u16 \<Rightarrow> u16" where "ntohs = htons"
definition ntohl :: "u32 \<Rightarrow> u32" where "ntohl = htonl"

partial_function (option) atoi_space :: "mem \<Rightarrow> nat \<Rightarrow> nat option" where
  "atoi_space m c = (if m c = 0x20 \<or> m c = 9 then atoi_space m (c + 1) else Some c)"

partial_function (option) atoi_digits :: "mem \<Rightarrow> nat \<Rightarrow> u32 \<Rightarrow> u32 option" where
  "atoi_digits m c res = (if 0x30 \<le> m c \<and> m c \<le> 0x39 then atoi_digits m (c + 1) (res * 10 + (ucast (m c) - 0x30)) else Some res)"

definition atoi :: "mem \<Rightarrow> nat \<Rightarrow> u32 option" where
  "atoi m c = (if c = 0 then Some 0 else do {
     c \<leftarrow> atoi_space m c;
     let (sign, c) = (if m c = 0x2D then (-1, c + 1) else if m c = 0x2B then (1, c + 1) else (1, c)) in
     do { res \<leftarrow> atoi_digits m c 0; Some (res * sign) } })"

section \<open>Specification\<close>

subsection \<open>Moving bytes\<close>

lemma mwrite_append: "mwrite m a (bs @ cs) = mwrite (mwrite m a bs) (a + length bs) cs"
  by (auto simp: mwrite_def fun_eq_iff nth_append)

text \<open>A piece that is read whole before it is written does not disturb what is left to read when the destination is not
  above the source.\<close>

lemma fwd_chunk:
  assumes "d \<le> s \<or> s + (k + n) \<le> d"
  shows "mwrite (mwrite m d (mread m s k)) (d + k) (mread (mwrite m d (mread m s k)) (s + k) n) = mwrite m d (mread m s (k + n))"
proof -
  have "mread (mwrite m d (mread m s k)) (s + k) n = mread m (s + k) n"
    by (rule mread_cong, rule mwrite_out) (use assms in auto)
  then show ?thesis using mwrite_append [of m d "mread m s k" "mread m (s + k) n"] by (simp add: mread_add)
qed

lemma mwrite_one: "mwrite m d [x] = m(d := x)"
  by (auto simp: mwrite_def fun_eq_iff)

lemma byte_chunk:
  assumes "d \<le> s \<or> s + Suc n \<le> d"
  shows "mwrite (m(d := m s)) (Suc d) (mread (m(d := m s)) (Suc s) n) = mwrite m d (mread m s (Suc n))"
  using fwd_chunk [of d s 1 n m] assms by (simp add: mread_Suc mwrite_one)

lemma copy_fwd_moves: "d \<le> s \<or> s + n \<le> d \<Longrightarrow> copy_fwd m d s n = mwrite m d (mread m s n)"
proof (induction n arbitrary: m d s)
  case (Suc n)
  have "Suc d \<le> Suc s \<or> Suc s + n \<le> Suc d" using Suc.prems by auto
  then show ?case using Suc.IH byte_chunk [OF Suc.prems] by (simp del: fun_upd_apply)
qed simp

lemma copy_align_moves:
  assumes "d \<le> s \<or> s + n \<le> d"
  shows "\<exists>k \<le> n. copy_align m d s n = (mwrite m d (mread m s k), d + k, s + k, n - k)"
  using assms
proof (induction n arbitrary: m d s)
  case (Suc n)
  show ?case
  proof (cases "s mod 4 = 0")
    case True
    then show ?thesis by (intro exI [of _ 0]) simp
  next
    case False
    have "Suc d \<le> Suc s \<or> Suc s + n \<le> Suc d" using Suc.prems by auto
    from Suc.IH [OF this, of "m(d := m s)"] obtain k where k: "k \<le> n"
      "copy_align (m(d := m s)) (Suc d) (Suc s) n = (mwrite (m(d := m s)) (Suc d) (mread (m(d := m s)) (Suc s) k), Suc d + k, Suc s + k, n - k)"
      by blast
    have "d \<le> s \<or> s + Suc k \<le> d" using Suc.prems k(1) by auto
    then show ?thesis using k False by (intro exI [of _ "Suc k"]) (simp add: byte_chunk del: fun_upd_apply)
  qed
qed simp

lemma duff_moves:
  "0 < n \<Longrightarrow> pos = n mod 8 \<Longrightarrow> d \<le> s \<or> s + 4 * n \<le> d \<Longrightarrow>
   duff m d s (int n) pos = Some (mwrite m d (mread m s (4 * n)), d + 4 * n, s + 4 * n)"
proof (induction n arbitrary: m d s pos)
  case (Suc n)
  have rest: "d + 4 \<le> s + 4 \<or> s + 4 + 4 * n \<le> d + 4" using Suc.prems(3) by auto
  have chunk: "mwrite (mwrite m d (mread m s 4)) (d + 4) (mread (mwrite m d (mread m s 4)) (s + 4) (4 * n)) = mwrite m d (mread m s (4 + 4 * n))"
    by (rule fwd_chunk) (use Suc.prems(3) in auto)
  show ?case
  proof (cases "n = 0")
    case True
    then show ?thesis using Suc.prems(2) by (subst duff.simps) simp
  next
    case False
    define q where "q = (if pos = 0 then 7 else pos - 1)"
    have "q = n mod 8" unfolding q_def Suc.prems(2) by (simp add: mod_Suc)
    from Suc.IH [OF _ this rest, of "mwrite m d (mread m s 4)"] False have
      "duff (mwrite m d (mread m s 4)) (d + 4) (s + 4) (int n) q = Some (mwrite m d (mread m s (4 + 4 * n)), d + 4 + 4 * n, s + 4 + 4 * n)"
      by (simp add: chunk)
    then show ?thesis using False by (subst duff.simps) (cases "pos = 1"; simp add: q_def Let_def add.assoc)
  qed
qed simp

lemma memcpy_fast_moves:
  assumes "d \<le> s \<or> s + n \<le> d"
  shows "memcpy_fast m d s n = Some (mwrite m d (mread m s n))"
proof -
  obtain k where k: "k \<le> n" "copy_align m d s n = (mwrite m d (mread m s k), d + k, s + k, n - k)"
    using copy_align_moves [OF assms] by blast
  define w where "w = 4 * ((n - k) div 4)"
  let ?m = "mwrite m d (mread m s k)"
  have w: "k + w \<le> n" "n - k - (n - k) div 4 * 4 = n - (k + w)" using k(1) by (simp_all add: w_def)
  have m1: "mwrite ?m (d + k) (mread ?m (s + k) w) = mwrite m d (mread m s (k + w))"
    by (rule fwd_chunk) (use assms w in auto)
  have "d + k \<le> s + k \<or> s + k + w \<le> d + k" using assms w by auto
  then have "(if (n - k) div 4 \<noteq> 0 then duff ?m (d + k) (s + k) (int ((n - k) div 4)) ((n - k) div 4 mod 8) else Some (?m, d + k, s + k))
     = Some (mwrite m d (mread m s (k + w)), d + (k + w), s + (k + w))"
    using duff_moves [of "(n - k) div 4" _ "d + k" "s + k" ?m] m1 by (auto simp: w_def add.assoc)
  moreover have "copy_fwd (mwrite m d (mread m s (k + w))) (d + (k + w)) (s + (k + w)) (n - (k + w)) = mwrite m d (mread m s n)"
  proof -
    have c: "d \<le> s \<or> s + ((k + w) + (n - (k + w))) \<le> d" using assms w(1) by simp
    have "d + (k + w) \<le> s + (k + w) \<or> s + (k + w) + (n - (k + w)) \<le> d + (k + w)" using assms w(1) by auto
    then show ?thesis using fwd_chunk [OF c, of m] w(1) by (simp add: copy_fwd_moves)
  qed
  ultimately show ?thesis by (simp add: memcpy_fast_def k(2) Let_def w_def mult.commute)
qed

lemma memcpy_moves: "d \<le> s \<or> s + n \<le> d \<Longrightarrow> memcpy m d s (int n) = Some (mwrite m d (mread m s n))"
  by (simp add: memcpy_def memcpy_slow_def memcpy_fast_moves copy_fwd_moves)

lemma copy_bwd_moves: "s \<le> d \<Longrightarrow> copy_bwd m (d + n) (s + n) n = mwrite m d (mread m s n)"
proof (induction n arbitrary: m)
  case (Suc n)
  have "mread (m(d + n := m (s + n))) s n = mread m s n" by (rule mread_cong) (use Suc.prems in auto)
  then have "copy_bwd m (d + Suc n) (s + Suc n) (Suc n) = mwrite (m(d + n := m (s + n))) d (mread m s n)"
    using Suc by simp
  also have "\<dots> = mwrite m d (mread m s (Suc n))"
    using mread_add [of m s n 1] by (auto simp: mwrite_def fun_eq_iff nth_append mread_Suc less_Suc_eq)
  finally show ?case .
qed simp

text \<open>C32: \<open>memmove\<close> leaves at the destination the bytes the source had before, whatever the overlap and the alignment, touches
  nothing else and never fails: neither the choice of direction, nor the word loop entered in the middle, nor the bytes before and
  after it lose anything.\<close>

theorem memmove_moves: "memmove m dest src (int n) = Some (mwrite m dest (mread m src n))"
proof (cases "dest > src \<and> dest \<le> src + n")
  case True
  then show ?thesis using copy_bwd_moves [of src dest m n] by (simp add: memmove_def)
next
  case False
  then have "dest \<le> src \<or> src + n \<le> dest" by auto
  then show ?thesis using False memcpy_moves [of dest src n m] by (auto simp: memmove_def)
qed

lemma memset_fills: "memset m dest data n = mfill m dest n (ucast data)"
  by (induction n arbitrary: m dest) (auto simp: mfill_def fun_eq_iff)

lemma memcmp_equal: "memcmp m a2 a1 n = (if mread m a2 n = mread m a1 n then 0 else 1)"
  by (induction n arbitrary: a2 a1) (simp_all add: mread_Suc)

subsection \<open>Strings\<close>

text \<open>A string of \<open>n\<close> bytes and its null byte at address \<open>c\<close>.\<close>

definition str_at :: "mem \<Rightarrow> nat \<Rightarrow> nat \<Rightarrow> bool" where
  "str_at m c n \<longleftrightarrow> (\<forall>i < n. m (c + i) \<noteq> 0) \<and> m (c + n) = 0"

lemma str_at_step: "m c \<noteq> 0 \<Longrightarrow> str_at m c n \<longleftrightarrow> (\<exists>k. n = Suc k \<and> str_at m (Suc c) k)"
  by (cases n) (auto simp: str_at_def All_less_Suc2)

lemma str_at_0: "m c = 0 \<Longrightarrow> str_at m c n \<longleftrightarrow> n = 0"
  by (cases n) (auto simp: str_at_def)

lemma strlen_from_spec: "str_at m c n \<Longrightarrow> strlen_from m c l = Some (l + n)"
proof (induction n arbitrary: c l)
  case 0
  then show ?case by (subst strlen_from.simps) (simp add: str_at_def)
next
  case (Suc n)
  then have "m c \<noteq> 0" by (auto simp: str_at_def)
  then show ?case using Suc by (subst strlen_from.simps) (auto simp: str_at_step)
qed

lemma strlen_spec: "str_at m c n \<Longrightarrow> strlen m c = Some n"
  by (simp add: strlen_def strlen_from_spec)

lemma strcmp_spec:
  assumes "str_at m a2 k" "str_at m a1 n"
  shows "strcmp m a2 a1 = Some (if mread m a2 k = mread m a1 n then 0 else 1)"
  using assms
proof (induction k arbitrary: a2 a1 n)
  case 0
  then have z: "m a2 = 0" by (simp add: str_at_def)
  show ?case
  proof (cases "m a1 = 0")
    case True
    then show ?thesis using z 0 by (subst strcmp.simps) (simp add: str_at_0)
  next
    case False
    then show ?thesis using z 0 by (subst strcmp.simps) (auto simp: str_at_step mread_Suc)
  qed
next
  case (Suc k)
  then have z: "m a2 \<noteq> 0" by (auto simp: str_at_def)
  show ?case
  proof (cases "m a2 = m a1")
    case True
    then obtain n' where n: "n = Suc n'" "str_at m (Suc a1) n'" using Suc.prems(2) z by (auto simp: str_at_step)
    moreover have "str_at m (Suc a2) k" using Suc.prems(1) z by (simp add: str_at_step)
    ultimately show ?thesis using Suc.IH True z by (subst strcmp.simps) (simp add: mread_Suc)
  next
    case False
    then have "mread m a2 (Suc k) \<noteq> mread m a1 n" by (cases n) (auto simp: mread_Suc)
    then show ?thesis using False by (subst strcmp.simps) simp
  qed
qed

lemma byte_step:
  assumes "d + n < s \<or> s + n < d"
  shows "mwrite (m(d := m s)) (Suc d) (mread (m(d := m s)) (Suc s) n) = mwrite m d (mread m s (Suc n))"
  by (rule byte_chunk) (use assms in auto)

lemma str_at_frame: "str_at m c n \<Longrightarrow> (\<And>i. i \<le> n \<Longrightarrow> m' (c + i) = m (c + i)) \<Longrightarrow> str_at m' c n"
  by (simp add: str_at_def)

lemma strcpy_spec:
  "str_at m a1 n \<Longrightarrow> a2 + n < a1 \<or> a1 + n < a2 \<Longrightarrow> strcpy m a2 a1 = Some (mwrite m a2 (mread m a1 (Suc n)))"
proof (induction n arbitrary: m a1 a2)
  case 0
  then show ?case by (subst strcpy.simps) (simp add: str_at_def mread_Suc mwrite_one)
next
  case (Suc n)
  then have z: "m a1 \<noteq> 0" by (auto simp: str_at_def)
  then have "str_at m (Suc a1) n" using Suc.prems(1) by (simp add: str_at_step)
  then have "str_at (m(a2 := m a1)) (Suc a1) n" by (rule str_at_frame) (use Suc.prems(2) in auto)
  moreover have "Suc a2 + n < Suc a1 \<or> Suc a1 + n < Suc a2" using Suc.prems(2) by auto
  ultimately have "strcpy (m(a2 := m a1)) (Suc a2) (Suc a1) = Some (mwrite m a2 (mread m a1 (Suc (Suc n))))"
    using Suc.IH byte_step [of a2 "Suc n" a1 m] Suc.prems(2) by (simp del: fun_upd_apply)
  then show ?case using z Suc.prems(2) by (subst strcpy.simps) (simp add: Let_def)
qed

text \<open>\<open>strncpy\<close> of a long string writes one byte past the count.\<close>

lemma strncpy_writes_past:
  "(\<forall>i \<le> n. m (a1 + i) \<noteq> 0) \<Longrightarrow> a2 + n < a1 \<or> a1 + n < a2 \<Longrightarrow> strncpy m a2 a1 n = mwrite m a2 (mread m a1 (Suc n))"
proof (induction n arbitrary: m a1 a2)
  case 0
  then show ?case by (simp add: mread_Suc mwrite_one)
next
  case (Suc n)
  have "\<forall>i \<le> n. (m(a2 := m a1)) (Suc a1 + i) \<noteq> 0" using Suc.prems by (auto dest: spec [of _ "Suc _"])
  moreover have "Suc a2 + n < Suc a1 \<or> Suc a1 + n < Suc a2" using Suc.prems(2) by auto
  ultimately have "strncpy (m(a2 := m a1)) (Suc a2) (Suc a1) n = mwrite m a2 (mread m a1 (Suc (Suc n)))"
    using Suc.IH byte_step [of a2 "Suc n" a1 m] Suc.prems(2) by (simp del: fun_upd_apply)
  moreover have "m a1 \<noteq> 0" "a2 \<noteq> a1" using Suc.prems by (auto dest: spec [of _ 0])
  ultimately show ?case by (simp add: Let_def)
qed

text \<open>\<open>strncat\<close> of a long string ends with the next byte of the source instead of a null byte.\<close>

lemma strncat_copy_last:
  "(\<forall>i \<le> n. m (src + i) \<noteq> 0) \<Longrightarrow> dest + n < src \<or> src + n < dest \<Longrightarrow>
   strncat_copy m dest src n = mwrite m dest (mread m src (Suc n))"
proof (induction n arbitrary: m dest src)
  case 0
  then show ?case by (simp add: mread_Suc mwrite_one)
next
  case (Suc n)
  have "\<forall>i \<le> n. (m(dest := m src)) (Suc src + i) \<noteq> 0" using Suc.prems by (auto dest: spec [of _ "Suc _"])
  moreover have "Suc dest + n < Suc src \<or> Suc src + n < Suc dest" using Suc.prems(2) by auto
  ultimately have "strncat_copy (m(dest := m src)) (Suc dest) (Suc src) n = mwrite m dest (mread m src (Suc (Suc n)))"
    using Suc.IH byte_step [of dest "Suc n" src m] Suc.prems(2) by (simp del: fun_upd_apply)
  moreover have "m src \<noteq> 0" using Suc.prems by (auto dest: spec [of _ 0])
  ultimately show ?case by simp
qed

lemma strncat_unterminated:
  assumes "str_at m dest k" "\<forall>i \<le> n. m (src + i) \<noteq> 0" "dest + k + n < src \<or> src + n < dest"
  shows "\<exists>m'. strncat m dest src n = Some m' \<and> m' (dest + k + n) = m (src + n) \<and> m' (dest + k + n) \<noteq> 0"
proof -
  have "strncat_copy m (dest + k) src n = mwrite m (dest + k) (mread m src (Suc n))"
    by (rule strncat_copy_last) (use assms in auto)
  moreover have "mwrite m (dest + k) (mread m src (Suc n)) (dest + k + n) = m (src + n)"
    using mwrite_in [of n "mread m src (Suc n)" m "dest + k"] by simp
  ultimately show ?thesis using assms(2) by (simp add: strncat_def strlen_spec [OF assms(1)])
qed

lemma below_8: "n < 8 \<Longrightarrow> n \<in> {0, 1, 2, 3, 4, 5, 6, 7 :: nat}"
  by auto

lemma htonl_reverses: "le32 (htonl w) = rev (le32 w)"
  by (auto simp: le32_def htonl_def bit_simps intro!: bit_word_eqI dest!: below_8)

end
