(* ===== verification/PutBytes.thy ===== *)
theory PutBytes
  imports FsCreat Minilib Fmt
begin

section \<open>Receiving files from the phone: rcore/protocol/protocol_transfer.c\<close>

text \<open>
  The PutBytes endpoint: an initialisation creates a file, transfers append to it, a commit compares the checksum and marks the
  file written, an installation tells the application manager. The state is the transaction (\<open>_txn\<close>), the file system,
  the mutex of bulk transfers, the timer of the transaction and the replies sent. A packet is a place in memory. The store
  through \<open>_txn\<close> while it is NULL, with which every first initialisation begins, is a parameter (\<open>null_store\<close>): whether the platform lets it
  pass. The timer is its flag and time, its queue is that of \<open>Timers\<close>. The lemmas follow a transfer from its first byte to
  the commit, and show what holds of the state whatever the phone sends.
\<close>

unbundle bit_operations_syntax

definition ACK :: u8 where "ACK = 1"
definition NACK :: u8 where "NACK = 2"

definition PutBytesInit :: u8 where "PutBytesInit = 1"
definition PutBytesTransfer :: u8 where "PutBytesTransfer = 2"
definition PutBytesCommit :: u8 where "PutBytesCommit = 3"
definition PutBytesAbort :: u8 where "PutBytesAbort = 4"
definition PutBytesInstall :: u8 where "PutBytesInstall = 5"

definition TransferType_AppResource :: u8 where "TransferType_AppResource = 4"
definition TransferType_AppExecutable :: u8 where "TransferType_AppExecutable = 5"

record xtimer =
  xt_on_queue :: bool
  xt_timeout_ms :: nat

record bytes_transaction =
  transfer_state :: u8
  total_size :: u32
  bytes_transferred :: u32
  tx_cookie :: u32
  transfer_type :: u8
  tx_fd :: fd
  tx_timer :: "xtimer option"
  tx_transport :: nat

record xfer =
  x_fs :: fs
  x_txn :: "bytes_transaction option"
  x_locked :: bool
  x_replies :: "(u8 \<times> u32) list"
  x_progress :: "(u32 \<times> u32) list"
  x_downloads :: nat

definition fd_zero :: fd where
  "fd_zero = \<lparr> fd_file = file_zero, replaces = file_zero, curpage = 0, curpofs = 0, fd_offset = 0 \<rparr>"

definition txn_zero :: bytes_transaction where
  "txn_zero = \<lparr> transfer_state = 0, total_size = 0, bytes_transferred = 0, tx_cookie = 0, transfer_type = 0, tx_fd = fd_zero,
     tx_timer = None, tx_transport = 0 \<rparr>"

subsection \<open>Timer and replies\<close>

definition protocol_service_timer_create :: "nat \<Rightarrow> xtimer" where
  "protocol_service_timer_create timeout = \<lparr> xt_on_queue = False, xt_timeout_ms = timeout \<rparr>"

definition protocol_service_timer_cancel :: "xtimer \<Rightarrow> xtimer" where
  "protocol_service_timer_cancel t = t\<lparr>xt_on_queue := False\<rparr>"

definition protocol_service_timer_start :: "xtimer \<Rightarrow> nat \<Rightarrow> xtimer" where
  "protocol_service_timer_start t timeout = (if xt_on_queue t then t else t\<lparr>xt_on_queue := True, xt_timeout_ms := timeout\<rparr>)"

definition send_xack :: "u8 \<Rightarrow> u32 \<Rightarrow> xfer \<Rightarrow> xfer" where
  "send_xack ack cookie x = x\<lparr>x_replies := x_replies x @ [(ack, cookie)]\<rparr>"

definition send_ack :: "u32 \<Rightarrow> xfer \<Rightarrow> xfer" where
  "send_ack = send_xack ACK"

definition send_nack :: "u32 \<Rightarrow> xfer \<Rightarrow> xfer" where
  "send_nack = send_xack NACK"

definition protocol_transaction_lock :: "xfer \<Rightarrow> xfer option" where
  "protocol_transaction_lock x = (if x_locked x then None else Some (x\<lparr>x_locked := True\<rparr>))"

definition protocol_transaction_unlock :: "xfer \<Rightarrow> xfer" where
  "protocol_transaction_unlock x = x\<lparr>x_locked := False\<rparr>"

definition transfer_terminated :: "xfer \<Rightarrow> xfer" where
  "transfer_terminated x = (protocol_transaction_unlock (send_nack 0 x))\<lparr>x_txn := None\<rparr>"

subsection \<open>The handler\<close>

definition rd32 :: "mem \<Rightarrow> nat \<Rightarrow> u32" where
  "rd32 ram a = get32 (mread ram a 4) 0"

text \<open>The name of the file: \<open>@\<close>, the application's number with eight hexadecimal digits, and the kind.\<close>

definition transfer_name :: "u32 \<Rightarrow> u8 \<Rightarrow> bytes" where
  "transfer_name app_id type =
     chr CHR ''@'' # utoa_pad 8 (chr CHR ''0'') (if app_id = 0 then [chr CHR ''0''] else utoa_digits 16 (unat app_id) []) @ chr CHR ''/'' #
     map chr (if type = TransferType_AppExecutable then ''app'' else if type = TransferType_AppResource then ''res'' else ''fle'')"

text \<open>The store of the transport goes to the old transaction, or through NULL; the new transaction is zeroed after it.\<close>

definition transfer_init :: "plat \<Rightarrow> bool \<Rightarrow> bool \<Rightarrow> mem \<Rightarrow> nat \<Rightarrow> xfer \<Rightarrow> xfer option" where
  "transfer_init p null_store alloc ram a x =
    (if (case x_txn x of None \<Rightarrow> False | Some t \<Rightarrow> transfer_state t \<noteq> 0) then Some (transfer_terminated x)
     else do {
       c_assert (x_txn x \<noteq> None \<or> null_store);
       c_assert alloc;
       let x = x\<lparr>x_txn := Some txn_zero\<rparr>;
       case protocol_transaction_lock x of
         None \<Rightarrow> Some (transfer_terminated x)
       | Some x \<Rightarrow>
           (let size = ntohl (rd32 ram (a + 1)); type = ram (a + 5) AND 0x7F; app_id = ntohl (rd32 ram (a + 6));
                t = txn_zero\<lparr>total_size := size, transfer_state := PutBytesInit, transfer_type := type\<rparr>;
                name = transfer_name app_id type in
            do {
              r \<leftarrow> fs_find_file p (x_fs x) name;
              if r \<noteq> None then Some (transfer_terminated x)
              else do {
                (r, s) \<leftarrow> fs_creat p (x_fs x) (Some name) size;
                case r of
                  None \<Rightarrow> Some (transfer_terminated (x\<lparr>x_fs := s\<rparr>))
                | Some fd \<Rightarrow>
                    Some (send_ack 0 (x\<lparr>x_fs := s, x_txn := Some (t\<lparr>tx_fd := fd,
                      tx_timer := Some (protocol_service_timer_start (protocol_service_timer_create 100) 100)\<rparr>)\<rparr>)) } }) })"

text \<open>The timer of the transaction, which the handler uses without a test for NULL.\<close>

definition txn_timer :: "(xtimer \<Rightarrow> xtimer) \<Rightarrow> bytes_transaction \<Rightarrow> bytes_transaction option" where
  "txn_timer f t = do { tm \<leftarrow> tx_timer t; Some (t\<lparr>tx_timer := Some (f tm)\<rparr>) }"

text \<open>The length in the packet is the length taken from memory; it is not compared with the packet's.\<close>

definition transfer_put :: "plat \<Rightarrow> bool \<Rightarrow> mem \<Rightarrow> nat \<Rightarrow> xfer \<Rightarrow> xfer option" where
  "transfer_put p alloc ram a x = do {
     t \<leftarrow> x_txn x;
     t \<leftarrow> txn_timer protocol_service_timer_cancel t;
     let data_size = ntohl (rd32 ram (a + 5));
     if transfer_state t \<noteq> PutBytesInit then Some (transfer_terminated x)
     else do {
       (n, fd, m) \<leftarrow> fs_write p ram (fs_flash (x_fs x)) (tx_fd t) (word_of_nat (a + 9)) data_size;
       let x = x\<lparr>x_fs := (x_fs x)\<lparr>fs_flash := m\<rparr>\<rparr>;
       if n < data_size then Some (transfer_terminated x)
       else do {
         let t = t\<lparr>tx_fd := fd, tx_cookie := rd32 ram (a + 1), bytes_transferred := bytes_transferred t + data_size\<rparr>;
         let x = (if alloc then x\<lparr>x_progress := x_progress x @ [(bytes_transferred t, total_size t)]\<rparr> else x);
         t \<leftarrow> txn_timer (\<lambda>tm. protocol_service_timer_start tm 1200) t;
         Some (send_ack (rd32 ram (a + 1)) (x\<lparr>x_txn := Some t\<rparr>)) } } }"

definition transfer_commit :: "plat \<Rightarrow> mem \<Rightarrow> nat \<Rightarrow> xfer \<Rightarrow> xfer option" where
  "transfer_commit p ram a x = do {
     t \<leftarrow> x_txn x;
     t \<leftarrow> txn_timer protocol_service_timer_cancel t;
     if rd32 ram (a + 1) \<noteq> tx_cookie t then Some (transfer_terminated x)
     else if bytes_transferred t \<noteq> total_size t then Some (transfer_terminated x)
     else do {
       (crc, fd) \<leftarrow> fs_file_crc32 p (fs_flash (x_fs x)) (tx_fd t) (bytes_transferred t);
       let t = t\<lparr>tx_fd := fd\<rparr>;
       if htonl (rd32 ram (a + 5)) \<noteq> crc then Some (transfer_terminated x)
       else do {
         s \<leftarrow> fs_mark_written p (x_fs x) fd;
         t \<leftarrow> txn_timer (\<lambda>tm. protocol_service_timer_start tm 1200) t;
         Some (send_ack (tx_cookie t) (x\<lparr>x_fs := s, x_txn := Some t\<rparr>)) } } }"

definition transfer_install :: "mem \<Rightarrow> nat \<Rightarrow> xfer \<Rightarrow> xfer option" where
  "transfer_install ram a x = do {
     t \<leftarrow> x_txn x;
     let x = (if transfer_type t = TransferType_AppResource then x\<lparr>x_downloads := x_downloads x + 1\<rparr> else x);
     Some ((protocol_transaction_unlock (send_ack (rd32 ram (a + 1)) x))\<lparr>x_txn := None\<rparr>) }"

definition protocol_process_transfer :: "plat \<Rightarrow> bool \<Rightarrow> bool \<Rightarrow> mem \<Rightarrow> nat \<Rightarrow> xfer \<Rightarrow> xfer option" where
  "protocol_process_transfer p null_store alloc ram a x =
    (if ram a = PutBytesInit then transfer_init p null_store alloc ram a x
     else if ram a = PutBytesTransfer then transfer_put p alloc ram a x
     else if ram a = PutBytesCommit then transfer_commit p ram a x
     else if ram a = PutBytesInstall then transfer_install ram a x
     else if ram a = PutBytesAbort then Some (transfer_terminated x)
     else None)"

definition transfer_timeout :: "xfer \<Rightarrow> xfer option" where
  "transfer_timeout x = do { _ \<leftarrow> x_txn x; Some (transfer_terminated x) }"

section \<open>Specification\<close>

subsection \<open>The state whatever is sent\<close>

text \<open>A step of the endpoint: a packet or the timer of the transaction.\<close>

inductive xfer_step :: "plat \<Rightarrow> xfer \<Rightarrow> xfer \<Rightarrow> bool" for p where
  packet: "protocol_process_transfer p null_store alloc ram a x = Some x' \<Longrightarrow> xfer_step p x x'"
| timeout: "x_txn x = Some t \<Longrightarrow> tx_timer t = Some tm \<Longrightarrow> xt_on_queue tm \<Longrightarrow> transfer_timeout x = Some x' \<Longrightarrow> xfer_step p x x'"

definition xfer_start :: "fs \<Rightarrow> xfer" where
  "xfer_start s = \<lparr> x_fs = s, x_txn = None, x_locked = False, x_replies = [], x_progress = [], x_downloads = 0 \<rparr>"

definition xfer_reach :: "plat \<Rightarrow> fs \<Rightarrow> xfer \<Rightarrow> bool" where
  "xfer_reach p s = (xfer_step p)\<^sup>*\<^sup>* (xfer_start s)"

definition xfer_inv :: "xfer \<Rightarrow> bool" where
  "xfer_inv x \<longleftrightarrow> (case x_txn x of None \<Rightarrow> \<not> x_locked x
     | Some t \<Rightarrow> x_locked x \<and> transfer_state t = PutBytesInit \<and> (\<exists>tm. tx_timer t = Some tm \<and> xt_on_queue tm))"

lemma terminated_fields [simp]:
  "x_txn (transfer_terminated x) = None" "x_locked (transfer_terminated x) = False" "x_fs (transfer_terminated x) = x_fs x"
  "x_replies (transfer_terminated x) = x_replies x @ [(NACK, 0)]"
  by (simp_all add: transfer_terminated_def protocol_transaction_unlock_def send_nack_def send_xack_def)

lemma send_ack_fields [simp]:
  "x_txn (send_ack c x) = x_txn x" "x_locked (send_ack c x) = x_locked x" "x_fs (send_ack c x) = x_fs x"
  "x_replies (send_ack c x) = x_replies x @ [(ACK, c)]"
  by (simp_all add: send_ack_def send_xack_def)

lemma terminated_inv [intro]: "xfer_inv (transfer_terminated x)"
  by (simp add: xfer_inv_def)

lemma timer_start_queued [simp]: "xt_on_queue (protocol_service_timer_start t n)"
  by (simp add: protocol_service_timer_start_def)

lemma xfer_init_inv: "transfer_init p null_store alloc ram a x = Some x' \<Longrightarrow>
   xfer_inv x' \<and> (\<exists>r. x_replies x' = x_replies x @ [r])"
  by (auto simp: transfer_init_def protocol_transaction_lock_def Let_def xfer_inv_def bind_eq_Some_conv
      split: if_splits option.splits prod.splits)

lemma put_inv: "transfer_put p alloc ram a x = Some x' \<Longrightarrow> xfer_inv x \<Longrightarrow>
   xfer_inv x' \<and> (\<exists>r. x_replies x' = x_replies x @ [r])"
  by (auto simp: transfer_put_def txn_timer_def Let_def xfer_inv_def bind_eq_Some_conv split: if_splits prod.splits)

lemma commit_inv: "transfer_commit p ram a x = Some x' \<Longrightarrow> xfer_inv x \<Longrightarrow>
   xfer_inv x' \<and> (\<exists>r. x_replies x' = x_replies x @ [r])"
  by (auto simp: transfer_commit_def txn_timer_def Let_def xfer_inv_def bind_eq_Some_conv split: if_splits prod.splits)

lemma install_inv: "transfer_install ram a x = Some x' \<Longrightarrow> xfer_inv x' \<and> (\<exists>r. x_replies x' = x_replies x @ [r])"
  by (auto simp: transfer_install_def xfer_inv_def protocol_transaction_unlock_def Let_def bind_eq_Some_conv split: if_splits)

lemma xfer_process_inv: "protocol_process_transfer p null_store alloc ram a x = Some x' \<Longrightarrow> xfer_inv x \<Longrightarrow>
   xfer_inv x' \<and> (\<exists>r. x_replies x' = x_replies x @ [r])"
  using xfer_init_inv put_inv commit_inv install_inv
  by (auto simp: protocol_process_transfer_def split: if_splits)

lemma xfer_step_inv: "xfer_step p x x' \<Longrightarrow> xfer_inv x \<Longrightarrow> xfer_inv x' \<and> (\<exists>r. x_replies x' = x_replies x @ [r])"
  by (induction rule: xfer_step.induct) (auto dest: xfer_process_inv simp: transfer_timeout_def bind_eq_Some_conv)

lemma xfer_reach_inv: "xfer_reach p s x \<Longrightarrow> xfer_inv x"
  unfolding xfer_reach_def
  by (induction rule: rtranclp_induct) (auto dest: xfer_step_inv simp: xfer_start_def xfer_inv_def)

text \<open>The packets the handler does not return from: without a transaction all but an initialisation and an abort, as they go through a NULL
  pointer; commands it does not know; and where the store through NULL, an allocation or an assertion of the file system stops it.\<close>

definition xfer_faults :: "plat \<Rightarrow> bool \<Rightarrow> bool \<Rightarrow> mem \<Rightarrow> nat \<Rightarrow> xfer \<Rightarrow> bool" where
  "xfer_faults p null_store alloc ram a x \<longleftrightarrow>
    (let name = transfer_name (ntohl (rd32 ram (a + 6))) (ram (a + 5) AND 0x7F) in
     ram a \<notin> {PutBytesInit, PutBytesTransfer, PutBytesCommit, PutBytesInstall, PutBytesAbort} \<or>
     (case x_txn x of
        None \<Rightarrow> ram a \<in> {PutBytesTransfer, PutBytesCommit, PutBytesInstall} \<or>
          ram a = PutBytesInit \<and> (\<not> null_store \<or> \<not> alloc \<or> fs_find_file p (x_fs x) name = None \<or>
            fs_find_file p (x_fs x) name = Some None \<and> fs_creat p (x_fs x) (Some name) (ntohl (rd32 ram (a + 1))) = None)
      | Some t \<Rightarrow>
          ram a = PutBytesTransfer \<and>
            fs_write p ram (fs_flash (x_fs x)) (tx_fd t) (word_of_nat (a + 9)) (ntohl (rd32 ram (a + 5))) = None \<or>
          ram a = PutBytesCommit \<and> rd32 ram (a + 1) = tx_cookie t \<and> bytes_transferred t = total_size t \<and>
            (case fs_file_crc32 p (fs_flash (x_fs x)) (tx_fd t) (bytes_transferred t) of
               None \<Rightarrow> True
             | Some (crc, fd) \<Rightarrow> htonl (rd32 ram (a + 5)) = crc \<and> fs_mark_written p (x_fs x) fd = None)))"

lemma xfer_none:
  assumes "xfer_inv x"
  shows "protocol_process_transfer p null_store alloc ram a x = None \<longleftrightarrow> xfer_faults p null_store alloc ram a x"
proof (cases "x_txn x")
  case None
  then have l: "\<not> x_locked x" using assms by (simp add: xfer_inv_def)
  consider "ram a = PutBytesInit" | "ram a \<noteq> PutBytesInit" by blast
  then show ?thesis
  proof cases
    case 1
    then show ?thesis using None l
      by (auto simp: protocol_process_transfer_def xfer_faults_def transfer_init_def protocol_transaction_lock_def Let_def c_assert_def
          PutBytesInit_def PutBytesTransfer_def PutBytesCommit_def PutBytesAbort_def PutBytesInstall_def
          split: if_splits option.splits prod.splits Option.bind_splits)
  next
    case 2
    then show ?thesis using None
      by (auto simp: protocol_process_transfer_def xfer_faults_def transfer_put_def transfer_commit_def transfer_install_def Let_def
          PutBytesInit_def PutBytesTransfer_def PutBytesCommit_def PutBytesAbort_def PutBytesInstall_def)
  qed
next
  case (Some t)
  obtain tm where t: "transfer_state t = PutBytesInit" "tx_timer t = Some tm" using assms Some by (auto simp: xfer_inv_def)
  consider "ram a = PutBytesTransfer" | "ram a = PutBytesCommit" | "ram a \<noteq> PutBytesTransfer" "ram a \<noteq> PutBytesCommit" by blast
  then show ?thesis
  proof cases
    case 1
    then show ?thesis using Some t
      by (auto simp: protocol_process_transfer_def xfer_faults_def transfer_put_def txn_timer_def Let_def PutBytesTransfer_def PutBytesInit_def
          PutBytesCommit_def split: if_splits prod.splits Option.bind_splits)
  next
    case 2
    then show ?thesis using Some t
      by (auto simp: protocol_process_transfer_def xfer_faults_def transfer_commit_def txn_timer_def Let_def PutBytesTransfer_def PutBytesInit_def
          PutBytesCommit_def split: if_splits prod.splits option.splits Option.bind_splits)
  next
    case 3
    then show ?thesis using Some t
      by (auto simp: protocol_process_transfer_def xfer_faults_def transfer_init_def transfer_install_def Let_def PutBytesInit_def split: option.splits)
  qed
qed

subsection \<open>A transfer from its first byte to its commit\<close>

lemma htonl_htonl [simp]: "htonl (htonl w) = w"
proof -
  have "le32 (htonl (htonl w)) = le32 w" by (simp add: htonl_reverses)
  then have "get32 (le32 (htonl (htonl w))) 0 = get32 (le32 w) 0" by (simp only:)
  then show ?thesis using get32_append_le32 [of "[]" _ "[]"] by simp
qed

text \<open>The packets of the phone: numbers in network order, cookies as they come.\<close>

definition put_packet :: "u32 \<Rightarrow> bytes \<Rightarrow> bytes" where
  "put_packet cookie data = [PutBytesTransfer] @ le32 cookie @ le32 (htonl (word_of_nat (length data))) @ data"

definition commit_packet :: "u32 \<Rightarrow> u32 \<Rightarrow> bytes" where
  "commit_packet cookie crc = [PutBytesCommit] @ le32 cookie @ le32 (htonl crc)"

primrec xfer_deliver :: "plat \<Rightarrow> bool \<Rightarrow> mem \<Rightarrow> nat \<Rightarrow> bytes list \<Rightarrow> xfer \<Rightarrow> xfer option" where
  "xfer_deliver p ns ram a [] x = Some x"
| "xfer_deliver p ns ram a (pk # pks) x = do {
     x \<leftarrow> protocol_process_transfer p ns True (mwrite ram a pk) a x;
     xfer_deliver p ns ram a pks x }"

lemma xfer_deliver_append: "xfer_deliver p ns ram a (pks @ pks') x = Option.bind (xfer_deliver p ns ram a pks x) (xfer_deliver p ns ram a pks')"
  by (induction pks arbitrary: x) (auto split: bind_splits)

lemma mread_mwrite_at: "mread (mwrite ram a (xs @ bs @ ys)) (a + length xs) (length bs) = bs"
  by (rule nth_equalityI) (simp_all add: mwrite_def nth_append)

lemma rd32_mwrite: "rd32 (mwrite ram a (xs @ le32 w @ ys)) (a + length xs) = w"
  using mread_mwrite_at [of ram a xs "le32 w" ys] get32_append_le32 [of "[]" w "[]"] by (simp add: rd32_def)

lemma put_packet_reads:
  fixes ram a cookie data
  defines "r \<equiv> mwrite ram a (put_packet cookie data)"
  shows "r a = PutBytesTransfer" "rd32 r (a + 1) = cookie" "rd32 r (a + 5) = htonl (word_of_nat (length data))"
    "mread r (a + 9) (length data) = data"
proof -
  show "r a = PutBytesTransfer" by (simp add: r_def put_packet_def mwrite_def)
  show "rd32 r (a + 1) = cookie"
    using rd32_mwrite [of ram a "[PutBytesTransfer]"] by (simp add: r_def put_packet_def)
  show "rd32 r (a + 5) = htonl (word_of_nat (length data))"
    using rd32_mwrite [of ram a "PutBytesTransfer # le32 cookie"] by (simp add: r_def put_packet_def)
  show "mread r (a + 9) (length data) = data"
    using mread_mwrite_at [of ram a "PutBytesTransfer # le32 cookie @ le32 (htonl (word_of_nat (length data)))" data "[]"]
    by (simp add: r_def put_packet_def)
qed

lemma commit_packet_reads:
  fixes ram a cookie crc
  defines "r \<equiv> mwrite ram a (commit_packet cookie crc)"
  shows "r a = PutBytesCommit" "rd32 r (a + 1) = cookie" "rd32 r (a + 5) = htonl crc"
proof -
  show "r a = PutBytesCommit" by (simp add: r_def commit_packet_def mwrite_def)
  show "rd32 r (a + 1) = cookie"
    using rd32_mwrite [of ram a "[PutBytesCommit]"] by (simp add: r_def commit_packet_def)
  show "rd32 r (a + 5) = htonl crc"
    using rd32_mwrite [of ram a "PutBytesCommit # le32 cookie" _ "[]"] by (simp add: r_def commit_packet_def)
qed

text \<open>A transfer under way: \<open>d\<close> has arrived, the rest of the file is erased.\<close>

definition receiving :: "plat \<Rightarrow> fs_file \<Rightarrow> bytes \<Rightarrow> u32 \<Rightarrow> xfer \<Rightarrow> bool" where
  "receiving p f d cookie x \<longleftrightarrow> (case x_txn x of None \<Rightarrow> False | Some t \<Rightarrow>
     transfer_state t = PutBytesInit \<and> tx_timer t \<noteq> None \<and> total_size t = fsize f \<and> tx_cookie t = cookie \<and>
     bytes_transferred t = word_of_nat (length d) \<and> fd_at p (fs_flash (x_fs x)) f (length d) (tx_fd t) \<and> fsize (replaces (tx_fd t)) = 0 \<and>
     hdr_apart p (fs_flash (x_fs x)) f \<and> fcontent p (fs_flash (x_fs x)) f = d @ replicate (unat (fsize f) - length d) 0xFF)"

lemma receivingE:
  assumes "receiving p f d cookie x"
  obtains t tm where "x_txn x = Some t" "transfer_state t = PutBytesInit" "tx_timer t = Some tm" "total_size t = fsize f"
    "tx_cookie t = cookie" "bytes_transferred t = word_of_nat (length d)" "fd_at p (fs_flash (x_fs x)) f (length d) (tx_fd t)"
    "fsize (replaces (tx_fd t)) = 0" "hdr_apart p (fs_flash (x_fs x)) f"
    "fcontent p (fs_flash (x_fs x)) f = d @ replicate (unat (fsize f) - length d) 0xFF"
  using assms by (auto simp: receiving_def split: option.splits)

context fs_platform begin

lemma put_step:
  assumes r: "receiving p f d c0 x" and fit: "length d + length data \<le> unat (fsize f)" and ram: "a + 9 + length data < 2 ^ 32"
  shows "\<exists>x'. protocol_process_transfer p ns alloc (mwrite ram a (put_packet c data)) a x = Some x' \<and>
    receiving p f (d @ data) c x' \<and> x_replies x' = x_replies x @ [(ACK, c)] \<and> (\<exists>m. x_fs x' = (x_fs x)\<lparr>fs_flash := m\<rparr> \<and> file_frame p f (fs_flash (x_fs x)) m)"
proof -
  obtain t tm where t: "x_txn x = Some t" "transfer_state t = PutBytesInit" "tx_timer t = Some tm" "total_size t = fsize f"
    "bytes_transferred t = word_of_nat (length d)" "fd_at p (fs_flash (x_fs x)) f (length d) (tx_fd t)"
    "fsize (replaces (tx_fd t)) = 0" "hdr_apart p (fs_flash (x_fs x)) f"
    "fcontent p (fs_flash (x_fs x)) f = d @ replicate (unat (fsize f) - length d) 0xFF"
    using receivingE [OF r] by metis
  let ?r = "mwrite ram a (put_packet c data)"
  let ?n = "word_of_nat (length data) :: u32"
  note rd = put_packet_reads [of ram a c data]
  have n: "unat ?n = length data" and a: "unat (word_of_nat (a + 9) :: u32) = a + 9"
    using ram by (simp_all only: unat_of_nat) simp_all
  obtain fd' m where w: "fs_write p ?r (fs_flash (x_fs x)) (tx_fd t) (word_of_nat (a + 9)) ?n = Some (?n, fd', m)"
    "fd_at p m f (length d + length data) fd'" "replaces fd' = replaces (tx_fd t)"
    "fcontent p m f = overlay (fcontent p (fs_flash (x_fs x)) f) (length d) data" "file_frame p f (fs_flash (x_fs x)) m"
    using at_write [OF t(6) n fit, of "word_of_nat (a + 9)" ?r] ram unfolding a rd by auto
  have h: "hdr_apart p m f" using t(8) w(5) by (simp add: hdr_apart_def file_frame_def)
  have c: "fcontent p m f = (d @ data) @ replicate (unat (fsize f) - length (d @ data)) 0xFF"
    unfolding w(4) t(9) using fit by (simp add: overlay_blank)
  note e = protocol_process_transfer_def transfer_put_def txn_timer_def
  have w': "fs_write p ?r (fs_flash (x_fs x)) (tx_fd t) (word_of_nat a + 9) ?n = Some (?n, fd', m)" using w(1) by simp
  show ?thesis
    using t(1-5,7) w w' h c rd
    by (simp add: e Let_def ntohl_def PutBytesTransfer_def PutBytesInit_def receiving_def) (rule exI [of _ m], simp)
qed

lemma puts_deliver:
  assumes "receiving p f d c0 x" "length d + length (concat (map snd cs)) \<le> unat (fsize f)"
    "\<forall>(c, data) \<in> set cs. a + 9 + length data < 2 ^ 32"
  shows "\<exists>x'. xfer_deliver p ns ram a (map (\<lambda>(c, data). put_packet c data) cs) x = Some x' \<and>
    receiving p f (d @ concat (map snd cs)) (last (c0 # map fst cs)) x' \<and> x_replies x' = x_replies x @ map (\<lambda>(c, _). (ACK, c)) cs \<and>
    (\<exists>m. x_fs x' = (x_fs x)\<lparr>fs_flash := m\<rparr> \<and> file_frame p f (fs_flash (x_fs x)) m)"
  using assms
proof (induction cs arbitrary: d c0 x)
  case (Cons cd cs)
  obtain c data where cd: "cd = (c, data)" by (cases cd)
  obtain x1 m1 where x1: "protocol_process_transfer p ns True (mwrite ram a (put_packet c data)) a x = Some x1"
    "receiving p f (d @ data) c x1" "x_replies x1 = x_replies x @ [(ACK, c)]"
    "x_fs x1 = (x_fs x)\<lparr>fs_flash := m1\<rparr>" "file_frame p f (fs_flash (x_fs x)) m1"
    using put_step [OF Cons.prems(1), of data a ns True ram c] Cons.prems(2,3) cd by auto
  have ln: "length (d @ data) + length (concat (map snd cs)) \<le> unat (fsize f)" "\<forall>(c, data) \<in> set cs. a + 9 + length data < 2 ^ 32"
    using Cons.prems(2,3) cd by simp_all
  obtain x' m where x': "xfer_deliver p ns ram a (map (\<lambda>(c, data). put_packet c data) cs) x1 = Some x'"
    "receiving p f ((d @ data) @ concat (map snd cs)) (last (c # map fst cs)) x'" "x_replies x' = x_replies x1 @ map (\<lambda>(c, _). (ACK, c)) cs"
    "x_fs x' = (x_fs x1)\<lparr>fs_flash := m\<rparr>" "file_frame p f (fs_flash (x_fs x1)) m"
    using Cons.IH [OF x1(2) ln] by blast
  have "x_fs x' = (x_fs x)\<lparr>fs_flash := m\<rparr>" using x'(4) x1(4) by simp
  moreover have "file_frame p f (fs_flash (x_fs x)) m" using file_frame_trans [OF x1(5)] x'(5) x1(4) by simp
  ultimately show ?case using x1(1,3) x'(1-3) by (intro exI [of _ x']) (auto simp: cd)
next
  case Nil
  have "\<exists>m. x_fs x = (x_fs x)\<lparr>fs_flash := m\<rparr> \<and> file_frame p f (fs_flash (x_fs x)) m"
    by (rule exI [of _ "fs_flash (x_fs x)"]) (simp add: file_frame_refl)
  then show ?case using Nil by simp
qed

lemma commit_step:
  assumes r: "receiving p f d c x" and full: "length d = unat (fsize f)"
  shows "\<exists>x'. protocol_process_transfer p ns alloc (mwrite ram a (commit_packet c crc)) a x = Some x' \<and>
    fcontent p (fs_flash (x_fs x')) f = d \<and>
    (if crc = fs_pbfs_crc32 d then x_replies x' = x_replies x @ [(ACK, c)] \<and> x_txn x' \<noteq> None \<and>
        hdr_file_at p (fs_flash (x_fs x')) f = (hdr_file_at p (fs_flash (x_fs x)) f)\<lparr>st_tmp_file := 0\<rparr> \<and>
        (\<exists>fd'. fd_file fd' = f \<and> fsize (replaces fd') = 0 \<and> fs_mark_written p (x_fs x) fd' = Some (x_fs x'))
     else x' = transfer_terminated x)"
proof -
  obtain t tm where t: "x_txn x = Some t" "transfer_state t = PutBytesInit" "tx_timer t = Some tm" "total_size t = fsize f"
    "tx_cookie t = c" "bytes_transferred t = word_of_nat (length d)" "fd_at p (fs_flash (x_fs x)) f (length d) (tx_fd t)"
    "fsize (replaces (tx_fd t)) = 0" "hdr_apart p (fs_flash (x_fs x)) f"
    "fcontent p (fs_flash (x_fs x)) f = d @ replicate (unat (fsize f) - length d) 0xFF"
    using receivingE [OF r] by metis
  note rd = commit_packet_reads [of ram a c crc]
  have bt: "bytes_transferred t = fsize f" using t(6) full by simp
  have cd: "fcontent p (fs_flash (x_fs x)) f = d" using t(10) full by simp
  obtain fd' where fd: "fs_file_crc32 p (fs_flash (x_fs x)) (tx_fd t) (fsize f) = Some (fs_pbfs_crc32 d, fd')"
     "fd_file fd' = f" "replaces fd' = replaces (tx_fd t)"
    using at_crc [OF t(7)] cd by auto
  have "content_ok p (fs_flash (x_fs x)) f" using t(7) by (simp add: fd_at_def)
  then obtain m where m: "fs_mark_written p (x_fs x) fd' = Some ((x_fs x)\<lparr>fs_flash := m\<rparr>)" "fcontent p m f = fcontent p (fs_flash (x_fs x)) f"
    "hdr_file_at p m f = (hdr_file_at p (fs_flash (x_fs x)) f)\<lparr>st_tmp_file := 0\<rparr>"
    using mark_written_plain [OF _ t(9) fd(2)] fd(3) t(8) by metis
  show ?thesis
    using t(1-5,8) bt cd rd fd m
    by (auto simp: protocol_process_transfer_def transfer_commit_def txn_timer_def Let_def PutBytesInit_def PutBytesTransfer_def PutBytesCommit_def)
qed

end

text \<open>A file sent by the phone arrives. From the state an initialisation leaves, any sequence of transfers of any sizes, as long as
  the file together, followed by a commit: every transfer is acknowledged with its cookie and the file then has the bytes sent,
  in order. With the checksum of those bytes the commit is acknowledged and the file is no longer marked temporary; with
  any other the commit is refused and the transaction is gone.\<close>

theorem transfer_delivers:
  assumes "receiving (snowy_plat nor_ideal) f [] c0 x" "cs \<noteq> []" "length (concat (map snd cs)) = unat (fsize f)"
    and "\<forall>(c, data) \<in> set cs. a + 9 + length data < 2 ^ 32"
  shows "\<exists>x'. xfer_deliver (snowy_plat nor_ideal) ns ram a (map (\<lambda>(c, data). put_packet c data) cs @ [commit_packet (fst (last cs)) crc]) x = Some x' \<and>
    fcontent (snowy_plat nor_ideal) (fs_flash (x_fs x')) f = concat (map snd cs) \<and>
    (if crc = fs_pbfs_crc32 (concat (map snd cs))
     then x_replies x' = x_replies x @ map (\<lambda>(c, _). (ACK, c)) cs @ [(ACK, fst (last cs))] \<and>
       st_tmp_file (hdr_file_at (snowy_plat nor_ideal) (fs_flash (x_fs x')) f) = 0
     else x_replies x' = x_replies x @ map (\<lambda>(c, _). (ACK, c)) cs @ [(NACK, 0)] \<and> x_txn x' = None)"
proof -
  obtain x1 where x1: "xfer_deliver (snowy_plat nor_ideal) ns ram a (map (\<lambda>(c, data). put_packet c data) cs) x = Some x1"
    "receiving (snowy_plat nor_ideal) f (concat (map snd cs)) (fst (last cs)) x1"
    "x_replies x1 = x_replies x @ map (\<lambda>(c, _). (ACK, c)) cs"
    using snowy_fs.puts_deliver [OF assms(1), of cs a ns ram] assms(2-4) by (auto simp: last_map)
  obtain x2 where x2: "protocol_process_transfer (snowy_plat nor_ideal) ns True (mwrite ram a (commit_packet (fst (last cs)) crc)) a x1 = Some x2"
    "fcontent (snowy_plat nor_ideal) (fs_flash (x_fs x2)) f = concat (map snd cs)"
    "if crc = fs_pbfs_crc32 (concat (map snd cs)) then x_replies x2 = x_replies x1 @ [(ACK, fst (last cs))] \<and> x_txn x2 \<noteq> None \<and>
        hdr_file_at (snowy_plat nor_ideal) (fs_flash (x_fs x2)) f = (hdr_file_at (snowy_plat nor_ideal) (fs_flash (x_fs x1)) f)\<lparr>st_tmp_file := 0\<rparr> \<and>
        (\<exists>fd'. fd_file fd' = f \<and> fsize (replaces fd') = 0 \<and> fs_mark_written (snowy_plat nor_ideal) (x_fs x1) fd' = Some (x_fs x2))
     else x2 = transfer_terminated x1"
    using snowy_fs.commit_step [OF x1(2) assms(3), of ns True ram a crc] by blast
  have "xfer_deliver (snowy_plat nor_ideal) ns ram a (map (\<lambda>(c, data). put_packet c data) cs @ [commit_packet (fst (last cs)) crc]) x = Some x2"
    using x1(1) x2(1) by (simp add: xfer_deliver_append)
  then show ?thesis using x2(2,3) x1(3) by (intro exI [of _ x2]) (cases "crc = fs_pbfs_crc32 (concat (map snd cs))", simp_all)
qed

text \<open>The name of a received file is a name.\<close>

lemma utoa_digits_bound: "n < 16 ^ k \<Longrightarrow> length (utoa_digits 16 n acc) \<le> length acc + k"
proof (induction k arbitrary: n acc)
  case (Suc k)
  show ?case
  proof (cases "n = 0")
    case False
    have "n div 16 < 16 ^ k" using Suc.prems by simp
    then show ?thesis using Suc.IH [of "n div 16" "digits ! (n mod 16) # acc"] False by (subst utoa_digits.simps) simp
  qed (simp add: utoa_digits.simps)
qed (simp add: utoa_digits.simps)

lemma utoa_digits_set: "set (utoa_digits 16 n acc) \<subseteq> set digits \<union> set acc"
proof (induction n arbitrary: acc rule: less_induct)
  case (less n)
  have "digits ! (n mod 16) \<in> set digits" by (rule nth_mem) (simp add: digits_def)
  then show ?case using less [of "n div 16" "digits ! (n mod 16) # acc"] by (subst utoa_digits.simps) auto
qed

lemma utoa_pad_bound: "w \<le> 8 \<Longrightarrow> length n \<le> 8 \<Longrightarrow> length (utoa_pad w c n) \<le> 8 \<and> set (utoa_pad w c n) \<subseteq> insert c (set n)"
proof (induction w c n rule: utoa_pad.induct)
  case (1 w c n)
  then show ?case by (subst (1 2) utoa_pad.simps) auto
qed

lemma transfer_name_ok: "length (transfer_name app ty) < 32" "0 \<notin> set (transfer_name app ty)"
proof -
  define ds where "ds = (if app = 0 then [chr CHR ''0''] else utoa_digits 16 (unat app) [])"
  have "unat app < 16 ^ 8" using unat_u32_less [of app] by simp
  then have l: "length ds \<le> 8" using utoa_digits_bound [of "unat app" 8 "[]"] by (simp add: ds_def)
  have z: "0 \<notin> set digits" by (simp add: digits_def chr_def)
  then have "0 \<notin> set ds" using utoa_digits_set [of "unat app" "[]"] by (auto simp: ds_def)
  then show "length (transfer_name app ty) < 32" "0 \<notin> set (transfer_name app ty)"
    using utoa_pad_bound [of 8 ds "chr CHR ''0''"] l by (auto simp: transfer_name_def ds_def [symmetric] chr_def)
qed

definition init_packet :: "u32 \<Rightarrow> u8 \<Rightarrow> u32 \<Rightarrow> bytes" where
  "init_packet n ty app = [PutBytesInit] @ le32 (htonl n) @ [ty] @ le32 (htonl app)"

lemma init_packet_reads:
  fixes ram a n ty app
  defines "r \<equiv> mwrite ram a (init_packet n ty app)"
  shows "r a = PutBytesInit" "rd32 r (a + 1) = htonl n" "r (a + 5) = ty" "rd32 r (a + 6) = htonl app"
proof -
  show "r a = PutBytesInit" "r (a + 5) = ty" by (simp_all add: r_def init_packet_def mwrite_def nth_append)
  show "rd32 r (a + 1) = htonl n"
    using rd32_mwrite [of ram a "[PutBytesInit]"] by (simp add: r_def init_packet_def)
  show "rd32 r (a + 6) = htonl app"
    using rd32_mwrite [of ram a "PutBytesInit # le32 (htonl n) @ [ty]" _ "[]"] by (simp add: r_def init_packet_def)
qed

context fs_platform begin

lemma init_step:
  assumes x: "x_txn x = None" "\<not> x_locked x" and find: "fs_find_file p (x_fs x) (transfer_name app (ty AND 0x7F)) = Some None"
    and cr: "fs_creat p (x_fs x) (Some (transfer_name app (ty AND 0x7F))) n = Some (Some (fs_open f), s1)"
    and f: "content_ok p (fs_flash s1) f" "fcontent p (fs_flash s1) f = replicate (unat n) 0xFF" "hdr_apart p (fs_flash s1) f" "fsize f = n"
  shows "\<exists>x'. protocol_process_transfer p True True (mwrite ram a (init_packet n ty app)) a x = Some x' \<and> receiving p f [] 0 x' \<and>
    x_fs x' = s1 \<and> x_replies x' = x_replies x @ [(ACK, 0)]"
  using x find cr f init_packet_reads [of ram a n ty app] fd_at_open [OF f(1)]
  by (simp add: protocol_process_transfer_def transfer_init_def protocol_transaction_lock_def Let_def ntohl_def txn_zero_def receiving_def
      fs_open_def file_zero_def)

end

text \<open>C1: a whole transfer. The phone initialises a file of \<open>n\<close> bytes, sends them in pieces of any sizes and commits them with their checksum;
  where the platform lets the store through the NULL transaction pass and no file has that name, every packet is acknowledged
  and the name of the file then leads to exactly the bytes sent. Every other name leads where it did and every other file has its
  content.\<close>

theorem transfer_arrives:
  assumes "fs_ready (snowy_plat nor_ideal) (x_fs x)" "dir_whole (snowy_plat nor_ideal) (x_fs x)" "-1 \<le> fs_lastpg (x_fs x)"
    and "x_txn x = None" "\<not> x_locked x" "nm = transfer_name app (ty AND 0x7F)" "fs_find_file (snowy_plat nor_ideal) (x_fs x) nm = Some None"
    and "cs \<noteq> []" "unat n = length (concat (map snd cs))" "unat n < 2 ^ 31" "\<forall>(c, data) \<in> set cs. a + 9 + length data < 2 ^ 32"
    and "unat (fs_npages (snowy_plat nor_ideal) (Some nm) n) \<le> card (clean_pages (snowy_plat nor_ideal) (x_fs x))"
    and "fs_npages (snowy_plat nor_ideal) (Some nm) n \<le> fs_free_pages (x_fs x)"
  shows "\<exists>x' f. xfer_deliver (snowy_plat nor_ideal) True ram a (init_packet n ty app # map (\<lambda>(c, data). put_packet c data) cs @
      [commit_packet (fst (last cs)) (fs_pbfs_crc32 (concat (map snd cs)))]) x = Some x' \<and>
    x_replies x' = x_replies x @ [(ACK, 0)] @ map (\<lambda>(c, _). (ACK, c)) cs @ [(ACK, fst (last cs))] \<and>
    fs_find_file (snowy_plat nor_ideal) (x_fs x') nm = Some (Some f) \<and>
    fcontent (snowy_plat nor_ideal) (fs_flash (x_fs x')) f = concat (map snd cs) \<and>
    (\<forall>nm'. nm' \<noteq> nm \<longrightarrow> fs_find_file (snowy_plat nor_ideal) (x_fs x') nm' = fs_find_file (snowy_plat nor_ideal) (x_fs x) nm') \<and>
    (\<forall>g. content_ok (snowy_plat nor_ideal) (fs_flash (x_fs x)) g \<and>
       file_pages (snowy_plat nor_ideal) (fs_flash (x_fs x)) g \<inter> clean_pages (snowy_plat nor_ideal) (x_fs x) = {} \<longrightarrow>
       fcontent (snowy_plat nor_ideal) (fs_flash (x_fs x')) g = fcontent (snowy_plat nor_ideal) (fs_flash (x_fs x)) g)"
proof -
  let ?P = "snowy_plat nor_ideal" and ?bs = "concat (map snd cs)"
  have nm: "length nm < 32" "0 \<notin> set nm" using transfer_name_ok assms(6) by simp_all
  obtain w V s1 where c: "fs_creat ?P (x_fs x) (Some nm) n = Some (Some (fs_open (new_file w nm n)), s1)" "created ?P nm n w V (x_fs x) s1"
    using snowy_fs.fs_creat_ok [OF assms(1) nm(1) assms(10,12,13)] by blast
  let ?f = "new_file w nm n"
  have sz: "fsize ?f = n" by (simp add: new_file_def)
  obtain x1 where x1: "protocol_process_transfer ?P True True (mwrite ram a (init_packet n ty app)) a x = Some x1" "receiving ?P ?f [] 0 x1"
    "x_fs x1 = s1" "x_replies x1 = x_replies x @ [(ACK, 0)]"
    using snowy_fs.init_step [OF assms(4,5) _ _ _ _ _ sz, of app ty s1 ram a] assms(6,7) c by (auto simp: created_def)
  have ln: "length ([] :: bytes) + length ?bs \<le> unat (fsize ?f)" "length ?bs = unat (fsize ?f)" using assms(9) sz by simp_all
  obtain x2 m where x2: "xfer_deliver ?P True ram a (map (\<lambda>(c, data). put_packet c data) cs) x1 = Some x2"
    "receiving ?P ?f ?bs (fst (last cs)) x2" "x_replies x2 = x_replies x1 @ map (\<lambda>(c, _). (ACK, c)) cs"
    "x_fs x2 = s1\<lparr>fs_flash := m\<rparr>" "file_frame ?P ?f (fs_flash s1) m"
    using snowy_fs.puts_deliver [OF x1(2) ln(1) assms(11), of True ram] assms(8) x1(3) by (auto simp: last_map)
  obtain x3 fd where x3: "protocol_process_transfer ?P True True (mwrite ram a (commit_packet (fst (last cs)) (fs_pbfs_crc32 ?bs))) a x2 = Some x3"
    "x_replies x3 = x_replies x2 @ [(ACK, fst (last cs))]" "fd_file fd = ?f" "fsize (replaces fd) = 0" "fs_mark_written ?P (x_fs x2) fd = Some (x_fs x3)"
    "fcontent ?P (fs_flash (x_fs x3)) ?f = ?bs"
    using snowy_fs.commit_step [OF x2(2) ln(2), of True True ram a "fs_pbfs_crc32 ?bs"] by auto
  have co: "content_ok ?P m ?f" using x2(2,4) by (auto simp: fd_at_def elim!: receivingE)
  obtain s3 where s3: "fs_mark_written ?P (s1\<lparr>fs_flash := m\<rparr>) fd = Some s3" "fs_find_file ?P s3 nm = Some (Some ?f)"
    "\<forall>nm'. nm' \<noteq> nm \<longrightarrow> fs_find_file ?P s3 nm' = fs_find_file ?P (x_fs x) nm'"
    "\<forall>g. content_ok ?P (fs_flash (x_fs x)) g \<and> file_pages ?P (fs_flash (x_fs x)) g \<inter> clean_pages ?P (x_fs x) = {} \<longrightarrow>
       fcontent ?P (fs_flash s3) g = fcontent ?P (fs_flash (x_fs x)) g"
    using snowy_fs.creat_find [OF assms(2,3) nm(2,1) assms(7) c(2) x2(5) x3(3,4) co] by blast
  have "s3 = x_fs x3" using s3(1) x3(5) x2(4) by simp
  moreover have "xfer_deliver ?P True ram a (init_packet n ty app # map (\<lambda>(c, data). put_packet c data) cs @
      [commit_packet (fst (last cs)) (fs_pbfs_crc32 ?bs)]) x = Some x3"
    using x1(1) x2(1) x3(1) by (simp add: xfer_deliver_append)
  ultimately show ?thesis using s3(2-4) x3(2,6) x2(3) x1(4) by (intro exI [of _ x3] exI [of _ ?f]) simp
qed

theorem transfer_arrives_witness:
  "\<exists>x' f. xfer_deliver (snowy_plat nor_ideal) True (\<lambda>_. 0) 0x20000000
      [init_packet 5 5 0x1F, put_packet 7 [1, 2, 3], put_packet 9 [4, 5], commit_packet 9 (fs_pbfs_crc32 [1, 2, 3, 4, 5])] (xfer_start ex_empty) = Some x' \<and>
    x_replies x' = [(ACK, 0), (ACK, 7), (ACK, 9), (ACK, 9)] \<and>
    fs_find_file (snowy_plat nor_ideal) (x_fs x') (transfer_name 0x1F 5) = Some (Some f) \<and>
    fcontent (snowy_plat nor_ideal) (fs_flash (x_fs x')) f = [1, 2, 3, 4, 5]"
proof -
  define nm where "nm = transfer_name 0x1F ((5 :: u8) AND 0x7F)"
  have nm5: "nm = transfer_name 0x1F 5" by (simp add: nm_def)
  have np: "fs_npages (snowy_plat nor_ideal) (Some nm) 5 = 1"
    by (simp add: nm5 transfer_name_def utoa_digits.simps utoa_pad.simps TransferType_AppExecutable_def fs_npages_def name_length_def
        SIZEOF_FILE_HDR_def SIZEOF_PAGE_HDR_def)
  have "(0 :: u16) \<in> clean_pages (snowy_plat nor_ideal) ex_empty" by (simp add: ex_empty_clean)
  then have card: "1 \<le> card (clean_pages (snowy_plat nor_ideal) ex_empty)" by (metis One_nat_def Suc_leI card_gt_0_iff clean_finite empty_iff)
  have "fs_lastpg ex_empty = -1" "fs_free_pages ex_empty = 1535" by (simp_all add: ex_empty_def)
  then show ?thesis
    using transfer_arrives [of "xfer_start ex_empty" nm "0x1F" 5 "[(7, [1, 2, 3]), (9, [4, 5])]" 5 "0x20000000" "\<lambda>_. 0"]
      ex_empty_ready ex_empty_find np card nm_def
    by (simp add: xfer_start_def nm5) blast
qed

text \<open>The file \<open>@0\<close> of 128 bytes, just created.\<close>

definition ex_xfer :: xfer where
  "ex_xfer = \<lparr> x_fs = ex_fsys [0x40, 0x30] [], x_txn = Some (txn_zero\<lparr>transfer_state := PutBytesInit, total_size := 128,
     tx_fd := fs_open (ex_file_named [0x40, 0x30]), tx_timer := Some \<lparr> xt_on_queue = True, xt_timeout_ms = 100 \<rparr>\<rparr>),
     x_locked = True, x_replies = [(ACK, 0)], x_progress = [], x_downloads = 0 \<rparr>"

lemma ex_xfer_replies: "x_replies ex_xfer = [(ACK, 0)]"
  by (simp add: ex_xfer_def)

lemma ex_receiving: "receiving (snowy_plat nor_ideal) (ex_file_named [0x40, 0x30]) [] 0 ex_xfer"
proof -
  let ?nm = "[0x40, 0x30] :: bytes" and ?m = "fs_flash (ex_fsys [0x40, 0x30] [])"
  have nm: "ex_named ?nm" by (simp add: ex_named_def)
  have "fcontent (snowy_plat nor_ideal) ?m (ex_file_named ?nm) = replicate 128 0xFF"
    using ex_fsys_content [OF nm, of "[]"] by simp
  moreover have "hdr_apart (snowy_plat nor_ideal) ?m (ex_file_named ?nm)"
    unfolding hdr_apart_def ex_file_size ex_fsys_addrs [OF nm] by (auto simp: ex_file_named_def fs_addr_def)
  moreover have "fd_at (snowy_plat nor_ideal) ?m (ex_file_named ?nm) 0 (fs_open (ex_file_named ?nm))"
    by (rule fd_at_open [OF ex_fsys_ok [OF nm]])
  ultimately show ?thesis
    by (simp add: receiving_def ex_xfer_def txn_zero_def ex_file_size fs_open_def file_zero_def) (simp add: ex_file_named_def)
qed

theorem transfer_delivers_witness:
  "\<exists>x'. xfer_deliver (snowy_plat nor_ideal) False (\<lambda>_. 0) 0x20000000
      [put_packet 7 (replicate 40 1), put_packet 9 (replicate 88 2), commit_packet 9 (fs_pbfs_crc32 (replicate 40 1 @ replicate 88 2))] ex_xfer = Some x' \<and>
    fcontent (snowy_plat nor_ideal) (fs_flash (x_fs x')) (ex_file_named [0x40, 0x30]) = replicate 40 1 @ replicate 88 2 \<and>
    x_replies x' = [(ACK, 0), (ACK, 7), (ACK, 9), (ACK, 9)]"
  using transfer_delivers [OF ex_receiving, of "[(7, replicate 40 1), (9, replicate 88 2)]" "0x20000000" False "\<lambda>_. 0"
      "fs_pbfs_crc32 (replicate 40 1 @ replicate 88 2)"]
  by (simp add: ex_file_size ex_xfer_replies) blast

text \<open>C34: whatever packets and timeouts come, in whatever order, while no other thread has the lock of bulk transfers. The handler faults
  exactly for the packets \<open>xfer_faults\<close> names: a transfer, commit or installation while there is no transaction, an unknown command, and
  those where the store through NULL, an allocation or an assertion of the file system stops it. Every packet whose handler returns, and
  every timeout of the transaction, is answered by exactly one reply, and after it there is a transaction just when the lock is held,
  in the state an initialisation leaves and with its timer running.\<close>

theorem transfer_invariant:
  assumes "xfer_reach p s x"
  shows "(protocol_process_transfer p null_store alloc ram a x = None \<longleftrightarrow> xfer_faults p null_store alloc ram a x) \<and>
    (\<forall>x'. xfer_step p x x' \<longrightarrow> length (x_replies x') = length (x_replies x) + 1 \<and> (x_locked x' \<longleftrightarrow> x_txn x' \<noteq> None) \<and>
      (case x_txn x' of None \<Rightarrow> True | Some t \<Rightarrow> transfer_state t = PutBytesInit \<and> (\<exists>tm. tx_timer t = Some tm \<and> xt_on_queue tm)))"
proof (intro conjI allI impI)
  fix x' assume s: "xfer_step p x x'"
  note i = xfer_step_inv [OF s xfer_reach_inv [OF assms]]
  show "length (x_replies x') = length (x_replies x) + 1" using i by auto
  show "x_locked x' \<longleftrightarrow> x_txn x' \<noteq> None"
    "case x_txn x' of None \<Rightarrow> True | Some t \<Rightarrow> transfer_state t = PutBytesInit \<and> (\<exists>tm. tx_timer t = Some tm \<and> xt_on_queue tm)"
    using i by (auto simp: xfer_inv_def split: option.splits)
qed (rule xfer_none [OF xfer_reach_inv [OF assms]])

text \<open>An abort as the first packet: it is answered, and the lock nobody held is released.\<close>

lemma abort_step: "xfer_step p x (transfer_terminated x)"
  by (rule xfer_step.packet [of _ False False "\<lambda>_. PutBytesAbort" 0])
    (simp add: protocol_process_transfer_def PutBytesAbort_def PutBytesInit_def PutBytesTransfer_def PutBytesCommit_def PutBytesInstall_def)

theorem transfer_invariant_witness:
  "length (x_replies (transfer_terminated (xfer_start (ex_fsys [] [])))) = 1 \<and>
    protocol_process_transfer (snowy_plat nor_ideal) True True (\<lambda>_. PutBytesInstall) 0 (transfer_terminated (xfer_start (ex_fsys [] []))) = None"
proof -
  let ?p = "snowy_plat nor_ideal" and ?x = "xfer_start (ex_fsys [] [])"
  have r: "xfer_reach ?p (ex_fsys [] []) ?x" "xfer_reach ?p (ex_fsys [] []) (transfer_terminated ?x)"
    using abort_step [of ?p ?x] by (auto simp: xfer_reach_def)
  have "length (x_replies (transfer_terminated ?x)) = 1"
    using transfer_invariant [OF r(1)] abort_step [of ?p ?x] by (auto simp: xfer_start_def)
  moreover have "xfer_faults ?p True True (\<lambda>_. PutBytesInstall) 0 (transfer_terminated ?x)"
    by (simp add: xfer_faults_def Let_def)
  ultimately show ?thesis using transfer_invariant [OF r(2), of True True "\<lambda>_. PutBytesInstall" 0] by blast
qed

text \<open>The first initialisation writes through a NULL pointer: where the platform does not let that pass the handler faults.\<close>

lemma first_init_faults: "x_txn x = None \<Longrightarrow> transfer_init p False alloc ram a x = None"
  by (simp add: transfer_init_def)

end
