(* ===== verification/Dictionary.thy ===== *)
theory Dictionary
  imports NodeList
begin

section \<open>Dictionaries: rwatch/storage/dictionary.c\<close>

text \<open>
  The serialised key-value tuples of the Pebble app messages: a byte with the number of entries, then
  the tuples one after another (a packed header of key, type and length, 7 bytes, and the value). The
  model keeps the byte memory of \<open>Prelude\<close> and the iterator's three pointers as addresses, so that writing
  outside the buffer is visible; an iterator argument is an option (\<open>None\<close> is a null pointer), and
  a data argument is null, an address or the bytes of a local variable. The lemmas show the round
  trip from the writer to the reader, what a failed write leaves, how far a write can reach, and what
  lookup finds.
\<close>

unbundle bit_operations_syntax

datatype dict_result = DICT_OK | DICT_NOT_ENOUGH_STORAGE | DICT_INVALID_ARGS | DICT_INTERNAL_INCONSISTENCY | DICT_MALLOC_FAILED

datatype tuple_type = TUPLE_BYTE_ARRAY | TUPLE_CSTRING | TUPLE_UINT | TUPLE_INT

primrec tuple_type_code :: "tuple_type \<Rightarrow> u8" where
  "tuple_type_code TUPLE_BYTE_ARRAY = 0" |
  "tuple_type_code TUPLE_CSTRING = 1" |
  "tuple_type_code TUPLE_UINT = 2" |
  "tuple_type_code TUPLE_INT = 3"

record dict_iter =
  d_dictionary :: ptr
  d_end :: ptr
  d_cursor :: ptr

definition SIZEOF_TUPLE :: nat where "SIZEOF_TUPLE = 7"

definition tuple_hdr :: "u32 \<Rightarrow> u8 \<Rightarrow> u16 \<Rightarrow> bytes" where
  "tuple_hdr key ty len = le32 key @ [ty] @ le16 len"

definition t_key :: "mem \<Rightarrow> ptr \<Rightarrow> u32" where "t_key m t = get32 (mread m t SIZEOF_TUPLE) 0"
definition t_type :: "mem \<Rightarrow> ptr \<Rightarrow> u8" where "t_type m t = m (t + 4)"
definition t_length :: "mem \<Rightarrow> ptr \<Rightarrow> u16" where "t_length m t = get16 (mread m t SIZEOF_TUPLE) 5"
definition t_data :: "mem \<Rightarrow> ptr \<Rightarrow> bytes" where "t_data m t = mread m (t + SIZEOF_TUPLE) (unat (t_length m t))"

datatype src = Null | At ptr | Val bytes

primrec src_bytes :: "mem \<Rightarrow> src \<Rightarrow> nat \<Rightarrow> bytes" where
  "src_bytes m Null n = []" |
  "src_bytes m (At p) n = mread m p n" |
  "src_bytes m (Val bs) n = take n bs"

definition is_null :: "src \<Rightarrow> bool" where
  "is_null d \<longleftrightarrow> d = Null \<or> d = At NULL"

subsection \<open>Sizes\<close>

definition dict_calc_buffer_size :: "u32 list \<Rightarrow> u32" where
  "dict_calc_buffer_size sizes = (if sizes = [] then 0 else foldl (\<lambda>tot t. tot + (t + word_of_nat SIZEOF_TUPLE)) 0 sizes + 1)"

subsection \<open>Writing\<close>

definition dict_write_begin :: "dict_iter option \<Rightarrow> mem \<Rightarrow> ptr \<Rightarrow> u16 \<Rightarrow> dict_result \<times> dict_iter option \<times> mem" where
  "dict_write_begin iter m buffer sz =
    (case iter of
       None \<Rightarrow> (DICT_INVALID_ARGS, iter, m)
     | Some it \<Rightarrow>
         if buffer = NULL \<or> sz = 0 then (DICT_INVALID_ARGS, iter, m)
         else (DICT_OK, Some \<lparr> d_dictionary = buffer, d_end = buffer + 1 + unat sz, d_cursor = buffer + 1 \<rparr>,
               mfill m buffer (unat sz) 0))"

definition dict_write :: "dict_iter option \<Rightarrow> mem \<Rightarrow> u32 \<Rightarrow> src \<Rightarrow> u16 \<Rightarrow> u8 \<Rightarrow> dict_result \<times> dict_iter option \<times> mem" where
  "dict_write iter m key data sz ty =
    (case iter of
       None \<Rightarrow> (DICT_INVALID_ARGS, iter, m)
     | Some it \<Rightarrow>
         if d_dictionary it = NULL \<or> is_null data \<or> sz = 0 then (DICT_INVALID_ARGS, iter, m)
         else if m (d_dictionary it) = 255 then (DICT_NOT_ENOUGH_STORAGE, iter, m)
         else if d_cursor it + unat sz + SIZEOF_TUPLE > d_end it then (DICT_NOT_ENOUGH_STORAGE, iter, m)
         else let m1 = mwrite m (d_cursor it) (tuple_hdr key ty sz);
                  m2 = mwrite m1 (d_cursor it + SIZEOF_TUPLE) (src_bytes m1 data (unat sz));
                  m3 = mwrite m2 (d_dictionary it) [m2 (d_dictionary it) + 1]
              in (DICT_OK, Some (it\<lparr>d_cursor := d_cursor it + SIZEOF_TUPLE + unat sz\<rparr>), m3))"

definition dict_write_data :: "dict_iter option \<Rightarrow> mem \<Rightarrow> u32 \<Rightarrow> src \<Rightarrow> u16 \<Rightarrow> dict_result \<times> dict_iter option \<times> mem" where
  "dict_write_data iter m key data sz = dict_write iter m key data sz (tuple_type_code TUPLE_BYTE_ARRAY)"

text \<open>The string is the bytes before the terminating zero, \<open>None\<close> for a null pointer.\<close>

definition dict_write_cstring :: "dict_iter option \<Rightarrow> mem \<Rightarrow> u32 \<Rightarrow> bytes option \<Rightarrow> dict_result \<times> dict_iter option \<times> mem" where
  "dict_write_cstring iter m key cstring =
    (case cstring of
       None \<Rightarrow> (DICT_INVALID_ARGS, iter, m)
     | Some cs \<Rightarrow>
         if length cs = 0 then (DICT_INVALID_ARGS, iter, m)
         else dict_write iter m key (Val (cs @ [0])) (word_of_nat (length cs + 1)) (tuple_type_code TUPLE_CSTRING))"

definition dict_write_int :: "dict_iter option \<Rightarrow> mem \<Rightarrow> u32 \<Rightarrow> src \<Rightarrow> u8 \<Rightarrow> bool \<Rightarrow> dict_result \<times> dict_iter option \<times> mem" where
  "dict_write_int iter m key integer width_bytes is_signed =
    (if width_bytes = 0 \<or> width_bytes > 4 \<or> width_bytes = 3 \<or> is_null integer then (DICT_INVALID_ARGS, iter, m)
     else dict_write iter m key integer (ucast width_bytes) (tuple_type_code (if is_signed then TUPLE_INT else TUPLE_UINT)))"

definition dict_write_uint8 :: "dict_iter option \<Rightarrow> mem \<Rightarrow> u32 \<Rightarrow> u8 \<Rightarrow> dict_result \<times> dict_iter option \<times> mem" where
  "dict_write_uint8 iter m key v = dict_write iter m key (Val [v]) 1 (tuple_type_code TUPLE_UINT)"

definition dict_write_uint16 :: "dict_iter option \<Rightarrow> mem \<Rightarrow> u32 \<Rightarrow> u16 \<Rightarrow> dict_result \<times> dict_iter option \<times> mem" where
  "dict_write_uint16 iter m key v = dict_write iter m key (Val (le16 v)) 2 (tuple_type_code TUPLE_UINT)"

definition dict_write_uint32 :: "dict_iter option \<Rightarrow> mem \<Rightarrow> u32 \<Rightarrow> u32 \<Rightarrow> dict_result \<times> dict_iter option \<times> mem" where
  "dict_write_uint32 iter m key v = dict_write iter m key (Val (le32 v)) 4 (tuple_type_code TUPLE_UINT)"

text \<open>The signed writers store the same bits under another type.\<close>

definition dict_write_int8 :: "dict_iter option \<Rightarrow> mem \<Rightarrow> u32 \<Rightarrow> u8 \<Rightarrow> dict_result \<times> dict_iter option \<times> mem" where
  "dict_write_int8 iter m key v = dict_write iter m key (Val [v]) 1 (tuple_type_code TUPLE_INT)"

definition dict_write_int16 :: "dict_iter option \<Rightarrow> mem \<Rightarrow> u32 \<Rightarrow> u16 \<Rightarrow> dict_result \<times> dict_iter option \<times> mem" where
  "dict_write_int16 iter m key v = dict_write iter m key (Val (le16 v)) 2 (tuple_type_code TUPLE_INT)"

definition dict_write_int32 :: "dict_iter option \<Rightarrow> mem \<Rightarrow> u32 \<Rightarrow> u32 \<Rightarrow> dict_result \<times> dict_iter option \<times> mem" where
  "dict_write_int32 iter m key v = dict_write iter m key (Val (le32 v)) 4 (tuple_type_code TUPLE_INT)"

definition dict_write_end :: "dict_iter option \<Rightarrow> u32 \<times> dict_iter option" where
  "dict_write_end iter =
    (case iter of
       None \<Rightarrow> (0, iter)
     | Some it \<Rightarrow>
         if d_dictionary it = NULL then (0, iter)
         else (word_of_nat (d_cursor it - (d_dictionary it + 1)),
               Some (it\<lparr>d_end := d_cursor it, d_cursor := d_dictionary it + 1\<rparr>)))"

subsection \<open>Reading\<close>

definition dict_read_next :: "mem \<Rightarrow> dict_iter option \<Rightarrow> ptr \<times> dict_iter option" where
  "dict_read_next m iter =
    (case iter of
       None \<Rightarrow> (NULL, iter)
     | Some it \<Rightarrow>
         if d_dictionary it = NULL then (NULL, iter)
         else if d_cursor it + SIZEOF_TUPLE \<ge> d_end it then (NULL, iter)
         else (d_cursor it, Some (it\<lparr>d_cursor := d_cursor it + unat (t_length m (d_cursor it)) + SIZEOF_TUPLE\<rparr>)))"

definition dict_read_first :: "mem \<Rightarrow> dict_iter option \<Rightarrow> ptr \<times> dict_iter option" where
  "dict_read_first m iter =
    (case iter of
       None \<Rightarrow> (NULL, iter)
     | Some it \<Rightarrow>
         if d_dictionary it = NULL then (NULL, iter)
         else (d_dictionary it + 1, snd (dict_read_next m (Some (it\<lparr>d_cursor := d_dictionary it + 1\<rparr>)))))"

definition dict_read_begin_from_buffer :: "mem \<Rightarrow> dict_iter option \<Rightarrow> ptr \<Rightarrow> u16 \<Rightarrow> ptr \<times> dict_iter option" where
  "dict_read_begin_from_buffer m iter buffer sz =
    (if iter = None \<or> buffer = NULL \<or> sz = 0 then (NULL, iter)
     else dict_read_first m (Some \<lparr> d_dictionary = buffer, d_end = buffer + 1 + unat sz, d_cursor = buffer + 1 \<rparr>))"

definition room :: "ptr \<Rightarrow> dict_iter option \<Rightarrow> nat" where
  "room t iter = (case iter of None \<Rightarrow> 0 | Some it \<Rightarrow> d_end it - d_cursor it) + (if t = NULL then 0 else 1)"

lemma read_next_room: "t \<noteq> NULL \<Longrightarrow> dict_read_next m iter = (t', iter') \<Longrightarrow> room t' iter' < room t iter"
  by (auto simp: dict_read_next_def room_def SIZEOF_TUPLE_def split: option.splits if_splits)

lemma read_next_rooms:
  "0 < t \<Longrightarrow> room (fst (dict_read_next m iter)) (snd (dict_read_next m iter)) < room t iter"
  "0 < t \<Longrightarrow> (case dict_read_next m iter of (t', iter') \<Rightarrow> room t' iter') < room t iter"
  using read_next_room [of t m iter] by (cases "dict_read_next m iter"; simp)+

function dict_find_loop :: "mem \<Rightarrow> u32 \<Rightarrow> ptr \<Rightarrow> dict_iter option \<Rightarrow> ptr \<times> dict_iter option" where
  "dict_find_loop m key t iter =
    (if t = NULL then (NULL, iter)
     else if t_key m t = key then (t, iter)
     else dict_find_loop m key (fst (dict_read_next m iter)) (snd (dict_read_next m iter)))"
  by pat_completeness auto
termination
  by (relation "measure (\<lambda>(m, key, t, iter). room t iter)") (auto simp: read_next_rooms)

declare dict_find_loop.simps [simp del]

text \<open>The iterator argument is \<open>const\<close> but its cursor is moved.\<close>

definition dict_find :: "mem \<Rightarrow> dict_iter option \<Rightarrow> u32 \<Rightarrow> ptr \<times> dict_iter option" where
  "dict_find m iter key =
    (case iter of
       None \<Rightarrow> (NULL, iter)
     | Some it \<Rightarrow>
         if d_dictionary it = NULL then (NULL, iter)
         else case dict_read_first m iter of (t, iter) \<Rightarrow> dict_find_loop m key t iter)"

text \<open>In the loop of \<open>dict_size\<close> the pointer to the next tuple goes to an inner variable of the same name, so
  every round adds the size of the first tuple. \<open>None\<close> is a null dereference.\<close>

primrec dict_size_loop :: "mem \<Rightarrow> ptr \<Rightarrow> dict_iter option \<Rightarrow> u32 \<Rightarrow> nat \<Rightarrow> u32 \<times> dict_iter option" where
  "dict_size_loop m t iter tot 0 = (tot + 1, iter)" |
  "dict_size_loop m t iter tot (Suc n) =
    (if t = NULL then (0, iter)
     else dict_size_loop m t (snd (dict_read_next m iter)) (tot + (word_of_nat SIZEOF_TUPLE + ucast (t_length m t))) n)"

definition dict_size :: "mem \<Rightarrow> dict_iter option \<Rightarrow> (u32 \<times> dict_iter option) option" where
  "dict_size m iter =
    (case iter of
       None \<Rightarrow> Some (0, iter)
     | Some it \<Rightarrow>
         if d_dictionary it = NULL then None
         else case dict_read_first m iter of (t, iter) \<Rightarrow> Some (dict_size_loop m t iter 0 (unat (m (d_dictionary it)))))"

subsection \<open>Tuplets\<close>

text \<open>The union of a tuplet: its first word is the data pointer or the integer, its half-word the length or
  the width.\<close>

record tuplet =
  tp_type :: tuple_type
  tp_key :: u32
  tp_word :: u32
  tp_length :: u16

definition dict_calc_buffer_size_from_tuplets :: "tuplet list \<Rightarrow> u32" where
  "dict_calc_buffer_size_from_tuplets tuplets =
    (if tuplets = [] then 0
     else foldl (\<lambda>sz t. sz + (word_of_nat SIZEOF_TUPLE + ucast (tp_length t))) 0 tuplets + 1)"

definition dict_write_tuplet :: "dict_iter option \<Rightarrow> mem \<Rightarrow> tuplet option \<Rightarrow> dict_result \<times> dict_iter option \<times> mem" where
  "dict_write_tuplet iter m tuplet =
    (case (iter, tuplet) of
       (Some it, Some t) \<Rightarrow>
         if d_dictionary it = NULL then (DICT_INVALID_ARGS, iter, m)
         else dict_write iter m (tp_key t) (At (unat (tp_word t))) (tp_length t) (tuple_type_code (tp_type t))
     | _ \<Rightarrow> (DICT_INVALID_ARGS, iter, m))"

definition tuplet_val :: "tuplet \<Rightarrow> src" where
  "tuplet_val t = (if tp_type t = TUPLE_UINT \<or> tp_type t = TUPLE_INT then Val (le32 (tp_word t)) else At (unat (tp_word t)))"

primrec serialize_loop :: "dict_iter option \<Rightarrow> mem \<Rightarrow> tuplet list \<Rightarrow> dict_result \<times> dict_iter option \<times> mem" where
  "serialize_loop iter m [] = (DICT_OK, iter, m)" |
  "serialize_loop iter m (t # ts) =
    (case dict_write iter m (tp_key t) (tuplet_val t) (tp_length t) (tuple_type_code (tp_type t)) of
       (rv, iter, m) \<Rightarrow> if rv \<noteq> DICT_OK then (DICT_NOT_ENOUGH_STORAGE, iter, m) else serialize_loop iter m ts)"

text \<open>The size goes in at 32 bits, and \<open>dict_write_begin\<close> takes its low 16.\<close>

definition dict_serialize_tuplets_to_buffer_with_iter ::
    "dict_iter option \<Rightarrow> mem \<Rightarrow> tuplet list \<Rightarrow> ptr \<Rightarrow> u32 \<Rightarrow> dict_result \<times> u32 \<times> dict_iter option \<times> mem" where
  "dict_serialize_tuplets_to_buffer_with_iter iter m tuplets buffer sz =
    (case iter of
       None \<Rightarrow> (DICT_INVALID_ARGS, sz, iter, m)
     | Some it \<Rightarrow>
         if d_dictionary it = NULL \<or> tuplets = [] \<or> buffer = NULL \<or> sz = 0 then (DICT_INVALID_ARGS, sz, iter, m)
         else case dict_write_begin iter m buffer (ucast sz) of
           (_, iter, m) \<Rightarrow> (case serialize_loop iter m tuplets of
             (rv, iter, m) \<Rightarrow>
               if rv \<noteq> DICT_OK then (DICT_NOT_ENOUGH_STORAGE, sz, iter, m)
               else case dict_write_end iter of (sz, iter) \<Rightarrow> (DICT_OK, sz, iter, m)))"

text \<open>\<open>it0\<close> is what the uninitialised local iterator holds.\<close>

definition dict_serialize_tuplets_to_buffer ::
    "dict_iter \<Rightarrow> mem \<Rightarrow> tuplet list \<Rightarrow> ptr \<Rightarrow> u32 \<Rightarrow> dict_result \<times> u32 \<times> mem" where
  "dict_serialize_tuplets_to_buffer it0 m tuplets buffer sz =
    (if tuplets = [] \<or> buffer = NULL \<or> sz = 0 then (DICT_INVALID_ARGS, sz, m)
     else case dict_serialize_tuplets_to_buffer_with_iter (Some it0) m tuplets buffer sz of (rv, sz, _, m) \<Rightarrow> (rv, sz, m))"

text \<open>\<open>buf\<close> is the address of the local array; the last component is what the callback is called with.\<close>

definition dict_serialize_tuplets ::
    "bool \<Rightarrow> dict_iter \<Rightarrow> mem \<Rightarrow> tuplet list \<Rightarrow> ptr \<Rightarrow> dict_result \<times> (bytes \<times> u16) option" where
  "dict_serialize_tuplets callback it0 m tuplets buf =
    (if \<not> callback \<or> tuplets = [] then (DICT_INVALID_ARGS, None)
     else let sz = dict_calc_buffer_size_from_tuplets tuplets in
       if sz = 0 then (DICT_INTERNAL_INCONSISTENCY, None)
       else case dict_serialize_tuplets_to_buffer it0 m tuplets buf sz of
         (rv, sz, m) \<Rightarrow> (rv, Some (mread m buf (unat (ucast sz :: u16)), ucast sz)))"


subsection \<open>Merging\<close>

text \<open>The three loops of \<open>dict_merge\<close>: the destination into the copy, the copy back with the source's values for
  the keys it has, and all of the source. An event is a call of the callback: key, new tuple, old tuple.\<close>

type_synonym merge_event = "u32 \<times> ptr \<times> ptr"

function merge_copy :: "mem \<Rightarrow> ptr \<Rightarrow> dict_iter option \<Rightarrow> dict_iter option \<Rightarrow> dict_result \<times> dict_iter option \<times> dict_iter option \<times> mem" where
  "merge_copy m dt dest copy =
    (if dt = NULL then (DICT_OK, dest, copy, m)
     else case dict_write copy m (t_key m dt) (At (dt + SIZEOF_TUPLE)) (t_length m dt) (t_type m dt) of
       (rv, copy, m) \<Rightarrow>
         if rv \<noteq> DICT_OK then (rv, dest, copy, m)
         else merge_copy m (fst (dict_read_next m dest)) (snd (dict_read_next m dest)) copy)"
  by pat_completeness auto
termination
  by (relation "measure (\<lambda>(m, dt, dest, copy). room dt dest)") (auto simp: read_next_rooms)

function merge_update :: "mem \<Rightarrow> ptr \<Rightarrow> dict_iter option \<Rightarrow> dict_iter option \<Rightarrow> dict_iter option \<Rightarrow> merge_event list
    \<Rightarrow> dict_result \<times> dict_iter option \<times> dict_iter option \<times> mem \<times> merge_event list" where
  "merge_update m dt copy dest source evs =
    (if dt = NULL then (DICT_OK, dest, source, m, evs)
     else case dict_find m source (t_key m dt) of
       (st, source) \<Rightarrow> (let t = (if st \<noteq> NULL then st else dt) in
         case dict_write dest m (t_key m t) (At (t + SIZEOF_TUPLE)) (t_length m t) (t_type m t) of
           (rv, dest, m) \<Rightarrow>
             if rv \<noteq> DICT_OK then (rv, dest, source, m, evs)
             else merge_update m (fst (dict_read_next m copy)) (snd (dict_read_next m copy)) dest source (evs @ [(t_key m dt, st, dt)])))"
  by pat_completeness auto
termination
  by (relation "measure (\<lambda>(m, dt, copy, dest, source, evs). room dt copy)") (auto simp: read_next_rooms)

function merge_rest :: "mem \<Rightarrow> ptr \<Rightarrow> dict_iter option \<Rightarrow> dict_iter option \<Rightarrow> merge_event list
    \<Rightarrow> dict_result \<times> dict_iter option \<times> dict_iter option \<times> mem \<times> merge_event list" where
  "merge_rest m st source dest evs =
    (if st = NULL then (DICT_OK, dest, source, m, evs)
     else case dict_write dest m (t_key m st) (At (st + SIZEOF_TUPLE)) (t_length m st) (t_type m st) of
       (rv, dest, m) \<Rightarrow>
         if rv \<noteq> DICT_OK then (rv, dest, source, m, evs)
         else merge_rest m (fst (dict_read_next m source)) (snd (dict_read_next m source)) dest (evs @ [(t_key m st, st, NULL)]))"
  by pat_completeness auto
termination
  by (relation "measure (\<lambda>(m, st, source, dest, evs). room st source)") (auto simp: read_next_rooms)

declare merge_copy.simps [simp del] merge_update.simps [simp del] merge_rest.simps [simp del]

text \<open>\<open>buf_copy\<close> is the address of the local array and \<open>it0\<close> what the local iterator holds. The result of
  \<open>dict_write_end\<close> on the copy is zero, which ends the call with \<open>DICT_OK\<close>, when there was nothing to copy.\<close>

definition dict_merge :: "mem \<Rightarrow> dict_iter option \<Rightarrow> u32 \<Rightarrow> dict_iter option \<Rightarrow> bool \<Rightarrow> bool \<Rightarrow> dict_iter \<Rightarrow> ptr
    \<Rightarrow> dict_result \<times> dict_iter option \<times> dict_iter option \<times> mem \<times> merge_event list" where
  "dict_merge m dest dest_max_size source update_existing_keys_only key_callback it0 buf_copy =
    (let events = (\<lambda>evs. if key_callback then evs else []) in
     case dict_write_begin (Some it0) m buf_copy (ucast dest_max_size) of
       (rv, copy, m) \<Rightarrow>
         if rv \<noteq> DICT_OK then (rv, dest, source, m, [])
         else case dict_read_first m dest of (dt, dest) \<Rightarrow>
           case merge_copy m dt dest copy of (rv, dest, copy, m) \<Rightarrow>
             if rv \<noteq> DICT_OK then (rv, dest, source, m, [])
             else case dict_write_end copy of (written, copy) \<Rightarrow>
               if written = 0 then (DICT_OK, dest, source, m, [])
               else case dict_read_first m source of (st, source) \<Rightarrow>
                 case dict_write_begin dest m (case dest of None \<Rightarrow> NULL | Some d \<Rightarrow> d_dictionary d) (ucast dest_max_size) of
                   (rv, dest, m) \<Rightarrow>
                     if rv \<noteq> DICT_OK then (rv, dest, source, m, [])
                     else case dict_read_first m copy of (dt, copy) \<Rightarrow>
                       case merge_update m dt copy dest source [] of (rv, dest, source, m, evs) \<Rightarrow>
                         if rv \<noteq> DICT_OK then (rv, dest, source, m, events evs)
                         else if update_existing_keys_only then (rv, snd (dict_write_end dest), source, m, events evs)
                         else case dict_read_first m source of (st, source) \<Rightarrow>
                           case merge_rest m st source dest evs of (rv, dest, source, m, evs) \<Rightarrow>
                             if rv \<noteq> DICT_OK then (rv, dest, source, m, events evs)
                             else (rv, snd (dict_write_end dest), source, m, events evs))"

subsection \<open>Sequences of tuples\<close>

type_synonym dict_entry = "u32 \<times> u8 \<times> bytes"

definition enc1 :: "dict_entry \<Rightarrow> bytes" where
  "enc1 e = (case e of (k, ty, d) \<Rightarrow> tuple_hdr k ty (word_of_nat (length d)) @ d)"

definition enc :: "dict_entry list \<Rightarrow> bytes" where
  "enc es = concat (map enc1 es)"

definition entry_ok :: "dict_entry \<Rightarrow> bool" where
  "entry_ok e \<longleftrightarrow> (case e of (k, ty, d) \<Rightarrow> d \<noteq> [] \<and> length d < 0x10000)"

definition tuple_at :: "mem \<Rightarrow> ptr \<Rightarrow> dict_entry" where
  "tuple_at m t = (t_key m t, t_type m t, t_data m t)"

text \<open>What a reader sees that calls \<open>dict_read_next\<close> until it returns null.\<close>

function dict_rest :: "mem \<Rightarrow> ptr \<Rightarrow> dict_iter option \<Rightarrow> ptr list" where
  "dict_rest m t iter = (if t = NULL then [] else t # dict_rest m (fst (dict_read_next m iter)) (snd (dict_read_next m iter)))"
  by pat_completeness auto
termination
  by (relation "measure (\<lambda>(m, t, iter). room t iter)") (auto simp: read_next_rooms)

declare dict_rest.simps [simp del]

primrec writes :: "dict_iter option \<Rightarrow> mem \<Rightarrow> dict_entry list \<Rightarrow> dict_result list \<times> dict_iter option \<times> mem" where
  "writes iter m [] = ([], iter, m)" |
  "writes iter m (e # es) = (case dict_write iter m (fst e) (Val (snd (snd e))) (word_of_nat (length (snd (snd e)))) (fst (snd e)) of
     (rv, iter, m) \<Rightarrow> case writes iter m es of (rvs, iter, m) \<Rightarrow> (rv # rvs, iter, m))"

lemma mread_append_eq: "mread m a (length xs + length ys) = xs @ ys \<longleftrightarrow> mread m a (length xs) = xs \<and> mread m (a + length xs) (length ys) = ys"
  unfolding mread_add by (rule append_eq_append_conv) simp

lemma tuple_hdr_length [simp]: "length (tuple_hdr k ty n) = 7"
  by (simp add: tuple_hdr_def)

lemma enc1_length: "length (enc1 (k, ty, d)) = 7 + length d"
  by (simp add: enc1_def)

lemma enc_Cons: "enc (e # es) = enc1 e @ enc es"
  by (simp add: enc_def)

lemma enc_append: "enc (es @ es') = enc es @ enc es'"
  by (simp add: enc_def)

lemma enc_Nil [simp]: "enc [] = []"
  by (simp add: enc_def)

lemma tuple_read:
  assumes "mread m t (7 + length d) = tuple_hdr k ty (word_of_nat (length d)) @ d" "length d < 0x10000"
  shows "tuple_at m t = (k, ty, d)" "unat (t_length m t) = length d"
proof -
  have h: "mread m t 7 = tuple_hdr k ty (word_of_nat (length d))" and d: "mread m (t + 7) (length d) = d"
    using assms(1) unfolding mread_add by (auto dest: append_eq_append_conv [THEN iffD1, rotated])
  have ty: "m (t + 4) = ty" using arg_cong [OF h, of "\<lambda>bs. bs ! 4"] by (simp add: tuple_hdr_def le32_def nth_append)
  have "get32 (mread m t 7) 0 = k" unfolding h by (simp add: tuple_hdr_def get32_def le32_def nth_append get32_le32)
  moreover have len: "get16 (mread m t 7) 5 = word_of_nat (length d)"
    unfolding h by (simp add: tuple_hdr_def get16_def le32_def le16_def nth_append get16_le16)
  moreover have u: "unat (word_of_nat (length d) :: u16) = length d" using assms(2) by (simp add: unat_of_nat)
  ultimately show "tuple_at m t = (k, ty, d)" "unat (t_length m t) = length d"
    using ty d by (simp_all add: tuple_at_def t_key_def t_type_def t_data_def t_length_def SIZEOF_TUPLE_def)
qed


subsection \<open>The writer\<close>

text \<open>An iterator that has written \<open>es\<close> into a buffer of \<open>n\<close> bytes at \<open>b\<close>.\<close>

definition wrote :: "dict_iter \<Rightarrow> mem \<Rightarrow> ptr \<Rightarrow> nat \<Rightarrow> dict_entry list \<Rightarrow> bool" where
  "wrote it m b n es \<longleftrightarrow> b \<noteq> NULL \<and> d_dictionary it = b \<and> d_end it = b + 1 + n \<and> d_cursor it = b + 1 + length (enc es) \<and>
     mread m (b + 1) (length (enc es)) = enc es \<and> m b = word_of_nat (length es)"

lemma enc_length: "length (enc es) = 7 * length es + sum_list (map (\<lambda>(k, ty, d). length d) es)"
proof (induction es)
  case (Cons e es)
  then show ?case by (cases e) (simp add: enc_Cons enc1_length)
qed (simp add: enc_def)

lemma write_begin:
  assumes "b \<noteq> NULL" "sz \<noteq> 0"
  shows "\<exists>it m'. dict_write_begin (Some it0) m b sz = (DICT_OK, Some it, m') \<and> wrote it m' b (unat sz) [] \<and>
    (\<forall>a. a < b \<or> b + unat sz \<le> a \<longrightarrow> m' a = m a)"
proof -
  have "0 < unat sz" using assms(2) by (simp add: unat_gt_0)
  then show ?thesis using assms by (simp add: dict_write_begin_def wrote_def mfill_def)
qed

lemma write_step:
  assumes w: "wrote it m b n es" and e: "entry_ok (k, ty, d)" and n: "length (enc (es @ [(k, ty, d)])) \<le> n" "length es < 255"
  shows "\<exists>it' m'. dict_write (Some it) m k (Val d) (word_of_nat (length d)) ty = (DICT_OK, Some it', m') \<and> wrote it' m' b n (es @ [(k, ty, d)]) \<and>
    (\<forall>a. a < b \<or> b + 1 + length (enc (es @ [(k, ty, d)])) \<le> a \<longrightarrow> m' a = m a)"
proof -
  let ?L = "length (enc es)"
  have d: "d \<noteq> []" "length d < 0x10000" using e by (simp_all add: entry_ok_def)
  have u: "unat (word_of_nat (length d) :: u16) = length d" using d(2) by (simp add: unat_of_nat)
  have nz: "(word_of_nat (length d) :: u16) \<noteq> 0" using u d(1) by (metis length_0_conv unat_0)
  have len: "length (enc (es @ [(k, ty, d)])) = ?L + 7 + length d" by (simp add: enc_append enc_Cons enc1_length)
  have b: "b \<noteq> 0" "d_dictionary it = b" "d_cursor it = b + 1 + ?L" "d_end it = b + 1 + n"
    "mread m (b + 1) ?L = enc es" "m b = word_of_nat (length es)" using w by (simp_all add: wrote_def)
  define m1 where "m1 = mwrite m (b + 1 + ?L) (tuple_hdr k ty (word_of_nat (length d)))"
  define m2 where "m2 = mwrite m1 (b + 1 + ?L + 7) d"
  define m3 where "m3 = mwrite m2 b [m2 b + 1]"
  have cnt: "m b \<noteq> 255"
  proof
    assume "m b = 255"
    then have "unat (word_of_nat (length es) :: u8) = 255" using b(6) by simp
    then show False using n(2) by (simp add: unat_of_nat)
  qed
  have r3: "mread m3 x k' = mread m2 x k'" if "b < x" for x k'
    unfolding m3_def using that by (intro mread_mwrite_disjoint) simp
  have "mread m3 (b + 1) (?L + (7 + length d)) = mread m2 (b + 1) ?L @ mread m2 (b + 1 + ?L) 7 @ mread m2 (b + 1 + ?L + 7) (length d)"
    by (subst r3) (simp_all add: mread_add add.assoc)
  also have "mread m2 (b + 1) ?L = mread m (b + 1) ?L"
    unfolding m2_def m1_def by (subst mread_mwrite_disjoint, simp)+ simp
  also have "mread m2 (b + 1 + ?L) 7 = tuple_hdr k ty (word_of_nat (length d))"
    unfolding m2_def using mread_mwrite_same [of m "b + 1 + ?L" "tuple_hdr k ty (word_of_nat (length d))"]
    by (subst mread_mwrite_disjoint) (simp_all add: m1_def)
  also have "mread m2 (b + 1 + ?L + 7) (length d) = d" unfolding m2_def by (rule mread_mwrite_same)
  finally have rd: "mread m3 (b + 1) (?L + (7 + length d)) = enc (es @ [(k, ty, d)])"
    using b(5) by (simp add: enc_append enc_Cons enc1_def)
  have "m2 b = m b" by (simp add: m2_def m1_def mwrite_out)
  then have "m3 b = word_of_nat (length (es @ [(k, ty, d)]))" by (simp add: m3_def mwrite_def b(6))
  moreover have "dict_write (Some it) m k (Val d) (word_of_nat (length d)) ty
     = (DICT_OK, Some (it\<lparr>d_cursor := b + 1 + ?L + 7 + length d\<rparr>), m3)"
    using b cnt nz n(1) len by (simp add: dict_write_def is_null_def u SIZEOF_TUPLE_def Let_def m1_def [symmetric] m2_def [symmetric] m3_def [symmetric] add.assoc)
      (simp add: m3_def m2_def m1_def)
  moreover have "m3 a = m a" if "a < b \<or> b + 1 + length (enc (es @ [(k, ty, d)])) \<le> a" for a
    unfolding m3_def m2_def m1_def using that len by (subst mwrite_out, auto simp: tuple_hdr_def le32_def le16_def)+
  ultimately show ?thesis using b rd len by (auto simp: wrote_def add.assoc)
qed

lemma writes_all:
  assumes "wrote it m b n es" "\<forall>e \<in> set es'. entry_ok e" "length (enc (es @ es')) \<le> n" "length es + length es' \<le> 255"
  shows "\<exists>it' m'. writes (Some it) m es' = (replicate (length es') DICT_OK, Some it', m') \<and> wrote it' m' b n (es @ es') \<and>
    (\<forall>a. a < b \<or> b + 1 + length (enc (es @ es')) \<le> a \<longrightarrow> m' a = m a)"
  using assms
proof (induction es' arbitrary: it m es)
  case Nil
  then show ?case by simp
next
  case (Cons e es')
  obtain k ty d where e: "e = (k, ty, d)" by (cases e) auto
  have "length (enc (es @ [e])) \<le> n" using Cons.prems(3) by (simp add: enc_append enc_Cons)
  then obtain it1 m1 where s: "dict_write (Some it) m k (Val d) (word_of_nat (length d)) ty = (DICT_OK, Some it1, m1)"
    "wrote it1 m1 b n (es @ [e])" "\<forall>a. a < b \<or> b + 1 + length (enc (es @ [e])) \<le> a \<longrightarrow> m1 a = m a"
    using write_step [OF Cons.prems(1), of k ty d] Cons.prems e by auto
  obtain it' m' where w: "writes (Some it1) m1 es' = (replicate (length es') DICT_OK, Some it', m')" "wrote it' m' b n (es @ e # es')"
    "\<forall>a. a < b \<or> b + 1 + length (enc (es @ e # es')) \<le> a \<longrightarrow> m' a = m1 a"
    using Cons.IH [OF s(2)] Cons.prems by auto
  have "length (enc (es @ [e])) \<le> length (enc (es @ e # es'))" by (simp add: enc_append enc_Cons)
  then show ?case using w s by (auto simp: e)
qed

subsection \<open>The reader\<close>

lemma read_rest:
  assumes "mread m a (length (enc (e # es))) = enc (e # es)" "\<forall>e \<in> set (e # es). entry_ok e" "a \<noteq> NULL" "d_dictionary it \<noteq> NULL"
    and "d_end it = a + length (enc (e # es))" "d_cursor it = a + length (enc1 e)"
  shows "map (tuple_at m) (dict_rest m a (Some it)) = e # es"
  using assms
proof (induction es arbitrary: e a it)
  case Nil
  obtain k ty d where e: "e = (k, ty, d)" by (cases e) auto
  have "tuple_at m a = e" using tuple_read(1) [of m a d k ty] Nil.prems(1,2) by (simp add: e enc_Cons enc1_def entry_ok_def)
  moreover have "dict_read_next m (Some it) = (NULL, Some it)" using Nil.prems by (simp add: dict_read_next_def enc_Cons)
  ultimately show ?case using Nil.prems(3) by (simp add: dict_rest.simps [of m a] dict_rest.simps [of m NULL])
next
  case (Cons e' es)
  obtain k ty d where e: "e = (k, ty, d)" by (cases e) auto
  obtain k' ty' d' where e': "e' = (k', ty', d')" by (cases e') auto
  let ?c = "a + length (enc1 e)"
  have len: "length (enc (e # e' # es)) = length (enc1 e) + length (enc (e' # es))" by (simp add: enc_Cons)
  have r: "mread m a (length (enc1 e)) = enc1 e" "mread m ?c (length (enc (e' # es))) = enc (e' # es)"
    using Cons.prems(1) by (simp_all only: len enc_Cons [of e] length_append mread_append_eq)
  have t: "tuple_at m a = e" using tuple_read(1) [of m a d k ty] r(1) Cons.prems(2) by (simp add: e enc1_def entry_ok_def)
  have ok': "d' \<noteq> []" "length d' < 0x10000" using Cons.prems(2) by (simp_all add: e' entry_ok_def)
  have "mread m ?c (7 + length d') = tuple_hdr k' ty' (word_of_nat (length d')) @ d'"
  proof -
    have l: "length (enc (e' # es)) = (7 + length d') + length (enc es)" by (simp add: enc_Cons e' enc1_length)
    have "take (7 + length d') (mread m ?c (length (enc (e' # es)))) = take (7 + length d') (enc (e' # es))" using r(2) by simp
    then show ?thesis unfolding l by (simp add: mread_take enc_Cons e' enc1_def)
  qed
  note tr = tuple_read(2) [OF this ok'(2)]
  have "7 < length (enc (e' # es))" using ok' by (simp add: enc_Cons e' enc1_length)
  then have nx: "dict_read_next m (Some it) = (?c, Some (it\<lparr>d_cursor := ?c + length (enc1 e')\<rparr>))"
    using Cons.prems(4-6) tr len by (simp add: dict_read_next_def SIZEOF_TUPLE_def e' enc1_length)
  have "map (tuple_at m) (dict_rest m ?c (Some (it\<lparr>d_cursor := ?c + length (enc1 e')\<rparr>))) = e' # es"
    using Cons.IH [OF r(2)] Cons.prems len by simp
  then show ?case using t nx Cons.prems(3) by (simp add: dict_rest.simps [of m a])
qed

lemma read_first:
  assumes "mread m (b + 1) (length (enc (e # es))) = enc (e # es)" "\<forall>e \<in> set (e # es). entry_ok e" "d_dictionary it = b" "b \<noteq> NULL"
    and "d_end it = b + 1 + length (enc (e # es))"
  shows "case dict_read_first m (Some it) of (t, iter) \<Rightarrow> t = b + 1 \<and> map (tuple_at m) (dict_rest m t iter) = e # es"
proof -
  obtain k ty d where e: "e = (k, ty, d)" by (cases e) auto
  have ok: "d \<noteq> []" "length d < 0x10000" using assms(2) by (simp_all add: e entry_ok_def)
  have "mread m (b + 1) (7 + length d) = tuple_hdr k ty (word_of_nat (length d)) @ d"
  proof -
    have l: "length (enc (e # es)) = (7 + length d) + length (enc es)" by (simp add: enc_Cons e enc1_length)
    have "take (7 + length d) (mread m (b + 1) (length (enc (e # es)))) = take (7 + length d) (enc (e # es))" using assms(1) by simp
    then show ?thesis unfolding l by (simp add: mread_take enc_Cons e enc1_def)
  qed
  note tr = tuple_read(2) [OF this ok(2)]
  have "7 < length (enc (e # es))" using ok by (simp add: enc_Cons e enc1_length)
  then have "dict_read_first m (Some it) = (b + 1, Some (it\<lparr>d_cursor := b + 1 + length (enc1 e)\<rparr>))"
    using assms(3-5) tr by (simp add: dict_read_first_def dict_read_next_def SIZEOF_TUPLE_def e enc1_length)
  then show ?thesis using read_rest [OF assms(1,2), of "it\<lparr>d_cursor := b + 1 + length (enc1 e)\<rparr>"] assms by simp
qed

lemma find_loop:
  "fst (dict_find_loop m key t iter) = (case filter (\<lambda>t. t_key m t = key) (dict_rest m t iter) of [] \<Rightarrow> NULL | x # _ \<Rightarrow> x)"
proof (induction m key t iter rule: dict_find_loop.induct)
  case (1 m key t iter)
  show ?case
    by (subst dict_find_loop.simps, subst dict_rest.simps) (use 1 in simp)
qed


subsection \<open>Properties\<close>

text \<open>C21: the round trip of a dictionary: entries written one after another into a buffer of the size dictionary.h asks for, one byte
  and seven for each entry and those of the values, are all accepted, nothing outside the buffer is written, and reading the buffer
  from the start, with the length \<open>dict_write_end\<close> returned, gives exactly those entries, keys, types and values, in the same order.\<close>

theorem dict_write_read:
  assumes "buffer \<noteq> NULL" "\<forall>e \<in> set es. entry_ok e" "es \<noteq> []" "length es \<le> 255"
    and "1 + 7 * length es + sum_list (map (\<lambda>(k, ty, d). length d) es) \<le> unat sz"
  shows "case dict_write_begin (Some it0) m buffer sz of (_, iter, m1) \<Rightarrow>
    case writes iter m1 es of (rvs, iter, m2) \<Rightarrow>
    case dict_write_end iter of (written, _) \<Rightarrow>
    case dict_read_begin_from_buffer m2 (Some it1) buffer (ucast written) of (t, iter) \<Rightarrow>
      rvs = replicate (length es) DICT_OK \<and> map (tuple_at m2) (dict_rest m2 t iter) = es \<and>
      (\<forall>a. a < buffer \<or> buffer + unat sz \<le> a \<longrightarrow> m2 a = m a)"
proof -
  obtain e es' where es: "es = e # es'" using assms(3) by (cases es) auto
  have room: "1 + length (enc es) \<le> unat sz" using assms(5) by (simp add: enc_length)
  have pos: "0 < length (enc es)" by (cases e) (simp add: es enc_Cons enc1_length)
  then have "sz \<noteq> 0" using room by auto
  from write_begin [OF assms(1) this, of it0 m] obtain i1 m1 where b: "dict_write_begin (Some it0) m buffer sz = (DICT_OK, Some i1, m1)"
    "wrote i1 m1 buffer (unat sz) []" "\<forall>a. a < buffer \<or> buffer + unat sz \<le> a \<longrightarrow> m1 a = m a" by blast
  from writes_all [OF b(2) assms(2)] assms(4) room obtain i2 m2 where w: "writes (Some i1) m1 es = (replicate (length es) DICT_OK, Some i2, m2)"
    "wrote i2 m2 buffer (unat sz) es" "\<forall>a. a < buffer \<or> buffer + 1 + length (enc es) \<le> a \<longrightarrow> m2 a = m1 a" by auto
  have fr: "\<forall>a. a < buffer \<or> buffer + unat sz \<le> a \<longrightarrow> m2 a = m a" using b(3) w(3) room by auto
  define n where "n = length (enc es)"
  have n: "n < 0x10000" "0 < n" using le_less_trans [OF room unat_u16_less] pos by (simp_all add: n_def)
  have u: "unat (ucast (word_of_nat n :: u32) :: u16) = n"
    using n by (simp add: unsigned_ucast_eq unat_of_nat take_bit_nat_eq_self)
  then have "(ucast (word_of_nat n :: u32) :: u16) \<noteq> 0" using n(2) by (metis less_irrefl unat_0)
  have e: "dict_write_end (Some i2) = (word_of_nat n, Some (i2\<lparr>d_end := buffer + 1 + n, d_cursor := buffer + 1\<rparr>))"
    using w(2) assms(1) by (simp add: dict_write_end_def wrote_def n_def)
  let ?it = "\<lparr> d_dictionary = buffer, d_end = buffer + 1 + n, d_cursor = buffer + 1 \<rparr>"
  have "case dict_read_first m2 (Some ?it) of (t, iter) \<Rightarrow> t = buffer + 1 \<and> map (tuple_at m2) (dict_rest m2 t iter) = es"
    using read_first [of m2 buffer e es' ?it] w(2) assms(1,2) by (simp add: wrote_def es n_def)
  then show ?thesis using b(1) w(1) fr e u \<open>ucast (word_of_nat n :: u32) \<noteq> (0 :: u16)\<close> assms(1)
    by (simp add: dict_read_begin_from_buffer_def split: prod.splits)
qed

theorem dict_write_read_witness:
  "case dict_write_begin (Some \<lparr> d_dictionary = 0, d_end = 0, d_cursor = 0 \<rparr>) (\<lambda>_. 0) 1000 18 of (_, iter, m1) \<Rightarrow>
    case writes iter m1 [(8, 2, [1, 2]), (9, 0, [5])] of (rvs, iter, m2) \<Rightarrow>
    case dict_write_end iter of (written, _) \<Rightarrow>
    case dict_read_begin_from_buffer m2 (Some \<lparr> d_dictionary = 0, d_end = 0, d_cursor = 0 \<rparr>) 1000 (ucast written) of (t, iter) \<Rightarrow>
      rvs = [DICT_OK, DICT_OK] \<and> map (tuple_at m2) (dict_rest m2 t iter) = [(8, 2, [1, 2]), (9, 0, [5])] \<and>
      (\<forall>a. a < 1000 \<or> 1000 + unat (18 :: u16) \<le> a \<longrightarrow> m2 a = 0)"
proof -
  let ?es = "[(8, 2, [1, 2]), (9, 0, [5])] :: dict_entry list"
  have len: "1 + 7 * length ?es + sum_list (map (\<lambda>(k, ty, d). length d) ?es) \<le> unat (18 :: u16)" by simp
  have ok: "\<forall>e \<in> set ?es. entry_ok e" "?es \<noteq> []" "length ?es \<le> 255" "(1000 :: nat) \<noteq> NULL" by (simp_all add: entry_ok_def)
  have r: "replicate (length ?es) DICT_OK = [DICT_OK, DICT_OK]" by simp
  show ?thesis by (rule dict_write_read [OF ok(4,1,2,3) len, unfolded r])
qed

text \<open>Lookup: \<open>dict_find\<close> over a buffer that holds entries \<open>es\<close> returns the first tuple with the key, and null
  when no entry has it; it always ends.\<close>

theorem dict_find_first:
  assumes "mread m (b + 1) (length (enc es)) = enc es" "\<forall>e \<in> set es. entry_ok e" "es \<noteq> []" "b \<noteq> NULL"
  shows "case fst (dict_find m (Some \<lparr> d_dictionary = b, d_end = b + 1 + length (enc es), d_cursor = c \<rparr>) key) of t \<Rightarrow>
    (case find (\<lambda>e. fst e = key) es of None \<Rightarrow> t = NULL | Some e \<Rightarrow> t \<noteq> NULL \<and> tuple_at m t = e)"
proof -
  let ?it = "\<lparr> d_dictionary = b, d_end = b + 1 + length (enc es), d_cursor = c \<rparr>"
  obtain e es' where es: "es = e # es'" using assms(3) by (cases es) auto
  obtain t iter where f: "dict_read_first m (Some ?it) = (t, iter)" "map (tuple_at m) (dict_rest m t iter) = es"
    using read_first [of m b e es' ?it] assms by (auto simp: es)
  have nz: "NULL \<notin> set (dict_rest m t iter)" for t iter
    by (induction m t iter rule: dict_rest.induct) (subst dict_rest.simps, auto)
  have "case (case filter (\<lambda>t. t_key m t = key) ts of [] \<Rightarrow> NULL | x # _ \<Rightarrow> x) of t \<Rightarrow>
      (case find (\<lambda>e. fst e = key) (map (tuple_at m) ts) of None \<Rightarrow> t = NULL | Some e \<Rightarrow> t \<noteq> NULL \<and> tuple_at m t = e)"
    if "NULL \<notin> set ts" for ts
    using that
  proof (induction ts)
    case (Cons a ts)
    then show ?case by (cases "t_key m a = key") (simp_all add: tuple_at_def split: option.splits)
  qed simp
  note this [OF nz, of t iter, unfolded f(2), folded find_loop]
  moreover have "fst (dict_find m (Some ?it) key) = fst (dict_find_loop m key t iter)"
    using f(1) assms(4) by (simp add: dict_find_def)
  ultimately show ?thesis by (simp only: case_prod_conv Let_def)
qed

definition ex_dict :: mem where
  "ex_dict = mwrite (\<lambda>_. 0) 1001 (enc [(8, 2, [1]), (9, 0, [5])])"

theorem dict_find_first_witness:
  "case fst (dict_find ex_dict (Some \<lparr> d_dictionary = 1000, d_end = 1017, d_cursor = 0 \<rparr>) 9) of t \<Rightarrow> t \<noteq> NULL \<and> tuple_at ex_dict t = (9, 0, [5])"
proof -
  have l: "length (enc [(8, 2, [1]), (9, 0, [5])]) = 16" by (simp add: enc_Cons enc1_length)
  have "mread ex_dict 1001 16 = enc [(8, 2, [1]), (9, 0, [5])]"
    using mread_mwrite_same [of "\<lambda>_. 0" 1001 "enc [(8, 2, [1]), (9, 0, [5])]"] unfolding l ex_dict_def .
  then show ?thesis
    using dict_find_first [of ex_dict 1000 "[(8, 2, [1]), (9, 0, [5])]" 0 9] unfolding l by (simp add: entry_ok_def)
qed

text \<open>A write that fails leaves the iterator and the whole memory as they were; one that succeeds moves the
  cursor by the tuple's size, not past the end, and changes only the entry count and the bytes the cursor
  moved over.\<close>

theorem dict_write_confined:
  assumes "dict_write (Some it) m key data sz ty = (rv, iter', m')"
  shows "if rv = DICT_OK
    then iter' = Some (it\<lparr>d_cursor := d_cursor it + 7 + unat sz\<rparr>) \<and> d_cursor it + 7 + unat sz \<le> d_end it \<and>
      (\<forall>x. x \<noteq> d_dictionary it \<longrightarrow> x < d_cursor it \<or> d_cursor it + 7 + unat sz \<le> x \<longrightarrow> m' x = m x)
    else iter' = Some it \<and> m' = m"
proof -
  define m1 where "m1 = mwrite m (d_cursor it) (tuple_hdr key ty sz)"
  define m2 where "m2 = mwrite m1 (d_cursor it + 7) (src_bytes m1 data (unat sz))"
  have l: "length (src_bytes m1 data (unat sz)) \<le> unat sz" by (cases data) auto
  have out: "m2 x = m x" if "x < d_cursor it \<or> d_cursor it + 7 + unat sz \<le> x" for x
    unfolding m2_def m1_def using that l unfolding m1_def by (subst mwrite_out, force)+ simp
  show ?thesis
  proof (cases "rv = DICT_OK")
    case True
    then have "m' = mwrite m2 (d_dictionary it) [m2 (d_dictionary it) + 1]"
      "iter' = Some (it\<lparr>d_cursor := d_cursor it + 7 + unat sz\<rparr>)" "d_cursor it + 7 + unat sz \<le> d_end it"
      using assms by (auto simp: dict_write_def SIZEOF_TUPLE_def Let_def m1_def [symmetric] m2_def [symmetric] split: if_splits)
    then show ?thesis using True out by (simp add: mwrite_def)
  next
    case False
    then show ?thesis using assms by (auto simp: dict_write_def Let_def split: if_splits)
  qed
qed

theorem dict_write_confined_witness:
  "dict_write (Some \<lparr> d_dictionary = 1000, d_end = 1008, d_cursor = 1001 \<rparr>) (\<lambda>_. 0) 3 (Val [1, 2]) 2 0
    = (DICT_NOT_ENOUGH_STORAGE, Some \<lparr> d_dictionary = 1000, d_end = 1008, d_cursor = 1001 \<rparr>, \<lambda>_. 0)"
proof -
  obtain rv iter' m' where w: "dict_write (Some \<lparr> d_dictionary = 1000, d_end = 1008, d_cursor = 1001 \<rparr>) (\<lambda>_. 0) 3 (Val [1, 2]) 2 0 = (rv, iter', m')"
    by (metis prod_cases3)
  moreover have "rv = DICT_NOT_ENOUGH_STORAGE" using w by (simp add: dict_write_def is_null_def SIZEOF_TUPLE_def)
  ultimately show ?thesis using dict_write_confined [OF w] by simp
qed

text \<open>The end of the iterator counts the size from after the entry count, so a write can end one byte past the
  buffer: a value of one byte in a buffer of 8 goes to address 8.\<close>

lemma dict_write_past_end:
  assumes "b \<noteq> NULL"
  shows "case dict_write_begin (Some it0) m b 8 of (_, iter, m) \<Rightarrow>
    case dict_write_uint8 iter m key v of (rv, _, m') \<Rightarrow> rv = DICT_OK \<and> m' (b + 8) = v"
  using assms by (simp add: dict_write_begin_def dict_write_uint8_def dict_write_def is_null_def SIZEOF_TUPLE_def mfill_def mwrite_def Let_def)

text \<open>\<open>dict_size\<close> takes every tuple for as long as the first.\<close>

lemma dict_size_first:
  "t \<noteq> NULL \<Longrightarrow> fst (dict_size_loop m t iter tot n) = tot + of_nat n * (7 + ucast (t_length m t)) + 1"
  by (induction n arbitrary: iter tot) (auto simp: SIZEOF_TUPLE_def algebra_simps)

end
