(* ===== verification/Buttons.thy ===== *)
theory Buttons
  imports Timers
begin

section \<open>Buttons: rcore/buttons.c\<close>

text \<open>
  The button thread: on every wake-up it samples each button, debounces it, and turns edges and the
  passing of time into click messages for whoever owns the button, the overlay before the
  application. A round of the loop over one button is \<open>button_scan\<close>; the tick counter and the button's
  level are read several times in it and can change between the reads, so both are functions of the
  number of the read. A handler is a number, 0 for none. \<open>click_messages\<close> are the messages posted, in order. The lemmas
  show that without repetition a press is either a click or a long click, that bounces are ignored, that the thread
  wakes up in time, and that the overlay and the application configure only their own side.
\<close>

datatype button_owner = OWNER_OVERLAY | OWNER_APP

record click_config =
  c_context :: nat
  click_handler :: nat
  click_repeat_interval_ms :: u16
  multi_click_handler :: nat
  long_click_delay_ms :: u16
  long_click_handler :: nat
  long_click_release_handler :: nat
  raw_up_handler :: nat
  raw_down_handler :: nat

record button_holder =
  button_id :: nat
  config :: "button_owner \<Rightarrow> click_config"
  pressed :: bool
  did_long_click :: bool
  is_repeating :: bool
  last_transition :: u32
  last_repeat_time :: u32
  press_time :: u32

record button_message =
  m_owner :: button_owner
  m_callback :: nat
  m_clickref :: nat
  m_context :: nat

definition NUM_BUTTONS :: nat where "NUM_BUTTONS = 4"
definition portMAX_DELAY :: u32 where "portMAX_DELAY = 0xFFFFFFFF"
definition butDEBOUNCE_DELAY :: "u32 \<Rightarrow> u32" where "butDEBOUNCE_DELAY hz = pdMS_TO_TICKS hz 2"

definition no_config :: click_config where
  "no_config = \<lparr> c_context = 0, click_handler = 0, click_repeat_interval_ms = 0, multi_click_handler = 0, long_click_delay_ms = 0,
     long_click_handler = 0, long_click_release_handler = 0, raw_up_handler = 0, raw_down_handler = 0 \<rparr>"

definition rcore_buttons_init :: "button_holder list" where
  "rcore_buttons_init = map (\<lambda>i. \<lparr> button_id = i, config = (\<lambda>_. no_config), pressed = False, did_long_click = False,
     is_repeating = False, last_transition = 0, last_repeat_time = 0, press_time = 0 \<rparr>) [0..<NUM_BUTTONS]"

subsection \<open>One button\<close>

definition has_handler :: "click_config \<Rightarrow> bool" where
  "has_handler c \<longleftrightarrow> click_handler c \<noteq> 0 \<or> multi_click_handler c \<noteq> 0 \<or> long_click_handler c \<noteq> 0 \<or>
     raw_up_handler c \<noteq> 0 \<or> raw_down_handler c \<noteq> 0"

definition button_owner_of :: "button_holder \<Rightarrow> button_owner option" where
  "button_owner_of btn = (if has_handler (config btn OWNER_OVERLAY) then Some OWNER_OVERLAY
     else if has_handler (config btn OWNER_APP) then Some OWNER_APP else None)"

definition button_send_app_click :: "button_holder \<Rightarrow> button_owner \<Rightarrow> nat \<Rightarrow> nat \<Rightarrow> button_message" where
  "button_send_app_click btn owner callback ctx =
     \<lparr> m_owner = owner, m_callback = callback, m_clickref = button_id btn, m_context = ctx \<rparr>"

text \<open>The messages of the edge, \<open>only c xs\<close> being those of an \<open>if\<close> without \<open>else\<close>.\<close>

definition only :: "bool \<Rightarrow> 'a list \<Rightarrow> 'a list" where
  "only c xs = (if c then xs else [])"

definition press_messages :: "button_holder \<Rightarrow> button_owner \<Rightarrow> click_config \<Rightarrow> button_message list" where
  "press_messages btn owner cfg =
     only (raw_down_handler cfg \<noteq> 0) [button_send_app_click btn owner (raw_down_handler cfg) (c_context cfg)] @
     only (click_handler cfg \<noteq> 0 \<and> long_click_handler cfg = 0) [button_send_app_click btn owner (click_handler cfg) (c_context cfg)]"

definition release_messages :: "button_holder \<Rightarrow> button_owner \<Rightarrow> click_config \<Rightarrow> button_message list" where
  "release_messages btn owner cfg =
     only (raw_up_handler cfg \<noteq> 0) [button_send_app_click btn owner (raw_up_handler cfg) (c_context cfg)] @
     only (click_handler cfg \<noteq> 0 \<and> long_click_handler cfg \<noteq> 0 \<and> \<not> did_long_click btn)
       [button_send_app_click btn owner (click_handler cfg) (c_context cfg)] @
     only (did_long_click btn \<and> long_click_release_handler cfg \<noteq> 0)
       [button_send_app_click btn owner (long_click_release_handler cfg) (c_context cfg)]"

definition button_edge :: "u32 \<Rightarrow> (nat \<Rightarrow> u32) \<Rightarrow> (nat \<Rightarrow> bool) \<Rightarrow> button_owner \<Rightarrow> click_config \<Rightarrow> button_holder
    \<Rightarrow> button_holder \<times> button_message list" where
  "button_edge hz tick hw owner cfg btn =
    (if pressed btn \<noteq> hw 0 \<and> tick 0 > last_transition btn + butDEBOUNCE_DELAY hz
     then let btn = btn\<lparr>pressed := hw 1, last_transition := tick 1\<rparr> in
       if pressed btn
       then let btn = btn\<lparr>press_time := tick 2, last_repeat_time := tick 2, did_long_click := False, is_repeating := False\<rparr>
            in (btn, press_messages btn owner cfg)
       else (btn, release_messages btn owner cfg)
     else (btn, []))"

definition button_long :: "u32 \<Rightarrow> (nat \<Rightarrow> u32) \<Rightarrow> button_owner \<Rightarrow> click_config \<Rightarrow> button_holder \<Rightarrow> u32
    \<Rightarrow> button_holder \<times> u32 \<times> button_message list" where
  "button_long hz tick owner cfg btn next_wakeup =
    (if pressed btn \<and> \<not> did_long_click btn \<and> long_click_handler cfg \<noteq> 0
     then let lc_wakeup = press_time btn + pdMS_TO_TICKS hz (ucast (long_click_delay_ms cfg)) in
       if tick 3 \<ge> lc_wakeup
       then let btn = btn\<lparr>did_long_click := True\<rparr>
            in (btn, next_wakeup, [button_send_app_click btn owner (long_click_handler cfg) (c_context cfg)])
       else (btn, if lc_wakeup < next_wakeup then lc_wakeup else next_wakeup, [])
     else (btn, next_wakeup, []))"

definition button_repeat :: "u32 \<Rightarrow> (nat \<Rightarrow> u32) \<Rightarrow> button_owner \<Rightarrow> click_config \<Rightarrow> button_holder \<Rightarrow> u32
    \<Rightarrow> button_holder \<times> u32 \<times> button_message list" where
  "button_repeat hz tick owner cfg btn next_wakeup =
    (if pressed btn \<and> click_handler cfg \<noteq> 0 \<and> click_repeat_interval_ms cfg \<noteq> 0
     then let interval = pdMS_TO_TICKS hz (ucast (click_repeat_interval_ms cfg));
              due = tick 4 \<ge> last_repeat_time btn + interval;
              btn = (if due then btn\<lparr>is_repeating := True, last_repeat_time := tick 5\<rparr> else btn);
              repeat_wakeup = last_repeat_time btn + interval
          in (btn, if repeat_wakeup < next_wakeup then repeat_wakeup else next_wakeup,
              only due [button_send_app_click btn owner (click_handler cfg) (c_context cfg)])
     else (btn, next_wakeup, []))"

definition button_scan :: "u32 \<Rightarrow> (nat \<Rightarrow> u32) \<Rightarrow> (nat \<Rightarrow> bool) \<Rightarrow> button_holder \<Rightarrow> u32 \<Rightarrow> button_holder \<times> u32 \<times> button_message list" where
  "button_scan hz tick hw btn next_wakeup =
    (case button_owner_of btn of
       None \<Rightarrow> (btn, next_wakeup, [])
     | Some owner \<Rightarrow>
         let cfg = config btn owner;
             (btn, ms1) = button_edge hz tick hw owner cfg btn;
             (btn, next_wakeup, ms2) = button_long hz tick owner cfg btn next_wakeup;
             (btn, next_wakeup, ms3) = button_repeat hz tick owner cfg btn next_wakeup
         in (btn, next_wakeup, ms1 @ ms2 @ ms3))"

subsection \<open>The thread\<close>

text \<open>How long the thread sleeps, \<open>None\<close> when it does not.\<close>

definition button_wait :: "u32 \<Rightarrow> u32 \<Rightarrow> u32 option" where
  "button_wait curticks next_wakeup =
    (if next_wakeup > curticks
     then Some (if next_wakeup = portMAX_DELAY then portMAX_DELAY else next_wakeup - curticks)
     else None)"

text \<open>One round after waking, \<open>inp i\<close> being what button \<open>i\<close> reads.\<close>

primrec button_scan_all :: "u32 \<Rightarrow> (nat \<Rightarrow> (nat \<Rightarrow> u32) \<times> (nat \<Rightarrow> bool)) \<Rightarrow> nat \<Rightarrow> button_holder list \<Rightarrow> u32
    \<Rightarrow> button_holder list \<times> u32 \<times> button_message list" where
  "button_scan_all hz inp i [] next_wakeup = ([], next_wakeup, [])" |
  "button_scan_all hz inp i (btn # btns) next_wakeup =
    (let (btn, next_wakeup, ms) = button_scan hz (fst (inp i)) (snd (inp i)) btn next_wakeup;
         (btns, next_wakeup, ms') = button_scan_all hz inp (i + 1) btns next_wakeup
     in (btn # btns, next_wakeup, ms @ ms'))"

definition button_round :: "u32 \<Rightarrow> (nat \<Rightarrow> (nat \<Rightarrow> u32) \<times> (nat \<Rightarrow> bool)) \<Rightarrow> button_holder list
    \<Rightarrow> button_holder list \<times> u32 \<times> button_message list" where
  "button_round hz inp btns = button_scan_all hz inp 0 btns portMAX_DELAY"

subsection \<open>Subscriptions\<close>

text \<open>\<open>overlay\<close> is \<open>appmanager_is_thread_overlay()\<close>.\<close>

definition owner_of_thread :: "bool \<Rightarrow> button_owner" where
  "owner_of_thread overlay = (if overlay then OWNER_OVERLAY else OWNER_APP)"

definition upd_config :: "bool \<Rightarrow> (click_config \<Rightarrow> click_config) \<Rightarrow> button_holder \<Rightarrow> button_holder" where
  "upd_config overlay f btn = btn\<lparr>config := (config btn)(owner_of_thread overlay := f (config btn (owner_of_thread overlay)))\<rparr>"

definition at_button :: "nat \<Rightarrow> bool \<Rightarrow> (click_config \<Rightarrow> click_config) \<Rightarrow> button_holder list \<Rightarrow> button_holder list" where
  "at_button i overlay f btns = (if i \<ge> NUM_BUTTONS then btns else btns[i := upd_config overlay f (btns ! i)])"

definition button_single_click_subscribe :: "bool \<Rightarrow> nat \<Rightarrow> nat \<Rightarrow> button_holder list \<Rightarrow> button_holder list" where
  "button_single_click_subscribe overlay i handler =
     at_button i overlay (\<lambda>c. c\<lparr>click_handler := handler, click_repeat_interval_ms := 0\<rparr>)"

definition button_single_repeating_click_subscribe :: "bool \<Rightarrow> nat \<Rightarrow> u16 \<Rightarrow> nat \<Rightarrow> button_holder list \<Rightarrow> button_holder list" where
  "button_single_repeating_click_subscribe overlay i ms handler =
     at_button i overlay (\<lambda>c. c\<lparr>click_handler := handler, click_repeat_interval_ms := ms\<rparr>)"

definition button_multi_click_subscribe :: "nat \<Rightarrow> button_holder list \<Rightarrow> button_holder list" where
  "button_multi_click_subscribe i btns = btns"

definition button_long_click_subscribe :: "bool \<Rightarrow> nat \<Rightarrow> u16 \<Rightarrow> nat \<Rightarrow> nat \<Rightarrow> button_holder list \<Rightarrow> button_holder list" where
  "button_long_click_subscribe overlay i ms down up =
     at_button i overlay (\<lambda>c. c\<lparr>long_click_handler := down, long_click_release_handler := up, long_click_delay_ms := ms\<rparr>)"

definition button_raw_click_subscribe :: "bool \<Rightarrow> nat \<Rightarrow> nat \<Rightarrow> nat \<Rightarrow> nat \<Rightarrow> button_holder list \<Rightarrow> button_holder list" where
  "button_raw_click_subscribe overlay i down up ctx =
     at_button i overlay (\<lambda>c. c\<lparr>raw_up_handler := up, raw_down_handler := down,
       c_context := (if ctx \<noteq> 0 then ctx else c_context c)\<rparr>)"

definition button_unsubscribe_all :: "bool \<Rightarrow> button_holder list \<Rightarrow> button_holder list" where
  "button_unsubscribe_all overlay btns = map (upd_config overlay (\<lambda>_. no_config)) btns"

definition button_set_click_context :: "bool \<Rightarrow> nat \<Rightarrow> nat \<Rightarrow> button_holder list \<Rightarrow> button_holder list" where
  "button_set_click_context overlay i ctx = at_button i overlay (\<lambda>c. c\<lparr>c_context := ctx\<rparr>)"

definition button_short_click_is_subscribed :: "nat \<Rightarrow> button_holder list \<Rightarrow> bool" where
  "button_short_click_is_subscribed i btns \<longleftrightarrow> i < NUM_BUTTONS \<and> click_handler (config (btns ! i) OWNER_APP) \<noteq> 0"

definition click_recognizer_is_repeating :: "button_holder \<Rightarrow> bool" where
  "click_recognizer_is_repeating btn = is_repeating btn"

definition click_recognizer_get_button_id :: "button_holder \<Rightarrow> nat" where
  "click_recognizer_get_button_id btn = button_id btn"


subsection \<open>Frames\<close>

lemma edge_config [simp]: "config (fst (button_edge hz tick hw owner cfg btn)) = config btn"
  by (simp add: button_edge_def Let_def)

lemma long_config [simp]: "config (fst (button_long hz tick owner cfg btn nw)) = config btn"
  by (simp add: button_long_def Let_def)

lemma repeat_config [simp]: "config (fst (button_repeat hz tick owner cfg btn nw)) = config btn"
  by (simp add: button_repeat_def Let_def)

lemma scan_config: "config (fst (button_scan hz tick hw btn nw)) = config btn"
proof (cases "button_owner_of btn")
  case None
  then show ?thesis by (simp add: button_scan_def)
next
  case (Some owner)
  let ?cfg = "config btn owner"
  obtain b1 ms1 where e: "button_edge hz tick hw owner ?cfg btn = (b1, ms1)" by fastforce
  obtain b2 nw2 ms2 where l: "button_long hz tick owner ?cfg b1 nw = (b2, nw2, ms2)" by (metis prod_cases3)
  obtain b3 nw3 ms3 where r: "button_repeat hz tick owner ?cfg b2 nw2 = (b3, nw3, ms3)" by (metis prod_cases3)
  show ?thesis
    using edge_config [of hz tick hw owner ?cfg btn] long_config [of hz tick owner ?cfg b1 nw] repeat_config [of hz tick owner ?cfg b2 nw2]
    by (simp add: button_scan_def Some Let_def e l r)
qed

lemma owner_cong: "config b = config b' \<Longrightarrow> button_owner_of b = button_owner_of b'"
  by (simp add: button_owner_of_def)

lemma scan_owner: "button_owner_of (fst (button_scan hz tick hw btn nw)) = button_owner_of btn"
  by (simp add: button_owner_of_def scan_config)

subsection \<open>A press is a click or a long click\<close>

definition is_click :: "click_config \<Rightarrow> button_message \<Rightarrow> bool" where
  "is_click cfg m \<longleftrightarrow> m_callback m = click_handler cfg \<or> m_callback m = long_click_handler cfg"

definition clicks :: "click_config \<Rightarrow> button_message list \<Rightarrow> nat" where
  "clicks cfg ms = length (filter (is_click cfg) ms)"

text \<open>A configuration with both handlers, told apart from the others, and no repetition.\<close>

definition click_and_long :: "click_config \<Rightarrow> bool" where
  "click_and_long cfg \<longleftrightarrow> click_handler cfg \<noteq> 0 \<and> long_click_handler cfg \<noteq> 0 \<and> click_repeat_interval_ms cfg = 0 \<and>
     raw_up_handler cfg \<notin> {click_handler cfg, long_click_handler cfg} \<and>
     raw_down_handler cfg \<notin> {click_handler cfg, long_click_handler cfg} \<and>
     long_click_release_handler cfg \<notin> {click_handler cfg, long_click_handler cfg}"

definition owed :: "button_holder \<Rightarrow> nat" where
  "owed btn = (if pressed btn \<and> did_long_click btn then 1 else 0)"

lemma clicks_append: "clicks cfg (xs @ ys) = clicks cfg xs + clicks cfg ys"
  by (simp add: clicks_def)

lemma scan_clicks:
  assumes ow: "button_owner_of btn = Some owner" "config btn owner = cfg" and cfg: "click_and_long cfg" and hw: "hw 1 = hw 0"
    and s: "button_scan hz tick hw btn nw = (btn', nw', ms)"
  shows "clicks cfg ms + owed btn = (if pressed btn \<and> \<not> pressed btn' then 1 else 0) + owed btn'"
proof -
  obtain b1 ms1 where e: "button_edge hz tick hw owner cfg btn = (b1, ms1)" by fastforce
  obtain b2 nw2 ms2 where l: "button_long hz tick owner cfg b1 nw = (b2, nw2, ms2)" by (metis prod_cases3)
  have r: "button_repeat hz tick owner cfg b2 nw2 = (b2, nw2, [])" using cfg by (simp add: button_repeat_def click_and_long_def)
  have s': "btn' = b2" "ms = ms1 @ ms2" using s ow e l r by (simp_all add: button_scan_def Let_def)
  have c1: "clicks cfg ms1 + owed btn = (if pressed btn \<and> \<not> pressed b1 then 1 else 0) + owed b1"
    using e cfg hw
    by (auto simp: button_edge_def Let_def press_messages_def release_messages_def only_def button_send_app_click_def
        clicks_def is_click_def owed_def click_and_long_def split: if_splits)
  have c2: "clicks cfg ms2 + owed b1 = owed b2" "pressed b2 = pressed b1"
    using l cfg by (auto simp: button_long_def Let_def button_send_app_click_def clicks_def is_click_def owed_def click_and_long_def split: if_splits)
  show ?thesis using c1 c2 by (simp add: s' clicks_append)
qed

text \<open>A run of scans of one button: the button, the number of releases and the messages.\<close>

primrec button_scans :: "u32 \<Rightarrow> ((nat \<Rightarrow> u32) \<times> (nat \<Rightarrow> bool)) list \<Rightarrow> button_holder \<Rightarrow> button_holder \<times> nat \<times> button_message list" where
  "button_scans hz [] btn = (btn, 0, [])" |
  "button_scans hz (i # is) btn =
    (let (btn1, _, ms) = button_scan hz (fst i) (snd i) btn portMAX_DELAY;
         (btn2, n, ms') = button_scans hz is btn1
     in (btn2, (if pressed btn \<and> \<not> pressed btn1 then 1 else 0) + n, ms @ ms'))"

lemma scans_clicks:
  assumes "button_owner_of btn = Some owner" "config btn owner = cfg" "click_and_long cfg" "\<forall>i \<in> set is. snd i 1 = snd i 0"
    and "button_scans hz is btn = (btn', n, ms)"
  shows "clicks cfg ms + owed btn = n + owed btn'"
  using assms
proof (induction "is" arbitrary: btn btn' n ms)
  case Nil
  then show ?case by (simp add: clicks_def)
next
  case (Cons i "is")
  obtain b1 nw1 ms1 where s: "button_scan hz (fst i) (snd i) btn portMAX_DELAY = (b1, nw1, ms1)" by (metis prod_cases3)
  obtain b2 n2 ms2 where r: "button_scans hz is b1 = (b2, n2, ms2)" by (metis prod_cases3)
  have o1: "button_owner_of b1 = Some owner" "config b1 owner = cfg"
    using scan_owner [of hz "fst i" "snd i" btn portMAX_DELAY] scan_config [of hz "fst i" "snd i" btn portMAX_DELAY] s Cons.prems by auto
  have "clicks cfg ms1 + owed btn = (if pressed btn \<and> \<not> pressed b1 then 1 else 0) + owed b1"
    using scan_clicks [OF Cons.prems(1-3) _ s] Cons.prems(4) by simp
  moreover have "clicks cfg ms2 + owed b1 = n2 + owed b2" using Cons.IH [OF o1 Cons.prems(3) _ r] Cons.prems(4) by simp
  ultimately show ?case using s r Cons.prems(5) by (auto simp: clicks_append)
qed

subsection \<open>Waking up in time\<close>

text \<open>The thread will be awake when the next long click or repetition of a button is due.\<close>

definition wakeup_ok :: "u32 \<Rightarrow> u32 \<Rightarrow> button_holder \<Rightarrow> bool" where
  "wakeup_ok hz nw btn \<longleftrightarrow> (\<forall>owner. button_owner_of btn = Some owner \<longrightarrow> pressed btn \<longrightarrow>
     (let cfg = config btn owner in
      (long_click_handler cfg \<noteq> 0 \<and> \<not> did_long_click btn \<longrightarrow> nw \<le> press_time btn + pdMS_TO_TICKS hz (ucast (long_click_delay_ms cfg))) \<and>
      (click_handler cfg \<noteq> 0 \<and> click_repeat_interval_ms cfg \<noteq> 0 \<longrightarrow>
         nw \<le> last_repeat_time btn + pdMS_TO_TICKS hz (ucast (click_repeat_interval_ms cfg)))))"

lemma wakeup_mono: "wakeup_ok hz nw btn \<Longrightarrow> nw' \<le> nw \<Longrightarrow> wakeup_ok hz nw' btn"
  unfolding wakeup_ok_def Let_def by (meson order.trans)

lemma scan_wakeup:
  assumes s: "button_scan hz tick hw btn nw = (btn', nw', ms)"
  shows "wakeup_ok hz nw' btn' \<and> nw' \<le> nw"
proof (cases "button_owner_of btn")
  case None
  then show ?thesis using s by (auto simp: button_scan_def wakeup_ok_def)
next
  case (Some owner)
  let ?cfg = "config btn owner"
  obtain b1 ms1 where e: "button_edge hz tick hw owner ?cfg btn = (b1, ms1)" by fastforce
  obtain b2 nw2 ms2 where l: "button_long hz tick owner ?cfg b1 nw = (b2, nw2, ms2)" by (metis prod_cases3)
  obtain b3 nw3 ms3 where r: "button_repeat hz tick owner ?cfg b2 nw2 = (b3, nw3, ms3)" by (metis prod_cases3)
  have s': "btn' = b3" "nw' = nw3" using s Some e l r by (simp_all add: button_scan_def Let_def)
  have c: "config b3 = config btn"
    using edge_config [of hz tick hw owner ?cfg btn] long_config [of hz tick owner ?cfg b1 nw] repeat_config [of hz tick owner ?cfg b2 nw2]
    by (simp add: e l r)
  then have o3: "button_owner_of b3 = Some owner" using Some owner_cong by metis
  have l2: "nw2 \<le> nw" "pressed b2 = pressed b1"
    "pressed b2 \<Longrightarrow> long_click_handler ?cfg \<noteq> 0 \<Longrightarrow> \<not> did_long_click b2 \<Longrightarrow> nw2 \<le> press_time b2 + pdMS_TO_TICKS hz (ucast (long_click_delay_ms ?cfg))"
    using l by (auto simp: button_long_def Let_def split: if_splits)
  have l3: "nw3 \<le> nw2" "pressed b3 = pressed b2" "did_long_click b3 = did_long_click b2" "press_time b3 = press_time b2"
    "pressed b3 \<Longrightarrow> click_handler ?cfg \<noteq> 0 \<Longrightarrow> click_repeat_interval_ms ?cfg \<noteq> 0 \<Longrightarrow>
      nw3 \<le> last_repeat_time b3 + pdMS_TO_TICKS hz (ucast (click_repeat_interval_ms ?cfg))"
    using r by (auto simp: button_repeat_def Let_def split: if_splits)
  show ?thesis unfolding wakeup_ok_def s' Let_def
    using l2 l3 o3 c by (auto intro: order.trans)
qed

lemma scan_all_wakeup:
  "button_scan_all hz inp i btns nw = (btns', nw', ms) \<Longrightarrow> (\<forall>btn \<in> set btns'. wakeup_ok hz nw' btn) \<and> nw' \<le> nw"
proof (induction btns arbitrary: i nw btns' nw' ms)
  case (Cons btn btns)
  obtain b1 nw1 ms1 where s: "button_scan hz (fst (inp i)) (snd (inp i)) btn nw = (b1, nw1, ms1)" by (metis prod_cases3)
  obtain bs nw2 ms2 where r: "button_scan_all hz inp (i + 1) btns nw1 = (bs, nw2, ms2)" by (metis prod_cases3)
  have e: "btns' = b1 # bs" "nw' = nw2" using Cons.prems s r by auto
  show ?case using Cons.IH [OF r] scan_wakeup [OF s] wakeup_mono by (auto simp: e)
qed simp


subsection \<open>Properties\<close>

text \<open>C26: without repetition a press is a click or a long click, never both and never neither. The button starts released and is
  configured with a click handler and a long-click handler, neither of them also its raw or release handler, and a repeat interval of
  0, as \<open>button_single_click_subscribe\<close> leaves it. Over any sequence of scans, whatever the times, in which the level does not change
  between the two reads of a scan, the click and long-click messages together are as many as the releases, and one more while the
  button is held past the long click. (With a repeat interval both are sent, by \<open>repeating_click_and_long_click\<close>.)\<close>

theorem click_xor_long_click:
  assumes "button_owner_of btn = Some owner" "click_and_long (config btn owner)" "\<not> pressed btn"
    and "\<forall>i \<in> set inputs. snd i 1 = snd i 0"
  shows "case button_scans hz inputs btn of (btn', releases, ms) \<Rightarrow>
    clicks (config btn owner) ms = releases + (if pressed btn' \<and> did_long_click btn' then 1 else 0)"
proof -
  obtain b2 n ms where r: "button_scans hz inputs btn = (b2, n, ms)" by (metis prod_cases3)
  show ?thesis using scans_clicks [OF assms(1) refl assms(2,4) r] assms(3) r by (simp add: owed_def)
qed

definition ex_button :: button_holder where
  "ex_button = \<lparr> button_id = 1, config = (\<lambda>_. no_config)(OWNER_APP := no_config\<lparr>click_handler := 5, long_click_handler := 6, long_click_delay_ms := 500\<rparr>),
     pressed = False, did_long_click = False, is_repeating = False, last_transition = 0, last_repeat_time = 0, press_time = 0 \<rparr>"

lemma ex_button_owner: "button_owner_of ex_button = Some OWNER_APP" "config ex_button OWNER_APP = no_config\<lparr>click_handler := 5, long_click_handler := 6, long_click_delay_ms := 500\<rparr>"
  by (simp_all add: button_owner_of_def ex_button_def has_handler_def no_config_def)

theorem click_xor_long_click_witness:
  "case button_scans 1000 [(\<lambda>_. 100, \<lambda>_. True), (\<lambda>_. 200, \<lambda>_. False)] ex_button of (btn', releases, ms) \<Rightarrow>
    clicks (config ex_button OWNER_APP) ms = releases + (if pressed btn' \<and> did_long_click btn' then 1 else 0)"
  by (rule click_xor_long_click [OF ex_button_owner(1)]) (simp_all add: ex_button_owner(2) click_and_long_def no_config_def, simp add: ex_button_def)

text \<open>With a repeat interval one press, here of 600 ticks, is reported as clicks and as a long click.\<close>

definition ex_repeating :: button_holder where
  "ex_repeating = ex_button\<lparr>config := (\<lambda>_. no_config)(OWNER_APP := no_config\<lparr>click_handler := 5, click_repeat_interval_ms := 400,
     long_click_handler := 6, long_click_delay_ms := 500\<rparr>)\<rparr>"

lemma repeating_click_and_long_click:
  "case button_scans 1000 [(\<lambda>_. 100, \<lambda>_. True), (\<lambda>_. 500, \<lambda>_. True), (\<lambda>_. 600, \<lambda>_. True), (\<lambda>_. 700, \<lambda>_. False)] ex_repeating of
    (_, releases, ms) \<Rightarrow> releases = 1 \<and> map m_callback ms = [5, 6]"
  by code_simp

text \<open>The thread wakes up in time: after a round, however the clock moved, the time of the next wake-up is
  not after the time at which any held button's long click or next repetition is due.\<close>

theorem button_round_wakeup:
  assumes "button_round hz inp btns = (btns', next_wakeup, ms)" "btn \<in> set btns'" "button_owner_of btn = Some owner" "pressed btn"
  shows "(long_click_handler (config btn owner) \<noteq> 0 \<and> \<not> did_long_click btn \<longrightarrow>
      next_wakeup \<le> press_time btn + pdMS_TO_TICKS hz (ucast (long_click_delay_ms (config btn owner)))) \<and>
    (click_handler (config btn owner) \<noteq> 0 \<and> click_repeat_interval_ms (config btn owner) \<noteq> 0 \<longrightarrow>
      next_wakeup \<le> last_repeat_time btn + pdMS_TO_TICKS hz (ucast (click_repeat_interval_ms (config btn owner))))"
  using scan_all_wakeup assms unfolding button_round_def wakeup_ok_def Let_def by blast

theorem button_round_wakeup_witness:
  "case button_round 1000 (\<lambda>_. (\<lambda>_. 100, \<lambda>_. True)) [ex_button] of (btns', next_wakeup, ms) \<Rightarrow> next_wakeup \<le> 600"
proof -
  let ?b = "ex_button\<lparr>pressed := True, last_transition := 100, press_time := 100, last_repeat_time := 100\<rparr>"
  have r: "button_round 1000 (\<lambda>_. (\<lambda>_. 100, \<lambda>_. True)) [ex_button] = ([?b], 600, [])"
    unfolding button_round_def
    by (simp add: button_scan_def ex_button_owner Let_def)
      (simp add: button_edge_def button_long_def button_repeat_def press_messages_def only_def ex_button_def no_config_def
        butDEBOUNCE_DELAY_def pdMS_TO_TICKS_def portMAX_DELAY_def Let_def)
  have o: "button_owner_of ?b = Some OWNER_APP" using ex_button_owner(1) owner_cong [of ?b ex_button] by simp
  have d: "did_long_click ex_button = False" by (simp add: ex_button_def)
  from button_round_wakeup [OF r _ o] have "600 \<le> 100 + pdMS_TO_TICKS 1000 (ucast (500 :: u16))"
    by (simp add: ex_button_owner(2) d no_config_def)
  then show ?thesis using r by simp
qed

text \<open>Debouncing: a scan changes the state of a button only when more than the debounce delay has passed since its
  last change, and then the change is dated and takes the level read; a scan that does not change the state keeps the
  date, but for a level that changed back between its two reads.\<close>

theorem button_debounce:
  assumes "button_scan hz tick hw btn nw = (btn', nw', ms)"
  shows "if pressed btn' = pressed btn then last_transition btn' = last_transition btn \<or> last_transition btn' = tick 1
    else last_transition btn + butDEBOUNCE_DELAY hz < tick 0 \<and> last_transition btn' = tick 1 \<and> pressed btn' = hw 1"
proof (cases "button_owner_of btn")
  case None
  then show ?thesis using assms by (auto simp: button_scan_def)
next
  case (Some owner)
  let ?cfg = "config btn owner"
  obtain b1 ms1 where e: "button_edge hz tick hw owner ?cfg btn = (b1, ms1)" by fastforce
  obtain b2 nw2 ms2 where l: "button_long hz tick owner ?cfg b1 nw = (b2, nw2, ms2)" by (metis prod_cases3)
  obtain b3 nw3 ms3 where r: "button_repeat hz tick owner ?cfg b2 nw2 = (b3, nw3, ms3)" by (metis prod_cases3)
  have "btn' = b3" using assms Some e l r by (simp add: button_scan_def Let_def)
  moreover have "pressed b3 = pressed b1" "last_transition b3 = last_transition b1"
    using l r by (auto simp: button_long_def button_repeat_def Let_def split: if_splits)
  moreover have "if pressed b1 = pressed btn then last_transition b1 = last_transition btn \<or> last_transition b1 = tick 1
    else last_transition btn + butDEBOUNCE_DELAY hz < tick 0 \<and> last_transition b1 = tick 1 \<and> pressed b1 = hw 1"
    using e by (auto simp: button_edge_def Let_def split: if_splits)
  ultimately show ?thesis by (auto split: if_splits)
qed

theorem button_debounce_witness:
  "case button_scan 1000 (\<lambda>_. 1) (\<lambda>_. True) ex_button 9 of (btn', _, _) \<Rightarrow> \<not> pressed btn'"
proof -
  obtain btn' nw' ms where s: "button_scan 1000 (\<lambda>_. 1) (\<lambda>_. True) ex_button 9 = (btn', nw', ms)" by (metis prod_cases3)
  from button_debounce [OF s] have "\<not> pressed btn'"
    by (auto simp: ex_button_def butDEBOUNCE_DELAY_def pdMS_TO_TICKS_def split: if_splits)
  then show ?thesis by (simp add: s)
qed

text \<open>The overlay and the application configure only their own side of the buttons: no subscription, context or
  unsubscription of one changes a configuration of the other, or any button's state.\<close>

theorem button_sides_apart:
  assumes "op \<in> {button_single_click_subscribe overlay i h, button_single_repeating_click_subscribe overlay i ms h, button_multi_click_subscribe i,
      button_long_click_subscribe overlay i ms h h', button_raw_click_subscribe overlay i h h' ctx,
      button_unsubscribe_all overlay, button_set_click_context overlay i ctx}"
    and "length btns = NUM_BUTTONS" "j < NUM_BUTTONS"
  shows "config (op btns ! j) (owner_of_thread (\<not> overlay)) = config (btns ! j) (owner_of_thread (\<not> overlay)) \<and>
    (op btns ! j)\<lparr>config := config (btns ! j)\<rparr> = btns ! j"
proof -
  have at: "config (at_button i overlay f btns ! j) (owner_of_thread (\<not> overlay)) = config (btns ! j) (owner_of_thread (\<not> overlay)) \<and>
    (at_button i overlay f btns ! j)\<lparr>config := config (btns ! j)\<rparr> = btns ! j" for f
    using assms(2,3) by (auto simp: at_button_def upd_config_def owner_of_thread_def nth_list_update)
  show ?thesis using assms at
    by (auto simp: button_single_click_subscribe_def button_single_repeating_click_subscribe_def button_multi_click_subscribe_def
        button_long_click_subscribe_def button_raw_click_subscribe_def button_set_click_context_def button_unsubscribe_all_def)
      (simp_all add: upd_config_def owner_of_thread_def)
qed

theorem button_sides_apart_witness:
  "config (button_unsubscribe_all True rcore_buttons_init ! 2) OWNER_APP = config (rcore_buttons_init ! 2) OWNER_APP"
  using button_sides_apart [of "button_unsubscribe_all True" True 0 0 0 0 0 rcore_buttons_init 2]
  by (simp add: rcore_buttons_init_def NUM_BUTTONS_def owner_of_thread_def)

text \<open>When the level does change between the two reads of a scan, a click is reported that has no press.\<close>

lemma click_without_press:
  "case button_scan 1000 (\<lambda>_. 100) (\<lambda>i. i = 0) ex_button 9 of (btn', _, ms) \<Rightarrow> \<not> pressed btn' \<and> map m_callback ms = [5]"
  by (simp add: button_scan_def ex_button_owner Let_def)
    (simp add: button_edge_def button_long_def button_repeat_def release_messages_def only_def ex_button_def no_config_def
      butDEBOUNCE_DELAY_def pdMS_TO_TICKS_def button_send_app_click_def Let_def)

end
