(* ===== verification/Transport.thy ===== *)
theory Transport
  imports Timers
begin

section \<open>The phone link: rcore/protocol/protocol.c, rcore/service/protocol_service.c, rcore/ppogatt.c, rcore/bluetooth.c\<close>

text \<open>
  Bytes from the phone are collected in one receive buffer; the service thread cuts packets (big-endian
  length and endpoint, then the payload) out of it and gives each to the handler of its endpoint. Going
  out, a packet is sent as header and payload, cut to the size of the radio's buffers, and on Bluetooth LE
  cut again into PPoGATT packets of 20 bytes that carry a sequence number. The model follows one direction of each from call
  to call; a handler is recorded as a delivery of endpoint and payload, time is an argument, queues
  are lists, and a transport is a number. The lemmas show that packets survive any fragmentation, from
  the sender's cuts to the receiver's deliveries.
\<close>

unbundle bit_operations_syntax

datatype packet_rv = PACKET_MORE_DATA_REQD | PACKET_INVALID | PACKET_PROCESSED

datatype buffer_rv = PROTOCOL_BUFFER_FULL | PROTOCOL_BUFFER_OK

record packet_hdr =
  p_length :: u16
  p_endpoint :: u16
  p_data :: nat
  p_transport :: nat

record rx_state =
  rx_buffer :: mem
  buf_ptr :: u16
  last_rx :: u32
  last_transport :: nat
  buf_locked :: bool
  txn_free :: bool

definition RX_BUFFER_SIZE :: nat where "RX_BUFFER_SIZE = 2176"

subsection \<open>The receive buffer\<close>

definition is_rx_buf_expired :: "u32 \<Rightarrow> u32 \<Rightarrow> rx_state \<Rightarrow> rx_state" where
  "is_rx_buf_expired hz now s =
    (if buf_ptr s = 0 then s
     else if now - last_rx s > pdMS_TO_TICKS hz 500 then s\<lparr>buf_ptr := 0, txn_free := True\<rparr> else s)"

definition protocol_rx_buffer_append :: "u32 \<Rightarrow> u32 \<Rightarrow> bytes \<Rightarrow> rx_state \<Rightarrow> buffer_rv \<times> rx_state" where
  "protocol_rx_buffer_append hz now data s =
    (if add32 (unat (buf_ptr s)) (length data) > RX_BUFFER_SIZE then (PROTOCOL_BUFFER_FULL, s)
     else let s = is_rx_buf_expired hz now s;
              s = s\<lparr>last_rx := now\<rparr>;
              s = s\<lparr>rx_buffer := mwrite (rx_buffer s) (unat (buf_ptr s)) data\<rparr>
          in (PROTOCOL_BUFFER_OK, s\<lparr>buf_ptr := buf_ptr s + word_of_nat (length data)\<rparr>))"

definition protocol_get_rx_buf_size :: nat where
  "protocol_get_rx_buf_size = RX_BUFFER_SIZE"

definition protocol_get_rx_buf_free :: "rx_state \<Rightarrow> nat" where
  "protocol_get_rx_buf_free s = sub32 RX_BUFFER_SIZE (unat (buf_ptr s))"

definition protocol_get_rx_buf_used :: "rx_state \<Rightarrow> nat" where
  "protocol_get_rx_buf_used s = unat (buf_ptr s)"

text \<open>The address returned is an index into the buffer.\<close>

definition protocol_rx_buffer_request :: "u32 \<Rightarrow> u32 \<Rightarrow> rx_state \<Rightarrow> nat \<times> rx_state" where
  "protocol_rx_buffer_request hz now s = (let s = is_rx_buf_expired hz now s in (unat (buf_ptr s), s))"

definition protocol_rx_buffer_release :: "u32 \<Rightarrow> u16 \<Rightarrow> rx_state \<Rightarrow> rx_state" where
  "protocol_rx_buffer_release now len s = s\<lparr>last_rx := now, buf_ptr := buf_ptr s + len\<rparr>"

definition protocol_rx_buffer_consume :: "u32 \<Rightarrow> u16 \<Rightarrow> rx_state \<Rightarrow> u16 \<times> rx_state" where
  "protocol_rx_buffer_consume now len s =
    (let mv = (if uint (buf_ptr s) - uint len < 0 then buf_ptr s else len) in
     (mv, s\<lparr>last_rx := now,
            rx_buffer := mwrite (rx_buffer s) 0 (mread (rx_buffer s) (unat mv) (unat (buf_ptr s) - unat mv)),
            buf_ptr := buf_ptr s - mv\<rparr>))"

definition protocol_rx_buffer_pointer_adjust :: "int \<Rightarrow> rx_state \<Rightarrow> rx_state" where
  "protocol_rx_buffer_pointer_adjust howmuch s = s\<lparr>buf_ptr := buf_ptr s + word_of_int howmuch\<rparr>"

definition protocol_rx_buffer_reset :: "rx_state \<Rightarrow> rx_state" where
  "protocol_rx_buffer_reset s = s\<lparr>buf_ptr := 0\<rparr>"

text \<open>Transport 0 is a null pointer; \<open>qemu\<close> is \<open>qemu_send_data\<close>.\<close>

definition protocol_get_current_transport_sender :: "nat \<Rightarrow> rx_state \<Rightarrow> nat" where
  "protocol_get_current_transport_sender qemu s = (if last_transport s \<noteq> 0 then last_transport s else qemu)"

definition protocol_set_current_transport_sender :: "nat \<Rightarrow> rx_state \<Rightarrow> rx_state" where
  "protocol_set_current_transport_sender sender s = s\<lparr>last_transport := sender\<rparr>"

definition be16 :: "u8 \<Rightarrow> u8 \<Rightarrow> u16" where
  "be16 hi lo = push_bit 8 (ucast hi) OR (ucast lo AND 0xFF)"

text \<open>\<open>data\<close> is an index into the receive buffer, \<open>packet\<close> what the caller's header held.\<close>

definition protocol_parse_packet :: "nat \<Rightarrow> packet_hdr \<Rightarrow> nat \<Rightarrow> rx_state \<Rightarrow> packet_rv \<times> packet_hdr \<times> rx_state" where
  "protocol_parse_packet data packet transport s =
    (let pkt_length = be16 (rx_buffer s data) (rx_buffer s (data + 1));
         pkt_endpoint = be16 (rx_buffer s (data + 2)) (rx_buffer s (data + 3));
         s = s\<lparr>last_transport := transport\<rparr>
     in if buf_locked s then (PACKET_INVALID, packet, s)
        else if unat (buf_ptr s) < 4 then (PACKET_MORE_DATA_REQD, packet, s)
        else if pkt_length = 0 then (PACKET_PROCESSED, packet, s)
        else if unat pkt_length > RX_BUFFER_SIZE then (PACKET_INVALID, packet, s)
        else if unat (buf_ptr s) < unat pkt_length + 4 then (PACKET_MORE_DATA_REQD, packet, s)
        else (PACKET_PROCESSED, \<lparr> p_length = pkt_length, p_endpoint = pkt_endpoint, p_data = data + 4, p_transport = transport \<rparr>, s))"

subsection \<open>The service thread\<close>

text \<open>An endpoint's handler is a number, 0 ends the table.\<close>

primrec protocol_find_endpoint_handler :: "u16 \<Rightarrow> (u16 \<times> nat) list \<Rightarrow> nat option" where
  "protocol_find_endpoint_handler protocol [] = None" |
  "protocol_find_endpoint_handler protocol (e # es) =
    (if snd e = 0 then None
     else if fst e = protocol then Some (snd e)
     else protocol_find_endpoint_handler protocol es)"

text \<open>The endpoints of \<open>pebble_endpoints\<close>, with the handlers numbered in order.\<close>

definition pebble_endpoints :: "(u16 \<times> nat) list" where
  "pebble_endpoints = zip [0x000b, 0x0010, 5001, 2001, 0x0011, 52, 0x1771, 2003, 0x0bc2, 0xb1db, 0x0021, 0x0020, 11440, 0xBEEF, 0xabcd] [1..<16] @ [(0, 0)]"

text \<open>A packet given out: its endpoint, its payload and whether the endpoint has a handler.\<close>

type_synonym delivery = "u16 \<times> bytes \<times> bool"

text \<open>The loop of the thread around the buffer. The header is a local of the loop's body, not initialised: \<open>junk i\<close> is what it
  holds at the start of round \<open>i\<close>, anything at all, the header of the round before among others.\<close>

partial_function (option) protocol_rx_loop :: "u32 \<Rightarrow> nat \<Rightarrow> (nat \<Rightarrow> packet_hdr) \<Rightarrow> rx_state \<Rightarrow> (delivery list \<times> rx_state) option" where
  "protocol_rx_loop now transport junk s =
    (case protocol_parse_packet 0 (junk 0) transport s of (rv, hdr, s) \<Rightarrow>
      (case rv of
         PACKET_MORE_DATA_REQD \<Rightarrow> Some ([], s)
       | PACKET_INVALID \<Rightarrow> Some ([], protocol_rx_buffer_reset s)
       | PACKET_PROCESSED \<Rightarrow>
           if buf_locked s then Some ([], s)
           else let d = (p_endpoint hdr, mread (rx_buffer s) (p_data hdr) (unat (p_length hdr)),
                         protocol_find_endpoint_handler (p_endpoint hdr) pebble_endpoints \<noteq> None);
                    s = snd (protocol_rx_buffer_consume now (p_length hdr + 4) s)
                in do { (ds, s) \<leftarrow> protocol_rx_loop now transport (\<lambda>i. junk (Suc i)) s;
                        Some (d # ds, s) }))"

text \<open>Data from the radio: \<open>bluetooth_data_rx\<close> appends it and wakes the service thread, whose loop runs.\<close>

definition bluetooth_data_rx :: "u32 \<Rightarrow> u32 \<Rightarrow> nat \<Rightarrow> (nat \<Rightarrow> packet_hdr) \<Rightarrow> bytes \<Rightarrow> rx_state \<Rightarrow> (delivery list \<times> rx_state) option" where
  "bluetooth_data_rx hz now transport junk data s =
    (case protocol_rx_buffer_append hz now data s of
       (PROTOCOL_BUFFER_FULL, s) \<Rightarrow> Some ([], s)
     | (PROTOCOL_BUFFER_OK, s) \<Rightarrow> protocol_rx_loop now transport junk s)"

text \<open>Several receptions, each with the headers of its own rounds.\<close>

primrec bluetooth_data_rx_all :: "u32 \<Rightarrow> nat \<Rightarrow> (nat \<Rightarrow> nat \<Rightarrow> packet_hdr) \<Rightarrow> (u32 \<times> bytes) list \<Rightarrow> rx_state \<Rightarrow> (delivery list \<times> rx_state) option" where
  "bluetooth_data_rx_all hz transport junk [] s = Some ([], s)" |
  "bluetooth_data_rx_all hz transport junk (c # cs) s = do {
     (ds, s) \<leftarrow> bluetooth_data_rx hz (fst c) transport (junk 0) (snd c) s;
     (ds', s) \<leftarrow> bluetooth_data_rx_all hz transport (\<lambda>i. junk (Suc i)) cs s;
     Some (ds @ ds', s) }"

subsection \<open>Sending\<close>

text \<open>\<open>_bluetooth_tx\<close>: the data in pieces of at most \<open>sz\<close> bytes, which is \<open>HCI_ACL_PAYLOAD_SIZE - 10\<close>; with \<open>sz = 0\<close> the
  loop does not end.\<close>

partial_function (option) bluetooth_tx :: "nat \<Rightarrow> bytes \<Rightarrow> bytes list option" where
  "bluetooth_tx sz data =
    (if data = [] then Some []
     else let n = (if length data > sz then sz else length data) in
       do { rest \<leftarrow> bluetooth_tx sz (drop n data);
            Some (take n data # rest) })"

definition bluetooth_send :: "nat \<Rightarrow> bool \<Rightarrow> bool \<Rightarrow> bytes \<Rightarrow> bytes list option" where
  "bluetooth_send sz enabled connected data = (if \<not> enabled \<or> \<not> connected then Some [] else bluetooth_tx sz data)"

definition htons_bytes :: "u16 \<Rightarrow> bytes" where
  "htons_bytes w = [ucast (drop_bit 8 w), ucast w]"

definition bluetooth_send_data :: "nat \<Rightarrow> bool \<Rightarrow> bool \<Rightarrow> u16 \<Rightarrow> bytes \<Rightarrow> bytes list option" where
  "bluetooth_send_data sz enabled connected endpoint data = do {
     cs \<leftarrow> bluetooth_send sz enabled connected (htons_bytes (word_of_nat (length data)) @ htons_bytes endpoint);
     cs' \<leftarrow> bluetooth_send sz enabled connected data;
     Some (cs @ cs') }"

subsection \<open>PPoGATT\<close>

datatype ppogatt_cmd = PPOGATT_CMD_DATA | PPOGATT_CMD_ACK | PPOGATT_CMD_RESET_REQ | PPOGATT_CMD_RESET_ACK

primrec ppogatt_code :: "ppogatt_cmd \<Rightarrow> u8" where
  "ppogatt_code PPOGATT_CMD_DATA = 0" |
  "ppogatt_code PPOGATT_CMD_ACK = 1" |
  "ppogatt_code PPOGATT_CMD_RESET_REQ = 2" |
  "ppogatt_code PPOGATT_CMD_RESET_ACK = 3"

record ppogatt_packet =
  pk_len :: u32
  pk_buf :: mem

definition PPOGATT_MTU :: nat where "PPOGATT_MTU = 256"
definition PPOGATT_TX_MTU :: nat where "PPOGATT_TX_MTU = 20"
definition PPOGATT_RX_QUEUE_SIZE :: nat where "PPOGATT_RX_QUEUE_SIZE = 8"

text \<open>The tasks' handles, whether the tasks exist, and the queues, \<open>None\<close> when they do not.\<close>

record ppogatt =
  rx_task :: bool
  tx_task :: bool
  rx_alive :: bool
  tx_alive :: bool
  rx_queue :: "ppogatt_packet list option"
  tx_queue :: "ppogatt_packet list option"
  pktslost :: nat
  seen_one_reset_ack :: bool
  txseq :: u8
  link_connected :: bool

definition pk_bytes :: "ppogatt_packet \<Rightarrow> bytes" where
  "pk_bytes p = mread (pk_buf p) 0 (unat (pk_len p))"

text \<open>Deleting a task that does not exist is a fault, as is sending to a queue that does not.\<close>

definition queue_send :: "ppogatt_packet \<Rightarrow> ppogatt \<Rightarrow> ppogatt option" where
  "queue_send pkt g = map_option (\<lambda>q. g\<lparr>tx_queue := Some (q @ [pkt])\<rparr>) (tx_queue g)"

definition ppogatt_shutdown :: "ppogatt \<Rightarrow> ppogatt option" where
  "ppogatt_shutdown g = do {
     g \<leftarrow> (if rx_task g then do { c_assert (rx_alive g); Some (g\<lparr>rx_alive := False, rx_task := False\<rparr>) } else Some g);
     g \<leftarrow> (if tx_task g then do { c_assert (tx_alive g); Some (g\<lparr>tx_alive := False, rx_task := False\<rparr>) } else Some g);
     Some (g\<lparr>rx_queue := None, tx_queue := None\<rparr>) }"

definition ppogatt_start :: "ppogatt \<Rightarrow> ppogatt option" where
  "ppogatt_start g = do {
     g \<leftarrow> ppogatt_shutdown g;
     Some (g\<lparr>rx_queue := Some [], tx_queue := Some [], rx_task := True, rx_alive := True, tx_task := True, tx_alive := True\<rparr>) }"

text \<open>\<open>pkt0\<close> is the static packet of the function.\<close>

definition ppogatt_callback_connected :: "ppogatt_packet \<Rightarrow> ppogatt \<Rightarrow> ppogatt option" where
  "ppogatt_callback_connected pkt0 g = do {
     g \<leftarrow> ppogatt_start g;
     let pkt = \<lparr> pk_len = 2, pk_buf = mwrite (pk_buf pkt0) 0 [ppogatt_code PPOGATT_CMD_RESET_REQ, 0] \<rparr>;
     g \<leftarrow> queue_send pkt g;
     let pkt = \<lparr> pk_len = 1, pk_buf = mwrite (pk_buf pkt) 0 [ppogatt_code PPOGATT_CMD_RESET_ACK] \<rparr>;
     g \<leftarrow> queue_send pkt g;
     Some (g\<lparr>txseq := 0, seen_one_reset_ack := False\<rparr>) }"

definition ppogatt_callback_disconnected :: "ppogatt \<Rightarrow> ppogatt option" where
  "ppogatt_callback_disconnected g = do {
     g \<leftarrow> ppogatt_shutdown g;
     Some (g\<lparr>link_connected := False\<rparr>) }"

text \<open>A notification from the radio, in an interrupt; a full queue drops the packet.\<close>

definition ppogatt_callback_rx :: "ppogatt_packet \<Rightarrow> bytes \<Rightarrow> ppogatt \<Rightarrow> ppogatt option" where
  "ppogatt_callback_rx msg0 bs g = do {
     c_assert (length bs \<le> PPOGATT_MTU);
     let msg = \<lparr> pk_len = word_of_nat (length bs), pk_buf = mwrite (pk_buf msg0) 0 bs \<rparr>;
     q \<leftarrow> rx_queue g;
     Some (if length q < PPOGATT_RX_QUEUE_SIZE then g\<lparr>rx_queue := Some (q @ [msg])\<rparr> else g\<lparr>pktslost := pktslost g + 1\<rparr>) }"

text \<open>One round of the receiving thread on the packet it took from its queue: the bytes for \<open>bluetooth_data_rx\<close>, if any.\<close>

definition ppogatt_rx_main :: "ppogatt_packet \<Rightarrow> ppogatt \<Rightarrow> (bytes option \<times> ppogatt) option" where
  "ppogatt_rx_main pkt g =
    (let g = g\<lparr>pktslost := 0\<rparr>;
         cmd = pk_buf pkt 0 AND 7;
         sq = drop_bit 3 (pk_buf pkt 0)
     in if cmd = ppogatt_code PPOGATT_CMD_DATA
        then let data = mread (pk_buf pkt) 1 (sub32 (unat (pk_len pkt)) 1);
                 ack = \<lparr> pk_len = 1, pk_buf = mwrite (pk_buf pkt) 0 [push_bit 3 sq OR ppogatt_code PPOGATT_CMD_ACK] \<rparr>
             in map_option (\<lambda>g. (Some data, g)) (queue_send ack g)
        else if cmd = ppogatt_code PPOGATT_CMD_RESET_ACK \<and> \<not> seen_one_reset_ack g
        then Some (None, g\<lparr>seen_one_reset_ack := True, link_connected := True\<rparr>)
        else Some (None, g))"

text \<open>\<open>bt_device_request_tx\<close>: the data in packets of at most 19 bytes behind a byte of sequence number and command.\<close>

function bt_device_request_tx :: "ppogatt_packet \<Rightarrow> bytes \<Rightarrow> ppogatt \<Rightarrow> ppogatt option" where
  "bt_device_request_tx pkt data g =
    (if data = [] then Some g
     else let n = (if length data > PPOGATT_TX_MTU - 1 then PPOGATT_TX_MTU - 1 else length data);
              pkt = \<lparr> pk_len = word_of_nat (n + 1),
                      pk_buf = mwrite (mwrite (pk_buf pkt) 0 [push_bit 3 (txseq g) OR ppogatt_code PPOGATT_CMD_DATA]) 1 (take n data) \<rparr>
          in case queue_send pkt g of
               None \<Rightarrow> None
             | Some g \<Rightarrow> bt_device_request_tx pkt (drop n data) (g\<lparr>txseq := txseq g + 1\<rparr>))"
  by pat_completeness auto
termination
  by (relation "measure (\<lambda>(pkt, data, g). length data)") (auto simp: PPOGATT_TX_MTU_def split: if_splits)

declare bt_device_request_tx.simps [simp del]

section \<open>Properties\<close>

subsection \<open>Frames and the content of the buffer\<close>

definition frame :: "u16 \<times> bytes \<Rightarrow> bytes" where
  "frame q = htons_bytes (word_of_nat (length (snd q))) @ htons_bytes (fst q) @ snd q"

definition frames :: "(u16 \<times> bytes) list \<Rightarrow> bytes" where
  "frames qs = concat (map frame qs)"

text \<open>Packets the parser can take: not empty, and with the header no longer than the buffer.\<close>

definition packet_ok :: "u16 \<times> bytes \<Rightarrow> bool" where
  "packet_ok q = (0 < length (snd q) \<and> length (snd q) + 4 \<le> RX_BUFFER_SIZE)"

definition content :: "rx_state \<Rightarrow> bytes" where
  "content s = mread (rx_buffer s) 0 (unat (buf_ptr s))"

definition deliver :: "u16 \<times> bytes \<Rightarrow> delivery" where
  "deliver q = (fst q, snd q, protocol_find_endpoint_handler (fst q) pebble_endpoints \<noteq> None)"

lemma frames_simps [simp]: "frames [] = []" "frames (q # qs) = frame q @ frames qs"
  by (simp_all add: frames_def)

lemma length_frame: "length (frame q) = length (snd q) + 4"
  by (simp add: frame_def htons_bytes_def)

lemma length_content [simp]: "length (content s) = unat (buf_ptr s)"
  by (simp add: content_def)

lemma content_nth: "content s = xs \<Longrightarrow> i < length xs \<Longrightarrow> rx_buffer s i = xs ! i"
  unfolding content_def by (metis mread_nth mread_length add_0)

lemma content_cong [simp]:
  "content (s\<lparr>last_transport := t\<rparr>) = content s" "content (s\<lparr>last_rx := n\<rparr>) = content s"
  by (simp_all add: content_def)

lemma be16_htons: "be16 (ucast (drop_bit 8 w)) (ucast w) = w"
proof -
  have m: "(0xFF :: u16) = mask 8" by (simp add: mask_eq_exp_minus_1)
  show ?thesis
    unfolding be16_def m by (rule bit_eqI) (auto simp: bit_simps dest: bit_imp_le_length)
qed

lemma frame_nth:
  "frame q ! 0 = ucast (drop_bit 8 (word_of_nat (length (snd q)) :: u16))"
  "frame q ! Suc 0 = ucast (word_of_nat (length (snd q)) :: u16)"
  "frame q ! 2 = ucast (drop_bit 8 (fst q))" "frame q ! 3 = ucast (fst q)"
  by (simp_all add: frame_def htons_bytes_def)

lemma packet_ok_length:
  assumes "packet_ok q"
  shows "unat (word_of_nat (length (snd q)) :: u16) = length (snd q)"
proof -
  have "length (snd q) < 2 ^ LENGTH(16)" using assms by (simp add: packet_ok_def RX_BUFFER_SIZE_def)
  then show ?thesis by (simp add: unat_of_nat)
qed

lemma header_word:
  assumes "content s @ Y = frame q @ Z" "4 \<le> length (content s)"
  shows "be16 (rx_buffer s 0) (rx_buffer s (Suc 0)) = word_of_nat (length (snd q))"
    and "be16 (rx_buffer s 2) (rx_buffer s 3) = fst q"
proof -
  have n: "rx_buffer s i = frame q ! i" if "i < 4" for i
  proof -
    have "content s ! i = (content s @ Y) ! i" using assms(2) that by (simp add: nth_append)
    also have "\<dots> = frame q ! i" using that unfolding assms(1) by (simp add: nth_append length_frame)
    finally show ?thesis using content_nth [of s "content s" i] assms(2) that by simp
  qed
  show "be16 (rx_buffer s 0) (rx_buffer s (Suc 0)) = word_of_nat (length (snd q))"
    by (simp add: n frame_nth be16_htons)
  show "be16 (rx_buffer s 2) (rx_buffer s 3) = fst q"
    by (simp add: n frame_nth be16_htons del: mask_eq_iff)
qed

subsection \<open>One round of the loop\<close>

lemma parse_complete:
  assumes "content s = frame q @ Z" "packet_ok q" "\<not> buf_locked s"
  shows "protocol_parse_packet 0 hdr0 t s =
    (PACKET_PROCESSED, \<lparr> p_length = word_of_nat (length (snd q)), p_endpoint = fst q, p_data = 4, p_transport = t \<rparr>, s\<lparr>last_transport := t\<rparr>)"
proof -
  have l: "unat (buf_ptr s) = length (snd q) + 4 + length Z"
    using arg_cong [OF assms(1), of length] by (simp add: length_frame)
  have h: "be16 (rx_buffer s 0) (rx_buffer s (Suc 0)) = word_of_nat (length (snd q))" "be16 (rx_buffer s 2) (rx_buffer s 3) = fst q"
    using header_word [of s "[]" q Z] assms(1) l length_content [of s] by simp_all
  have n0: "(word_of_nat (length (snd q)) :: u16) \<noteq> 0"
    using packet_ok_length [OF assms(2)] assms(2) by (auto simp: packet_ok_def simp del: unat_of_nat)
  show ?thesis
    using assms(2,3) n0 packet_ok_length [OF assms(2)]
    by (simp add: protocol_parse_packet_def h l Let_def packet_ok_def numeral_2_eq_2 [symmetric] del: unat_of_nat)
qed

lemma parse_incomplete:
  assumes "content s @ Y = frame q @ Z" "length (content s) < length (frame q)" "packet_ok q" "\<not> buf_locked s"
  shows "protocol_parse_packet 0 hdr0 t s = (PACKET_MORE_DATA_REQD, hdr0, s\<lparr>last_transport := t\<rparr>)"
proof (cases "unat (buf_ptr s) < 4")
  case True
  then show ?thesis using assms(4) by (simp add: protocol_parse_packet_def Let_def)
next
  case False
  have h: "be16 (rx_buffer s 0) (rx_buffer s (Suc 0)) = word_of_nat (length (snd q))"
    using header_word [OF assms(1)] False by simp
  have n0: "(word_of_nat (length (snd q)) :: u16) \<noteq> 0"
    using packet_ok_length [OF assms(3)] assms(3) by (auto simp: packet_ok_def simp del: unat_of_nat)
  show ?thesis
    using assms(2,3,4) False n0 packet_ok_length [OF assms(3)]
    by (simp add: protocol_parse_packet_def h Let_def packet_ok_def length_frame del: unat_of_nat)
qed

lemma parse_empty:
  "content s = [] \<Longrightarrow> \<not> buf_locked s \<Longrightarrow>
   protocol_parse_packet 0 hdr0 t s = (PACKET_MORE_DATA_REQD, hdr0, s\<lparr>last_transport := t\<rparr>)"
  using length_content [of s] by (simp add: protocol_parse_packet_def Let_def)

lemma consume_content:
  assumes "content s = A @ Z" "length A = unat len"
  shows "content (snd (protocol_rx_buffer_consume now len s)) = Z"
    and "last_rx (snd (protocol_rx_buffer_consume now len s)) = now"
    and "buf_locked (snd (protocol_rx_buffer_consume now len s)) = buf_locked s"
proof -
  have l: "unat (buf_ptr s) = unat len + length Z"
    using arg_cong [OF assms(1), of length] assms(2) by simp
  then have le: "len \<le> buf_ptr s" by (simp add: word_le_nat_alt)
  then have u: "unat (buf_ptr s - len) = length Z" using l by (simp add: unat_sub)
  have ge: "\<not> uint (buf_ptr s) < uint len" using le by (simp add: word_le_def)
  have "Z = drop (unat len) (content s)" using assms by simp
  also have "\<dots> = mread (rx_buffer s) (unat len) (length Z)"
    unfolding content_def mread_drop using l by simp
  finally have z: "mread (rx_buffer s) (unat len) (length Z) = Z" by simp
  show "content (snd (protocol_rx_buffer_consume now len s)) = Z"
    using mread_mwrite_same [of "rx_buffer s" 0 Z] ge
    by (simp add: protocol_rx_buffer_consume_def content_def u l z)
  show "last_rx (snd (protocol_rx_buffer_consume now len s)) = now"
    "buf_locked (snd (protocol_rx_buffer_consume now len s)) = buf_locked s"
    by (simp_all add: protocol_rx_buffer_consume_def Let_def)
qed

subsection \<open>The whole loop, and a stream in pieces\<close>

text \<open>What is left in the buffer when the loop stops: less than the packet that is coming.\<close>

definition waiting :: "bytes \<Rightarrow> (u16 \<times> bytes) list \<Rightarrow> bool" where
  "waiting X qs = (case qs of [] \<Rightarrow> X = [] | q # _ \<Rightarrow> length X < length (frame q))"

lemma rx_loop_stops:
  assumes "content s @ Y = frames qs" "waiting (content s) qs" "list_all packet_ok qs" "\<not> buf_locked s"
  shows "protocol_rx_loop now t junk s = Some ([], s\<lparr>last_transport := t\<rparr>)"
proof (cases qs)
  case Nil
  then show ?thesis using assms by (subst protocol_rx_loop.simps) (simp add: parse_empty)
next
  case (Cons q qs')
  then have "content s @ Y = frame q @ frames qs'" "length (content s) < length (frame q)" "packet_ok q"
    using assms by (simp_all add: waiting_def)
  then show ?thesis using assms(4) by (subst protocol_rx_loop.simps) (simp add: parse_incomplete)
qed

text \<open>The loop delivers the packets that are complete and leaves the rest.\<close>

lemma rx_loop_delivers:
  assumes "content s @ Y = frames qs" "list_all packet_ok qs" "\<not> buf_locked s" "last_rx s = now"
  shows "\<exists>k s'. protocol_rx_loop now t junk s = Some (map deliver (take k qs), s')
     \<and> content s' @ Y = frames (drop k qs) \<and> waiting (content s') (drop k qs) \<and> \<not> buf_locked s' \<and> last_rx s' = now"
  using assms
proof (induction qs arbitrary: s junk)
  case Nil
  then have "waiting (content s) []" by (simp add: waiting_def)
  then show ?case using rx_loop_stops [OF Nil.prems(1) _ Nil.prems(2,3)] Nil.prems by (intro exI [of _ 0]) auto
next
  case (Cons q qs)
  show ?case
  proof (cases "waiting (content s) (q # qs)")
    case True
    then show ?thesis using rx_loop_stops [OF Cons.prems(1) True Cons.prems(2,3)] Cons.prems by (intro exI [of _ 0]) auto
  next
    case False
    define Z where "Z = drop (length (frame q)) (content s)"
    have len: "length (frame q) \<le> length (content s)" using False by (simp add: waiting_def)
    have "take (length (frame q)) (content s) = take (length (frame q)) (content s @ Y)" using len by simp
    also have "\<dots> = frame q" unfolding Cons.prems(1) by simp
    finally have c: "content s = frame q @ Z" unfolding Z_def by (metis append_take_drop_id)
    have ok: "packet_ok q" "list_all packet_ok qs" using Cons.prems(2) by simp_all
    have ulen: "unat (word_of_nat (length (snd q)) + 4 :: u16) = length (frame q)"
    proof -
      have "length (snd q) + 4 < 65536" using ok(1) by (simp add: packet_ok_def RX_BUFFER_SIZE_def)
      then show ?thesis using packet_ok_length [OF ok(1)] by (simp add: unat_word_ariths length_frame)
    qed
    let ?s = "s\<lparr>last_transport := t\<rparr>"
    let ?s' = "snd (protocol_rx_buffer_consume now (word_of_nat (length (snd q)) + 4) ?s)"
    have c': "content ?s' = Z" "last_rx ?s' = now" "\<not> buf_locked ?s'"
      using consume_content [of ?s "frame q" Z "word_of_nat (length (snd q)) + 4" now] c ulen Cons.prems(3) by simp_all
    have Z: "Z @ Y = frames qs" using Cons.prems(1) c by simp
    have data: "mread (rx_buffer s) 4 (length (snd q)) = snd q"
    proof -
      have "mread (rx_buffer s) 4 (length (snd q)) = take (length (snd q)) (drop 4 (content s))"
        unfolding content_def mread_drop using len by (simp add: mread_take length_frame)
      also have "\<dots> = snd q" unfolding c by (simp add: frame_def htons_bytes_def)
      finally show ?thesis .
    qed
    obtain k s' where k: "protocol_rx_loop now t (\<lambda>i. junk (Suc i)) ?s' = Some (map deliver (take k qs), s')"
      "content s' @ Y = frames (drop k qs)" "waiting (content s') (drop k qs)" "\<not> buf_locked s'" "last_rx s' = now"
      using Cons.IH [of ?s' "\<lambda>i. junk (Suc i)"] Z ok(2) c' by auto
    have "protocol_rx_loop now t junk s = Some (deliver q # map deliver (take k qs), s')"
      using Cons.prems(3) k(1)
      by (subst protocol_rx_loop.simps)
        (simp add: parse_complete [OF c ok(1) Cons.prems(3)] packet_ok_length [OF ok(1)] data deliver_def del: unat_of_nat)
    then show ?thesis using k by (intro exI [of _ "Suc k"] exI [of _ s']) simp
  qed
qed

text \<open>Pieces that come within half a second of each other, and room for the pieces: a buffer never
  holds more than a packet less a byte when a piece comes.\<close>

primrec timely :: "u32 \<Rightarrow> u32 \<Rightarrow> (u32 \<times> bytes) list \<Rightarrow> bool" where
  "timely hz t [] = True" |
  "timely hz t (c # cs) = (fst c - t \<le> pdMS_TO_TICKS hz 500 \<and> timely hz (fst c) cs)"

lemma append_content:
  assumes "length (content s) + length bs \<le> RX_BUFFER_SIZE" "now - last_rx s \<le> pdMS_TO_TICKS hz 500"
  shows "\<exists>s'. protocol_rx_buffer_append hz now bs s = (PROTOCOL_BUFFER_OK, s')
     \<and> content s' = content s @ bs \<and> last_rx s' = now \<and> buf_locked s' = buf_locked s"
proof -
  have n: "unat (buf_ptr s) + length bs \<le> 2176" using assms(1) by (simp add: RX_BUFFER_SIZE_def)
  then have u: "unat (buf_ptr s + word_of_nat (length bs)) = unat (buf_ptr s) + length bs"
    by (simp add: unat_word_ariths unat_of_nat)
  have e: "is_rx_buf_expired hz now s = s"
    using assms(2) by (simp add: is_rx_buf_expired_def)
  have "mread (mwrite (rx_buffer s) (unat (buf_ptr s)) bs) 0 (unat (buf_ptr s) + length bs) = content s @ bs"
    using mread_mwrite_same [of "rx_buffer s" "unat (buf_ptr s)" bs]
      mread_mwrite_disjoint [of 0 "unat (buf_ptr s)" "unat (buf_ptr s)" bs "rx_buffer s"]
    by (simp add: mread_add content_def)
  then show ?thesis
    using n by (simp add: protocol_rx_buffer_append_def add32_small RX_BUFFER_SIZE_def e content_def u Let_def)
qed

lemma rx_all_delivers:
  assumes "content s @ concat (map snd cs) = frames qs" "waiting (content s) qs" "list_all packet_ok qs"
    and "list_all (\<lambda>q. length (frame q) \<le> n) qs" "list_all (\<lambda>c. length (snd c) \<le> m) cs" "n + m \<le> RX_BUFFER_SIZE + 1" "0 < n"
    and "\<not> buf_locked s" "timely hz (last_rx s) cs"
  shows "\<exists>s'. bluetooth_data_rx_all hz t junk cs s = Some (map deliver qs, s') \<and> content s' = [] \<and> \<not> buf_locked s'"
  using assms
proof (induction cs arbitrary: s qs junk)
  case Nil
  then have "frames qs = content s" by simp
  then have "length (frames qs) = unat (buf_ptr s)" by simp
  then have "qs = []" using Nil.prems(2) by (cases qs) (auto simp: waiting_def)
  then show ?case using Nil.prems by simp
next
  case (Cons c cs)
  have "length (content s) < n"
    using Cons.prems(2,4,7) by (cases qs) (auto simp: waiting_def simp del: length_content)
  then have room: "length (content s) + length (snd c) \<le> RX_BUFFER_SIZE"
    using Cons.prems(5,6) by simp
  obtain s1 where s1: "protocol_rx_buffer_append hz (fst c) (snd c) s = (PROTOCOL_BUFFER_OK, s1)"
    "content s1 = content s @ snd c" "last_rx s1 = fst c" "buf_locked s1 = buf_locked s"
    using append_content [OF room, of "fst c" hz] Cons.prems(9) by auto
  have f: "content s1 @ concat (map snd cs) = frames qs" using Cons.prems(1) s1(2) by simp
  obtain k s2 where s2: "protocol_rx_loop (fst c) t (junk 0) s1 = Some (map deliver (take k qs), s2)"
    "content s2 @ concat (map snd cs) = frames (drop k qs)" "waiting (content s2) (drop k qs)" "\<not> buf_locked s2" "last_rx s2 = fst c"
    using rx_loop_delivers [OF f Cons.prems(3), of "fst c" t "junk 0"] s1(3,4) Cons.prems(8) by auto
  have sub: "list_all P (drop k qs)" if "list_all P qs" for P
    using that in_set_dropD by (fastforce simp: list_all_iff)
  obtain s3 where s3: "bluetooth_data_rx_all hz t (\<lambda>i. junk (Suc i)) cs s2 = Some (map deliver (drop k qs), s3)" "content s3 = []" "\<not> buf_locked s3"
    using Cons.IH [OF s2(2,3) sub sub _ Cons.prems(6,7) s2(4), of "\<lambda>i. junk (Suc i)"] Cons.prems(3,4,5,9) s2(5) by auto
  have "map deliver (take k qs) @ map deliver (drop k qs) = map deliver qs"
    by (simp flip: map_append)
  then show ?case
    using s3 by (simp add: bluetooth_data_rx_def s1(1) s2(1))
qed

subsection \<open>Cutting into pieces\<close>

lemma bluetooth_tx_pieces:
  assumes "0 < sz"
  shows "\<exists>cs. bluetooth_tx sz data = Some cs \<and> concat cs = data \<and> list_all (\<lambda>c. 0 < length c \<and> length c \<le> sz) cs"
proof (induction "length data" arbitrary: data rule: less_induct)
  case less
  show ?case
  proof (cases "data = []")
    case True
    then show ?thesis by (subst bluetooth_tx.simps) simp
  next
    case False
    let ?n = "if length data > sz then sz else length data"
    have "length (drop ?n data) < length data" using False assms by simp
    then obtain cs where "bluetooth_tx sz (drop ?n data) = Some cs" "concat cs = drop ?n data"
      "list_all (\<lambda>c. 0 < length c \<and> length c \<le> sz) cs"
      using less by blast
    then show ?thesis using False assms by (subst bluetooth_tx.simps) (auto simp: Let_def)
  qed
qed

text \<open>The payload of a PPoGATT packet and its sequence number.\<close>

definition pk_payload :: "ppogatt_packet \<Rightarrow> bytes" where
  "pk_payload p = drop 1 (pk_bytes p)"

definition pk_seq :: "ppogatt_packet \<Rightarrow> u8" where
  "pk_seq p = drop_bit 3 (pk_buf p 0)"

definition data_packet :: "ppogatt_packet \<Rightarrow> bool" where
  "data_packet p = (1 < unat (pk_len p) \<and> unat (pk_len p) \<le> PPOGATT_TX_MTU
     \<and> pk_buf p 0 AND 7 = ppogatt_code PPOGATT_CMD_DATA)"

primrec numbered :: "u8 \<Rightarrow> ppogatt_packet list \<Rightarrow> bool" where
  "numbered n [] = True" |
  "numbered n (p # ps) = (pk_seq p = n AND 31 \<and> numbered (n + 1) ps)"

lemma seq_byte:
  "push_bit 3 (n :: u8) AND 7 = 0" "drop_bit 3 (push_bit 3 n) = n AND 31"
proof -
  have m: "(7 :: u8) = mask 3" "(31 :: u8) = mask 5" by (simp_all add: mask_eq_exp_minus_1)
  show "push_bit 3 n AND 7 = 0" unfolding m by (rule bit_eqI) (auto simp: bit_simps)
  show "drop_bit 3 (push_bit 3 n) = n AND 31"
    unfolding m by (rule bit_eqI) (auto simp: bit_simps dest: bit_imp_le_length)
qed

lemma mk_data_packet:
  assumes "0 < length bs" "length bs < PPOGATT_TX_MTU"
    and p_def: "p = \<lparr> pk_len = word_of_nat (length bs + 1),
                  pk_buf = mwrite (mwrite m 0 [push_bit 3 n OR ppogatt_code PPOGATT_CMD_DATA]) 1 bs \<rparr>"
  shows "data_packet p" "pk_payload p = bs" "pk_seq p = n AND 31"
proof -
  have l: "unat (pk_len p) = Suc (length bs)" using assms(1,2) by (simp add: p_def PPOGATT_TX_MTU_def unat_of_nat del: of_nat_add of_nat_Suc)
  have b: "pk_buf p 0 = push_bit 3 n" by (simp add: p_def mwrite_def)
  show "data_packet p" using assms(1,2) l b by (simp add: data_packet_def seq_byte)
  show "pk_seq p = n AND 31" by (simp add: pk_seq_def b seq_byte)
  have "pk_payload p = mread (pk_buf p) 1 (length bs)"
    by (simp add: pk_payload_def pk_bytes_def mread_drop l del: One_nat_def)
  then show "pk_payload p = bs" by (simp add: p_def mread_mwrite_same)
qed

lemma request_tx_packets:
  assumes "tx_queue g = Some q"
  shows "\<exists>ps g'. bt_device_request_tx pkt data g = Some g' \<and> tx_queue g' = Some (q @ ps) \<and> list_all data_packet ps
     \<and> concat (map pk_payload ps) = data \<and> numbered (txseq g) ps \<and> txseq g' = txseq g + word_of_nat (length ps)"
  using assms
proof (induction pkt data g arbitrary: q rule: bt_device_request_tx.induct)
  case (1 pkt data g)
  show ?case
  proof (cases "data = []")
    case True
    then show ?thesis using 1(2) by (subst bt_device_request_tx.simps) (intro exI [of _ "[]"] exI [of _ g], simp)
  next
    case False
    let ?n = "if length data > PPOGATT_TX_MTU - 1 then PPOGATT_TX_MTU - 1 else length data"
    let ?p = "\<lparr> pk_len = word_of_nat (?n + 1),
                pk_buf = mwrite (mwrite (pk_buf pkt) 0 [push_bit 3 (txseq g) OR ppogatt_code PPOGATT_CMD_DATA]) 1 (take ?n data) \<rparr>"
    let ?g = "g\<lparr>tx_queue := Some (q @ [?p])\<rparr>"
    have n: "length (take ?n data) = ?n" "0 < ?n" "?n < PPOGATT_TX_MTU"
      using False by (auto simp: PPOGATT_TX_MTU_def)
    have q: "queue_send ?p g = Some ?g" using 1(2) by (simp add: queue_send_def)
    obtain ps g' where ps: "bt_device_request_tx ?p (drop ?n data) (?g\<lparr>txseq := txseq ?g + 1\<rparr>) = Some g'"
      "tx_queue g' = Some ((q @ [?p]) @ ps)" "list_all data_packet ps" "concat (map pk_payload ps) = drop ?n data"
      "numbered (txseq g + 1) ps" "txseq g' = txseq g + 1 + word_of_nat (length ps)"
      using 1(1) [OF False refl refl q, of "q @ [?p]"] by auto
    have mk: "data_packet ?p" "pk_payload ?p = take ?n data" "pk_seq ?p = txseq g AND 31"
      using mk_data_packet [of "take ?n data" ?p "pk_buf pkt" "txseq g"] n by simp_all
    have e: "bt_device_request_tx pkt data g = Some g'"
      by (subst bt_device_request_tx.simps) (use False q ps(1) in \<open>simp only: Let_def if_False option.case\<close>)
    have "concat (map pk_payload (?p # ps)) = take ?n data @ drop ?n data"
      unfolding list.map concat.simps mk(2) ps(4) ..
    then have c: "concat (map pk_payload (?p # ps)) = data" by (simp only: append_take_drop_id)
    have l: "list_all data_packet (?p # ps)" "numbered (txseq g) (?p # ps)"
      "tx_queue g' = Some (q @ ?p # ps)" "txseq g' = txseq g + word_of_nat (length (?p # ps))"
      using ps(2,3,5,6) mk(1,3) by simp_all
    show ?thesis by (intro exI conjI) (rule e l(3) l(1) c l(2) l(4))+
  qed
qed

lemma rx_main_data:
  assumes "data_packet p" "tx_queue r = Some q"
  shows "\<exists>r' a. ppogatt_rx_main p r = Some (Some (pk_payload p), r') \<and> tx_queue r' = Some (q @ [a])
     \<and> pk_bytes a = [push_bit 3 (pk_seq p) OR ppogatt_code PPOGATT_CMD_ACK]"
proof -
  have "sub32 (unat (pk_len p)) 1 = unat (pk_len p) - 1"
    using assms(1) by (intro sub32_le) (auto simp: data_packet_def PPOGATT_TX_MTU_def)
  moreover have "mread (pk_buf p) 1 (unat (pk_len p) - 1) = pk_payload p"
    by (simp add: pk_payload_def pk_bytes_def mread_drop)
  ultimately show ?thesis
    using assms by (simp add: ppogatt_rx_main_def data_packet_def queue_send_def Let_def pk_bytes_def pk_seq_def mread_Suc mwrite_def)
qed

subsection \<open>The loop ends whatever is in the buffer\<close>

lemma consume_less:
  "unat (buf_ptr (snd (protocol_rx_buffer_consume now len s))) = unat (buf_ptr s) - unat len"
proof (cases "uint (buf_ptr s) < uint len")
  case True
  then have "unat (buf_ptr s) \<le> unat len" by (simp add: word_le_nat_alt [symmetric] word_le_def)
  then show ?thesis using True by (simp add: protocol_rx_buffer_consume_def Let_def)
next
  case False
  then have "len \<le> buf_ptr s" by (simp add: word_le_def)
  then show ?thesis using False by (simp add: protocol_rx_buffer_consume_def Let_def unat_sub)
qed

lemma parse_result:
  assumes "protocol_parse_packet data hdr0 t s = (rv, hdr, s')"
  shows "s' = s\<lparr>last_transport := t\<rparr>" "rv = PACKET_PROCESSED \<Longrightarrow> 4 \<le> unat (buf_ptr s)"
    "rv = PACKET_PROCESSED \<Longrightarrow> hdr = hdr0 \<or> unat (p_length hdr) + 4 \<le> unat (buf_ptr s)"
  using assms by (auto simp: protocol_parse_packet_def Let_def split: if_splits)

lemma rx_loop_ends:
  assumes "\<And>i. p_length (junk i) + 4 \<noteq> 0"
  shows "\<exists>ds s'. protocol_rx_loop now t junk s = Some (ds, s') \<and> unat (buf_ptr s') \<le> unat (buf_ptr s)"
  using assms
proof (induction "unat (buf_ptr s)" arbitrary: s junk rule: less_induct)
  case less
  obtain rv hdr s1 where p: "protocol_parse_packet 0 (junk 0) t s = (rv, hdr, s1)" by (metis prod_cases3)
  have s1: "s1 = s\<lparr>last_transport := t\<rparr>" using parse_result(1) [OF p] .
  show ?case
  proof (cases "rv = PACKET_PROCESSED \<and> \<not> buf_locked s")
    case False
    then show ?thesis
      using p s1 by (subst protocol_rx_loop.simps) (cases rv; simp add: protocol_rx_buffer_reset_def)
  next
    case True
    let ?s = "snd (protocol_rx_buffer_consume now (p_length hdr + 4) s1)"
    have "unat (buf_ptr s) \<ge> 4" and h: "hdr = junk 0 \<or> unat (p_length hdr) + 4 \<le> unat (buf_ptr s)"
      using parse_result(2,3) [OF p] True by simp_all
    have "p_length hdr + 4 \<noteq> 0"
    proof (cases "hdr = junk 0")
      case False
      then have "unat (p_length hdr) + 4 < 65536" using h unat_u16_less [of "buf_ptr s"] by linarith
      then have "unat (p_length hdr + 4) = unat (p_length hdr) + 4" by (simp add: unat_word_ariths)
      then show ?thesis by auto
    qed (use less.prems in simp)
    then have "0 < unat (p_length hdr + 4)" by (simp add: unat_gt_0)
    then have l: "unat (buf_ptr ?s) < unat (buf_ptr s)" "unat (buf_ptr ?s) \<le> unat (buf_ptr s)"
      using \<open>unat (buf_ptr s) \<ge> 4\<close> unfolding consume_less s1 by simp_all
    obtain ds s' where "protocol_rx_loop now t (\<lambda>i. junk (Suc i)) ?s = Some (ds, s')" "unat (buf_ptr s') \<le> unat (buf_ptr ?s)"
      using less.hyps [OF l(1), of "\<lambda>i. junk (Suc i)"] less.prems by auto
    then show ?thesis
      using p True s1 l(2) by (subst protocol_rx_loop.simps) auto
  qed
qed

text \<open>Where it does not: a packet of no length at the head of the buffer, and a header that holds 65532 in every round.\<close>

lemma rx_loop_hangs:
  assumes "\<And>i. p_length (junk i) + 4 = 0" "\<not> buf_locked s" "4 \<le> unat (buf_ptr s)" "be16 (rx_buffer s 0) (rx_buffer s 1) = 0"
  shows "protocol_rx_loop now t junk s = None"
proof -
  have "(\<forall>i. p_length (junk i) + 4 = 0) \<and> \<not> buf_locked s \<and> 4 \<le> unat (buf_ptr s) \<and> be16 (rx_buffer s 0) (rx_buffer s 1) = 0 \<longrightarrow> False"
    if "protocol_rx_loop now t junk s = Some r" for r
  proof (rule protocol_rx_loop.raw_induct [where P = "\<lambda>now t junk s r. (\<forall>i. p_length (junk i) + 4 = 0) \<and> \<not> buf_locked s \<and>
      4 \<le> unat (buf_ptr s) \<and> be16 (rx_buffer s 0) (rx_buffer s 1) = 0 \<longrightarrow> False", OF _ that])
    fix f :: "u32 \<Rightarrow> nat \<Rightarrow> (nat \<Rightarrow> packet_hdr) \<Rightarrow> rx_state \<Rightarrow> (delivery list \<times> rx_state) option"
    fix now t junk s r
    assume IH: "\<And>now t junk s r. f now t junk s = Some r \<Longrightarrow> (\<forall>i. p_length (junk i) + 4 = 0) \<and> \<not> buf_locked s \<and>
      4 \<le> unat (buf_ptr s) \<and> be16 (rx_buffer s 0) (rx_buffer s 1) = 0 \<longrightarrow> False"
      and eq: "(case protocol_parse_packet 0 (junk 0) t s of (rv, hdr, s) \<Rightarrow>
      (case rv of
         PACKET_MORE_DATA_REQD \<Rightarrow> Some ([], s)
       | PACKET_INVALID \<Rightarrow> Some ([], protocol_rx_buffer_reset s)
       | PACKET_PROCESSED \<Rightarrow>
           if buf_locked s then Some ([], s)
           else let d = (p_endpoint hdr, mread (rx_buffer s) (p_data hdr) (unat (p_length hdr)),
                         protocol_find_endpoint_handler (p_endpoint hdr) pebble_endpoints \<noteq> None);
                    s = snd (protocol_rx_buffer_consume now (p_length hdr + 4) s)
                in do { (ds, s) \<leftarrow> f now t (\<lambda>i. junk (Suc i)) s;
                        Some (d # ds, s) })) = Some r"
    show "(\<forall>i. p_length (junk i) + 4 = 0) \<and> \<not> buf_locked s \<and> 4 \<le> unat (buf_ptr s) \<and> be16 (rx_buffer s 0) (rx_buffer s 1) = 0 \<longrightarrow> False"
    proof
      assume a: "(\<forall>i. p_length (junk i) + 4 = 0) \<and> \<not> buf_locked s \<and> 4 \<le> unat (buf_ptr s) \<and> be16 (rx_buffer s 0) (rx_buffer s 1) = 0"
      let ?s = "snd (protocol_rx_buffer_consume now 0 (s\<lparr>last_transport := t\<rparr>))"
      have p: "protocol_parse_packet 0 (junk 0) t s = (PACKET_PROCESSED, junk 0, s\<lparr>last_transport := t\<rparr>)"
        using a by (simp add: protocol_parse_packet_def Let_def)
      have z: "p_length (junk 0) + 4 = 0" using a by blast
      obtain r' where "f now t (\<lambda>i. junk (Suc i)) ?s = Some r'"
        using eq a by (auto simp: p z Let_def split: Option.bind_splits)
      from IH [OF this] a show False
        by (auto simp: protocol_rx_buffer_consume_def Let_def mwrite_def)
    qed
  qed
  then show ?thesis using assms by (cases "protocol_rx_loop now t junk s") auto
qed

text \<open>A packet whose length lies between the two bounds never completes: the parser asks for more, and the
  buffer has no room for it.\<close>

lemma oversized_packet_stalls:
  assumes "\<not> buf_locked s" "4 \<le> unat (buf_ptr s)" "unat (buf_ptr s) \<le> RX_BUFFER_SIZE"
    and "be16 (rx_buffer s 0) (rx_buffer s 1) = n" "RX_BUFFER_SIZE - 4 < unat n" "unat n \<le> RX_BUFFER_SIZE"
  shows "protocol_parse_packet 0 hdr0 t s = (PACKET_MORE_DATA_REQD, hdr0, s\<lparr>last_transport := t\<rparr>)"
  using assms by (auto simp: protocol_parse_packet_def Let_def RX_BUFFER_SIZE_def)

text \<open>The handle of the transmitting task survives a disconnection, so that the next connection deletes that task again.\<close>

lemma reconnect_deletes_task_twice:
  assumes "\<not> rx_task g" "\<not> tx_task g"
  shows "do { g \<leftarrow> ppogatt_callback_connected pkt g; g \<leftarrow> ppogatt_callback_disconnected g; ppogatt_callback_connected pkt' g } = None"
  using assms
  by (simp add: ppogatt_callback_connected_def ppogatt_callback_disconnected_def ppogatt_start_def ppogatt_shutdown_def queue_send_def Let_def)

subsection \<open>The properties\<close>

text \<open>C19: Packets survive fragmentation. A stream of packets that reaches the watch in pieces of any sizes, cut
  anywhere, is delivered as exactly those packets, each once and in order with its endpoint and payload, and the
  buffer is empty afterwards; it is enough that a packet short of a byte and a piece fit in the buffer together and that
  the pieces come within half a second of each other.\<close>

theorem packets_survive_fragmentation:
  assumes "concat (map snd cs) = frames qs" "list_all packet_ok qs"
    and "list_all (\<lambda>q. length (frame q) \<le> n) qs" "list_all (\<lambda>c. length (snd c) \<le> m) cs" "n + m \<le> RX_BUFFER_SIZE + 1" "0 < n"
    and "buf_ptr s = 0" "\<not> buf_locked s" "timely hz (last_rx s) cs"
  shows "\<exists>s'. bluetooth_data_rx_all hz t junk cs s = Some (map deliver qs, s') \<and> buf_ptr s' = 0"
proof -
  have c: "content s = []" using assms(7) by (simp add: content_def)
  have w: "waiting (content s) qs"
    using c by (cases qs) (simp_all add: waiting_def length_frame)
  obtain s' where "bluetooth_data_rx_all hz t junk cs s = Some (map deliver qs, s')" "content s' = []"
    using rx_all_delivers [of s cs qs n m hz t junk] assms c w by auto
  moreover from this have "buf_ptr s' = 0" using length_content [of s'] by (simp add: unat_eq_zero)
  ultimately show ?thesis by blast
qed

definition ex_rx :: rx_state where
  "ex_rx = \<lparr> rx_buffer = (\<lambda>_. 0), buf_ptr = 0, last_rx = 0, last_transport = 0, buf_locked = False, txn_free = True \<rparr>"

definition ex_hdr :: packet_hdr where
  "ex_hdr = \<lparr> p_length = 0, p_endpoint = 0, p_data = 0, p_transport = 0 \<rparr>"

theorem packets_survive_fragmentation_witness:
  "\<exists>s'. bluetooth_data_rx_all 1000 1 (\<lambda>_ _. ex_hdr) [(3, [0, 1, 0x07]), (9, [0xd1, 7, 0, 2]), (20, [0, 5, 8, 9])] ex_rx
      = Some (map deliver [(2001, [7]), (5, [8, 9])], s') \<and> buf_ptr s' = 0"
  by (rule packets_survive_fragmentation [where n = 100 and m = 100])
    (simp_all add: frame_def htons_bytes_def packet_ok_def RX_BUFFER_SIZE_def ex_rx_def pdMS_TO_TICKS_def)

text \<open>C25: The service thread comes back to its queue. Whatever bytes the phone sends, the loop over the receive buffer ends, the fill mark
  never moves up, and so one reception leaves at most the buffer's size in it. The one condition is on the header that a packet of no
  length leaves as it was, an uninitialised local that may hold something else in every round: its length must not be 65532, for then
  the round consumes nothing; a header that holds that length in every round does keep the loop from ending, as \<open>rx_loop_hangs\<close> shows.
  (The reception is of less than 2 GB, which any in the memory of the watch is.)\<close>

theorem rx_always_ends:
  assumes "\<And>i. p_length (junk i) \<noteq> 65532" "unat (buf_ptr s) \<le> RX_BUFFER_SIZE" "length data < 2 ^ 31"
  shows "\<exists>ds s'. bluetooth_data_rx hz now t junk data s = Some (ds, s') \<and> unat (buf_ptr s') \<le> RX_BUFFER_SIZE"
proof (cases "add32 (unat (buf_ptr s)) (length data) > RX_BUFFER_SIZE")
  case True
  then show ?thesis using assms(2) by (simp add: bluetooth_data_rx_def protocol_rx_buffer_append_def)
next
  case False
  have fits: "unat (buf_ptr s) + length data \<le> RX_BUFFER_SIZE"
    using False assms(2,3) by (simp add: add32_small RX_BUFFER_SIZE_def)
  obtain s1 where s1: "protocol_rx_buffer_append hz now data s = (PROTOCOL_BUFFER_OK, s1)"
    "buf_ptr s1 = buf_ptr (is_rx_buf_expired hz now s) + word_of_nat (length data)"
    using False by (simp add: protocol_rx_buffer_append_def Let_def)
  have "unat (buf_ptr (is_rx_buf_expired hz now s)) \<le> unat (buf_ptr s)"
    by (simp add: is_rx_buf_expired_def)
  moreover have stale: "p_length (junk i) + 4 \<noteq> 0" for i
  proof
    assume "p_length (junk i) + 4 = 0"
    then have "p_length (junk i) = - 4" by (simp add: eq_neg_iff_add_eq_0)
    then show False using assms(1) [of i] by simp
  qed
  ultimately have "unat (buf_ptr s1) \<le> RX_BUFFER_SIZE"
    using fits by (simp add: s1(2) unat_word_ariths unat_of_nat RX_BUFFER_SIZE_def)
  then show ?thesis
    using rx_loop_ends [of junk now t s1] stale s1(1) by (auto simp: bluetooth_data_rx_def)
qed

theorem rx_always_ends_witness:
  "\<exists>ds s'. bluetooth_data_rx 1000 5 1 (\<lambda>i. ex_hdr\<lparr>p_length := if even i then 7 else 65535\<rparr>) [0, 0, 0, 0, 0xff] ex_rx = Some (ds, s') \<and> unat (buf_ptr s') \<le> RX_BUFFER_SIZE"
  by (rule rx_always_ends) (simp_all add: ex_hdr_def ex_rx_def)

lemma send_data_pieces:
  assumes "0 < sz"
  shows "\<exists>cs. bluetooth_send_data sz True True ep data = Some cs \<and> concat cs = frame (ep, data)
     \<and> list_all (\<lambda>c. 0 < length c \<and> length c \<le> sz) cs"
proof -
  let ?h = "htons_bytes (word_of_nat (length data)) @ htons_bytes ep"
  obtain cs cs' where c: "bluetooth_tx sz ?h = Some cs" "concat cs = ?h" "list_all (\<lambda>c. 0 < length c \<and> length c \<le> sz) cs"
    "bluetooth_tx sz data = Some cs'" "concat cs' = data" "list_all (\<lambda>c. 0 < length c \<and> length c \<le> sz) cs'"
    using bluetooth_tx_pieces [OF assms, of ?h] bluetooth_tx_pieces [OF assms, of data] by blast
  have "bluetooth_send_data sz True True ep data = Some (cs @ cs')"
    using c(1,4) by (simp add: bluetooth_send_data_def bluetooth_send_def)
  moreover have "concat (cs @ cs') = frame (ep, data)" using c(2,5) by (simp add: frame_def)
  moreover have "list_all (\<lambda>c. 0 < length c \<and> length c \<le> sz) (cs @ cs')" using c(3,6) by simp
  ultimately show ?thesis by blast
qed

text \<open>A list of packets sent one after the other, the pieces handed to PPoGATT, and the
  packets taken up by a receiver at given times.\<close>

primrec send_packets :: "nat \<Rightarrow> (u16 \<times> bytes) list \<Rightarrow> bytes list option" where
  "send_packets sz [] = Some []" |
  "send_packets sz (q # qs) = do { cs \<leftarrow> bluetooth_send_data sz True True (fst q) (snd q); cs' \<leftarrow> send_packets sz qs; Some (cs @ cs') }"

primrec request_all :: "ppogatt_packet \<Rightarrow> bytes list \<Rightarrow> ppogatt \<Rightarrow> ppogatt option" where
  "request_all pkt [] g = Some g" |
  "request_all pkt (c # cs) g = do { g \<leftarrow> bt_device_request_tx pkt c g; request_all pkt cs g }"

lemma send_packets_frames:
  assumes "0 < sz"
  shows "\<exists>cs. send_packets sz qs = Some cs \<and> concat cs = frames qs"
proof (induction qs)
  case (Cons q qs)
  then show ?case using send_data_pieces [OF assms, of "fst q" "snd q"] by auto
qed simp

primrec ppogatt_rx_all :: "ppogatt_packet list \<Rightarrow> ppogatt \<Rightarrow> (bytes list \<times> ppogatt) option" where
  "ppogatt_rx_all [] r = Some ([], r)" |
  "ppogatt_rx_all (p # ps) r = do {
     (d, r) \<leftarrow> ppogatt_rx_main p r;
     (ds, r) \<leftarrow> ppogatt_rx_all ps r;
     Some ((case d of None \<Rightarrow> ds | Some bs \<Rightarrow> bs # ds), r) }"

lemma request_all_packets:
  assumes "tx_queue g = Some q"
  shows "\<exists>ps g'. request_all pkt cs g = Some g' \<and> tx_queue g' = Some (q @ ps) \<and> list_all data_packet ps
     \<and> concat (map pk_payload ps) = concat cs"
  using assms
proof (induction cs arbitrary: g q)
  case (Cons c cs)
  obtain ps g1 where ps: "bt_device_request_tx pkt c g = Some g1" "tx_queue g1 = Some (q @ ps)" "list_all data_packet ps"
    "concat (map pk_payload ps) = c"
    using request_tx_packets [OF Cons.prems] by blast
  obtain ps' g' where ps': "request_all pkt cs g1 = Some g'" "tx_queue g' = Some ((q @ ps) @ ps')" "list_all data_packet ps'"
    "concat (map pk_payload ps') = concat cs"
    using Cons.IH [OF ps(2)] by blast
  show ?case using ps ps' by (intro exI [of _ "ps @ ps'"] exI [of _ g']) simp
qed simp

lemma rx_all_payloads:
  "list_all data_packet ps \<Longrightarrow> tx_queue r = Some q \<Longrightarrow> \<exists>r'. ppogatt_rx_all ps r = Some (map pk_payload ps, r')"
proof (induction ps arbitrary: r q)
  case (Cons p ps)
  then obtain r1 a where "ppogatt_rx_main p r = Some (Some (pk_payload p), r1)" "tx_queue r1 = Some (q @ [a])"
    using rx_main_data [of p r q] by auto
  then show ?case using Cons.IH [of r1] Cons.prems(1) by auto
qed simp

lemma payload_short: "data_packet p \<Longrightarrow> length (pk_payload p) \<le> 19"
  by (auto simp: data_packet_def pk_payload_def pk_bytes_def PPOGATT_TX_MTU_def)


text \<open>Sending ends and loses nothing. With an enabled, connected radio \<open>bluetooth_send_data\<close> returns, and the pieces it hands to the
  radio are non-empty, no longer than the limit, and together are the frame of the packet.\<close>

theorem bluetooth_send_data_complete:
  assumes "0 < sz"
  shows "\<exists>cs. bluetooth_send_data sz True True ep data = Some cs \<and> concat cs = frame (ep, data)
     \<and> list_all (\<lambda>c. 0 < length c \<and> length c \<le> sz) cs"
  by (rule send_data_pieces [OF assms])

theorem bluetooth_send_data_complete_witness:
  "\<exists>cs. bluetooth_send_data 2 True True 2001 [1, 2, 3] = Some cs \<and> concat cs = frame (2001, [1, 2, 3])
     \<and> list_all (\<lambda>c. 0 < length c \<and> length c \<le> 2) cs"
  by (rule bluetooth_send_data_complete) simp

text \<open>C27: PPoGATT carries bytes unchanged. \<open>bt_device_request_tx\<close> queues data packets of at most 20 bytes with consecutive sequence
  numbers, counted modulo 32 across requests, whose payloads are together the bytes of the request; and
  the receiving thread takes exactly its payload out of each of them and queues an acknowledgement with the packet's number.\<close>

theorem ppogatt_carries_bytes:
  assumes "tx_queue g = Some q"
  shows "\<exists>ps g'. bt_device_request_tx pkt data g = Some g' \<and> tx_queue g' = Some (q @ ps)
     \<and> list_all data_packet ps \<and> numbered (txseq g) ps \<and> txseq g' = txseq g + word_of_nat (length ps)
     \<and> concat (map pk_payload ps) = data
     \<and> (\<forall>p \<in> set ps. \<forall>r acks. tx_queue r = Some acks \<longrightarrow>
           (\<exists>r' a. ppogatt_rx_main p r = Some (Some (pk_payload p), r') \<and> tx_queue r' = Some (acks @ [a])
              \<and> pk_bytes a = [push_bit 3 (pk_seq p) OR ppogatt_code PPOGATT_CMD_ACK]))"
proof -
  obtain ps g' where ps: "bt_device_request_tx pkt data g = Some g'" "tx_queue g' = Some (q @ ps)" "list_all data_packet ps"
    "concat (map pk_payload ps) = data" "numbered (txseq g) ps" "txseq g' = txseq g + word_of_nat (length ps)"
    using request_tx_packets [OF assms] by blast
  moreover have "\<forall>p \<in> set ps. \<forall>r acks. tx_queue r = Some acks \<longrightarrow>
           (\<exists>r' a. ppogatt_rx_main p r = Some (Some (pk_payload p), r') \<and> tx_queue r' = Some (acks @ [a])
              \<and> pk_bytes a = [push_bit 3 (pk_seq p) OR ppogatt_code PPOGATT_CMD_ACK])"
    using ps(3) rx_main_data by (fastforce simp: list_all_iff)
  ultimately show ?thesis by blast
qed

definition ex_ppogatt :: ppogatt where
  "ex_ppogatt = \<lparr> rx_task = True, tx_task = True, rx_alive = True, tx_alive = True, rx_queue = Some [], tx_queue = Some [],
     pktslost = 0, seen_one_reset_ack = True, txseq = 31, link_connected = True \<rparr>"

theorem ppogatt_carries_bytes_witness:
  "\<exists>ps g'. bt_device_request_tx \<lparr> pk_len = 0, pk_buf = (\<lambda>_. 0) \<rparr> (replicate 30 7) ex_ppogatt = Some g' \<and> tx_queue g' = Some ps
     \<and> numbered 31 ps \<and> concat (map pk_payload ps) = replicate 30 7
     \<and> list_all (\<lambda>p. \<exists>r'. ppogatt_rx_main p ex_ppogatt = Some (Some (pk_payload p), r')) ps"
proof -
  have "tx_queue ex_ppogatt = Some []" by (simp add: ex_ppogatt_def)
  from ppogatt_carries_bytes [OF this, of "\<lparr> pk_len = 0, pk_buf = (\<lambda>_. 0) \<rparr>" "replicate 30 7"]
  obtain ps g' where ps: "bt_device_request_tx \<lparr> pk_len = 0, pk_buf = (\<lambda>_. 0) \<rparr> (replicate 30 7) ex_ppogatt = Some g'"
    "tx_queue g' = Some ps" "numbered (txseq ex_ppogatt) ps" "concat (map pk_payload ps) = replicate 30 7"
    "\<forall>p \<in> set ps. \<forall>r acks. tx_queue r = Some acks \<longrightarrow> (\<exists>r' a. ppogatt_rx_main p r = Some (Some (pk_payload p), r')
       \<and> tx_queue r' = Some (acks @ [a]) \<and> pk_bytes a = [push_bit 3 (pk_seq p) OR ppogatt_code PPOGATT_CMD_ACK])"
    unfolding append_Nil by blast
  have "list_all (\<lambda>p. \<exists>r'. ppogatt_rx_main p ex_ppogatt = Some (Some (pk_payload p), r')) ps"
    using ps(5) \<open>tx_queue ex_ppogatt = Some []\<close> unfolding list_all_iff by blast
  moreover have "numbered 31 ps" using ps(3) by (simp add: ex_ppogatt_def)
  ultimately show ?thesis using ps(1,2,4) by blast
qed

text \<open>C5: The link as a whole. Packets that one end sends with \<open>bluetooth_send_data\<close>, cut for the radio, numbered and cut again by
  \<open>bt_device_request_tx\<close>, and taken up packet by packet by \<open>_ppogatt_rx_main\<close> and \<open>bluetooth_data_rx\<close> at the other end,
  are delivered there as the same packets in the same order, at any arrival times no further apart than half a second.\<close>

theorem link_round_trip:
  assumes "0 < sz" "list_all packet_ok qs" "list_all (\<lambda>q. length (snd q) \<le> 2000) qs"
    and "tx_queue g = Some []" "tx_queue r = Some acks" "buf_ptr s = 0" "\<not> buf_locked s"
  shows "\<exists>cs g' ps bs r'. send_packets sz qs = Some cs \<and> request_all pkt cs g = Some g' \<and> tx_queue g' = Some ps
     \<and> ppogatt_rx_all ps r = Some (bs, r')
     \<and> (\<forall>ts. length ts = length bs \<and> timely hz (last_rx s) (zip ts bs)
           \<longrightarrow> (\<exists>s'. bluetooth_data_rx_all hz t junk (zip ts bs) s = Some (map deliver qs, s')))"
proof -
  obtain cs where cs: "send_packets sz qs = Some cs" "concat cs = frames qs"
    using send_packets_frames [OF assms(1)] by blast
  obtain ps g' where ps: "request_all pkt cs g = Some g'" "tx_queue g' = Some ps" "list_all data_packet ps"
    "concat (map pk_payload ps) = concat cs"
    using request_all_packets [OF assms(4), of pkt cs] by auto
  obtain r' where r': "ppogatt_rx_all ps r = Some (map pk_payload ps, r')"
    using rx_all_payloads [OF ps(3) assms(5)] by blast
  have c: "content s = []" using assms(6) by (simp add: content_def)
  have w: "waiting (content s) qs" using c by (cases qs) (simp_all add: waiting_def length_frame)
  have l: "list_all (\<lambda>q. length (frame q) \<le> 2004) qs" using assms(3) by (simp add: length_frame)
  have "\<exists>s'. bluetooth_data_rx_all hz t junk (zip ts (map pk_payload ps)) s = Some (map deliver qs, s')"
    if ts: "length ts = length (map pk_payload ps)" "timely hz (last_rx s) (zip ts (map pk_payload ps))" for ts
  proof -
    have sh: "list_all (\<lambda>c. length (snd c) \<le> 19) (zip ts (map pk_payload ps))"
      using ps(3) payload_short by (fastforce simp: list_all_iff dest: set_zip_rightD)
    have f: "content s @ concat (map snd (zip ts (map pk_payload ps))) = frames qs"
      using ts(1) c cs(2) ps(4) by (simp only: map_snd_zip append_Nil)
    show ?thesis
      using rx_all_delivers [OF f w assms(2) l sh _ _ assms(7) ts(2), of t junk] by (auto simp: RX_BUFFER_SIZE_def)
  qed
  then show ?thesis using cs(1) ps(1,2) r' by blast
qed

lemma timely_replicate: "timely hz 0 (zip (replicate n 0) bs)"
  by (induction n arbitrary: bs) (auto split: list.splits simp: zip_Cons1)

theorem link_round_trip_witness:
  "\<exists>cs g' ps bs r' s'. send_packets 100 [(2001, [1, 2, 3]), (5, replicate 50 9)] = Some cs
     \<and> request_all \<lparr> pk_len = 0, pk_buf = (\<lambda>_. 0) \<rparr> cs ex_ppogatt = Some g' \<and> tx_queue g' = Some ps
     \<and> ppogatt_rx_all ps ex_ppogatt = Some (bs, r')
     \<and> bluetooth_data_rx_all 1000 1 (\<lambda>_ _. ex_hdr) (zip (replicate (length bs) 0) bs) ex_rx
         = Some (map deliver [(2001, [1, 2, 3]), (5, replicate 50 9)], s')"
proof -
  let ?qs = "[(2001, [1, 2, 3]), (5, replicate 50 9)] :: (u16 \<times> bytes) list"
  have "tx_queue ex_ppogatt = Some []" "buf_ptr ex_rx = 0" "\<not> buf_locked ex_rx" "last_rx ex_rx = 0"
    "list_all packet_ok ?qs" "list_all (\<lambda>q. length (snd q) \<le> 2000) ?qs"
    by (simp_all add: ex_ppogatt_def ex_rx_def packet_ok_def RX_BUFFER_SIZE_def)
  from link_round_trip [OF _ this(5,6) this(1) this(1) this(2,3), of 100 "\<lparr> pk_len = 0, pk_buf = (\<lambda>_. 0) \<rparr>" 1000 1 "\<lambda>_ _. ex_hdr"] this(4)
  obtain cs g' ps bs r' where l: "send_packets 100 ?qs = Some cs" "request_all \<lparr> pk_len = 0, pk_buf = (\<lambda>_. 0) \<rparr> cs ex_ppogatt = Some g'"
    "tx_queue g' = Some ps" "ppogatt_rx_all ps ex_ppogatt = Some (bs, r')"
    "\<forall>ts. length ts = length bs \<and> timely 1000 0 (zip ts bs)
       \<longrightarrow> (\<exists>s'. bluetooth_data_rx_all 1000 1 (\<lambda>_ _. ex_hdr) (zip ts bs) ex_rx = Some (map deliver ?qs, s'))"
    by auto
  from l(5) timely_replicate [of 1000 "length bs" bs]
  obtain s' where "bluetooth_data_rx_all 1000 1 (\<lambda>_ _. ex_hdr) (zip (replicate (length bs) 0) bs) ex_rx = Some (map deliver ?qs, s')"
    by (meson length_replicate)
  then show ?thesis using l(1-4) by blast
qed

end
