(* ===== verification/Qalloc.thy ===== *)
theory Qalloc
  imports Prelude
begin

section \<open>The heap: lib/minilib/qalloc.c and rcore/rebble_memory.c\<close>

text \<open>
  An arena is a word with its size, followed by blocks without gaps. A block has a header of three words, two check values
  around a word of size and free flag, and then its payload. Allocation takes the first free block that
  fits, splitting it; freeing joins neighbouring free blocks. Memory is a function from the addresses of
  32-bit words to their contents; addresses and sizes of blocks are natural numbers, the sizes that the
  code computes with are 32-bit words. A panic is \<open>None\<close>. The lemmas show that the operations
  refine first-fit allocation and joining on the list of blocks, and that
  live data is never touched. Over them, the firmware has several heaps and finds
  the one of a pointer by its address.
\<close>

unbundle bit_operations_syntax

type_synonym wmem = "nat \<Rightarrow> u32"

subsection \<open>Blocks\<close>

definition SZFLAG_SZ :: u32 where "SZFLAG_SZ = NOT 3"
definition SZFLAG_FFREE :: u32 where "SZFLAG_FFREE = 1"

text \<open>The header of a block: \<open>cookie0\<close>, \<open>szflag\<close> and \<open>cookie1\<close> at offsets 0, 4 and 8.\<close>

definition SIZEOF_QBLOCK :: nat where "SIZEOF_QBLOCK = 12"
definition SIZEOF_QARENA :: nat where "SIZEOF_QARENA = 4"

definition szflag :: "nat \<Rightarrow> nat" where "szflag blk = blk + 4"
definition cookie0 :: "nat \<Rightarrow> nat" where "cookie0 blk = blk"
definition cookie1 :: "nat \<Rightarrow> nat" where "cookie1 blk = blk + 8"

definition BLK_FROMPAYLOAD :: "nat \<Rightarrow> nat" where "BLK_FROMPAYLOAD p = p - SIZEOF_QBLOCK"
definition BLK_SZ :: "wmem \<Rightarrow> nat \<Rightarrow> u32" where "BLK_SZ w blk = w (szflag blk) AND SZFLAG_SZ"
definition BLK_NEXT :: "wmem \<Rightarrow> nat \<Rightarrow> nat" where "BLK_NEXT w blk = blk + unat (BLK_SZ w blk)"
definition BLK_ISFREE :: "wmem \<Rightarrow> nat \<Rightarrow> bool" where "BLK_ISFREE w blk = (w (szflag blk) AND SZFLAG_FFREE \<noteq> 0)"
definition BLK_FREE :: "wmem \<Rightarrow> nat \<Rightarrow> wmem" where "BLK_FREE w blk = w(szflag blk := w (szflag blk) OR SZFLAG_FFREE)"
definition BLK_ALLOC :: "wmem \<Rightarrow> nat \<Rightarrow> wmem" where "BLK_ALLOC w blk = w(szflag blk := w (szflag blk) AND NOT SZFLAG_FFREE)"
definition BLK_PAYLOAD :: "nat \<Rightarrow> nat" where "BLK_PAYLOAD blk = blk + SIZEOF_QBLOCK"
definition BLK_COOKIE :: "nat \<Rightarrow> nat \<Rightarrow> u32" where "BLK_COOKIE arena blk = drop_bit 4 (word_of_nat arena) XOR word_of_nat blk"
definition BLK_ALSIZE :: "u32 \<Rightarrow> u32" where "BLK_ALSIZE sz = ((sz + 3) AND NOT 3) + 12"

definition cookie_set :: "nat \<Rightarrow> wmem \<Rightarrow> nat \<Rightarrow> wmem" where
  "cookie_set arena w blk = w(cookie0 blk := NOT (BLK_COOKIE arena blk), cookie1 blk := BLK_COOKIE arena blk)"

definition cookie_unset :: "nat \<Rightarrow> wmem \<Rightarrow> nat \<Rightarrow> wmem" where
  "cookie_unset arena w blk = w(cookie0 blk := BLK_COOKIE arena blk, cookie1 blk := NOT (BLK_COOKIE arena blk))"

definition qcheck :: "nat \<Rightarrow> wmem \<Rightarrow> nat \<Rightarrow> unit option" where
  "qcheck arena w blk =
    (if BLK_ISFREE w blk
     then do { c_assert (w (cookie0 blk) = BLK_COOKIE arena blk); c_assert (w (cookie1 blk) = NOT (BLK_COOKIE arena blk)) }
     else do { c_assert (w (cookie0 blk) = NOT (BLK_COOKIE arena blk)); c_assert (w (cookie1 blk) = BLK_COOKIE arena blk) })"

subsection \<open>Operations\<close>

text \<open>\<open>0\<close> is the null pointer.\<close>

definition qinit :: "nat \<Rightarrow> u32 \<Rightarrow> wmem \<Rightarrow> wmem" where
  "qinit start sz w =
    (let w = w(start := sz);
         blk = start + SIZEOF_QARENA;
         w = w(szflag blk := sz - word_of_nat SIZEOF_QARENA);
         w = cookie_unset start w blk
     in BLK_FREE w blk)"

definition qsplit :: "nat \<Rightarrow> wmem \<Rightarrow> nat \<Rightarrow> u32 \<Rightarrow> wmem" where
  "qsplit arena w blk sz =
    (let newblk = blk + unat sz;
         w = w(szflag newblk := BLK_SZ w blk - sz);
         w = w(szflag blk := sz);
         w = cookie_unset arena w newblk
     in BLK_FREE w newblk)"

partial_function (option) qalloc_loop :: "nat \<Rightarrow> nat \<Rightarrow> u32 \<Rightarrow> wmem \<Rightarrow> nat \<Rightarrow> (nat \<times> wmem) option" where
  "qalloc_loop arena end_blk sz w blk =
    (if blk = 0 \<or> \<not> blk < end_blk then Some (0, w)
     else do {
       qcheck arena w blk;
       if \<not> BLK_ISFREE w blk \<or> (BLK_SZ w blk \<noteq> sz \<and> BLK_SZ w blk < sz + word_of_nat SIZEOF_QBLOCK)
       then qalloc_loop arena end_blk sz w (BLK_NEXT w blk)
       else let w = (if BLK_SZ w blk > sz then qsplit arena w blk sz else w);
                w = cookie_set arena w blk;
                w = BLK_ALLOC w blk
            in Some (BLK_PAYLOAD blk, w) })"

definition qalloc :: "nat \<Rightarrow> u32 \<Rightarrow> wmem \<Rightarrow> (nat \<times> wmem) option" where
  "qalloc arena sz w =
    (if sz = 0 then Some (0, w)
     else qalloc_loop arena (arena + unat (w arena)) (BLK_ALSIZE sz) w (arena + SIZEOF_QARENA))"

partial_function (option) qjoin_loop :: "nat \<Rightarrow> nat \<Rightarrow> wmem \<Rightarrow> nat \<Rightarrow> wmem option" where
  "qjoin_loop arena end_blk w blk =
    (if blk = 0 \<or> \<not> blk < end_blk then Some w
     else do {
       qcheck arena w blk;
       if BLK_NEXT w blk < end_blk \<and> BLK_ISFREE w blk \<and> BLK_ISFREE w (BLK_NEXT w blk)
       then qjoin_loop arena end_blk (w(szflag blk := w (szflag blk) + BLK_SZ w (BLK_NEXT w blk))) blk
       else qjoin_loop arena end_blk w (BLK_NEXT w blk) })"

definition qjoin :: "nat \<Rightarrow> wmem \<Rightarrow> wmem option" where
  "qjoin arena w = qjoin_loop arena (arena + unat (w arena)) w (arena + SIZEOF_QARENA)"

definition qfree :: "nat \<Rightarrow> nat \<Rightarrow> wmem \<Rightarrow> wmem option" where
  "qfree arena p w =
    (if p = 0 then Some w
     else let blk = BLK_FROMPAYLOAD p in do {
       qcheck arena w blk;
       c_assert (\<not> BLK_ISFREE w blk);
       qjoin arena (cookie_unset arena (BLK_FREE w blk) blk) })"

partial_function (option) qusedbytes_loop :: "nat \<Rightarrow> wmem \<Rightarrow> nat \<Rightarrow> u32 \<Rightarrow> u32 option" where
  "qusedbytes_loop end_blk w blk cnt =
    (if blk = 0 \<or> \<not> blk < end_blk then Some cnt
     else qusedbytes_loop end_blk w (BLK_NEXT w blk) (if \<not> BLK_ISFREE w blk then cnt + BLK_SZ w blk else cnt))"

definition qusedbytes :: "nat \<Rightarrow> wmem \<Rightarrow> u32 option" where
  "qusedbytes arena w = qusedbytes_loop (arena + unat (w arena)) w (arena + SIZEOF_QARENA) 0"

definition qfreebytes :: "nat \<Rightarrow> wmem \<Rightarrow> u32 option" where
  "qfreebytes arena w = map_option (\<lambda>n. w arena - n) (qusedbytes arena w)"

text \<open>\<open>memcpy\<close> of \<open>n\<close> bytes, a multiple of four, between places that do not overlap.\<close>

definition wcopy :: "wmem \<Rightarrow> nat \<Rightarrow> nat \<Rightarrow> nat \<Rightarrow> wmem" where
  "wcopy w dst src n = (\<lambda>x. if dst \<le> x \<and> x < dst + n then w (src + (x - dst)) else w x)"

definition qrealloc :: "nat \<Rightarrow> nat \<Rightarrow> u32 \<Rightarrow> wmem \<Rightarrow> (nat \<times> wmem) option" where
  "qrealloc arena p sz w =
    (if sz = 0 then Some (0, w)
     else let sz = BLK_ALSIZE sz in
       if p = 0 then qalloc arena sz w
       else let blk = BLK_FROMPAYLOAD p in
         if sz = BLK_SZ w blk then Some (BLK_PAYLOAD blk, w)
         else if sz < BLK_SZ w blk
         then do { w \<leftarrow> qjoin arena (cookie_set arena (cookie_unset arena (qsplit arena w blk sz) blk) blk);
                   Some (BLK_PAYLOAD blk, w) }
         else let nblk = BLK_NEXT w blk; reqsize = sz - BLK_SZ w blk in
           if BLK_SZ w nblk \<ge> reqsize
           then Some (BLK_PAYLOAD blk, (qsplit arena w nblk reqsize)(szflag blk := sz))
           else do {
             (newm, w') \<leftarrow> qalloc arena sz w;
             if newm = 0 then Some (0, w')
             else do {
               w'' \<leftarrow> qfree arena (BLK_PAYLOAD blk) (wcopy w' newm (BLK_PAYLOAD blk) (unat (BLK_SZ w' blk)));
               w''' \<leftarrow> qjoin arena w'';
               Some (newm, w''') } })"

subsection \<open>The heaps of the firmware\<close>

text \<open>A heap, its \<open>arena\<close> 0 before \<open>mem_heap_init\<close>. The heaps are a list, the heap of a thread
  an index into it or none; the mutex only orders the calls.\<close>

record mem_heap =
  heap_start :: nat
  heap_size :: u32
  heap_arena :: nat

definition HEAP_SYSTEM :: nat where "HEAP_SYSTEM = 0"

definition mem_heap_init :: "mem_heap \<Rightarrow> wmem \<Rightarrow> mem_heap \<times> wmem" where
  "mem_heap_init hp w =
    (let w = (\<lambda>x. if heap_start hp \<le> x \<and> x < heap_start hp + unat (heap_size hp) then 0 else w x)
     in (hp\<lparr>heap_arena := heap_start hp\<rparr>, qinit (heap_start hp) (heap_size hp) w))"

definition mem_heap_realloc :: "mem_heap \<Rightarrow> nat \<Rightarrow> u32 \<Rightarrow> wmem \<Rightarrow> (nat \<times> wmem) option" where
  "mem_heap_realloc hp p newsz w = do { c_assert (heap_arena hp \<noteq> 0); qrealloc (heap_arena hp) p newsz w }"

definition mem_heap_alloc :: "mem_heap \<Rightarrow> u32 \<Rightarrow> wmem \<Rightarrow> (nat \<times> wmem) option" where
  "mem_heap_alloc hp newsz w = mem_heap_realloc hp 0 newsz w"

definition mem_heap_free :: "mem_heap \<Rightarrow> nat \<Rightarrow> wmem \<Rightarrow> wmem option" where
  "mem_heap_free hp p w = do { c_assert (heap_arena hp \<noteq> 0); qfree (heap_arena hp) p w }"

definition heap_or_system :: "nat option \<Rightarrow> nat" where
  "heap_or_system cur = (case cur of None \<Rightarrow> HEAP_SYSTEM | Some i \<Rightarrow> i)"

fun heap_for_pointer :: "mem_heap list \<Rightarrow> nat \<Rightarrow> nat option" where
  "heap_for_pointer [] p = None" |
  "heap_for_pointer (hp # hps) p =
    (if p \<ge> heap_start hp \<and> p \<le> heap_start hp + unat (heap_size hp) then Some 0
     else map_option Suc (heap_for_pointer hps p))"

definition heap_realloc :: "mem_heap list \<Rightarrow> nat option \<Rightarrow> nat \<Rightarrow> u32 \<Rightarrow> bool \<Rightarrow> wmem \<Rightarrow> (nat \<times> wmem) option" where
  "heap_realloc heaps cur p new_size remote w = do {
     i \<leftarrow> (if p \<noteq> 0
           then do { j \<leftarrow> heap_for_pointer heaps p;
                     c_assert (j = heap_or_system cur \<or> remote);
                     Some j }
           else Some (heap_or_system cur));
     if new_size = 0
     then do { w \<leftarrow> mem_heap_free (heaps ! i) p w; Some (0, w) }
     else mem_heap_realloc (heaps ! i) p new_size w }"

definition c_malloc :: "mem_heap list \<Rightarrow> nat option \<Rightarrow> u32 \<Rightarrow> wmem \<Rightarrow> (nat \<times> wmem) option" where
  "c_malloc heaps cur sz w = heap_realloc heaps cur 0 sz False w"

definition c_free :: "mem_heap list \<Rightarrow> nat option \<Rightarrow> nat \<Rightarrow> wmem \<Rightarrow> wmem option" where
  "c_free heaps cur p w = map_option snd (heap_realloc heaps cur p 0 False w)"

definition remote_free :: "mem_heap list \<Rightarrow> nat option \<Rightarrow> nat \<Rightarrow> wmem \<Rightarrow> wmem option" where
  "remote_free heaps cur p w = map_option snd (heap_realloc heaps cur p 0 True w)"

definition app_heap_bytes_used :: "mem_heap list \<Rightarrow> nat option \<Rightarrow> wmem \<Rightarrow> u32 option" where
  "app_heap_bytes_used heaps cur w = do {
     i \<leftarrow> cur;
     c_assert (heap_arena (heaps ! i) \<noteq> 0);
     qusedbytes (heap_arena (heaps ! i)) w }"

definition app_heap_bytes_free :: "mem_heap list \<Rightarrow> nat option \<Rightarrow> wmem \<Rightarrow> u32 option" where
  "app_heap_bytes_free heaps cur w = do {
     i \<leftarrow> cur;
     c_assert (heap_arena (heaps ! i) \<noteq> 0);
     qfreebytes (heap_arena (heaps ! i)) w }"

section \<open>Specification\<close>

subsection \<open>The list of blocks\<close>

text \<open>A block is a free flag and a size, header included; \<open>tiled\<close> says that the blocks of a list lie from \<open>b\<close> to \<open>e\<close> without gaps.\<close>

type_synonym block = "bool \<times> nat"

definition block_at :: "nat \<Rightarrow> wmem \<Rightarrow> nat \<Rightarrow> block \<Rightarrow> bool" where
  "block_at a w b x \<longleftrightarrow> 4 dvd snd x \<and> 12 \<le> snd x \<and>
     w (szflag b) = word_of_nat (snd x + (if fst x then 1 else 0)) \<and>
     w (cookie0 b) = (if fst x then BLK_COOKIE a b else NOT (BLK_COOKIE a b)) \<and>
     w (cookie1 b) = (if fst x then NOT (BLK_COOKIE a b) else BLK_COOKIE a b)"

primrec tiled :: "nat \<Rightarrow> wmem \<Rightarrow> nat \<Rightarrow> block list \<Rightarrow> nat \<Rightarrow> bool" where
  "tiled a w b [] e = (b = e)" |
  "tiled a w b (x # bs) e = (block_at a w b x \<and> tiled a w (b + snd x) bs e)"

text \<open>The payloads of the blocks in use: address and length.\<close>

primrec regions :: "nat \<Rightarrow> block list \<Rightarrow> (nat \<times> nat) list" where
  "regions b [] = []" |
  "regions b (x # bs) = (if fst x then [] else [(b + 12, snd x - 12)]) @ regions (b + snd x) bs"

definition in_region :: "nat \<Rightarrow> nat \<times> nat \<Rightarrow> bool" where
  "in_region x r \<longleftrightarrow> fst r \<le> x \<and> x < fst r + snd r"

fun first_fit :: "nat \<Rightarrow> nat \<Rightarrow> block list \<Rightarrow> (nat \<times> block list) option" where
  "first_fit b n [] = None" |
  "first_fit b n ((f, m) # bs) =
    (if f \<and> (m = n \<or> n + 12 \<le> m) then Some (b, (False, n) # (if n < m then [(True, m - n)] else []) @ bs)
     else map_option (\<lambda>(p, bs). (p, (f, m) # bs)) (first_fit (b + m) n bs))"

fun join_free :: "block list \<Rightarrow> block list" where
  "join_free ((True, m) # (True, n) # bs) = join_free ((True, m + n) # bs)" |
  "join_free (x # bs) = x # join_free bs" |
  "join_free [] = []"

subsection \<open>Words with a flag\<close>

lemma four_push: "4 dvd n \<Longrightarrow> (word_of_nat n :: u32) = push_bit 2 (word_of_nat (n div 4))"
  by (auto simp: push_bit_eq_mult elim!: dvdE)

lemma flag_or: "4 dvd n \<Longrightarrow> (word_of_nat (n + 1) :: u32) = word_of_nat n OR 1"
proof -
  assume "4 dvd n"
  then have "(word_of_nat n :: u32) + 1 = word_of_nat n OR 1"
    by (intro disjunctive_add) (auto simp: four_push bit_simps)
  then show ?thesis by (simp add: add.commute)
qed

lemma sz_flag: "4 dvd n \<Longrightarrow> (word_of_nat (n + (if f then 1 else 0)) :: u32) AND NOT 3 = word_of_nat n"
proof -
  assume n: "4 dvd n"
  have m: "(3 :: u32) = mask 2" by (simp add: mask_eq_exp_minus_1)
  have "(word_of_nat n OR 1 :: u32) AND NOT (mask 2) = word_of_nat n" "(word_of_nat n :: u32) AND NOT (mask 2) = word_of_nat n"
    unfolding four_push [OF n] by (rule bit_eqI; auto simp: bit_simps)+
  then show ?thesis using flag_or [OF n] by (simp add: m del: of_nat_add)
qed

lemma free_flag: "4 dvd n \<Longrightarrow> ((word_of_nat (n + (if f then 1 else 0)) :: u32) AND 1 \<noteq> 0) = f"
proof -
  assume n: "4 dvd n"
  have "(word_of_nat n OR 1 :: u32) AND 1 = 1" "(word_of_nat n :: u32) AND 1 = 0"
    unfolding four_push [OF n] by (rule bit_eqI; auto simp: bit_simps)+
  then show ?thesis using flag_or [OF n] by (simp del: of_nat_add)
qed

lemma set_clear_flag:
  assumes "4 dvd n"
  shows "(word_of_nat (n + (if f then 1 else 0)) :: u32) OR 1 = word_of_nat (n + 1)"
    and "(word_of_nat (n + (if f then 1 else 0)) :: u32) AND NOT 1 = word_of_nat n"
proof -
  have "(word_of_nat n OR 1 :: u32) AND NOT 1 = word_of_nat n" "(word_of_nat n :: u32) AND NOT 1 = word_of_nat n"
    unfolding four_push [OF assms] by (rule bit_eqI; auto simp: bit_simps)+
  then show "(word_of_nat (n + (if f then 1 else 0)) :: u32) AND NOT 1 = word_of_nat n"
    using flag_or [OF assms] by (simp del: of_nat_add)
  show "(word_of_nat (n + (if f then 1 else 0)) :: u32) OR 1 = word_of_nat (n + 1)"
    using flag_or [OF assms] by (simp add: or.assoc del: of_nat_add)
qed

subsection \<open>A block of the list\<close>

lemmas block_fields = szflag_def cookie0_def cookie1_def

lemma block_at_size:
  assumes "block_at a w b x" "snd x < 2 ^ 32"
  shows "BLK_SZ w b = word_of_nat (snd x)" "unat (BLK_SZ w b) = snd x" "BLK_NEXT w b = b + snd x"
proof -
  show s: "BLK_SZ w b = word_of_nat (snd x)"
    using assms(1) sz_flag [of "snd x" "fst x"] by (simp add: BLK_SZ_def SZFLAG_SZ_def block_at_def)
  show "unat (BLK_SZ w b) = snd x" using assms(2) by (simp add: s unat_of_nat)
  then show "BLK_NEXT w b = b + snd x" by (simp add: BLK_NEXT_def)
qed

lemma block_at_free: "block_at a w b x \<Longrightarrow> BLK_ISFREE w b = fst x"
  using free_flag [of "snd x" "fst x"] by (simp add: BLK_ISFREE_def SZFLAG_FFREE_def block_at_def)

lemma block_at_check: "block_at a w b x \<Longrightarrow> qcheck a w b = Some ()"
  using block_at_free [of a w b x] by (simp add: qcheck_def block_at_def)

lemma block_at_cong:
  "(\<And>i. b \<le> i \<Longrightarrow> i < b + 12 \<Longrightarrow> w' i = w i) \<Longrightarrow> block_at a w' b x = block_at a w b x"
  by (simp add: block_at_def block_fields)

lemma tiled_le: "tiled a w b bs e \<Longrightarrow> b \<le> e"
  by (induction bs arbitrary: b) fastforce+

lemma tiled_cong:
  "(\<And>i. b \<le> i \<Longrightarrow> i < e \<Longrightarrow> w' i = w i) \<Longrightarrow> tiled a w b bs e \<Longrightarrow> tiled a w' b bs e"
proof (induction bs arbitrary: b)
  case (Cons x bs)
  have n: "12 \<le> snd x" and t: "block_at a w b x" "tiled a w (b + snd x) bs e"
    using Cons.prems(2) by (simp_all add: block_at_def)
  have le: "b + snd x \<le> e" using tiled_le [OF t(2)] .
  have "block_at a w' b x"
    using t(1) block_at_cong [of b w' w a x] Cons.prems(1) n le by auto
  moreover have "tiled a w' (b + snd x) bs e"
    using Cons.IH [OF _ t(2)] Cons.prems(1) by auto
  ultimately show ?case by simp
qed simp

lemma regions_bounds:
  "tiled a w b bs e \<Longrightarrow> r \<in> set (regions b bs) \<Longrightarrow> b + 12 \<le> fst r \<and> fst r + snd r \<le> e"
proof (induction bs arbitrary: b)
  case (Cons x bs)
  have n: "12 \<le> snd x" and t: "tiled a w (b + snd x) bs e"
    using Cons.prems(1) by (simp_all add: block_at_def)
  show ?case
  proof (cases "r \<in> set (regions (b + snd x) bs)")
    case True
    then show ?thesis using Cons.IH [OF t] by auto
  next
    case False
    then show ?thesis using Cons.prems(2) tiled_le [OF t] n by (auto split: if_splits)
  qed
qed simp

lemma regions_disjoint:
  assumes "tiled a w b bs e" "r \<in> set (regions b bs)" "r' \<in> set (regions b bs)" "in_region x r" "in_region x r'"
  shows "r = r'"
  using assms
proof (induction bs arbitrary: b)
  case (Cons y bs)
  have n: "12 \<le> snd y" and t: "tiled a w (b + snd y) bs e"
    using Cons.prems(1) by (simp_all add: block_at_def)
  have "b + snd y \<le> x" if "s \<in> set (regions (b + snd y) bs)" "in_region x s" for s
    using regions_bounds [OF t that(1)] that(2) by (simp add: in_region_def)
  moreover have "x < b + snd y" if "in_region x (b + 12, snd y - 12)"
    using that n by (simp add: in_region_def)
  ultimately show ?case
    using Cons.IH [OF t] Cons.prems(2-5) by (fastforce split: if_splits)
qed simp

subsection \<open>Joining\<close>

lemma join_regions: "regions b (join_free bs) = regions b bs"
  by (induction bs arbitrary: b rule: join_free.induct) (simp_all flip: add.assoc)

lemma join_step:
  assumes "block_at a w b (True, m)" "block_at a w (b + m) (True, n)" "m < 2 ^ 32" "n < 2 ^ 32"
  shows "block_at a (w(szflag b := w (szflag b) + BLK_SZ w (b + m))) b (True, m + n)"
  using assms block_at_size [OF assms(2)] by (simp add: block_at_def block_fields)

text \<open>Where the blocks begin. Joining changes only size words there, and never the free flag.\<close>

primrec heads :: "nat \<Rightarrow> block list \<Rightarrow> nat list" where
  "heads b [] = []" |
  "heads b (x # bs) = b # heads (b + snd x) bs"

lemma heads_bounds: "tiled a w b bs e \<Longrightarrow> h \<in> set (heads b bs) \<Longrightarrow> b \<le> h \<and> h + 12 \<le> e"
proof (induction bs arbitrary: b)
  case (Cons x bs)
  have "12 \<le> snd x" and t: "tiled a w (b + snd x) bs e" using Cons.prems(1) by (simp_all add: block_at_def)
  then show ?case using Cons.IH [OF t] Cons.prems(2) tiled_le [OF t] by auto
qed simp

lemma heads_apart:
  "tiled a w b bs e \<Longrightarrow> h \<in> set (heads b bs) \<Longrightarrow> h' \<in> set (heads b bs) \<Longrightarrow> h = h' \<or> h + 12 \<le> h' \<or> h' + 12 \<le> h"
proof (induction bs arbitrary: b)
  case (Cons x bs)
  have "12 \<le> snd x" and t: "tiled a w (b + snd x) bs e" using Cons.prems(1) by (simp_all add: block_at_def)
  then show ?case using Cons.IH [OF t] Cons.prems(2,3) heads_bounds [OF t] by fastforce
qed simp

lemma head_not_in_region:
  "tiled a w b bs e \<Longrightarrow> h \<in> set (heads b bs) \<Longrightarrow> r \<in> set (regions b bs) \<Longrightarrow> i < 12 \<Longrightarrow> \<not> in_region (h + i) r"
proof (induction bs arbitrary: b)
  case (Cons x bs)
  have n: "12 \<le> snd x" and t: "tiled a w (b + snd x) bs e" using Cons.prems(1) by (simp_all add: block_at_def)
  have "\<not> in_region (b + i) r" if "r \<in> set (regions (b + snd x) bs)"
    using regions_bounds [OF t that] Cons.prems(4) n by (auto simp: in_region_def)
  moreover have "\<not> in_region (h + i) (b + 12, snd x - 12)" if "h \<in> set (heads (b + snd x) bs)"
    using heads_bounds [OF t that] n by (auto simp: in_region_def)
  moreover have "\<not> in_region (b + i) (b + 12, snd x - 12)" using Cons.prems(4) by (simp add: in_region_def)
  ultimately show ?case using Cons.IH [OF t] Cons.prems(2-4) by (auto split: if_splits)
qed simp

lemma region_head: "(p, l) \<in> set (regions b bs) \<Longrightarrow> \<exists>h \<in> set (heads b bs). p = h + 12"
  by (induction bs arbitrary: b) (fastforce split: if_splits)+

definition joined :: "nat \<Rightarrow> nat \<Rightarrow> wmem \<Rightarrow> nat \<Rightarrow> block list \<Rightarrow> block list \<Rightarrow> wmem \<Rightarrow> bool" where
  "joined a e w b bs js w' \<longleftrightarrow> qjoin_loop a e w b = Some w' \<and> tiled a w' b js e
     \<and> (\<forall>x. x \<notin> szflag ` set (heads b bs) \<longrightarrow> w' x = w x) \<and> (\<forall>q. BLK_ISFREE w' q = BLK_ISFREE w q)"

lemma add_size_flag: "((x + (y AND NOT 3) :: u32) AND 1 \<noteq> 0) = (x AND 1 \<noteq> 0)"
proof -
  have e: "even (y AND NOT 3)" by (simp add: even_and_iff)
  have "(z AND 1 \<noteq> 0) = odd z" for z :: u32 by (simp add: and_one_eq odd_iff_mod_2_eq_one)
  then show ?thesis using e by simp
qed

lemma join_skip:
  assumes "tiled a w b (x # bs) e" "0 < b" "e < 2 ^ 32" "\<not> (fst x \<and> bs \<noteq> [] \<and> fst (hd bs))"
    and j: "joined a e w (b + snd x) bs js w'"
  shows "joined a e w b (x # bs) (x # js) w'"
proof -
  have t: "block_at a w b x" "tiled a w (b + snd x) bs e" using assms(1) by simp_all
  have n: "12 \<le> snd x" using t(1) by (simp add: block_at_def)
  have le: "b + snd x \<le> e" using tiled_le [OF t(2)] .
  have small: "snd x < 2 ^ 32" using le assms(3) by simp
  have "\<not> (BLK_NEXT w b < e \<and> BLK_ISFREE w b \<and> BLK_ISFREE w (BLK_NEXT w b))"
  proof (cases bs)
    case Nil
    then show ?thesis using t(2) block_at_size(3) [OF t(1) small] by simp
  next
    case (Cons y ys)
    then show ?thesis
      using t assms(4) block_at_free [OF t(1)] block_at_free [of a w "b + snd x" y] block_at_size(3) [OF t(1) small] by auto
  qed
  then have "qjoin_loop a e w b = Some w'"
    using assms(2) j block_at_check [OF t(1)] block_at_size(3) [OF t(1) small] le n
    by (subst qjoin_loop.simps) (auto simp: joined_def)
  moreover have "w' i = w i" if "i < b + 12" for i
  proof -
    have "i \<notin> szflag ` set (heads (b + snd x) bs)" using heads_bounds [OF t(2)] n that by (fastforce simp: szflag_def)
    then show ?thesis using j by (simp add: joined_def)
  qed
  then have "block_at a w' b x" using t(1) block_at_cong [of b w' w a x] by auto
  ultimately show ?thesis using j by (simp add: joined_def)
qed

lemma join_loop:
  assumes "tiled a w b bs e" "0 < b" "e < 2 ^ 32"
  shows "\<exists>w'. joined a e w b bs (join_free bs) w'"
  using assms
proof (induction bs arbitrary: w b rule: join_free.induct [case_names joinable used single apart empty])
  case (joinable m n bs)
  let ?w = "w(szflag b := w (szflag b) + BLK_SZ w (b + m))"
  have t: "block_at a w b (True, m)" "block_at a w (b + m) (True, n)" "tiled a w (b + m + n) bs e"
    using joinable.prems(1) by simp_all
  have n: "12 \<le> m" "12 \<le> n" using t(1,2) by (simp_all add: block_at_def)
  have e: "b + m + n \<le> e" using tiled_le [OF t(3)] .
  have small: "m < 2 ^ 32" "n < 2 ^ 32" using e joinable.prems(3) by simp_all
  have "tiled a ?w (b + m + n) bs e"
    by (rule tiled_cong [OF _ t(3)]) (use n in \<open>simp add: block_fields\<close>)
  then have "tiled a ?w b ((True, m + n) # bs) e"
    using join_step [OF t(1,2) small] by (simp add: add.assoc)
  then obtain w' where w': "joined a e ?w b ((True, m + n) # bs) (join_free ((True, m + n) # bs)) w'"
    using joinable.IH joinable.prems(2,3) by blast
  have fl: "BLK_ISFREE ?w q = BLK_ISFREE w q" for q
    by (simp add: BLK_ISFREE_def BLK_SZ_def SZFLAG_FFREE_def SZFLAG_SZ_def szflag_def add_size_flag [simplified])
  have "qjoin_loop a e w b = qjoin_loop a e ?w b"
    using e n joinable.prems(2) block_at_check [OF t(1)] block_at_free [OF t(1)] block_at_free [OF t(2)] block_at_size(3) [OF t(1)] small
    by (subst qjoin_loop.simps) simp
  then show ?case using w' fl by (auto simp: joined_def add.assoc)
next
  case (used n bs)
  then have "\<exists>w'. joined a e w (b + n) bs (join_free bs) w'" by simp
  then show ?case using join_skip [OF used.prems] by fastforce
next
  case (single x)
  then have "\<exists>w'. joined a e w (b + snd x) [] (join_free []) w'" by simp
  then show ?case using join_skip [OF single.prems] by fastforce
next
  case (apart x n bs)
  then have "\<exists>w'. joined a e w (b + snd x) ((False, n) # bs) (join_free ((False, n) # bs)) w'" by simp
  then show ?case using join_skip [OF apart.prems] by fastforce
next
  case empty
  then show ?case by (intro exI [of _ w], unfold joined_def, subst qjoin_loop.simps) simp
qed

text \<open>Joining leaves the live data alone.\<close>

lemma joined_data:
  assumes "joined a e w b bs js w'" "tiled a w b bs e" "r \<in> set (regions b bs)" "in_region x r"
  shows "w' x = w x"
proof -
  have "x \<notin> szflag ` set (heads b bs)"
    using head_not_in_region [OF assms(2) _ assms(3), of _ 4] assms(4) by (auto simp: szflag_def)
  then show ?thesis using assms(1) by (simp add: joined_def)
qed

subsection \<open>Allocating\<close>

lemma take_exact:
  assumes "block_at a w b (True, n)"
  shows "block_at a (BLK_ALLOC (cookie_set a w b) b) b (False, n)"
  using assms set_clear_flag(2) [of n True]
  by (simp add: block_at_def BLK_ALLOC_def cookie_set_def block_fields SZFLAG_FFREE_def)

lemma take_split:
  assumes "block_at a w b (True, m)" "n + 12 \<le> m" "4 dvd n" "12 \<le> n" "m < 2 ^ 32"
  defines "w' \<equiv> BLK_ALLOC (cookie_set a (qsplit a w b (word_of_nat n)) b) b"
  shows "block_at a w' b (False, n)" "block_at a w' (b + n) (True, m - n)"
    "x < b \<or> b + n + 12 \<le> x \<Longrightarrow> w' x = w x"
proof -
  have u: "unat (word_of_nat n :: u32) = n" using assms(2,5) by (simp add: unat_of_nat)
  have z: "BLK_SZ w b = word_of_nat m" using block_at_size(1) [OF assms(1)] assms(5) by simp
  have d: "(word_of_nat m - word_of_nat n :: u32) = word_of_nat (m - n)" using assms(2) by (simp add: of_nat_diff)
  have dv: "4 dvd m" "4 dvd m - n" using assms(1,3) by (simp_all add: block_at_def)
  show "block_at a w' b (False, n)"
    using assms(3,4) set_clear_flag(2) [OF assms(3), of False]
    by (simp add: w'_def block_at_def BLK_ALLOC_def BLK_FREE_def cookie_set_def cookie_unset_def qsplit_def block_fields u SZFLAG_FFREE_def Let_def)
  show "block_at a w' (b + n) (True, m - n)"
    using assms(2,4) dv set_clear_flag(1) [OF dv(2), of False]
    by (simp add: w'_def block_at_def BLK_ALLOC_def BLK_FREE_def cookie_set_def cookie_unset_def qsplit_def block_fields u z d SZFLAG_FFREE_def Let_def
        del: of_nat_diff of_nat_add)
  show "x < b \<or> b + n + 12 \<le> x \<Longrightarrow> w' x = w x"
    by (auto simp: w'_def BLK_ALLOC_def BLK_FREE_def cookie_set_def cookie_unset_def qsplit_def block_fields u Let_def)
qed

lemma alloc_loop:
  assumes "tiled a w b bs e" "0 < b" "e < 2 ^ 32" "4 dvd n" "12 \<le> n" "n + 12 < 2 ^ 32"
  shows "case first_fit b n bs of
      None \<Rightarrow> qalloc_loop a e (word_of_nat n) w b = Some (0, w)
    | Some (p, bs') \<Rightarrow> \<exists>w'. qalloc_loop a e (word_of_nat n) w b = Some (p + 12, w') \<and> tiled a w' b bs' e
        \<and> b \<le> p \<and> p + n \<le> e \<and> (\<forall>x. x < p \<or> p + n + 12 \<le> x \<longrightarrow> w' x = w x)"
  using assms(1,2)
proof (induction bs arbitrary: b)
  case Nil
  then show ?case by (subst qalloc_loop.simps) simp
next
  case (Cons y bs)
  obtain f m where y: "y = (f, m)" by (cases y)
  have t: "block_at a w b (f, m)" "tiled a w (b + m) bs e" using Cons.prems(1) by (simp_all add: y)
  have le: "b + m \<le> e" using tiled_le [OF t(2)] .
  have m: "12 \<le> m" "m < 2 ^ 32" using t(1) le assms(3) by (simp_all add: block_at_def)
  have z: "BLK_SZ w b = word_of_nat m" using block_at_size(1) [OF t(1)] m by simp
  have cmp: "((word_of_nat m :: u32) = word_of_nat n) = (m = n)" "((word_of_nat m :: u32) < word_of_nat n + 12) = (m < n + 12)"
    "((word_of_nat m :: u32) > word_of_nat n) = (m > n)"
  proof -
    have n: "unat (word_of_nat n :: u32) = n" "unat (word_of_nat m :: u32) = m" "unat (word_of_nat (n + 12) :: u32) = n + 12"
      using m(2) assms(6) by (simp_all add: unat_of_nat del: of_nat_add)
    show "((word_of_nat m :: u32) = word_of_nat n) = (m = n)" using n by metis
    show "((word_of_nat m :: u32) > word_of_nat n) = (m > n)" using n by (simp add: word_less_nat_alt)
    show "((word_of_nat m :: u32) < word_of_nat n + 12) = (m < n + 12)"
    proof -
      have "(word_of_nat n + 12 :: u32) = word_of_nat (n + 12)" by simp
      then show ?thesis unfolding word_less_nat_alt using n(2,3) by metis
    qed
  qed
  have step: "qalloc_loop a e (word_of_nat n) w b =
    (if \<not> f \<or> (m \<noteq> n \<and> m < n + 12) then qalloc_loop a e (word_of_nat n) w (b + m)
     else Some (b + 12, BLK_ALLOC (cookie_set a (if n < m then qsplit a w b (word_of_nat n) else w) b) b))"
    using Cons.prems(2) le m block_at_check [OF t(1)] block_at_free [OF t(1)] block_at_size(3) [OF t(1)]
    by (subst qalloc_loop.simps) (simp add: z cmp SIZEOF_QBLOCK_def BLK_PAYLOAD_def Let_def)
  show ?case
  proof (cases "f \<and> (m = n \<or> n + 12 \<le> m)")
    case False
    then have l: "qalloc_loop a e (word_of_nat n) w b = qalloc_loop a e (word_of_nat n) w (b + m)" using step by auto
    have ih: "case first_fit (b + m) n bs of
      None \<Rightarrow> qalloc_loop a e (word_of_nat n) w (b + m) = Some (0, w)
    | Some (p, bs') \<Rightarrow> \<exists>w'. qalloc_loop a e (word_of_nat n) w (b + m) = Some (p + 12, w') \<and> tiled a w' (b + m) bs' e
        \<and> b + m \<le> p \<and> p + n \<le> e \<and> (\<forall>x. x < p \<or> p + n + 12 \<le> x \<longrightarrow> w' x = w x)"
      using Cons.IH [OF t(2)] Cons.prems(2) by simp
    have keep: "block_at a w' b (f, m)" if "\<forall>x. x < p \<or> p + n + 12 \<le> x \<longrightarrow> w' x = w x" "b + m \<le> p" for w' p
      using t(1) block_at_cong [of b w' w a "(f, m)"] that m by auto
    show ?thesis
      using ih False keep by (force simp: y l split: option.splits)
  next
    case True
    note f = True
    show ?thesis
    proof (cases "m = n")
      case True
      let ?w = "BLK_ALLOC (cookie_set a w b) b"
      have fr: "x < b \<or> b + 12 \<le> x \<Longrightarrow> ?w x = w x" for x
        by (auto simp: BLK_ALLOC_def cookie_set_def block_fields)
      have "tiled a ?w (b + n) bs e"
        by (rule tiled_cong [OF _ t(2) [unfolded True]]) (use assms(5) fr in auto)
      moreover have "block_at a ?w b (False, n)" using take_exact t(1) f True by simp
      moreover have "\<forall>x. x < b \<or> b + n + 12 \<le> x \<longrightarrow> ?w x = w x" using fr by auto
      ultimately show ?thesis using step f True le by (simp add: y)
    next
      case False
      let ?w = "BLK_ALLOC (cookie_set a (qsplit a w b (word_of_nat n)) b) b"
      have s: "block_at a w b (True, m)" "n + 12 \<le> m" using t(1) f False by simp_all
      note sp = take_split [OF s assms(4,5) m(2)]
      have "tiled a ?w (b + m) bs e"
        by (rule tiled_cong [OF _ t(2)]) (use s(2) sp(3) in auto)
      then have "tiled a ?w b ((False, n) # (True, m - n) # bs) e" using sp(1,2) s(2) by simp
      moreover have "\<forall>x. x < b \<or> b + n + 12 \<le> x \<longrightarrow> ?w x = w x" using sp(3) by auto
      ultimately show ?thesis using step f False s(2) le by (simp add: y)
    qed
  qed
qed

lemma first_fit_regions:
  assumes "tiled a w b bs e" "first_fit b n bs = Some (p, bs')" "12 \<le> n"
  shows "set (regions b bs') = insert (p + 12, n - 12) (set (regions b bs))"
    and "r \<in> set (regions b bs) \<Longrightarrow> in_region x r \<Longrightarrow> x < p \<or> p + n + 12 \<le> x"
proof -
  have "set (regions b bs') = insert (p + 12, n - 12) (set (regions b bs)) \<and> b \<le> p \<and>
    (\<forall>r \<in> set (regions b bs). \<forall>x. in_region x r \<longrightarrow> x < p \<or> p + n + 12 \<le> x)"
    using assms(1,2)
  proof (induction bs arbitrary: b bs')
    case (Cons y bs)
    obtain f m where y: "y = (f, m)" by (cases y)
    have t: "tiled a w (b + m) bs e" and m: "12 \<le> m" using Cons.prems(1) by (simp_all add: y block_at_def)
    have bound: "b + m + 12 \<le> x" if "r \<in> set (regions (b + m) bs)" "in_region x r" for r x
      using regions_bounds [OF t that(1)] that(2) by (simp add: in_region_def)
    show ?case
    proof (cases "f \<and> (m = n \<or> n + 12 \<le> m)")
      case True
      then show ?thesis using Cons.prems(2) bound by (force simp: y split: if_splits)
    next
      case False
      then obtain bs'' where ff: "first_fit (b + m) n bs = Some (p, bs'')" "bs' = (f, m) # bs''"
        using Cons.prems(2) by (auto simp: y)
      have ih: "set (regions (b + m) bs'') = insert (p + 12, n - 12) (set (regions (b + m) bs))" "b + m \<le> p"
        "\<forall>r \<in> set (regions (b + m) bs). \<forall>x. in_region x r \<longrightarrow> x < p \<or> p + n + 12 \<le> x"
        using Cons.IH [OF t ff(1)] by blast+
      have "in_region x (b + 12, m - 12) \<Longrightarrow> x < p" for x using ih(2) m by (simp add: in_region_def)
      then show ?thesis using ih by (auto simp: y ff(2))
    qed
  qed simp
  then show "set (regions b bs') = insert (p + 12, n - 12) (set (regions b bs))"
    "r \<in> set (regions b bs) \<Longrightarrow> in_region x r \<Longrightarrow> x < p \<or> p + n + 12 \<le> x" by blast+
qed

subsection \<open>Freeing\<close>

primrec mark_free :: "nat \<Rightarrow> nat \<Rightarrow> block list \<Rightarrow> block list" where
  "mark_free b p [] = []" |
  "mark_free b p (x # bs) = (if b + 12 = p then (True, snd x) # bs else x # mark_free (b + snd x) p bs)"

text \<open>The block of a live pointer, and the same blocks with that one marked as free.\<close>

lemma mark_block:
  assumes "tiled a w b bs e" "(p, l) \<in> set (regions b bs)"
  defines "w' \<equiv> cookie_unset a (BLK_FREE w (p - 12)) (p - 12)"
  shows "block_at a w (p - 12) (False, l + 12) \<and> tiled a w' b (mark_free b p bs) e \<and> b + 12 \<le> p
    \<and> set (regions b (mark_free b p bs)) = set (regions b bs) - {(p, l)} \<and> heads b (mark_free b p bs) = heads b bs"
proof -
  have fr: "w' x = w x" if "x < p - 12 \<or> p \<le> x" "12 \<le> p" for x
    using that by (auto simp: w'_def cookie_unset_def BLK_FREE_def block_fields)
  show ?thesis
    using assms(1,2)
  proof (induction bs arbitrary: b)
    case (Cons x bs)
    have t: "block_at a w b x" "tiled a w (b + snd x) bs e" using Cons.prems(1) by simp_all
    have n: "12 \<le> snd x" "4 dvd snd x" using t(1) by (simp_all add: block_at_def)
    have later: "b + snd x + 12 \<le> fst r" if "r \<in> set (regions (b + snd x) bs)" for r
      using regions_bounds [OF t(2) that] by simp
    show ?case
    proof (cases "b + 12 = p")
      case True
      then have "(p, l) \<notin> set (regions (b + snd x) bs)" using later n by fastforce
      then have x: "\<not> fst x" "l = snd x - 12" using Cons.prems(2) True by (auto split: if_splits)
      have "block_at a w' b (True, snd x)"
        using t(1) x(1) n set_clear_flag(1) [OF n(2), of False]
        by (simp add: block_at_def w'_def cookie_unset_def BLK_FREE_def block_fields SZFLAG_FFREE_def flip: True)
      moreover have "tiled a w' (b + snd x) bs e"
        by (rule tiled_cong [OF _ t(2)]) (use fr n True in auto)
      moreover have "block_at a w b (False, l + 12)" using t(1) x n by (cases x) simp
      ultimately show ?thesis using x n True later by (fastforce simp: True [symmetric])
    next
      case False
      then have r: "(p, l) \<in> set (regions (b + snd x) bs)" using Cons.prems(2) by (auto split: if_splits)
      note ih = Cons.IH [OF t(2) r]
      then have p: "b + snd x + 12 \<le> p" by simp
      have "block_at a w' b x" using t(1) block_at_cong [of b w' w a x] fr p n by auto
      moreover have "(p, l) \<noteq> (b + 12, snd x - 12)" using False by auto
      ultimately show ?thesis using ih p False by auto
    qed
  qed simp
qed

text \<open>An arena with its blocks.\<close>

definition arena_ok :: "nat \<Rightarrow> wmem \<Rightarrow> block list \<Rightarrow> bool" where
  "arena_ok a w bs \<longleftrightarrow> a + unat (w a) < 2 ^ 32 \<and> tiled a w (a + 4) bs (a + unat (w a))"

lemma free_steps:
  assumes "arena_ok a w bs" "(p, l) \<in> set (regions (a + 4) bs)"
  defines "bs' \<equiv> join_free (mark_free (a + 4) p bs)"
  shows "\<exists>w'. qfree a p w = Some w' \<and> arena_ok a w' bs' \<and> w' a = w a
    \<and> set (regions (a + 4) bs') = set (regions (a + 4) bs) - {(p, l)}
    \<and> (\<forall>r \<in> set (regions (a + 4) bs'). \<forall>x. in_region x r \<longrightarrow> w' x = w x)
    \<and> qcheck a w' (p - 12) = Some () \<and> BLK_ISFREE w' (p - 12)"
proof -
  let ?e = "a + unat (w a)" and ?w = "cookie_unset a (BLK_FREE w (p - 12)) (p - 12)" and ?b = "a + 4"
  have t: "tiled a w ?b bs ?e" "?e < 2 ^ 32" using assms(1) by (simp_all add: arena_ok_def)
  have m: "block_at a w (p - 12) (False, l + 12)" "tiled a ?w ?b (mark_free ?b p bs) ?e" "?b + 12 \<le> p"
    "set (regions ?b (mark_free ?b p bs)) = set (regions ?b bs) - {(p, l)}" "heads ?b (mark_free ?b p bs) = heads ?b bs"
    using mark_block [OF t(1) assms(2)] by simp_all
  obtain w' where j: "joined a ?e ?w ?b (mark_free ?b p bs) bs' w'"
    using join_loop [OF m(2) _ t(2)] by (auto simp: bs'_def)
  have wa: "?w a = w a" "w' a = w a"
  proof -
    show "?w a = w a" using m(3) by (auto simp: cookie_unset_def BLK_FREE_def block_fields)
    moreover have "a \<notin> szflag ` set (heads ?b (mark_free ?b p bs))" using heads_bounds [OF m(2)] by (fastforce simp: szflag_def)
    ultimately show "w' a = w a" using j by (simp add: joined_def)
  qed
  have q: "qfree a p w = Some w'"
    using m(3) j block_at_check [OF m(1)] block_at_free [OF m(1)] wa(1)
    by (simp add: qfree_def BLK_FROMPAYLOAD_def SIZEOF_QBLOCK_def SIZEOF_QARENA_def qjoin_def joined_def)
  have rg: "regions ?b bs' = regions ?b (mark_free ?b p bs)" by (simp add: bs'_def join_regions)
  obtain h where h: "h \<in> set (heads ?b bs)" "p = h + 12" using region_head [OF assms(2)] by blast
  have data: "w' x = w x" if "r \<in> set (regions ?b bs')" "in_region x r" for r x
  proof -
    have "w' x = ?w x" using joined_data [OF j m(2)] that rg by simp
    moreover have "x < h \<or> h + 12 \<le> x"
      proof (rule ccontr)
      assume "\<not> (x < h \<or> h + 12 \<le> x)"
      then have "x - h < 12" "h + (x - h) = x" by linarith+
      then show False using head_not_in_region [OF m(2), of h r "x - h"] that h rg m(5) by simp
    qed
    ultimately show ?thesis using h(2) by (auto simp: cookie_unset_def BLK_FREE_def block_fields)
  qed
  have ck: "w' (h + i) = ?w (h + i)" if "i \<in> {0, 8}" for i
  proof -
    have "h + i \<notin> szflag ` set (heads ?b (mark_free ?b p bs))"
      using heads_apart [OF t(1) h(1)] that m(5) by (fastforce simp: szflag_def)
    then show ?thesis using j by (simp add: joined_def)
  qed
  have fl: "BLK_ISFREE w' h" 
  proof -
    have "BLK_ISFREE ?w h"
      using m(1) h(2) set_clear_flag(1) [of "l + 12" False] free_flag [of "l + 12" True]
      by (simp add: BLK_ISFREE_def cookie_unset_def BLK_FREE_def block_at_def block_fields SZFLAG_FFREE_def)
    then show ?thesis using j by (simp add: joined_def)
  qed
  then have "qcheck a w' h = Some ()"
    using ck [of 0] ck [of 8] h(2) by (simp add: qcheck_def block_fields cookie_unset_def)
  then show ?thesis
    using q j rg m(4) t(2) wa(2) data fl h(2) by (auto simp: arena_ok_def joined_def)
qed

subsection \<open>The size of an allocation\<close>

definition alsize :: "nat \<Rightarrow> nat" where
  "alsize n = 4 * ((n + 3) div 4) + 12"

lemma alsize: "4 dvd alsize n" "n + 12 \<le> alsize n" "alsize n \<le> n + 15"
proof -
  have "(n + 3) div 4 * 4 + (n + 3) mod 4 = n + 3" "(n + 3) mod 4 < 4" by simp_all
  then have "n \<le> 4 * ((n + 3) div 4)" "4 * ((n + 3) div 4) \<le> n + 3" by linarith+
  then show "n + 12 \<le> alsize n" "alsize n \<le> n + 15" unfolding alsize_def by linarith+
  show "4 dvd alsize n" by (simp add: alsize_def)
qed

lemma BLK_ALSIZE_alsize:
  assumes "unat n + 27 < 2 ^ 32"
  shows "BLK_ALSIZE n = word_of_nat (alsize (unat n))"
proof -
  have m: "(3 :: u32) = mask 2" by (simp add: mask_eq_exp_minus_1)
  have u: "unat (n + 3) = unat n + 3" using assms by (simp add: unat_word_ariths)
  have "(n + 3) AND NOT 3 = push_bit 2 (drop_bit 2 (n + 3))"
  proof -
    have s: "2 \<le> i \<Longrightarrow> Suc (Suc (i - 2)) = i" for i by simp
    show ?thesis unfolding m by (rule bit_eqI) (auto simp: bit_simps s not_less)
  qed
  also have "drop_bit 2 (n + 3) = word_of_nat ((unat n + 3) div 4)"
  proof -
    have "unat (drop_bit 2 (n + 3)) = (unat n + 3) div 4" 
      by (simp only: unat_drop_bit_eq u) (simp add: drop_bit_eq_div)
    moreover have "word_of_nat (unat (drop_bit 2 (n + 3))) = drop_bit 2 (n + 3)" by (simp del: unat_drop_bit_eq)
    ultimately show ?thesis by metis
  qed
  finally show ?thesis by (simp add: BLK_ALSIZE_def alsize_def push_bit_eq_mult)
qed

subsection \<open>No two free neighbours\<close>

primrec coalesced :: "bool \<Rightarrow> block list \<Rightarrow> bool" where
  "coalesced f [] = True" |
  "coalesced f (x # bs) = (\<not> (f \<and> fst x) \<and> coalesced (fst x) bs)"

lemma coalesced_weaken: "coalesced f bs \<Longrightarrow> coalesced False bs"
  by (cases bs) simp_all

lemma coalesced_join: "coalesced False (join_free bs)"
  by (induction bs rule: join_free.induct) simp_all

lemma coalesced_fit: "coalesced f bs \<Longrightarrow> first_fit b n bs = Some (p, bs') \<Longrightarrow> coalesced f bs'"
proof (induction bs arbitrary: b f bs')
  case (Cons x bs)
  then show ?case by (cases x) (auto dest: coalesced_weaken split: if_splits)
qed simp

lemma all_free_one_block:
  assumes "tiled a w b bs e" "regions b bs = []" "coalesced False bs" "b < e"
  shows "bs = [(True, e - b)]"
proof (cases bs)
  case Nil
  then show ?thesis using assms(1,4) by simp
next
  case (Cons x bs')
  then have x: "fst x" "coalesced True bs'" "regions (b + snd x) bs' = []" "tiled a w (b + snd x) bs' e"
    using assms(1-3) by (auto split: if_splits)
  then have "bs' = []" by (cases bs') (auto split: if_splits)
  then show ?thesis using x Cons by (cases x) auto
qed

subsection \<open>A heap in use\<close>

text \<open>The states a heap can reach: the client allocates, writes into what it has, and frees what it has. The
  set holds the live pointers with the lengths that may be used, the requested ones rounded up to whole words.\<close>

inductive heap_reach :: "nat \<Rightarrow> u32 \<Rightarrow> wmem \<Rightarrow> (nat \<times> nat) set \<Rightarrow> bool" for a n where
  init: "heap_reach a n (qinit a n w) {}"
| alloc: "heap_reach a n w L \<Longrightarrow> unat sz + 27 < 2 ^ 32 \<Longrightarrow> qalloc a sz w = Some (p, w') \<Longrightarrow>
    heap_reach a n w' (if p = 0 then L else insert (p, alsize (unat sz) - 12) L)"
| client: "heap_reach a n w L \<Longrightarrow> r \<in> L \<Longrightarrow> in_region x r \<Longrightarrow> heap_reach a n (w(x := v)) L"
| free: "heap_reach a n w L \<Longrightarrow> (p, l) \<in> L \<Longrightarrow> qfree a p w = Some w' \<Longrightarrow> heap_reach a n w' (L - {(p, l)})"

lemma init_ok:
  assumes "4 dvd unat n" "16 \<le> unat n" "a + unat n < 2 ^ 32"
  shows "arena_ok a (qinit a n w) [(True, unat n - 4)]" "qinit a n w a = n"
proof -
  have d: "n - 4 = word_of_nat (unat n - 4)"
    using assms(2) by (simp add: of_nat_diff)
  have dv: "4 dvd unat n - 4" using assms(1) by simp
  show n: "qinit a n w a = n"
    by (simp add: qinit_def BLK_FREE_def cookie_unset_def block_fields SIZEOF_QARENA_def Let_def)
  have "block_at a (qinit a n w) (a + 4) (True, unat n - 4)"
    using dv assms(2) set_clear_flag(1) [OF dv, of False]
    by (simp add: block_at_def qinit_def BLK_FREE_def cookie_unset_def block_fields SIZEOF_QARENA_def SZFLAG_FFREE_def d Let_def
        del: of_nat_diff of_nat_add)
  then show "arena_ok a (qinit a n w) [(True, unat n - 4)]"
    using assms(2,3) n by (simp add: arena_ok_def)
qed

lemma alloc_steps:
  assumes "arena_ok a w bs" "unat sz + 27 < 2 ^ 32" "sz \<noteq> 0"
  shows "case first_fit (a + 4) (alsize (unat sz)) bs of
      None \<Rightarrow> qalloc a sz w = Some (0, w)
    | Some (p, bs') \<Rightarrow> \<exists>w'. qalloc a sz w = Some (p + 12, w') \<and> arena_ok a w' bs' \<and> w' a = w a
        \<and> set (regions (a + 4) bs') = insert (p + 12, alsize (unat sz) - 12) (set (regions (a + 4) bs))
        \<and> (\<forall>r \<in> set (regions (a + 4) bs). \<forall>x. in_region x r \<longrightarrow> w' x = w x)"
proof -
  let ?n = "alsize (unat sz)"
  have t: "tiled a w (a + 4) bs (a + unat (w a))" "a + unat (w a) < 2 ^ 32" using assms(1) by (simp_all add: arena_ok_def)
  have n: "4 dvd ?n" "12 \<le> ?n" "?n + 12 < 2 ^ 32" using alsize [of "unat sz"] assms(2) by simp_all
  have q: "qalloc a sz w = qalloc_loop a (a + unat (w a)) (word_of_nat ?n) w (a + 4)"
    using assms(3) BLK_ALSIZE_alsize [OF assms(2)] by (simp add: qalloc_def SIZEOF_QARENA_def)
  show ?thesis
  proof (cases "first_fit (a + 4) ?n bs")
    case None
    then show ?thesis using alloc_loop [OF t(1) _ t(2) n] q by simp
  next
    case (Some pb)
    obtain p bs' where pb: "pb = (p, bs')" by (cases pb)
    obtain w' where w': "qalloc_loop a (a + unat (w a)) (word_of_nat ?n) w (a + 4) = Some (p + 12, w')"
      "tiled a w' (a + 4) bs' (a + unat (w a))" "a + 4 \<le> p" "\<forall>x. x < p \<or> p + ?n + 12 \<le> x \<longrightarrow> w' x = w x"
      using alloc_loop [OF t(1) _ t(2) n] Some pb by auto
    have a: "w' a = w a" using w'(3,4) by simp
    note fr = first_fit_regions [OF t(1) Some [unfolded pb] n(2)]
    have data: "\<forall>r \<in> set (regions (a + 4) bs). \<forall>x. in_region x r \<longrightarrow> w' x = w x" using w'(4) fr(2) by blast
    have "qalloc a sz w = Some (p + 12, w')" "arena_ok a w' bs'" using w'(1,2) a t(2) q by (simp_all add: arena_ok_def)
    then show ?thesis using a data fr(1) unfolding Some pb by auto
  qed
qed

lemma heap_inv:
  assumes "4 dvd unat n" "16 \<le> unat n" "a + unat n < 2 ^ 32" "heap_reach a n w L"
  shows "\<exists>bs. arena_ok a w bs \<and> w a = n \<and> set (regions (a + 4) bs) = L \<and> coalesced False bs"
  using assms(4)
proof (induction rule: heap_reach.induct)
  case (init w)
  then show ?case using init_ok [OF assms(1-3), of w] by (intro exI [of _ "[(True, unat n - 4)]"]) simp
next
  case (alloc w L sz p w')
  then obtain bs where bs: "arena_ok a w bs" "w a = n" "set (regions (a + 4) bs) = L" "coalesced False bs" by blast
  show ?case
  proof (cases "sz = 0")
    case True
    then show ?thesis using alloc.hyps(3) bs by (auto simp: qalloc_def)
  next
    case False
    then show ?thesis
      using alloc_steps [OF bs(1) alloc.hyps(2) False] alloc.hyps(3) bs
      by (auto split: option.splits dest: coalesced_fit)
  qed
next
  case (client w L r x v)
  then obtain bs where bs: "arena_ok a w bs" "w a = n" "set (regions (a + 4) bs) = L" "coalesced False bs" by blast
  have t: "tiled a w (a + 4) bs (a + unat n)" using bs(1,2) by (simp add: arena_ok_def)
  have h: "h + i \<noteq> x" if "h \<in> set (heads (a + 4) bs)" "i < 12" for h i
    using head_not_in_region [OF t that(1) _ that(2), of r] client.hyps(2,3) bs(3) by auto
  have "tiled a (w(x := v)) b bs' e" if "tiled a w b bs' e" "set (heads b bs') \<subseteq> set (heads (a + 4) bs)" for b bs' e
    using that
  proof (induction bs' arbitrary: b)
    case (Cons y ys)
    then have "b \<in> set (heads (a + 4) bs)" by simp
    from h [OF this, of 0] h [OF this, of 4] h [OF this, of 8] have "b \<noteq> x" "b + 4 \<noteq> x" "b + 8 \<noteq> x" by simp_all
    then show ?case using Cons by (simp add: block_at_def block_fields)
  qed simp
  then have "tiled a (w(x := v)) (a + 4) bs (a + unat n)" using t by simp
  moreover have "x \<noteq> a" using regions_bounds [OF t] client.hyps(2,3) bs(3) by (fastforce simp: in_region_def)
  moreover have "a + unat n < 2 ^ 32" using bs(1,2) by (simp add: arena_ok_def)
  ultimately have "arena_ok a (w(x := v)) bs" "(w(x := v)) a = n" using bs(2) by (simp_all add: arena_ok_def)
  then show ?case using bs(3,4) by blast
next
  case (free w L p l w')
  then obtain bs where bs: "arena_ok a w bs" "w a = n" "set (regions (a + 4) bs) = L" "coalesced False bs" by blast
  then show ?case
    using free_steps [OF bs(1), of p l] free.hyps(2,3) coalesced_join by fastforce
qed

subsection \<open>The firmware's heaps\<close>

text \<open>Heaps that do not overlap, in the order of the list.\<close>

definition heaps_apart :: "mem_heap list \<Rightarrow> bool" where
  "heaps_apart hps \<longleftrightarrow> (\<forall>i < length hps. \<forall>j < length hps. i \<noteq> j \<longrightarrow>
     heap_start (hps ! i) + unat (heap_size (hps ! i)) \<le> heap_start (hps ! j) \<or>
     heap_start (hps ! j) + unat (heap_size (hps ! j)) \<le> heap_start (hps ! i))"

lemma heap_for_pointer_inside:
  assumes "heaps_apart hps" "i < length hps" "heap_start (hps ! i) < p" "p < heap_start (hps ! i) + unat (heap_size (hps ! i))"
  shows "heap_for_pointer hps p = Some i"
  using assms
proof (induction hps arbitrary: i)
  case (Cons hp hps)
  show ?case
  proof (cases i)
    case 0
    then show ?thesis using Cons.prems by simp
  next
    case (Suc j)
    have "heap_start hp + unat (heap_size hp) \<le> heap_start (hps ! j) \<or> heap_start (hps ! j) + unat (heap_size (hps ! j)) \<le> heap_start hp"
      using Cons.prems(1,2) Suc unfolding heaps_apart_def by fastforce
    then have "\<not> (p \<ge> heap_start hp \<and> p \<le> heap_start hp + unat (heap_size hp))"
      using Cons.prems(3,4) Suc by auto
    moreover have "heaps_apart hps"
      unfolding heaps_apart_def
    proof (intro allI impI)
      fix k l assume "k < length hps" "l < length hps" "k \<noteq> l"
      then show "heap_start (hps ! k) + unat (heap_size (hps ! k)) \<le> heap_start (hps ! l) \<or>
        heap_start (hps ! l) + unat (heap_size (hps ! l)) \<le> heap_start (hps ! k)"
        using Cons.prems(1) [unfolded heaps_apart_def, rule_format, of "Suc k" "Suc l"] by simp
    qed
    ultimately show ?thesis using Cons.IH [of j] Cons.prems Suc by simp
  qed
qed simp

subsection \<open>The properties\<close>

text \<open>C24: the allocator refines first fit on the list of blocks. On an arena with blocks \<open>bs\<close>, \<open>qalloc\<close> returns the null
  pointer and changes nothing exactly when no free block fits; otherwise it returns the payload of the first that does, at least as long as requested, the
  blocks are then those of \<open>first_fit\<close>, the live pointers are the old ones and the new one, and no live data has changed.\<close>

theorem qalloc_refines_first_fit:
  assumes "arena_ok a w bs" "unat sz + 27 < 2 ^ 32" "sz \<noteq> 0"
  shows "case first_fit (a + 4) (alsize (unat sz)) bs of
      None \<Rightarrow> qalloc a sz w = Some (0, w)
    | Some (p, bs') \<Rightarrow> \<exists>w'. qalloc a sz w = Some (p + 12, w') \<and> arena_ok a w' bs' \<and> w' a = w a \<and> unat sz \<le> alsize (unat sz) - 12
        \<and> set (regions (a + 4) bs') = insert (p + 12, alsize (unat sz) - 12) (set (regions (a + 4) bs))
        \<and> (\<forall>r \<in> set (regions (a + 4) bs). \<forall>x. in_region x r \<longrightarrow> w' x = w x)"
  using alloc_steps [OF assms] alsize(2) [of "unat sz"] by (auto split: option.splits)

lemma ex_arena: "arena_ok 0x100 (qinit 0x100 64 (\<lambda>_. 0)) [(True, 60)]" "qinit 0x100 64 (\<lambda>_. 0) 0x100 = 64"
  using init_ok [of 64 "0x100" "\<lambda>_. 0"] by simp_all

theorem qalloc_refines_first_fit_witness:
  "\<exists>w'. qalloc 0x100 6 (qinit 0x100 64 (\<lambda>_. 0)) = Some (0x110, w') \<and> arena_ok 0x100 w' [(False, 20), (True, 40)]"
  using qalloc_refines_first_fit [OF ex_arena(1), of 6] by (auto simp: alsize_def)

text \<open>C6: a heap is safe for any client that stays within its allocations. In every state that allocations, writes into
  live blocks and frees of live pointers lead to, the live blocks lie in the arena behind its header and do not overlap, allocating never panics,
  and every live pointer can be freed, which leaves the data of all others as it is; freeing it a second time panics.\<close>

theorem heap_safe:
  assumes "4 dvd unat n" "16 \<le> unat n" "a + unat n < 2 ^ 32" "heap_reach a n w L"
  shows "(\<forall>r \<in> L. a + 16 \<le> fst r \<and> fst r + snd r \<le> a + unat n)
    \<and> (\<forall>r \<in> L. \<forall>r' \<in> L. \<forall>x. in_region x r \<and> in_region x r' \<longrightarrow> r = r')
    \<and> (\<forall>sz. unat sz + 27 < 2 ^ 32 \<longrightarrow> (\<exists>p w'. qalloc a sz w = Some (p, w')))
    \<and> (\<forall>p l. (p, l) \<in> L \<longrightarrow> (\<exists>w'. qfree a p w = Some w' \<and> qfree a p w' = None
         \<and> (\<forall>r \<in> L - {(p, l)}. \<forall>x. in_region x r \<longrightarrow> w' x = w x)))"
proof -
  obtain bs where bs: "arena_ok a w bs" "w a = n" "set (regions (a + 4) bs) = L" using heap_inv [OF assms] by blast
  then have t: "tiled a w (a + 4) bs (a + unat n)" by (simp add: arena_ok_def)
  have "\<forall>r \<in> L. a + 16 \<le> fst r \<and> fst r + snd r \<le> a + unat n" using regions_bounds [OF t] bs(3) by fastforce
  moreover have "\<forall>r \<in> L. \<forall>r' \<in> L. \<forall>x. in_region x r \<and> in_region x r' \<longrightarrow> r = r'"
    using regions_disjoint [OF t] bs(3) by blast
  moreover have "\<exists>p w'. qalloc a sz w = Some (p, w')" if "unat sz + 27 < 2 ^ 32" for sz
    using alloc_steps [OF bs(1) that] by (cases "sz = 0") (auto simp: qalloc_def split: option.splits)
  moreover have "\<exists>w'. qfree a p w = Some w' \<and> qfree a p w' = None \<and> (\<forall>r \<in> L - {(p, l)}. \<forall>x. in_region x r \<longrightarrow> w' x = w x)"
    if "(p, l) \<in> L" for p l
  proof -
    have p: "p \<noteq> 0" using regions_bounds [OF t] that bs(3) by fastforce
    have m: "(p, l) \<in> set (regions (a + 4) bs)" using that bs(3) by simp
    obtain w' where "qfree a p w = Some w'" "\<forall>r \<in> L - {(p, l)}. \<forall>x. in_region x r \<longrightarrow> w' x = w x"
      "qcheck a w' (p - 12) = Some ()" "BLK_ISFREE w' (p - 12)"
      using free_steps [OF bs(1) m] bs(3) by auto
    then show ?thesis using p by (auto simp: qfree_def BLK_FROMPAYLOAD_def SIZEOF_QBLOCK_def)
  qed
  ultimately show ?thesis by blast
qed

theorem heap_safe_witness:
  "\<exists>p w. qalloc 0x100 6 (qinit 0x100 64 (\<lambda>_. 0)) = Some (p, w) \<and> (\<exists>w'. qfree 0x100 p w = Some w' \<and> qfree 0x100 p w' = None)"
proof -
  have "alsize 6 = 20" by (simp add: alsize_def)
  then obtain w where w: "qalloc 0x100 6 (qinit 0x100 64 (\<lambda>_. 0)) = Some (0x110, w)"
    using alloc_steps [OF ex_arena(1), of 6] by auto
  have "heap_reach 0x100 64 w {(0x110, 8)}"
    using heap_reach.alloc [OF heap_reach.init _ w] \<open>alsize 6 = 20\<close> by simp
  from heap_safe [OF _ _ _ this] w show ?thesis by auto
qed

text \<open>C30: a heap gives back what it took. However its client used it, once nothing is allocated any more the whole arena is one
  free block again, and a request that fits an empty heap is served at its start.\<close>

theorem heap_reclaimed:
  assumes "4 dvd unat n" "16 \<le> unat n" "a + unat n < 2 ^ 32" "heap_reach a n w {}"
    and "sz \<noteq> 0" "alsize (unat sz) + 16 \<le> unat n"
  shows "arena_ok a w [(True, unat n - 4)] \<and> (\<exists>w'. qalloc a sz w = Some (a + 16, w'))"
proof -
  obtain bs where bs: "arena_ok a w bs" "w a = n" "regions (a + 4) bs = []" "coalesced False bs"
    using heap_inv [OF assms(1-4)] by auto
  then have "bs = [(True, unat n - 4)]"
    using all_free_one_block [of a w "a + 4" bs "a + unat n"] assms(2) by (simp add: arena_ok_def)
  moreover have "unat sz + 27 < 2 ^ 32" using alsize(2) [of "unat sz"] assms(3,6) by linarith
  ultimately show ?thesis
    using alloc_steps [OF bs(1) _ assms(5)] bs(1) assms(6) by (auto split: if_splits)
qed

theorem heap_reclaimed_witness:
  "\<exists>w'. qalloc 0x100 40 (qinit 0x100 128 (\<lambda>_. 0)) = Some (0x110, w')"
  using heap_reclaimed [OF _ _ _ heap_reach.init, of 128 "0x100" 40 "\<lambda>_. 0"] by (simp add: alsize_def)

subsection \<open>Where the code falls short\<close>

text \<open>A request near the top of the address space wraps around and is served with a block that has no payload.\<close>

lemma huge_request_served: "\<exists>w'. qalloc 0x100 0xFFFFFFFD (qinit 0x100 64 (\<lambda>_. 0)) = Some (0x110, w')"
proof -
  have z: "BLK_ALSIZE 0xFFFFFFFD = word_of_nat 12" by code_simp
  have "tiled 0x100 (qinit 0x100 64 (\<lambda>_. 0)) 0x104 [(True, 60)] (0x100 + unat (qinit 0x100 64 (\<lambda>_. 0) 0x100))"
    using ex_arena(1) by (simp add: arena_ok_def)
  from alloc_loop [OF this, of 12] show ?thesis
    using ex_arena(2) by (auto simp: qalloc_def z SIZEOF_QARENA_def)
qed

text \<open>Growing a block takes the next one without asking whether it is free: here a live block's data is overwritten.\<close>

lemma realloc_overwrites_live_data:
  assumes "arena_ok a w [(False, 16), (False, 32), (True, m)]"
  shows "(a + 32, 20) \<in> set (regions (a + 4) [(False, 16), (False, 32), (True, m)]) \<and> in_region (a + 32) (a + 32, 20)
    \<and> (\<exists>w'. qrealloc a (a + 16) 12 w = Some (a + 16, w') \<and> w' (a + 32) = 25)"
proof -
  have b: "block_at a w (a + 4) (False, 16)" "block_at a w (a + 20) (False, 32)"
    using assms by (simp_all add: arena_ok_def add.commute)
  have "BLK_SZ w (a + 4) = 16" "BLK_NEXT w (a + 4) = a + 20" "BLK_SZ w (a + 20) = 32"
    using block_at_size [OF b(1)] block_at_size [OF b(2)] by simp_all
  then have z': "BLK_SZ w (4 + a) = 16" "BLK_NEXT w (4 + a) = 20 + a" "BLK_SZ w (20 + a) = 32" by (simp_all add: add.commute)
  have al: "BLK_ALSIZE 12 = 24" by (simp add: BLK_ALSIZE_def)
  show ?thesis
    by (simp add: z' in_region_def qrealloc_def al BLK_FROMPAYLOAD_def BLK_PAYLOAD_def SIZEOF_QBLOCK_def qsplit_def BLK_FREE_def
        cookie_unset_def block_fields SZFLAG_FFREE_def Let_def)
qed

end
