(* ===== verification/Spec2Isabelle.thy ===== *)
theory Spec2Isabelle
  imports CivilTime TimeZone EventService TickTimer Layers PutBytes FsCreat Prelude Crc Flash FsHdr FsFile FsAlloc Rdb RdbLaws RdbUpdate Persist Minilib Fmt NodeList Timers Dictionary Buttons Transport Qalloc
begin

text \<open>
  RebbleOS is a replacement firmware for the Pebble smartwatches. This library models the parts of it that keep state and data of
  their own: the flash file system, the record database in it and its clients, the link to the phone and the transfer of files over
  it, heap, timers, buttons, events, the clock, and the C library underneath. Paths below are relative to \<^verbatim>\<open>src/\<close>.

  \<^bold>\<open>How the parts fit together.\<close> Bytes from the phone are collected and cut into packets (\<open>Transport\<close>), which go to the handler of their
  endpoint; the one for bulk transfers (\<open>PutBytes\<close>) writes files. Files live in PebbleFS (\<open>FsFile\<close>, \<open>FsAlloc\<close>, \<open>FsCreat\<close>) on a NOR flash
  (\<open>Flash\<close>). Some of them are databases (\<open>Rdb\<close>), of which the preferences and the storage of apps (\<open>Persist\<close>) are clients; the time zone
  (\<open>TimeZone\<close>) is read from a file and kept in the preferences. The tick service (\<open>TickTimer\<close>) combines the zone, the calendar (\<open>CivilTime\<close>)
  and the queue of timers (\<open>Timers\<close>). Results of a database query and subscriptions to events (\<open>EventService\<close>) hang on the same doubly
  linked list (\<open>NodeList\<close>).

  \<^bold>\<open>Conventions\<close> (\<open>Prelude\<close>). A definition has the name of the C function, without a leading underscore. A machine integer is a word where it may
  wrap around, a natural number or integer where it is only counted with; a pointer is an address, 0 is \<open>NULL\<close>; static variables are records
  that are passed along. \<open>None\<close> is a call that does not return: a failed \<open>assert\<close>, a panic, an access outside what the model
  knows to be there, or an endless loop. Error codes are ordinary values. A loop whose end depends on data is a \<open>partial_function (option)\<close>: there
  is no fuel in the library, and a statement that a call ends is that its value is \<open>Some\<close>. Memory that may fail to be allocated is a
  parameter that answers for every request; \<open>heap_room\<close> is the heap of rcore/rebble_memory.c as long as it has room, which still gives
  \<open>NULL\<close> for no bytes. What an uninitialised local holds is a parameter too, of every round of a loop where the C code declares it there.

  \<^bold>\<open>Storage.\<close>
  \<^item> \<open>Crc\<close>: rcore/fs_crc.c. The table-driven CRC-32 is the bitwise one and the table is the one its generator makes; the CRC-8 of page headers.
  \<^item> \<open>Flash\<close>: rcore/flash.c over a record \<open>plat\<close> of platform functions and constants, and the driver
    hw/platform/snowy_family/snowy_ext_flash.c over a chip. Reads and writes of any length and alignment are those of a byte memory in which writing
    clears bits. The locale \<open>nor_platform\<close> states what the upper layers rely on; the driver over an ideal chip is its interpretation \<open>snowy\<close>.
  \<^item> \<open>FsHdr\<close>, \<open>FsFile\<close>, \<open>FsAlloc\<close>, \<open>FsCreat\<close>: rcore/fs.c, fs.h, fs_internal.h. Page and file headers and their byte images; reading, writing and
    seeking in an open file, which follow the chain of its pages; the table of page states, allocation with wear levelling and
    collection of dirty pages, the directory, creation, deletion and replacement of files. The lemmas read a file as one list of bytes: what is written
    is read back, allocation keeps its invariant, a new file is found and the old ones stay. The locale \<open>fs_platform\<close> extends \<open>nor_platform\<close> by the
    layout of the file system, its interpretation is \<open>snowy_fs\<close>.
  \<^item> \<open>Rdb\<close>, \<open>RdbLaws\<close>, \<open>RdbUpdate\<close>: rcore/rdb.c. A database file is read as a list of records (\<open>rdb_walk\<close>); insertion appends one, deletion
    removes one, a selection returns those that match. An insertion is written over an interface \<open>rdb_io\<close> to the file system, so that the same
    definition runs on it directly (\<open>rdb_insert\<close>) and with a log of its writes (\<open>rdb_logged\<close>); cut off before or inside any of them
    (\<open>cut_off\<close>) it leaves the old records, or the bytes of the finished insertion. On top of that a
    database is a finite map (\<open>rdb_view\<close>), and the operations satisfy the laws of a key-value store, the locale \<open>kv_store\<close>, interpreted as \<open>snowy_rdb\<close>.
  \<^item> \<open>Persist\<close>: rwatch/storage/storage_persist.c and rcore/prefs.c over those laws, with the lock of the database and the composite keys of apps.
  \<^item> \<open>PutBytes\<close>: rcore/protocol/protocol_transfer.c. The transaction of a transfer as a state machine (\<open>xfer_step\<close>) with its invariant, and whole
    transfers: the file found afterwards has the bytes that were sent.

  \<^bold>\<open>Communication and events.\<close>
  \<^item> \<open>Transport\<close>: rcore/protocol/protocol.c, rcore/service/protocol_service.c, rcore/ppogatt.c, rcore/bluetooth.c. The receive buffer and the loop that
    delivers packets, sending in pieces and PPoGATT sequence numbers. Packets survive every fragmentation that is in time, and the loop ends unless
    the header that an empty packet leaves uninitialised holds one bad length.
  \<^item> \<open>EventService\<close>: rwatch/event/event_service.c, connection_service.c, battery_state_service.c. Refinement of a list of subscriptions, and the life of
    the data of an event while the app thread and the overlay thread visit the subscribers interleaved (\<open>bus_step\<close>).
  \<^item> \<open>Buttons\<close>: rcore/buttons.c. One scan of a button with its debouncing, clicks, long clicks and repeats; without repeats a press is one or the other.
  \<^item> \<open>Timers\<close>: rcore/appmanager_app_timer.c and rwatch/event/app_timer.c. A sorted queue and the timers of the application in it, as a reachability
    relation (\<open>timer_reach\<close>) with its invariant.
  \<^item> \<open>TickTimer\<close>: rwatch/event/tick_timer_service.c. When the next tick is, in zones whose offsets differ by whole units.
  \<^item> \<open>Layers\<close>: rwatch/ui/layer/layer.c. The tree of layers of a window against lists of trees (\<open>forest\<close>): drawing in preorder, adding, removing
    and freeing.
  \<^item> \<open>Dictionary\<close>: rwatch/storage/dictionary.c. The tuples of the messages of apps over a byte memory.

  \<^bold>\<open>Time.\<close>
  \<^item> \<open>CivilTime\<close>: lib/musl/time. Seconds and broken-down time are inverse to each other, within the years of an \<open>int\<close>.
  \<^item> \<open>TimeZone\<close>: rcore/tz.c, rcore/rebble_time.c and lib/musl/time. Rules of daylight saving time against the calendar, the search in the
    zone database, and the clock that counts ticks.

  \<^bold>\<open>Base.\<close>
  \<^item> \<open>NodeList\<close>: rcore/node_list.h. Pointer updates of a circular list refine those of a list; the locale \<open>linked_seq\<close> is what clients use, interpreted as
    \<open>heap_list\<close>.
  \<^item> \<open>Qalloc\<close>: lib/minilib/qalloc.c, rcore/rebble_memory.c. The heap refines first-fit allocation of regions; over all reachable heaps
    (\<open>heap_reach\<close>) blocks are disjoint and freeing everything gives one block again.
  \<^item> \<open>Minilib\<close>, \<open>Fmt\<close>: lib/minilib/minilib.c, fmt.c, unfmt.c. Memory and string routines, formatted output and input.

  \<^bold>\<open>What goes wrong.\<close> The last section of many theories proves defects that modelling brought up, among them: a selection by inequality
  that selects what is equal, growth of a heap block into a live neighbour, stored values of no bytes that read as absent, the database of the storage of apps left locked by a failed deletion, zones
  without daylight saving time that are off in the wrong direction, events whose data is freed again for every subscriber, siblings lost with a removed layer, and
  a callback that may not unsubscribe.

  \<^bold>\<open>Not modelled.\<close> Code that is not in the repository, or vendored in it: FreeRTOS (its queues appear as lists with a capacity, its tick
  counter as an argument), the Bluetooth stack, the graphics library, the register libraries of the chips, the PNG decoder. Drivers and
  platform tables apart from the flash driver, as their effect is on hardware. Threads: each operation runs on its own, apart from the triggers of
  \<open>EventService\<close>, with the mutexes around it left out, except the locks that a caller can observe (those of the databases and of bulk transfers). The application
  manager, which loads and relocates machine code. Windows, menus, animations and overlays, most of whose effect is
  drawing through the graphics library. The handlers of the smaller endpoints, which pass packets on to services, and the
  resource, vibration and logging services. The battery of tests and the applications.
\<close>

end
